(* ===== verification/Prelude.thy ===== *)
theory Prelude
  imports Main "HOL-Library.Word" "HOL-Library.Log_Nat" "HOL-Library.Monad_Syntax"
begin

text \<open>
  Shared vocabulary of the development.  Machine words are 64 bits wide; a Rust
  \<open>usize\<close> or a raw pointer is a \<open>64 word\<close> where bits or wrap-around matter, and a
  natural number where the code only counts.  The theory names these types, gives the
  integer operations of the Rust standard library the sources use
  (\<open>is_power_of_two\<close>, \<open>next_power_of_two\<close>, \<open>trailing_zeros\<close>,
  \<open>Layout::from_size_align\<close>, \<open>Layout::padding_needed_for\<close>), and proves the facts on
  alignment, address ranges and loops all components share.
\<close>

unbundle bit_operations_syntax

type_synonym usize = "64 word"
type_synonym ptr = "64 word"
type_synonym 'n heap = "ptr \<Rightarrow> 'n option"

abbreviation null :: ptr where
  "null \<equiv> 0"

named_theorems addr_simps \<open>address arithmetic without wrap-around\<close>
named_theorems align_simps \<open>powers of two, padding and alignment\<close>

subsection \<open>Integer operations of the standard library\<close>

definition is_power_of_two :: "nat \<Rightarrow> bool" where
  "is_power_of_two n \<longleftrightarrow> n = 2 ^ ceillog2 n"

definition next_power_of_two :: "nat \<Rightarrow> nat" where
  "next_power_of_two n = 2 ^ ceillog2 n"

fun trailing_zeros :: "nat \<Rightarrow> nat" where
  "trailing_zeros n =
     (if n = 0 then 64 else if even n then Suc (trailing_zeros (n div 2)) else 0)"

declare trailing_zeros.simps [simp del]

text \<open>Arithmetic on \<open>usize\<close> in a debug build: \<open>None\<close> is the panic on overflow.\<close>

definition sum_usize :: "nat \<Rightarrow> nat \<Rightarrow> nat option" where
  "sum_usize a b = (if a + b < 2 ^ 64 then Some (a + b) else None)"

definition sub_usize :: "nat \<Rightarrow> nat \<Rightarrow> nat option" where
  "sub_usize a b = (if b \<le> a then Some (a - b) else None)"

definition mul_usize :: "nat \<Rightarrow> nat \<Rightarrow> nat option" where
  "mul_usize a b = (if a * b < 2 ^ 64 then Some (a * b) else None)"

text \<open>\<open>Layout::padding_needed_for\<close> of a block of \<open>size\<close> bytes.\<close>

definition padding_needed_for :: "nat \<Rightarrow> nat \<Rightarrow> nat" where
  "padding_needed_for sz al = (al - sz mod al) mod al"

text \<open>\<open>alloc::allocator::Layout\<close>.\<close>

record layout =
  lay_size :: nat
  lay_align :: nat

text \<open>\<open>Layout::from_size_align\<close>: the alignment is a power of two that does not exceed
  \<open>2^31\<close>, and the size rounded up to it does not overflow.\<close>

definition layout_from_size_align :: "nat \<Rightarrow> nat \<Rightarrow> layout option" where
  "layout_from_size_align sz al =
     (if is_power_of_two al \<and> al \<le> 2 ^ 31 \<and> sz \<le> 2 ^ 64 - 1 - (al - 1)
      then Some \<lparr> lay_size = sz, lay_align = al \<rparr> else None)"

definition layout_ok :: "layout \<Rightarrow> bool" where
  "layout_ok l \<longleftrightarrow> is_power_of_two (lay_align l) \<and> lay_align l \<le> 2 ^ 31
     \<and> lay_size l + lay_align l \<le> 2 ^ 64"

lemma is_power_of_two_iff [align_simps]: "is_power_of_two n \<longleftrightarrow> (\<exists>k. n = 2 ^ k)"
  unfolding is_power_of_two_def by (metis ceillog2_2_power)

lemma is_power_of_two_pos: "is_power_of_two n \<Longrightarrow> 0 < n"
  by (auto simp: is_power_of_two_iff)

lemma is_power_of_two_power [simp]: "is_power_of_two (2 ^ k)"
  by (auto simp: is_power_of_two_iff)

lemma is_power_of_two_1 [simp]: "is_power_of_two (Suc 0)" "is_power_of_two 1"
  using is_power_of_two_power [of 0] by auto

lemma pow2_le_dvd:
  assumes "is_power_of_two a" "is_power_of_two b" "a \<le> b"
  shows "a dvd b"
  using assms by (auto simp: is_power_of_two_iff le_imp_power_dvd)

lemma next_power_of_two_pow2 [simp]: "is_power_of_two (next_power_of_two n)"
  by (simp add: next_power_of_two_def)

lemma next_power_of_two_ge: "n \<le> next_power_of_two n"
  unfolding next_power_of_two_def by (rule le_two_power_ceillog2)

lemma next_power_of_two_least:
  assumes "is_power_of_two m" "n \<le> m"
  shows "next_power_of_two n \<le> m"
proof -
  obtain k where m: "m = 2 ^ k"
    using assms(1) by (auto simp: is_power_of_two_iff)
  then have "ceillog2 n \<le> k"
    using assms(2) ceillog2_le_iff [of n k] by (cases "n = 0") auto
  then show ?thesis
    by (simp add: m next_power_of_two_def)
qed

lemma trailing_zeros_power [simp]: "trailing_zeros (2 ^ k) = k"
proof (induction k)
  case 0
  show ?case by (simp add: trailing_zeros.simps [of "Suc 0"])
next
  case (Suc k)
  then show ?case by (simp add: trailing_zeros.simps [of "2 * 2 ^ k"])
qed

lemma padding_needed_for_lt: "0 < al \<Longrightarrow> padding_needed_for sz al < al"
  by (simp add: padding_needed_for_def)

lemma padding_needed_for_dvd: "0 < al \<Longrightarrow> al dvd sz + padding_needed_for sz al"
proof -
  assume al: "0 < al"
  have "(sz + (al - sz mod al)) mod al = (sz mod al + (al - sz mod al)) mod al"
    by presburger
  also have "\<dots> = 0"
    using al by (simp add: less_imp_le_nat)
  finally show ?thesis
    unfolding padding_needed_for_def by (metis mod_0_imp_dvd mod_add_right_eq)
qed

lemma padding_needed_for_least:
  assumes "0 < al" "al dvd n" "sz \<le> n"
  shows "sz + padding_needed_for sz al \<le> n"
proof (rule ccontr)
  let ?m = "sz + padding_needed_for sz al"
  assume "\<not> ?m \<le> n"
  then have "?m - n < al" "0 < ?m - n"
    using assms(3) padding_needed_for_lt [OF assms(1), of sz] by linarith+
  moreover have "al dvd ?m - n"
    using padding_needed_for_dvd [OF assms(1)] assms(2) by (rule dvd_diff_nat)
  ultimately show False
    by (meson nat_dvd_not_less)
qed

lemma layout_from_size_align_Some:
  "layout_from_size_align s a = Some l \<Longrightarrow> layout_ok l \<and> lay_size l = s \<and> lay_align l = a"
  by (auto simp: layout_from_size_align_def layout_ok_def split: if_splits
      dest: is_power_of_two_pos)

subsection \<open>Address arithmetic\<close>

definition offset :: "ptr \<Rightarrow> nat \<Rightarrow> ptr" where
  "offset p n = p + of_nat n"

definition fits :: "ptr \<Rightarrow> nat \<Rightarrow> bool" where
  "fits p n \<longleftrightarrow> unat p + n \<le> 2 ^ 64"

text \<open>The bytes of the block of \<open>n\<close> bytes at \<open>p\<close>.\<close>

definition region :: "ptr \<Rightarrow> nat \<Rightarrow> nat set" where
  "region p n = {unat p ..< unat p + n}"

lemma unat_lt_64 [simp]: "unat (p :: 64 word) < 18446744073709551616"
  using unsigned_less [of p] by simp

lemma card_usize: "card (UNIV :: ptr set) = 2 ^ 64"
  by (simp add: card_word)

lemma unat_offset [addr_simps]: "unat p + n < 2 ^ 64 \<Longrightarrow> unat (offset p n) = unat p + n"
  unfolding offset_def by (simp add: unat_word_ariths unat_of_nat)

lemma offset_0 [simp]: "offset p 0 = p"
  by (simp add: offset_def)

lemma offset_offset [addr_simps]: "offset (offset p m) n = offset p (m + n)"
  by (simp add: offset_def)

lemma fits_mono: "fits p n \<Longrightarrow> m \<le> n \<Longrightarrow> fits p m"
  by (simp add: fits_def)

lemma unat_offset_fits [addr_simps]: "fits p n \<Longrightarrow> m < n \<Longrightarrow> unat (offset p m) = unat p + m"
  by (rule unat_offset) (simp add: fits_def)

lemma offset_inj:
  "fits p n \<Longrightarrow> i < n \<Longrightarrow> j < n \<Longrightarrow> offset p i = offset p j \<longleftrightarrow> i = j"
  by (metis add_left_cancel unat_offset_fits)

lemma offset_in_region: "fits p n \<Longrightarrow> i < n \<Longrightarrow> unat (offset p i) \<in> region p n"
  by (simp add: region_def unat_offset_fits)

lemma region_disjoint_offset:
  "region p n \<inter> region q m = {} \<Longrightarrow> fits p n \<Longrightarrow> fits q m \<Longrightarrow> i < n \<Longrightarrow> j < m
    \<Longrightarrow> offset p i \<noteq> offset q j"
  using offset_in_region by (metis IntI empty_iff)

subsection \<open>Rounding an address down to a power of two\<close>

lemma word_and_not_mask:
  fixes w :: "64 word"
  assumes "n \<le> 64"
  shows "unat (w AND NOT (of_nat (2 ^ n) - 1)) = 2 ^ n * (unat w div 2 ^ n)"
proof -
  have m: "of_nat (2 ^ n) - 1 = (mask n :: 64 word)"
    by (simp add: mask_eq_exp_minus_1)
  have "w AND NOT (mask n) = push_bit n (drop_bit n w)"
    by (rule bit_eqI) (auto simp: bit_simps)
  then have "w AND NOT (mask n) = w - take_bit n w"
    using bits_ident [of n w] by (simp add: algebra_simps)
  moreover have t: "unat (take_bit n w) = unat w mod 2 ^ n"
    by (simp only: unsigned_take_bit_eq) (simp only: take_bit_eq_mod)
  moreover have "take_bit n w \<le> w"
    by (simp add: word_le_nat_alt t)
  ultimately have "unat (w AND NOT (mask n)) = unat w - unat w mod 2 ^ n"
    by (simp add: unat_sub)
  then show ?thesis
    unfolding m by (simp add: minus_mod_eq_mult_div)
qed

lemma mask_in_block:
  assumes "n \<le> 64" "fits p S" "2 ^ n dvd unat p" "j < S"
  shows "offset p j AND NOT (of_nat (2 ^ n) - 1) = offset p (2 ^ n * (j div 2 ^ n))"
proof -
  obtain k where k: "unat p = 2 ^ n * k" using assms(3) by (rule dvdE)
  have "2 ^ n * (j div 2 ^ n) < S"
    using assms(4) by (simp add: le_less_trans [OF times_div_less_eq_dividend])
  then have "unat (offset p (2 ^ n * (j div 2 ^ n))) = unat p + 2 ^ n * (j div 2 ^ n)"
    by (rule unat_offset_fits [OF assms(2)])
  moreover have "2 ^ n * ((unat p + j) div 2 ^ n) = unat p + 2 ^ n * (j div 2 ^ n)"
    unfolding k by (simp add: algebra_simps)
  ultimately have "unat (offset p j AND NOT (of_nat (2 ^ n) - 1)) = unat (offset p (2 ^ n * (j div 2 ^ n)))"
    using unat_offset_fits [OF assms(2,4)] word_and_not_mask [OF assms(1), of "offset p j"] by simp
  then show ?thesis
    by (simp only: word_unat_eq_iff)
qed

end
