(* ===== verification/Sim_Os.thy ===== *)
theory Sim_Os
  imports Mmap_Alloc
begin

text \<open>
  An operating system that maps memory at ever higher addresses and meets \<open>os_contract\<close>.  It
  models no code of the repository; it shows that the hypotheses on the C library can be met,
  and the witnesses of the properties of \<open>mmap-alloc\<close> and its clients are stated over it.
\<close>

record sim =
  sim_next :: nat
  sim_set :: "nat set"
  sim_byte :: "nat \<Rightarrow> 8 word"

definition sim_mapped :: "sim \<Rightarrow> nat set" where
  "sim_mapped s = sim_set s \<inter> {..< sim_next s}"

definition sim_mmap :: "sim \<Rightarrow> ptr \<Rightarrow> nat \<Rightarrow> i32 \<Rightarrow> i32 \<Rightarrow> sim \<times> (i32 + ptr)" where
  "sim_mmap s hint n prot flags =
     (let a = 4096 * (sim_next s div 4096 + 1); k = round_up 4096 n
      in if a + k < 2 ^ 64
         then (\<lparr> sim_next = a + k, sim_set = sim_mapped s \<union> {a ..< a + k},
                 sim_byte = (\<lambda>x. if a \<le> x then 0 else sim_byte s x) \<rparr>, Inr (of_nat a))
         else (s, Inl 12))"

definition sim_munmap :: "sim \<Rightarrow> ptr \<Rightarrow> nat \<Rightarrow> sim \<times> bool" where
  "sim_munmap s p n = (s\<lparr> sim_set := sim_set s - pages 4096 p n \<rparr>, True)"

definition sim_mremap :: "sim \<Rightarrow> ptr \<Rightarrow> nat \<Rightarrow> nat \<Rightarrow> i32 \<Rightarrow> sim \<times> (i32 + ptr)" where
  "sim_mremap s p m n flags =
     (if flags = 0 then (s, Inl 12)
      else case sim_mmap s null n 0 0 of
        (s', Inl e) \<Rightarrow> (s, Inl 12)
      | (s', Inr q) \<Rightarrow>
          (s'\<lparr> sim_set := sim_set s' - pages 4096 p m,
               sim_byte := (\<lambda>x. if unat q \<le> x \<and> x < unat q + m then sim_byte s (unat p + (x - unat q)) else sim_byte s' x) \<rparr>,
           Inr q))"

definition sim_copy :: "sim \<Rightarrow> ptr \<Rightarrow> ptr \<Rightarrow> nat \<Rightarrow> sim" where
  "sim_copy s p q n = s\<lparr> sim_byte := (\<lambda>x. if x \<in> region q n then sim_byte s (unat p + (x - unat q)) else sim_byte s x) \<rparr>"

definition sim_os :: "sim os_ops" where
  "sim_os = \<lparr> c_PROT_NONE = 0, c_PROT_READ = 1, c_PROT_WRITE = 2, c_PROT_EXEC = 4, c_MAP_ANONYMOUS = 32,
     c_MAP_PRIVATE = 2, c_MAP_POPULATE = 32768, c_MREMAP_MAYMOVE = 1, c_MADV_DONTNEED = 4, c_ENOMEM = 12,
     os_pagesize = 4096, os_mmap = sim_mmap, os_munmap = sim_munmap, os_mremap = sim_mremap,
     os_mprotect = (\<lambda>s p n prot. (s, True)), os_madvise = (\<lambda>s p n a. s), os_copy = sim_copy \<rparr>"

definition sim_start :: sim where
  "sim_start = \<lparr> sim_next = 0, sim_set = {}, sim_byte = (\<lambda>_. 0) \<rparr>"

lemma sim_mmap_Inr:
  assumes "sim_mmap s h n prot flags = (s', Inr p)"
  shows "page_block 4096 p n" "pages 4096 p n \<inter> sim_mapped s = {}" "sim_mapped s' = sim_mapped s \<union> pages 4096 p n"
    "sim_set s' = sim_mapped s'" "sim_next s \<le> unat p" "sim_next s' = unat p + round_up 4096 n"
    "sim_byte s' x = (if unat p \<le> x then 0 else sim_byte s x)"
proof -
  define a where "a = 4096 * (sim_next s div 4096 + 1)"
  have lt: "a + round_up 4096 n < 2 ^ 64" and p: "p = of_nat a"
    and s': "s' = \<lparr> sim_next = a + round_up 4096 n, sim_set = sim_mapped s \<union> {a ..< a + round_up 4096 n},
                 sim_byte = (\<lambda>x. if a \<le> x then 0 else sim_byte s x) \<rparr>"
    using assms by (simp_all add: sim_mmap_def Let_def a_def split: if_splits)
  have ua: "unat p = a" using lt by (simp add: p unat_of_nat)
  have "0 < a" by (simp add: a_def)
  then have "p \<noteq> null" using ua by auto
  then show "page_block 4096 p n" using lt by (simp add: page_block_def ua fits_def a_def)
  have le: "sim_next s \<le> a" unfolding a_def using div_mult_mod_eq [of "sim_next s" 4096] mod_less_divisor [of 4096 "sim_next s"] by simp
  have sub: "sim_mapped s \<subseteq> {..< a}" using le by (auto simp: sim_mapped_def)
  have pg: "pages 4096 p n = {a ..< a + round_up 4096 n}" by (simp add: pages_def region_def ua)
  show "pages 4096 p n \<inter> sim_mapped s = {}" using sub by (auto simp: pg)
  have "sim_mapped s' = (sim_mapped s \<union> {a ..< a + round_up 4096 n}) \<inter> {..< a + round_up 4096 n}"
    by (simp add: sim_mapped_def [of s'], simp add: s')
  then show "sim_mapped s' = sim_mapped s \<union> pages 4096 p n" using sub by (auto simp: pg)
  then show "sim_set s' = sim_mapped s'" by (simp add: s' pg)
  show "sim_next s \<le> unat p" "sim_next s' = unat p + round_up 4096 n"
    "sim_byte s' x = (if unat p \<le> x then 0 else sim_byte s x)" using le by (simp_all add: ua s')
qed

lemma sim_mmap_Inl: "sim_mmap s h n prot flags = (s', Inl e) \<Longrightarrow> e = 12 \<and> s' = s"
  by (auto simp: sim_mmap_def Let_def split: if_splits)

lemma sim_below: "a \<in> sim_mapped s \<Longrightarrow> a < sim_next s"
  by (simp add: sim_mapped_def)

lemma sim_mmap_contract: "mmap_contract sim_os sim_mapped sim_byte"
  unfolding mmap_contract_def
proof (intro conjI allI impI)
  fix s s' :: sim and n :: nat and prot flags :: i32 and p
  assume "os_mmap sim_os s null n prot (c_MAP_ANONYMOUS sim_os OR c_MAP_PRIVATE sim_os OR flags) = (s', Inr p)"
  then have "sim_mmap s null n prot (c_MAP_ANONYMOUS sim_os OR c_MAP_PRIVATE sim_os OR flags) = (s', Inr p)"
    by (simp add: sim_os_def)
  note f = sim_mmap_Inr [OF this]
  show "page_block (os_pagesize sim_os) p n" "pages (os_pagesize sim_os) p n \<inter> sim_mapped s = {}"
      "sim_mapped s' = sim_mapped s \<union> pages (os_pagesize sim_os) p n"
    using f(1-3) by (simp_all add: sim_os_def)
  show "kept sim_byte s s' (sim_mapped s)"
    using f(5,7) sim_below by (fastforce simp: kept_def)
  show "\<forall>a \<in> pages (os_pagesize sim_os) p n. sim_byte s' a = 0"
    using f(7) by (simp add: pages_def region_def)
next
  fix s s' :: sim and n :: nat and prot flags e :: i32
  assume "os_mmap sim_os s null n prot (c_MAP_ANONYMOUS sim_os OR c_MAP_PRIVATE sim_os OR flags) = (s', Inl e)"
  then have "e = 12 \<and> s' = s" using sim_mmap_Inl by (simp add: sim_os_def)
  then show "e = c_ENOMEM sim_os" "sim_mapped s' = sim_mapped s" "kept sim_byte s s' (sim_mapped s)"
    by (simp_all add: sim_os_def kept_def)
qed

lemma sim_munmap_contract: "munmap_contract sim_os sim_mapped sim_byte"
  by (auto simp: munmap_contract_def sim_os_def sim_munmap_def sim_mapped_def kept_def)

lemma sim_mremap_Inr:
  assumes "sim_mremap s p m n flags = (s', Inr q)" "pages 4096 p m \<subseteq> sim_mapped s"
  shows "flags \<noteq> 0 \<and> page_block 4096 q n \<and> pages 4096 q n \<inter> (sim_mapped s - pages 4096 p m) = {}
    \<and> sim_mapped s' = sim_mapped s - pages 4096 p m \<union> pages 4096 q n
    \<and> kept sim_byte s s' (sim_mapped s - pages 4096 p m)
    \<and> (\<forall>i. i < m \<longrightarrow> i < n \<longrightarrow> sim_byte s' (unat q + i) = sim_byte s (unat p + i))"
proof -
  obtain t where t: "flags \<noteq> 0" "sim_mmap s null n 0 0 = (t, Inr q)"
    and s': "s' = t\<lparr> sim_set := sim_set t - pages 4096 p m,
        sim_byte := (\<lambda>x. if unat q \<le> x \<and> x < unat q + m then sim_byte s (unat p + (x - unat q)) else sim_byte t x) \<rparr>"
    using assms(1) by (auto simp: sim_mremap_def split: if_splits prod.splits sum.splits)
  note f = sim_mmap_Inr [OF t(2)]
  have "pages 4096 p m \<inter> pages 4096 q n = {}" using f(2) assms(2) by blast
  moreover have "sim_mapped s' = sim_mapped t - pages 4096 p m"
    using f(4) by (auto simp: s' sim_mapped_def)
  ultimately have "sim_mapped s' = sim_mapped s - pages 4096 p m \<union> pages 4096 q n" using f(3) by blast
  moreover have "kept sim_byte s s' (sim_mapped s - pages 4096 p m)"
    using f(5,7) sim_below by (fastforce simp: kept_def s')
  ultimately show ?thesis using f(1,2) t(1) by (auto simp: s')
qed

lemma sim_mremap_contract: "mremap_contract sim_os sim_mapped sim_byte"
  unfolding mremap_contract_def
proof (intro conjI allI impI)
  fix s s' :: sim and p q :: ptr and m n :: nat and flags :: i32
  assume a: "pages (os_pagesize sim_os) p m \<subseteq> sim_mapped s" "os_mremap sim_os s p m n flags = (s', Inr q)"
  then have "sim_mremap s p m n flags = (s', Inr q)" "pages 4096 p m \<subseteq> sim_mapped s" by (simp_all add: sim_os_def)
  note f = sim_mremap_Inr [OF this]
  show "page_block (os_pagesize sim_os) q n" "flags = 0 \<Longrightarrow> q = p"
      "pages (os_pagesize sim_os) q n \<inter> (sim_mapped s - pages (os_pagesize sim_os) p m) = {}"
      "sim_mapped s' = sim_mapped s - pages (os_pagesize sim_os) p m \<union> pages (os_pagesize sim_os) q n"
      "kept sim_byte s s' (sim_mapped s - pages (os_pagesize sim_os) p m)"
    using f by (simp_all add: sim_os_def)
  fix i assume "i < m" "i < n"
  then show "sim_byte s' (unat q + i) = sim_byte s (unat p + i)" using f by simp
next
  fix s s' :: sim and p :: ptr and m n :: nat and flags e :: i32
  assume "os_mremap sim_os s p m n flags = (s', Inl e)"
  then have "e = 12 \<and> s' = s"
    by (auto simp: sim_os_def sim_mremap_def dest: sim_mmap_Inl split: if_splits prod.splits sum.splits)
  then show "e = c_ENOMEM sim_os" "sim_mapped s' = sim_mapped s" "kept sim_byte s s' (sim_mapped s)"
    by (simp_all add: sim_os_def kept_def)
qed

lemma sim_copy_contract: "copy_contract sim_os sim_mapped sim_byte"
  by (auto simp: copy_contract_def sim_os_def sim_copy_def sim_mapped_def kept_def region_def)

lemma sim_contract: "os_contract sim_os sim_mapped sim_byte"
  using sim_mmap_contract sim_munmap_contract sim_mremap_contract is_power_of_two_power [of 12]
  by (simp add: os_contract_def sim_os_def)

definition sim_alloc :: map_alloc where
  "sim_alloc = \<lparr> ma_pagesize = 4096, ma_read = True, ma_write = True, ma_exec = False, ma_perms = 3,
     ma_commit = False, ma_obj_size = 4096 \<rparr>"

lemma sim_alloc_default: "map_alloc_default sim_os = Some sim_alloc"
  by (simp add: map_alloc_default_def builder_build_def builder_default_def sim_os_def sim_alloc_def get_perm_def)

lemma sim_mmap_os: "mmap_os sim_os sim_mapped sim_byte sim_alloc"
  using sim_contract by (simp add: mmap_os_def sim_alloc_def, simp add: sim_os_def)

lemma sim_mappable: "mappable 4096 \<lparr> lay_size = 100, lay_align = 8 \<rparr>" "mappable 4096 \<lparr> lay_size = 5000, lay_align = 8 \<rparr>"
  using is_power_of_two_power [of 3] by (simp_all add: mappable_def)

lemma sim_ma_alloc:
  assumes "mappable 4096 l" "sim_next s + lay_size l + 8192 < 2 ^ 64"
  shows "\<exists>s' p. ma_alloc sim_os sim_alloc s l = Some (s', Inr p) \<and> sim_next s' \<le> sim_next s + lay_size l + 8192"
proof -
  let ?n = "round_up 4096 (lay_size l)" let ?a = "4096 * (sim_next s div 4096 + 1)"
  have n: "?n < lay_size l + 4096" "round_up 4096 ?n = ?n"
    using round_up_bounds(2,3) [of 4096 "lay_size l"] by simp_all
  have a: "?a \<le> sim_next s + 4096" using div_mult_mod_eq [of "sim_next s" 4096] by simp
  have lt: "?a + round_up 4096 ?n < 2 ^ 64" unfolding n(2) using n(1) a assms(2) by linarith
  have "unat (of_nat a :: ptr) = a" if "a < 2 ^ 64" for a using that by (simp add: unat_of_nat)
  then have "unat (of_nat ?a :: ptr) = ?a" using lt by (metis add_lessD1)
  moreover have "0 < ?a" by simp
  ultimately have nz: "of_nat ?a \<noteq> null" by (metis less_irrefl unat_0)
  let ?s = "\<lparr> sim_next = ?a + ?n, sim_set = sim_mapped s \<union> {?a ..< ?a + ?n},
      sim_byte = (\<lambda>x. if ?a \<le> x then 0 else sim_byte s x) \<rparr>"
  have mm: "sim_mmap s h ?n prot flags = (?s, Inr (of_nat ?a))" for h prot flags
    unfolding sim_mmap_def Let_def n(2) using lt [unfolded n(2)] by (rule if_P)
  have os: "os_mmap sim_os = sim_mmap" by (simp add: sim_os_def)
  have mp: "map_pages sim_os s ?n 3 False = Some (?s, Some (of_nat ?a))"
    unfolding map_pages_def Let_def os mm using nz by simp
  have nm: "next_multiple (lay_size l) 4096 = Some ?n" by (rule next_multiple_mappable [OF _ assms(1)]) simp
  have "ma_alloc sim_os sim_alloc s l = Some (?s, Inr (of_nat ?a))"
    using assms(1) mp nm by (simp add: ma_alloc_def sim_alloc_def mappable_def)
  moreover have "sim_next ?s \<le> sim_next s + lay_size l + 8192" using n(1) a by simp
  ultimately show ?thesis by blast
qed

end
