(* ===== verification/Bs_Alloc.thy ===== *)
theory Bs_Alloc
  imports Mmap_Alloc "HOL-Library.Multiset"
begin

text \<open>
  The crate \<open>bsalloc\<close> (\<open>bsalloc/src/bsalloc.rs\<close>, \<open>bsalloc/src/lib.rs\<close>): two caches of blocks,
  each an array of atomic pointers that threads swap in and out, in front of a \<open>MapAlloc\<close>.
  The loops of \<open>Cache::alloc\<close> and \<open>Cache::free\<close> are given twice over the same swap: as the
  functions a single caller runs, and as a step relation in which the threads' swaps interleave.
  The random start of a loop (the address of a local variable, scaled) is an argument.  The
  theory shows that in every interleaving the blocks in the caches, in the hands of the clients
  and in flight are exactly the mapped memory, each once.
\<close>

subsection \<open>Caches\<close>

text \<open>\<open>Cache\<close>; \<open>CACHE_SIZE\<close> is the length of the array and \<open>PATIENCE\<close> a quarter of it.\<close>

record bs_cache =
  bc_object_size :: nat
  bc_layout :: layout
  bc_cache :: "ptr list"

definition bc_patience :: "nat \<Rightarrow> nat" where
  "bc_patience cache_size = drop_bit 2 cache_size"

definition bc_new :: "nat \<Rightarrow> nat \<Rightarrow> bs_cache option" where
  "bc_new cache_size obj_size = do {
     l \<leftarrow> layout_from_size_align obj_size 1;
     Some \<lparr> bc_object_size = obj_size, bc_layout = l, bc_cache = replicate cache_size null \<rparr> }"

text \<open>\<open>AtomicPtr::swap\<close> on slot \<open>i\<close>.\<close>

definition bc_swap :: "ptr list \<Rightarrow> nat \<Rightarrow> ptr \<Rightarrow> ptr list \<times> ptr" where
  "bc_swap c i p = (c[i := p], c ! i)"

fun take_loop :: "nat \<Rightarrow> nat \<Rightarrow> nat \<Rightarrow> ptr list \<Rightarrow> ptr list \<times> ptr option" where
  "take_loop 0 slot stride c = (c, None)"
| "take_loop (Suc k) slot stride c =
     (case bc_swap c slot null of (c', p) \<Rightarrow>
        if p = null then take_loop k ((slot + stride) mod length c) stride c' else (c', Some p))"

fun put_loop :: "nat \<Rightarrow> nat \<Rightarrow> nat \<Rightarrow> ptr list \<Rightarrow> ptr \<Rightarrow> ptr list \<times> ptr option" where
  "put_loop 0 slot stride c cur = (c, Some cur)"
| "put_loop (Suc k) slot stride c cur =
     (case bc_swap c slot cur of (c', p) \<Rightarrow>
        if p = null then (c', None) else put_loop k ((slot + stride) mod length c) stride c' p)"

definition bc_alloc ::
  "'s os_ops \<Rightarrow> map_alloc \<Rightarrow> nat \<Rightarrow> bs_cache \<Rightarrow> 's \<Rightarrow> (bs_cache \<times> 's \<times> (map_err + ptr)) option" where
  "bc_alloc OS ma start ca s =
     (let n = length (bc_cache ca); slot = start mod n; stride = slot * 2 + 1
      in case take_loop (bc_patience n) slot stride (bc_cache ca) of
           (c, Some p) \<Rightarrow> Some (ca\<lparr> bc_cache := c \<rparr>, s, Inr p)
         | (c, None) \<Rightarrow> do {
             (s', r) \<leftarrow> ma_alloc OS ma s (bc_layout ca);
             Some (ca\<lparr> bc_cache := c \<rparr>, s', r) })"

definition bc_free ::
  "'s os_ops \<Rightarrow> map_alloc \<Rightarrow> nat \<Rightarrow> bs_cache \<Rightarrow> 's \<Rightarrow> ptr \<Rightarrow> (bs_cache \<times> 's) option" where
  "bc_free OS ma start ca s item =
     (let n = length (bc_cache ca); slot = start mod n; stride = slot * 2 + 1
      in case put_loop (bc_patience n) slot stride (bc_cache ca) item of
           (c, None) \<Rightarrow> Some (ca\<lparr> bc_cache := c \<rparr>, s)
         | (c, Some p) \<Rightarrow> do {
             s' \<leftarrow> ma_dealloc OS ma s p (bc_layout ca);
             Some (ca\<lparr> bc_cache := c \<rparr>, s') })"

subsection \<open>\<open>GlobalAllocator\<close>\<close>

record global_allocator =
  ga_small_objs :: bs_cache
  ga_large_objs :: bs_cache
  ga_ma :: map_alloc

definition ga_new :: "'s os_ops \<Rightarrow> global_allocator option" where
  "ga_new OS = do {
     small \<leftarrow> bc_new 8 (push_bit 10 1);
     large \<leftarrow> bc_new 4 (push_bit 10 18);
     ma \<leftarrow> map_alloc_default OS;
     Some \<lparr> ga_small_objs = small, ga_large_objs = large, ga_ma = ma \<rparr> }"

definition ga_alloc ::
  "'s os_ops \<Rightarrow> nat \<Rightarrow> global_allocator \<Rightarrow> 's \<Rightarrow> nat \<Rightarrow> (global_allocator \<times> 's \<times> (map_err + ptr)) option" where
  "ga_alloc OS start g s sz =
     (if sz < bc_object_size (ga_small_objs g)
      then do {
        (c, s', r) \<leftarrow> bc_alloc OS (ga_ma g) start (ga_small_objs g) s;
        Some (g\<lparr> ga_small_objs := c \<rparr>, s', r) }
      else if sz < bc_object_size (ga_large_objs g)
      then do {
        (c, s', r) \<leftarrow> bc_alloc OS (ga_ma g) start (ga_large_objs g) s;
        Some (g\<lparr> ga_large_objs := c \<rparr>, s', r) }
      else do {
        l \<leftarrow> layout_from_size_align sz 1;
        (s', r) \<leftarrow> ma_alloc OS (ga_ma g) s l;
        Some (g, s', r) })"

definition ga_free ::
  "'s os_ops \<Rightarrow> nat \<Rightarrow> global_allocator \<Rightarrow> 's \<Rightarrow> ptr \<Rightarrow> nat \<Rightarrow> (global_allocator \<times> 's) option" where
  "ga_free OS start g s item sz =
     (if sz < bc_object_size (ga_small_objs g)
      then do {
        (c, s') \<leftarrow> bc_free OS (ga_ma g) start (ga_small_objs g) s item;
        Some (g\<lparr> ga_small_objs := c \<rparr>, s') }
      else if sz < bc_object_size (ga_large_objs g)
      then do {
        (c, s') \<leftarrow> bc_free OS (ga_ma g) start (ga_large_objs g) s item;
        Some (g\<lparr> ga_large_objs := c \<rparr>, s') }
      else do {
        l \<leftarrow> layout_from_size_align sz 1;
        s' \<leftarrow> ma_dealloc OS (ga_ma g) s item l;
        Some (g, s') })"

subsection \<open>\<open>BsAlloc\<close>\<close>

text \<open>\<open>assert_nonoverlapping\<close> orders the two ranges as pairs.\<close>

definition nonoverlapping :: "nat \<times> nat \<Rightarrow> nat \<times> nat \<Rightarrow> bool" where
  "nonoverlapping r1 r2 \<longleftrightarrow>
     (let lo = (if fst r1 < fst r2 \<or> fst r1 = fst r2 \<and> snd r1 \<le> snd r2 then r1 else r2);
          hi = (if lo = r1 then r2 else r1)
      in fst hi \<ge> snd lo)"

definition bs_alloc ::
  "'s os_ops \<Rightarrow> nat \<Rightarrow> global_allocator \<Rightarrow> 's \<Rightarrow> layout \<Rightarrow> (global_allocator \<times> 's \<times> (map_err + ptr)) option" where
  "bs_alloc OS start g s l = ga_alloc OS start g s (lay_size l)"

definition bs_dealloc ::
  "'s os_ops \<Rightarrow> nat \<Rightarrow> global_allocator \<Rightarrow> 's \<Rightarrow> ptr \<Rightarrow> layout \<Rightarrow> (global_allocator \<times> 's) option" where
  "bs_dealloc OS start g s item l = ga_free OS start g s item (lay_size l)"

text \<open>\<open>realloc\<close>: \<open>expect\<close> panics where the allocation fails.\<close>

definition bs_realloc ::
  "'s os_ops \<Rightarrow> nat \<Rightarrow> nat \<Rightarrow> global_allocator \<Rightarrow> 's \<Rightarrow> ptr \<Rightarrow> layout \<Rightarrow> layout \<Rightarrow> (global_allocator \<times> 's \<times> ptr) option" where
  "bs_realloc OS start start' g s p old_l new_l = do {
     (g1, s1, r) \<leftarrow> bs_alloc OS start g s new_l;
     (case r of
        Inl _ \<Rightarrow> None
      | Inr new_memory \<Rightarrow>
          if nonoverlapping (unat p, unat p + lay_size old_l) (unat new_memory, unat new_memory + lay_size new_l)
          then do {
            let s2 = os_copy OS s1 p new_memory (min (lay_size old_l) (lay_size new_l));
            (g3, s3) \<leftarrow> bs_dealloc OS start' g1 s2 p old_l;
            Some (g3, s3, new_memory) }
          else None) }"

subsection \<open>Threads\<close>

text \<open>Where a thread is: outside, in the loop of \<open>Cache::alloc\<close> for a request of \<open>n\<close> bytes, or in
  the loop of \<open>Cache::free\<close> with a pointer in flight; with the slot, the stride and the number of
  rounds left.\<close>

datatype bs_pc =
    Outside
  | Taking nat nat nat nat
  | Putting nat ptr nat nat nat

datatype bs_which = Small_objs | Large_objs

record 's bs_state =
  bs_g :: global_allocator
  bs_os :: 's
  bs_held :: "(ptr \<times> nat) multiset"
  bs_threads :: "bs_pc list"

definition bs_which_for :: "global_allocator \<Rightarrow> nat \<Rightarrow> bs_which option" where
  "bs_which_for g n =
     (if n < bc_object_size (ga_small_objs g) then Some Small_objs
      else if n < bc_object_size (ga_large_objs g) then Some Large_objs else None)"

fun bs_get :: "global_allocator \<Rightarrow> bs_which \<Rightarrow> bs_cache" where
  "bs_get g Small_objs = ga_small_objs g"
| "bs_get g Large_objs = ga_large_objs g"

fun bs_set :: "global_allocator \<Rightarrow> bs_which \<Rightarrow> ptr list \<Rightarrow> global_allocator" where
  "bs_set g Small_objs c = g\<lparr> ga_small_objs := (ga_small_objs g)\<lparr> bc_cache := c \<rparr> \<rparr>"
| "bs_set g Large_objs c = g\<lparr> ga_large_objs := (ga_large_objs g)\<lparr> bc_cache := c \<rparr> \<rparr>"

abbreviation bs_array :: "'s bs_state \<Rightarrow> bs_which \<Rightarrow> ptr list" where
  "bs_array st w \<equiv> bc_cache (bs_get (bs_g st) w)"

definition bs_at :: "'s bs_state \<Rightarrow> nat \<Rightarrow> bs_pc \<Rightarrow> bool" where
  "bs_at st t pc \<longleftrightarrow> t < length (bs_threads st) \<and> bs_threads st ! t = pc"

definition bs_goto :: "'s bs_state \<Rightarrow> nat \<Rightarrow> bs_pc \<Rightarrow> 's bs_state" where
  "bs_goto st t pc = st\<lparr> bs_threads := (bs_threads st)[t := pc] \<rparr>"

text \<open>One atomic step of one thread.  The steps of a thread that runs alone are those of
  \<open>take_loop\<close>, \<open>put_loop\<close> and the calls around them.\<close>

inductive bs_step :: "'s os_ops \<Rightarrow> 's bs_state \<Rightarrow> 's bs_state \<Rightarrow> bool" for OS :: "'s os_ops" where
  alloc_begin: "bs_at st t Outside \<Longrightarrow> bs_which_for (bs_g st) n = Some w \<Longrightarrow> slot = start mod length (bs_array st w)
    \<Longrightarrow> bs_step OS st (bs_goto st t (Taking n slot (slot * 2 + 1) (bc_patience (length (bs_array st w)))))"
| take_miss: "bs_at st t (Taking n slot stride (Suc k)) \<Longrightarrow> bs_which_for (bs_g st) n = Some w
    \<Longrightarrow> bc_swap (bs_array st w) slot null = (c, null)
    \<Longrightarrow> bs_step OS st (bs_goto (st\<lparr> bs_g := bs_set (bs_g st) w c \<rparr>) t
          (Taking n ((slot + stride) mod length (bs_array st w)) stride k))"
| take_hit: "bs_at st t (Taking n slot stride (Suc k)) \<Longrightarrow> bs_which_for (bs_g st) n = Some w
    \<Longrightarrow> bc_swap (bs_array st w) slot null = (c, p) \<Longrightarrow> p \<noteq> null
    \<Longrightarrow> bs_step OS st (bs_goto (st\<lparr> bs_g := bs_set (bs_g st) w c, bs_held := add_mset (p, n) (bs_held st) \<rparr>) t Outside)"
| take_map: "bs_at st t (Taking n slot stride 0) \<Longrightarrow> bs_which_for (bs_g st) n = Some w
    \<Longrightarrow> ma_alloc OS (ga_ma (bs_g st)) (bs_os st) (bc_layout (bs_get (bs_g st) w)) = Some (s', Inr p)
    \<Longrightarrow> bs_step OS st (bs_goto (st\<lparr> bs_os := s', bs_held := add_mset (p, n) (bs_held st) \<rparr>) t Outside)"
| take_fail: "bs_at st t (Taking n slot stride 0) \<Longrightarrow> bs_which_for (bs_g st) n = Some w
    \<Longrightarrow> ma_alloc OS (ga_ma (bs_g st)) (bs_os st) (bc_layout (bs_get (bs_g st) w)) = Some (s', Inl e)
    \<Longrightarrow> bs_step OS st (bs_goto (st\<lparr> bs_os := s' \<rparr>) t Outside)"
| big_alloc: "bs_at st t Outside \<Longrightarrow> bs_which_for (bs_g st) n = None \<Longrightarrow> layout_from_size_align n 1 = Some l
    \<Longrightarrow> mappable (os_pagesize OS) l \<Longrightarrow> ma_alloc OS (ga_ma (bs_g st)) (bs_os st) l = Some (s', Inr p)
    \<Longrightarrow> bs_step OS st (st\<lparr> bs_os := s', bs_held := add_mset (p, n) (bs_held st) \<rparr>)"
| big_fail: "bs_at st t Outside \<Longrightarrow> bs_which_for (bs_g st) n = None \<Longrightarrow> layout_from_size_align n 1 = Some l
    \<Longrightarrow> mappable (os_pagesize OS) l \<Longrightarrow> ma_alloc OS (ga_ma (bs_g st)) (bs_os st) l = Some (s', Inl e)
    \<Longrightarrow> bs_step OS st (st\<lparr> bs_os := s' \<rparr>)"
| free_begin: "bs_at st t Outside \<Longrightarrow> (p, n) \<in># bs_held st \<Longrightarrow> bs_which_for (bs_g st) n = Some w
    \<Longrightarrow> slot = start mod length (bs_array st w)
    \<Longrightarrow> bs_step OS st (bs_goto (st\<lparr> bs_held := bs_held st - {#(p, n)#} \<rparr>) t
          (Putting n p slot (slot * 2 + 1) (bc_patience (length (bs_array st w)))))"
| put_miss: "bs_at st t (Putting n p slot stride (Suc k)) \<Longrightarrow> bs_which_for (bs_g st) n = Some w
    \<Longrightarrow> bc_swap (bs_array st w) slot p = (c, q) \<Longrightarrow> q \<noteq> null
    \<Longrightarrow> bs_step OS st (bs_goto (st\<lparr> bs_g := bs_set (bs_g st) w c \<rparr>) t
          (Putting n q ((slot + stride) mod length (bs_array st w)) stride k))"
| put_hit: "bs_at st t (Putting n p slot stride (Suc k)) \<Longrightarrow> bs_which_for (bs_g st) n = Some w
    \<Longrightarrow> bc_swap (bs_array st w) slot p = (c, null)
    \<Longrightarrow> bs_step OS st (bs_goto (st\<lparr> bs_g := bs_set (bs_g st) w c \<rparr>) t Outside)"
| put_unmap: "bs_at st t (Putting n p slot stride 0) \<Longrightarrow> bs_which_for (bs_g st) n = Some w
    \<Longrightarrow> ma_dealloc OS (ga_ma (bs_g st)) (bs_os st) p (bc_layout (bs_get (bs_g st) w)) = Some s'
    \<Longrightarrow> bs_step OS st (bs_goto (st\<lparr> bs_os := s' \<rparr>) t Outside)"
| big_free: "bs_at st t Outside \<Longrightarrow> (p, n) \<in># bs_held st \<Longrightarrow> bs_which_for (bs_g st) n = None
    \<Longrightarrow> layout_from_size_align n 1 = Some l \<Longrightarrow> ma_dealloc OS (ga_ma (bs_g st)) (bs_os st) p l = Some s'
    \<Longrightarrow> bs_step OS st (st\<lparr> bs_os := s', bs_held := bs_held st - {#(p, n)#} \<rparr>)"

definition bs_init :: "global_allocator \<Rightarrow> 's \<Rightarrow> nat \<Rightarrow> 's bs_state" where
  "bs_init g s threads = \<lparr> bs_g = g, bs_os = s, bs_held = {#}, bs_threads = replicate threads Outside \<rparr>"

subsection \<open>Every block once\<close>

definition bs_block :: "global_allocator \<Rightarrow> nat \<Rightarrow> layout" where
  "bs_block g n = (case bs_which_for g n of Some w \<Rightarrow> bc_layout (bs_get g w) | None \<Rightarrow> \<lparr> lay_size = n, lay_align = 1 \<rparr>)"

definition one_block :: "layout \<Rightarrow> ptr \<Rightarrow> (ptr \<times> layout) multiset" where
  "one_block l p = (if p = null then {#} else {#(p, l)#})"

definition cached :: "bs_cache \<Rightarrow> (ptr \<times> layout) multiset" where
  "cached ca = sum_list (map (one_block (bc_layout ca)) (bc_cache ca))"

fun in_flight :: "global_allocator \<Rightarrow> bs_pc \<Rightarrow> (ptr \<times> layout) multiset" where
  "in_flight g (Putting n p slot stride k) = one_block (bs_block g n) p"
| "in_flight g pc = {#}"

definition caches :: "global_allocator \<Rightarrow> (ptr \<times> layout) multiset" where
  "caches g = cached (ga_small_objs g) + cached (ga_large_objs g)"

definition in_hand :: "global_allocator \<Rightarrow> (ptr \<times> nat) multiset \<Rightarrow> (ptr \<times> layout) multiset" where
  "in_hand g H = image_mset (\<lambda>(p, n). (p, bs_block g n)) H"

definition flights :: "global_allocator \<Rightarrow> bs_pc list \<Rightarrow> (ptr \<times> layout) multiset" where
  "flights g pcs = sum_list (map (in_flight g) pcs)"

definition bs_blocks :: "'s bs_state \<Rightarrow> (ptr \<times> layout) multiset" where
  "bs_blocks st = caches (bs_g st) + in_hand (bs_g st) (bs_held st) + flights (bs_g st) (bs_threads st)"

definition accounts :: "(ptr \<Rightarrow> layout option) \<Rightarrow> (ptr \<times> layout) multiset \<Rightarrow> bool" where
  "accounts live B \<longleftrightarrow> (\<forall>p l. count B (p, l) = (if live p = Some l then 1 else 0))"

definition thread_ok :: "global_allocator \<Rightarrow> bs_pc \<Rightarrow> bool" where
  "thread_ok g pc \<longleftrightarrow> (case pc of
     Outside \<Rightarrow> True
   | Taking n slot stride k \<Rightarrow> (\<exists>w. bs_which_for g n = Some w \<and> slot < length (bc_cache (bs_get g w)))
   | Putting n p slot stride k \<Rightarrow> p \<noteq> null \<and> (\<exists>w. bs_which_for g n = Some w \<and> slot < length (bc_cache (bs_get g w))))"

definition ga_ok :: "global_allocator \<Rightarrow> bool" where
  "ga_ok g \<longleftrightarrow> bc_layout (ga_small_objs g) = \<lparr> lay_size = 1024, lay_align = 1 \<rparr>
     \<and> bc_layout (ga_large_objs g) = \<lparr> lay_size = 18432, lay_align = 1 \<rparr>
     \<and> bc_object_size (ga_small_objs g) = 1024 \<and> bc_object_size (ga_large_objs g) = 18432
     \<and> length (bc_cache (ga_small_objs g)) = 8 \<and> length (bc_cache (ga_large_objs g)) = 4"

definition bs_inv :: "'s os_ops \<Rightarrow> ('s \<Rightarrow> nat set) \<Rightarrow> nat set \<Rightarrow> 's bs_state \<Rightarrow> bool" where
  "bs_inv OS mapped base st \<longleftrightarrow>
     ga_ok (bs_g st) \<and> (\<forall>pc \<in> set (bs_threads st). thread_ok (bs_g st) pc) \<and> (\<forall>(p, n) \<in># bs_held st. p \<noteq> null)
     \<and> (\<exists>live. blocks_at (os_pagesize OS) base live (mapped (bs_os st)) \<and> accounts live (bs_blocks st))"

lemma sum_list_update_mset:
  fixes f :: "'x \<Rightarrow> 'y multiset"
  shows "i < length xs \<Longrightarrow> sum_list (map f (xs[i := x])) + f (xs ! i) = sum_list (map f xs) + f x"
  by (induction xs arbitrary: i) (auto simp: nth_Cons ac_simps split: nat.splits)

lemma accounts_add: "accounts live B \<Longrightarrow> live p = None \<Longrightarrow> accounts (live(p \<mapsto> l)) (add_mset (p, l) B)"
  by (auto simp: accounts_def)

lemma accounts_live: "accounts live B \<Longrightarrow> (p, l) \<in># B \<Longrightarrow> live p = Some l"
  unfolding accounts_def count_greater_zero_iff [symmetric] by (metis less_numeral_extra(3))

lemma accounts_remove:
  assumes "accounts live (add_mset (p, l) B)"
  shows "live p = Some l" "accounts (live(p := None)) B"
proof -
  show p: "live p = Some l" using accounts_live [OF assms, of p l] by simp
  have c: "count (add_mset (p, l) B) (q, k) = (if live q = Some k then 1 else 0)" for q k
    using assms by (simp add: accounts_def)
  have "count B (q, k) = (if (live(p := None)) q = Some k then 1 else 0)" for q k
    using c [of q k] p by (cases "q = p"; cases "k = l") auto
  then show "accounts (live(p := None)) B" by (simp add: accounts_def)
qed

lemma bs_set_get [simp]:
  "bs_which_for (bs_set g w c) n = bs_which_for g n"
  "bc_layout (bs_get (bs_set g w c) v) = bc_layout (bs_get g v)"
  "bc_cache (bs_get (bs_set g w c) v) = (if v = w then c else bc_cache (bs_get g v))"
  "ga_ma (bs_set g w c) = ga_ma g"
  by (cases w; cases v; simp add: bs_which_for_def)+

lemma bs_set_block [simp]: "bs_block (bs_set g w c) = bs_block g"
  by (rule ext) (simp add: bs_block_def split: option.split)

lemma bs_set_in [simp]: "in_flight (bs_set g w c) = in_flight g" "in_hand (bs_set g w c) = in_hand g"
    "flights (bs_set g w c) = flights g"
proof -
  show f: "in_flight (bs_set g w c) = in_flight g"
  proof
    fix pc show "in_flight (bs_set g w c) pc = in_flight g pc" by (cases pc) simp_all
  qed
  show "in_hand (bs_set g w c) = in_hand g" "flights (bs_set g w c) = flights g"
    by (rule ext, simp add: in_hand_def flights_def f)+
qed

lemma ga_ok_set: "ga_ok g \<Longrightarrow> length c = length (bc_cache (bs_get g w)) \<Longrightarrow> ga_ok (bs_set g w c)"
  by (cases w) (simp_all add: ga_ok_def)

lemma thread_ok_set:
  "length c = length (bc_cache (bs_get g w)) \<Longrightarrow> thread_ok (bs_set g w c) pc = thread_ok g pc"
  by (auto simp: thread_ok_def split: bs_pc.split)

lemma caches_swap:
  assumes "i < length (bc_cache (bs_get g w))"
  shows "caches (bs_set g w ((bc_cache (bs_get g w))[i := q])) + one_block (bc_layout (bs_get g w)) (bc_cache (bs_get g w) ! i)
    = caches g + one_block (bc_layout (bs_get g w)) q"
  using sum_list_update_mset [OF assms, of "one_block (bc_layout (bs_get g w))" q]
  by (cases w) (simp_all add: caches_def cached_def add.commute add.left_commute)

lemma flights_goto:
  "t < length pcs \<Longrightarrow> flights g (pcs[t := pc]) + in_flight g (pcs ! t) = flights g pcs + in_flight g pc"
  unfolding flights_def by (rule sum_list_update_mset)

lemma bs_which_pos: "ga_ok g \<Longrightarrow> 0 < length (bc_cache (bs_get g w))"
  by (cases w) (simp_all add: ga_ok_def)

lemma bs_block_which: "bs_which_for g n = Some w \<Longrightarrow> bs_block g n = bc_layout (bs_get g w)"
  by (simp add: bs_block_def)

lemma bs_layout_mappable:
  "ga_ok g \<Longrightarrow> 0 < pg \<Longrightarrow> pg < 2 ^ 63 \<Longrightarrow> mappable pg (bc_layout (bs_get g w))"
  by (cases w) (simp_all add: ga_ok_def mappable_def)

lemma ma_alloc_block:
  assumes "mmap_os OS mapped byte m" "mappable (os_pagesize OS) l" "blocks_at (os_pagesize OS) base live (mapped s)"
  shows "ma_alloc OS m s l = Some (s', Inr p)
      \<Longrightarrow> p \<noteq> null \<and> live p = None \<and> blocks_at (os_pagesize OS) base (live(p \<mapsto> l)) (mapped s')"
    and "ma_alloc OS m s l = Some (s', Inl e) \<Longrightarrow> mapped s' = mapped s"
    and "ma_alloc OS m s l \<noteq> None"
proof -
  note c = alloc_cases [OF assms]
  show "ma_alloc OS m s l \<noteq> None" "ma_alloc OS m s l = Some (s', Inl e) \<Longrightarrow> mapped s' = mapped s"
    using c by auto
  assume "ma_alloc OS m s l = Some (s', Inr p)"
  then have b: "live p = None" "blocks_at (os_pagesize OS) base (live(p \<mapsto> l)) (mapped s')"
    using c by (auto simp del: fun_upd_apply)
  moreover have "page_block (os_pagesize OS) p (lay_size l)"
    using blocks_at_block [OF b(2), of p l] by simp
  ultimately show "p \<noteq> null \<and> live p = None \<and> blocks_at (os_pagesize OS) base (live(p \<mapsto> l)) (mapped s')"
    by (simp add: page_block_def del: fun_upd_apply)
qed

text \<open>The three ways the invariant is re-established: no block enters or leaves, one is mapped,
  one is unmapped.\<close>

lemma bs_inv_same:
  assumes "bs_inv OS mapped base st" "ga_ok (bs_g st')" "\<forall>pc \<in> set (bs_threads st'). thread_ok (bs_g st') pc"
    "\<forall>(p, n) \<in># bs_held st'. p \<noteq> null" "mapped (bs_os st') = mapped (bs_os st)" "bs_blocks st' = bs_blocks st"
  shows "bs_inv OS mapped base st'"
  using assms by (simp add: bs_inv_def)

lemma bs_inv_map:
  assumes os: "mmap_os OS mapped byte m" and inv: "bs_inv OS mapped base st" and l: "mappable (os_pagesize OS) l"
    and al: "ma_alloc OS m (bs_os st) l = Some (bs_os st', Inr p)"
    and ok: "bs_g st' = bs_g st" "\<forall>pc \<in> set (bs_threads st'). thread_ok (bs_g st) pc"
    and held: "bs_held st' = add_mset (p, n) (bs_held st)" and b: "bs_blocks st' = add_mset (p, l) (bs_blocks st)"
  shows "bs_inv OS mapped base st'"
proof -
  obtain live where live: "blocks_at (os_pagesize OS) base live (mapped (bs_os st))" "accounts live (bs_blocks st)"
    using inv by (auto simp: bs_inv_def)
  note blk = ma_alloc_block(1) [OF os l live(1) al]
  then have "accounts (live(p \<mapsto> l)) (bs_blocks st')" using accounts_add [OF live(2), of p l] b by simp
  then have "\<exists>live. blocks_at (os_pagesize OS) base live (mapped (bs_os st')) \<and> accounts live (bs_blocks st')"
    using blk by blast
  then show ?thesis using inv blk ok by (simp add: bs_inv_def held)
qed

lemma bs_inv_unmap:
  assumes os: "mmap_os OS mapped byte m" and inv: "bs_inv OS mapped base st"
    and de: "ma_dealloc OS m (bs_os st) p l = Some (bs_os st')"
    and ok: "bs_g st' = bs_g st" "\<forall>pc \<in> set (bs_threads st'). thread_ok (bs_g st) pc"
    and held: "bs_held st' \<subseteq># bs_held st" and b: "bs_blocks st = add_mset (p, l) (bs_blocks st')"
  shows "bs_inv OS mapped base st'"
proof -
  obtain live where live: "blocks_at (os_pagesize OS) base live (mapped (bs_os st))" "accounts live (bs_blocks st)"
    using inv by (auto simp: bs_inv_def)
  note acc = accounts_remove [OF live(2) [unfolded b]]
  have "blocks_at (os_pagesize OS) base (live(p := None)) (mapped (bs_os st'))"
    using dealloc_ok [OF os live(1), of p l] acc(1) de by auto
  then have "\<exists>live. blocks_at (os_pagesize OS) base live (mapped (bs_os st')) \<and> accounts live (bs_blocks st')"
    using acc(2) by blast
  then show ?thesis using inv ok mset_subset_eqD [OF held] by (auto simp: bs_inv_def)
qed

lemma threads_goto:
  "\<forall>pc \<in> set pcs. thread_ok g pc \<Longrightarrow> thread_ok g pc' \<Longrightarrow> \<forall>pc \<in> set (pcs[t := pc']). thread_ok g pc"
  using set_update_subset_insert [of pcs t pc'] by blast

lemma bs_inv_at:
  assumes "bs_inv OS mapped base st" "bs_at st t pc"
  shows "t < length (bs_threads st)" "bs_threads st ! t = pc" "thread_ok (bs_g st) pc" "ga_ok (bs_g st)"
    "\<forall>pc \<in> set (bs_threads st). thread_ok (bs_g st) pc" "\<forall>(p, n) \<in># bs_held st. p \<noteq> null"
  using assms by (auto simp: bs_inv_def bs_at_def)

lemma thread_ok_simps [simp]:
  "thread_ok g Outside"
  "bs_which_for g n = Some w \<Longrightarrow> thread_ok g (Taking n slot stride k) \<longleftrightarrow> slot < length (bc_cache (bs_get g w))"
  "bs_which_for g n = Some w \<Longrightarrow> thread_ok g (Putting n p slot stride k) \<longleftrightarrow> p \<noteq> null \<and> slot < length (bc_cache (bs_get g w))"
  by (simp_all add: thread_ok_def)

lemma one_block_simps [simp]: "one_block l null = {#}" "p \<noteq> null \<Longrightarrow> one_block l p = {#(p, l)#}"
  by (simp_all add: one_block_def)

lemma bs_goto_simps [simp]:
  "bs_g (bs_goto st t pc) = bs_g st" "bs_os (bs_goto st t pc) = bs_os st" "bs_held (bs_goto st t pc) = bs_held st"
  "bs_threads (bs_goto st t pc) = (bs_threads st)[t := pc]"
  by (simp_all add: bs_goto_def)

lemma in_hand_simps [simp]: "in_hand g (add_mset (p, n) H) = add_mset (p, bs_block g n) (in_hand g H)"
  by (simp add: in_hand_def)

lemma in_hand_remove: "(p, n) \<in># H \<Longrightarrow> in_hand g H = add_mset (p, bs_block g n) (in_hand g (H - {#(p, n)#}))"
  by (metis in_hand_simps insert_DiffM)

text \<open>A swap moves blocks between the array and the thread.\<close>

lemma bs_inv_swap:
  assumes inv: "bs_inv OS mapped base st" and at: "bs_at st t pc" and w: "bs_which_for (bs_g st) n = Some w"
    and slot: "slot < length (bs_array st w)" and sw: "bc_swap (bs_array st w) slot q = (c, p)"
    and st': "st' = bs_goto (st\<lparr> bs_g := bs_set (bs_g st) w c, bs_held := H \<rparr>) t pc'"
    and pc': "thread_ok (bs_g st) pc'" and H: "\<forall>(p, n) \<in># H. p \<noteq> null"
    and bal: "in_hand (bs_g st) H + one_block (bs_block (bs_g st) n) q + in_flight (bs_g st) pc'
      = in_hand (bs_g st) (bs_held st) + one_block (bs_block (bs_g st) n) p + in_flight (bs_g st) pc"
  shows "bs_inv OS mapped base st'"
proof -
  let ?g = "bs_g st" let ?B = "one_block (bs_block ?g n)"
  note at = bs_inv_at [OF inv at]
  have c: "c = (bs_array st w)[slot := q]" "p = bs_array st w ! slot" using sw by (simp_all add: bc_swap_def)
  have ca: "caches (bs_set ?g w c) + ?B p = caches ?g + ?B q"
    using caches_swap [OF slot, of q] by (simp add: c bs_block_which [OF w])
  have fl: "flights ?g ((bs_threads st)[t := pc']) + in_flight ?g pc = flights ?g (bs_threads st) + in_flight ?g pc'"
    using flights_goto [OF at(1), of ?g pc'] at(2) by simp
  have "bs_blocks st' + (?B p + in_flight ?g pc + (in_hand ?g (bs_held st) + ?B p + in_flight ?g pc))
      = (caches (bs_set ?g w c) + ?B p) + (flights ?g ((bs_threads st)[t := pc']) + in_flight ?g pc)
        + (in_hand ?g H + (in_hand ?g (bs_held st) + ?B p + in_flight ?g pc))"
    by (simp add: st' bs_blocks_def ac_simps)
  also have "\<dots> = (caches ?g + ?B q) + (flights ?g (bs_threads st) + in_flight ?g pc')
        + (in_hand ?g H + (in_hand ?g (bs_held st) + ?B p + in_flight ?g pc))"
    unfolding ca fl ..
  also have "\<dots> = bs_blocks st + ((in_hand ?g H + ?B q + in_flight ?g pc') + (?B p + in_flight ?g pc))"
    by (simp add: bs_blocks_def ac_simps)
  also have "\<dots> = bs_blocks st + (?B p + in_flight ?g pc + (in_hand ?g (bs_held st) + ?B p + in_flight ?g pc))"
    unfolding bal by (simp add: ac_simps)
  finally have eq: "bs_blocks st' = bs_blocks st" by simp
  have len: "length c = length (bs_array st w)" by (simp add: c)
  have ths: "\<forall>pc \<in> set ((bs_threads st)[t := pc']). thread_ok ?g pc" by (rule threads_goto [OF at(5) pc'])
  show ?thesis
    by (rule bs_inv_same [OF inv _ _ _ _ eq])
      (use at(4) H ths in \<open>simp_all add: st' ga_ok_set [OF at(4) len] thread_ok_set [OF len]\<close>)
qed

lemma bs_step_inv:
  assumes pg: "mmap_os OS mapped byte (ga_ma (bs_g st))" "os_pagesize OS < 2 ^ 63"
    and inv: "bs_inv OS mapped base st" and step: "bs_step OS st st'"
  shows "bs_inv OS mapped base st' \<and> ga_ma (bs_g st') = ga_ma (bs_g st)"
  using step inv pg
proof cases
  case (alloc_begin t n w slot start)
  note at = bs_inv_at [OF inv alloc_begin(2)]
  let ?pc = "Taking n slot (slot * 2 + 1) (bc_patience (length (bs_array st w)))"
  have "slot < length (bs_array st w)" using bs_which_pos [OF at(4), of w] alloc_begin(4) by simp
  then have "\<forall>pc \<in> set ((bs_threads st)[t := ?pc]). thread_ok (bs_g st) pc"
    using threads_goto [OF at(5), of ?pc] alloc_begin(3) by simp
  moreover have "flights (bs_g st) ((bs_threads st)[t := ?pc]) = flights (bs_g st) (bs_threads st)"
    using flights_goto [OF at(1), of "bs_g st" ?pc] at(2) by simp
  ultimately show ?thesis
    using at by (auto simp: alloc_begin(1) bs_blocks_def intro!: bs_inv_same [OF inv])
next
  case (take_miss t n slot stride k w c)
  note at = bs_inv_at [OF inv take_miss(2)]
  have slot: "slot < length (bs_array st w)" using at(3) take_miss(3) by simp
  have "bs_inv OS mapped base st'"
    by (rule bs_inv_swap [OF inv take_miss(2,3) slot take_miss(4), where H = "bs_held st"
          and pc' = "Taking n ((slot + stride) mod length (bs_array st w)) stride k"])
      (use at slot take_miss(3) bs_which_pos [OF at(4), of w] in \<open>simp_all add: take_miss(1)\<close>)
  then show ?thesis by (simp add: take_miss(1))
next
  case (take_hit t n slot stride k w c p)
  note at = bs_inv_at [OF inv take_hit(2)]
  have slot: "slot < length (bs_array st w)" using at(3) take_hit(3) by simp
  have "bs_inv OS mapped base st'"
    by (rule bs_inv_swap [OF inv take_hit(2,3) slot take_hit(4), where H = "add_mset (p, n) (bs_held st)" and pc' = Outside])
      (use at take_hit(5) in \<open>simp_all add: take_hit(1)\<close>)
  then show ?thesis by (simp add: take_hit(1))
next
  case (take_map t n slot stride w s' p)
  note at = bs_inv_at [OF inv take_map(2)]
  have "flights (bs_g st) ((bs_threads st)[t := Outside]) = flights (bs_g st) (bs_threads st)"
    using flights_goto [OF at(1), of "bs_g st" Outside] at(2) by simp
  then have "bs_inv OS mapped base st'"
    using threads_goto [OF at(5), of Outside] take_map(4)
      bs_layout_mappable [OF at(4) pg_pos [OF pg(1)] pg(2), of w]
    by (intro bs_inv_map [OF pg(1) inv, of "bc_layout (bs_get (bs_g st) w)" st' p n])
      (simp_all add: take_map(1) bs_blocks_def bs_block_which [OF take_map(3)])
  then show ?thesis by (simp add: take_map(1))
next
  case (take_fail t n slot stride w s' e)
  note at = bs_inv_at [OF inv take_fail(2)]
  obtain live where "blocks_at (os_pagesize OS) base live (mapped (bs_os st))" using inv by (auto simp: bs_inv_def)
  then have "mapped s' = mapped (bs_os st)"
    using ma_alloc_block(2) [OF pg(1) bs_layout_mappable [OF at(4) pg_pos [OF pg(1)] pg(2), of w]] take_fail(4) by blast
  moreover have "flights (bs_g st) ((bs_threads st)[t := Outside]) = flights (bs_g st) (bs_threads st)"
    using flights_goto [OF at(1), of "bs_g st" Outside] at(2) by simp
  ultimately show ?thesis
    using at threads_goto [OF at(5), of Outside]
    by (auto simp: take_fail(1) bs_blocks_def intro!: bs_inv_same [OF inv])
next
  case (big_alloc t n l s' p)
  note at = bs_inv_at [OF inv big_alloc(2)]
  have "bs_block (bs_g st) n = l"
    using big_alloc(3,4) by (auto simp: bs_block_def layout_from_size_align_def split: if_splits)
  then have "bs_inv OS mapped base st'"
    using big_alloc at by (intro bs_inv_map [OF pg(1) inv, of l st' p n]) (simp_all add: bs_blocks_def)
  then show ?thesis by (simp add: big_alloc(1))
next
  case (big_fail t n l s' e)
  note at = bs_inv_at [OF inv big_fail(2)]
  obtain live where "blocks_at (os_pagesize OS) base live (mapped (bs_os st))" using inv by (auto simp: bs_inv_def)
  then have "mapped s' = mapped (bs_os st)"
    using ma_alloc_block(2) [OF pg(1) big_fail(5)] big_fail(6) by blast
  then show ?thesis using at by (auto simp: big_fail(1) bs_blocks_def intro!: bs_inv_same [OF inv])
next
  case (free_begin t p n w slot start)
  note at = bs_inv_at [OF inv free_begin(2)]
  let ?pc = "Putting n p slot (slot * 2 + 1) (bc_patience (length (bs_array st w)))"
  have p: "p \<noteq> null" using at(6) free_begin(3) by auto
  have slot: "slot < length (bs_array st w)" using bs_which_pos [OF at(4), of w] free_begin(5) by simp
  have "flights (bs_g st) ((bs_threads st)[t := ?pc]) = add_mset (p, bs_block (bs_g st) n) (flights (bs_g st) (bs_threads st))"
    using flights_goto [OF at(1), of "bs_g st" ?pc] at(2) p by simp
  then have "bs_blocks st' = bs_blocks st"
    using in_hand_remove [OF free_begin(3), of "bs_g st"] by (simp add: free_begin(1) bs_blocks_def)
  moreover have "\<forall>pc \<in> set ((bs_threads st)[t := ?pc]). thread_ok (bs_g st) pc"
    by (rule threads_goto [OF at(5)]) (use p slot free_begin(4) in simp)
  moreover have "\<forall>(p, n) \<in># bs_held st - {#(p, n)#}. p \<noteq> null" using at(6) by (auto dest: in_diffD)
  ultimately show ?thesis using at(4) by (auto simp: free_begin(1) intro!: bs_inv_same [OF inv])
next
  case (put_miss t n p slot stride k w c q)
  note at = bs_inv_at [OF inv put_miss(2)]
  have slot: "slot < length (bs_array st w)" "p \<noteq> null" using at(3) put_miss(3) by simp_all
  have "bs_inv OS mapped base st'"
    by (rule bs_inv_swap [OF inv put_miss(2,3) slot(1) put_miss(4), where H = "bs_held st"
          and pc' = "Putting n q ((slot + stride) mod length (bs_array st w)) stride k"])
      (use at slot put_miss(3,5) bs_which_pos [OF at(4), of w] in \<open>simp_all add: put_miss(1)\<close>)
  then show ?thesis by (simp add: put_miss(1))
next
  case (put_hit t n p slot stride k w c)
  note at = bs_inv_at [OF inv put_hit(2)]
  have slot: "slot < length (bs_array st w)" "p \<noteq> null" using at(3) put_hit(3) by simp_all
  have "bs_inv OS mapped base st'"
    by (rule bs_inv_swap [OF inv put_hit(2,3) slot(1) put_hit(4), where H = "bs_held st" and pc' = Outside])
      (use at slot in \<open>simp_all add: put_hit(1)\<close>)
  then show ?thesis by (simp add: put_hit(1))
next
  case (put_unmap t n p slot stride w s')
  note at = bs_inv_at [OF inv put_unmap(2)]
  have "flights (bs_g st) (bs_threads st) = add_mset (p, bs_block (bs_g st) n) (flights (bs_g st) ((bs_threads st)[t := Outside]))"
    using flights_goto [OF at(1), of "bs_g st" Outside] at(2,3) put_unmap(3) by simp
  then have "bs_inv OS mapped base st'"
    using threads_goto [OF at(5), of Outside] put_unmap(4)
    by (intro bs_inv_unmap [OF pg(1) inv, of p "bc_layout (bs_get (bs_g st) w)" st'])
      (simp_all add: put_unmap(1) bs_blocks_def bs_block_which [OF put_unmap(3)])
  then show ?thesis by (simp add: put_unmap(1))
next
  case (big_free t p n l s')
  note at = bs_inv_at [OF inv big_free(2)]
  have "bs_block (bs_g st) n = l"
    using big_free(4,5) by (auto simp: bs_block_def layout_from_size_align_def split: if_splits)
  then have "bs_inv OS mapped base st'"
    using big_free at in_hand_remove [OF big_free(3), of "bs_g st"]
    by (intro bs_inv_unmap [OF pg(1) inv, of p l st']) (simp_all add: bs_blocks_def)
  then show ?thesis by (simp add: big_free(1))
qed

subsection \<open>A thread that runs alone\<close>

lemma bs_set_set [simp]: "bs_set (bs_set g w c) w c' = bs_set g w c'"
  by (cases w) simp_all

lemma bs_held_g: "st\<lparr> bs_held := H, bs_g := g \<rparr> = st\<lparr> bs_g := g, bs_held := H \<rparr>"
    "st\<lparr> bs_g := g, bs_held := H, bs_os := s \<rparr> = st\<lparr> bs_g := g, bs_os := s, bs_held := H \<rparr>"
  by simp_all

lemma bs_set_same [simp]: "bs_set g w (bc_cache (bs_get g w)) = g"
  by (cases w) simp_all

lemma bs_at_goto [simp]: "bs_at st t pc \<Longrightarrow> bs_at (bs_goto (st\<lparr> bs_g := g \<rparr>) t pc') t pc'"
    "bs_at st t pc \<Longrightarrow> bs_at (bs_goto st t pc') t pc'"
  by (simp_all add: bs_at_def bs_goto_def)

lemma bs_goto_goto [simp]: "bs_goto ((bs_goto st t pc)\<lparr> bs_g := g \<rparr>) t pc' = bs_goto (st\<lparr> bs_g := g \<rparr>) t pc'"
    "bs_goto ((bs_goto st t pc)\<lparr> bs_g := g, bs_held := H \<rparr>) t pc' = bs_goto (st\<lparr> bs_g := g, bs_held := H \<rparr>) t pc'"
    "bs_goto ((bs_goto st t pc)\<lparr> bs_os := s, bs_held := H \<rparr>) t pc' = bs_goto (st\<lparr> bs_os := s, bs_held := H \<rparr>) t pc'"
    "bs_goto ((bs_goto st t pc)\<lparr> bs_os := s \<rparr>) t pc' = bs_goto (st\<lparr> bs_os := s \<rparr>) t pc'"
  by (simp_all add: bs_goto_def)

lemma bs_goto_back: "bs_at st t Outside \<Longrightarrow> bs_threads st' = bs_threads st \<Longrightarrow> bs_goto st' t Outside = st'"
  by (cases st') (auto simp: bs_goto_def bs_at_def list_update_same_conv)

lemma take_loop_run:
  assumes "bs_at st t (Taking n slot stride k)" "bs_which_for (bs_g st) n = Some w"
    "take_loop k slot stride (bs_array st w) = (c, r)"
  shows "case r of
      Some p \<Rightarrow> (bs_step OS)\<^sup>*\<^sup>* st (bs_goto (st\<lparr> bs_g := bs_set (bs_g st) w c, bs_held := add_mset (p, n) (bs_held st) \<rparr>) t Outside)
    | None \<Rightarrow> \<exists>slot'. (bs_step OS)\<^sup>*\<^sup>* st (bs_goto (st\<lparr> bs_g := bs_set (bs_g st) w c \<rparr>) t (Taking n slot' stride 0))"
  using assms
proof (induction k arbitrary: st slot)
  case 0
  then have "bs_goto (st\<lparr> bs_g := bs_set (bs_g st) w c \<rparr>) t (Taking n slot stride 0) = st"
    by (cases st) (auto simp: bs_goto_def bs_at_def list_update_same_conv)
  then show ?case using 0 by (auto intro!: exI [of _ slot])
next
  case (Suc k)
  obtain c1 p where sw: "bc_swap (bs_array st w) slot null = (c1, p)" by fastforce
  show ?case
  proof (cases "p = null")
    case False
    then show ?thesis using Suc.prems sw bs_step.take_hit [of st t n slot stride k w c1 p OS] by (auto intro: r_into_rtranclp)
  next
    case True
    let ?st = "bs_goto (st\<lparr> bs_g := bs_set (bs_g st) w c1 \<rparr>) t (Taking n ((slot + stride) mod length (bs_array st w)) stride k)"
    have step: "bs_step OS st ?st" using bs_step.take_miss [OF Suc.prems(1,2)] sw True by simp
    have at: "bs_at ?st t (Taking n ((slot + stride) mod length (bs_array st w)) stride k)"
      using Suc.prems(1) by simp
    have "length c1 = length (bs_array st w)" using sw by (auto simp: bc_swap_def)
    then have "take_loop k ((slot + stride) mod length (bs_array st w)) stride (bs_array ?st w) = (c, r)"
      using Suc.prems(3) sw True by simp
    note IH = Suc.IH [OF at _ this]
    show ?thesis using IH Suc.prems(2) converse_rtranclp_into_rtranclp [of "bs_step OS", OF step] by (auto split: option.splits)
  qed
qed

lemma put_loop_run:
  assumes "bs_at st t (Putting n q slot stride k)" "bs_which_for (bs_g st) n = Some w"
    "put_loop k slot stride (bs_array st w) q = (c, r)"
  shows "case r of
      None \<Rightarrow> (bs_step OS)\<^sup>*\<^sup>* st (bs_goto (st\<lparr> bs_g := bs_set (bs_g st) w c \<rparr>) t Outside)
    | Some p \<Rightarrow> \<exists>slot'. (bs_step OS)\<^sup>*\<^sup>* st (bs_goto (st\<lparr> bs_g := bs_set (bs_g st) w c \<rparr>) t (Putting n p slot' stride 0))"
  using assms
proof (induction k arbitrary: st slot q)
  case 0
  then have "bs_goto (st\<lparr> bs_g := bs_set (bs_g st) w c \<rparr>) t (Putting n q slot stride 0) = st"
    by (cases st) (auto simp: bs_goto_def bs_at_def list_update_same_conv)
  then show ?case using 0 by (auto intro!: exI [of _ slot])
next
  case (Suc k)
  obtain c1 p where sw: "bc_swap (bs_array st w) slot q = (c1, p)" by fastforce
  show ?case
  proof (cases "p = null")
    case True
    then show ?thesis using Suc.prems sw bs_step.put_hit [of st t n q slot stride k w c1 OS] by (auto intro: r_into_rtranclp)
  next
    case False
    let ?st = "bs_goto (st\<lparr> bs_g := bs_set (bs_g st) w c1 \<rparr>) t (Putting n p ((slot + stride) mod length (bs_array st w)) stride k)"
    have step: "bs_step OS st ?st" by (rule bs_step.put_miss [OF Suc.prems(1,2) sw False])
    have at: "bs_at ?st t (Putting n p ((slot + stride) mod length (bs_array st w)) stride k)"
      using Suc.prems(1) by simp
    have "put_loop k ((slot + stride) mod length (bs_array st w)) stride (bs_array ?st w) p = (c, r)"
      using Suc.prems(3) sw False by simp
    note IH = Suc.IH [OF at _ this]
    show ?thesis using IH Suc.prems(2) converse_rtranclp_into_rtranclp [of "bs_step OS", OF step] by (auto split: option.splits)
  qed
qed

definition ga_result :: "'s bs_state \<Rightarrow> global_allocator \<Rightarrow> 's \<Rightarrow> nat \<Rightarrow> map_err + ptr \<Rightarrow> 's bs_state" where
  "ga_result st g s n r = st\<lparr> bs_g := g, bs_os := s,
     bs_held := (case r of Inr p \<Rightarrow> add_mset (p, n) (bs_held st) | Inl _ \<Rightarrow> bs_held st) \<rparr>"

lemma bc_alloc_run:
  assumes at: "bs_at st t Outside" and w: "bs_which_for (bs_g st) n = Some w"
    and al: "bc_alloc OS (ga_ma (bs_g st)) start (bs_get (bs_g st) w) (bs_os st) = Some (ca, s', r)"
  shows "(bs_step OS)\<^sup>*\<^sup>* st (ga_result st (bs_set (bs_g st) w (bc_cache ca)) s' n r)"
proof -
  let ?len = "length (bs_array st w)" let ?slot = "start mod ?len"
  let ?pc = "Taking n ?slot (?slot * 2 + 1) (bc_patience ?len)"
  have b: "bs_step OS st (bs_goto st t ?pc)" by (rule bs_step.alloc_begin [OF at w refl])
  obtain c q where c: "take_loop (bc_patience ?len) ?slot (?slot * 2 + 1) (bs_array st w) = (c, q)" by fastforce
  have run: "case q of
      Some p \<Rightarrow> (bs_step OS)\<^sup>*\<^sup>* st (bs_goto (st\<lparr> bs_g := bs_set (bs_g st) w c, bs_held := add_mset (p, n) (bs_held st) \<rparr>) t Outside)
    | None \<Rightarrow> \<exists>slot'. (bs_step OS)\<^sup>*\<^sup>* st (bs_goto (st\<lparr> bs_g := bs_set (bs_g st) w c \<rparr>) t (Taking n slot' (?slot * 2 + 1) 0))"
    using take_loop_run [of "bs_goto st t ?pc" t n ?slot "?slot * 2 + 1" "bc_patience ?len" w c q OS] at w c
      converse_rtranclp_into_rtranclp [of "bs_step OS", OF b] by (auto split: option.splits)
  show ?thesis
  proof (cases q)
    case (Some p)
    then have "ca = (bs_get (bs_g st) w)\<lparr> bc_cache := c \<rparr>" "s' = bs_os st" "r = Inr p"
      using al c by (simp_all add: bc_alloc_def Let_def)
    moreover have "(bs_step OS)\<^sup>*\<^sup>* st (st\<lparr> bs_g := bs_set (bs_g st) w c, bs_held := add_mset (p, n) (bs_held st) \<rparr>)"
      using run Some at by (simp add: bs_goto_back)
    ultimately show ?thesis by (simp add: ga_result_def)
  next
    case None
    then have ca: "ca = (bs_get (bs_g st) w)\<lparr> bc_cache := c \<rparr>"
      and ma: "ma_alloc OS (ga_ma (bs_g st)) (bs_os st) (bc_layout (bs_get (bs_g st) w)) = Some (s', r)"
      using al c by (auto simp: bc_alloc_def Let_def split: Option.bind_splits)
    obtain slot' where r1: "(bs_step OS)\<^sup>*\<^sup>* st (bs_goto (st\<lparr> bs_g := bs_set (bs_g st) w c \<rparr>) t (Taking n slot' (?slot * 2 + 1) 0))"
      using run None by auto
    let ?st1 = "bs_goto (st\<lparr> bs_g := bs_set (bs_g st) w c \<rparr>) t (Taking n slot' (?slot * 2 + 1) 0)"
    have "bs_step OS ?st1 (bs_goto (ga_result st (bs_set (bs_g st) w c) s' n r) t Outside)"
    proof (cases r)
      case (Inl e)
      then show ?thesis
        using bs_step.take_fail [of ?st1 t n slot' "?slot * 2 + 1" w OS s' e] at w ma
        by (simp add: ga_result_def bs_goto_def bs_at_def)
    next
      case (Inr p)
      then show ?thesis
        using bs_step.take_map [of ?st1 t n slot' "?slot * 2 + 1" w OS s' p] at w ma
        by (simp add: ga_result_def bs_goto_def bs_at_def)
    qed
    then have "(bs_step OS)\<^sup>*\<^sup>* st (bs_goto (ga_result st (bs_set (bs_g st) w c) s' n r) t Outside)"
      using r1 by simp
    moreover have "bs_goto (ga_result st (bs_set (bs_g st) w c) s' n r) t Outside = ga_result st (bs_set (bs_g st) w c) s' n r"
      by (rule bs_goto_back [OF at]) (simp add: ga_result_def)
    ultimately show ?thesis by (simp add: ca)
  qed
qed

lemma bc_free_run:
  assumes at: "bs_at st t Outside" and w: "bs_which_for (bs_g st) n = Some w" and p: "(p, n) \<in># bs_held st"
    and fr: "bc_free OS (ga_ma (bs_g st)) start (bs_get (bs_g st) w) (bs_os st) p = Some (ca, s')"
  shows "(bs_step OS)\<^sup>*\<^sup>* st (st\<lparr> bs_g := bs_set (bs_g st) w (bc_cache ca), bs_os := s', bs_held := bs_held st - {#(p, n)#} \<rparr>)"
proof -
  let ?len = "length (bs_array st w)" let ?slot = "start mod ?len"
  let ?pc = "Putting n p ?slot (?slot * 2 + 1) (bc_patience ?len)"
  let ?st0 = "bs_goto (st\<lparr> bs_held := bs_held st - {#(p, n)#} \<rparr>) t ?pc"
  have b: "bs_step OS st ?st0" by (rule bs_step.free_begin [OF at p w refl])
  have at0: "bs_at ?st0 t ?pc" using at by (simp add: bs_at_def bs_goto_def)
  obtain c q where c: "put_loop (bc_patience ?len) ?slot (?slot * 2 + 1) (bs_array st w) p = (c, q)" by fastforce
  note run = put_loop_run [OF at0, of w c q OS]
  show ?thesis
  proof (cases q)
    case None
    then have "ca = (bs_get (bs_g st) w)\<lparr> bc_cache := c \<rparr>" "s' = bs_os st"
      using fr c by (simp_all add: bc_free_def Let_def)
    moreover have "(bs_step OS)\<^sup>*\<^sup>* ?st0 (bs_goto (st\<lparr> bs_g := bs_set (bs_g st) w c, bs_held := bs_held st - {#(p, n)#} \<rparr>) t Outside)"
      using run w c None by (simp add: bs_goto_def bs_held_g)
    ultimately show ?thesis
      using converse_rtranclp_into_rtranclp [of "bs_step OS", OF b] at by (simp add: bs_goto_back)
  next
    case (Some v)
    then have ca: "ca = (bs_get (bs_g st) w)\<lparr> bc_cache := c \<rparr>"
      and ma: "ma_dealloc OS (ga_ma (bs_g st)) (bs_os st) v (bc_layout (bs_get (bs_g st) w)) = Some s'"
      using fr c by (auto simp: bc_free_def Let_def split: Option.bind_splits)
    obtain slot' where r1: "(bs_step OS)\<^sup>*\<^sup>* ?st0 (bs_goto (?st0\<lparr> bs_g := bs_set (bs_g st) w c \<rparr>) t (Putting n v slot' (?slot * 2 + 1) 0))"
      using run w c Some by auto
    let ?st1 = "bs_goto (?st0\<lparr> bs_g := bs_set (bs_g st) w c \<rparr>) t (Putting n v slot' (?slot * 2 + 1) 0)"
    let ?fin = "st\<lparr> bs_g := bs_set (bs_g st) w c, bs_os := s', bs_held := bs_held st - {#(p, n)#} \<rparr>"
    have "bs_step OS ?st1 (bs_goto ?fin t Outside)"
      using bs_step.put_unmap [of ?st1 t n v slot' "?slot * 2 + 1" w OS s'] at w ma by (simp add: bs_goto_def bs_at_def bs_held_g)
    moreover have "bs_goto ?fin t Outside = ?fin" by (rule bs_goto_back [OF at]) simp
    ultimately have "bs_step OS ?st1 ?fin" by simp
    then have "(bs_step OS)\<^sup>*\<^sup>* ?st0 ?fin" using r1 by (rule rtranclp.rtrancl_into_rtrancl [rotated])
    then show ?thesis using converse_rtranclp_into_rtranclp [of "bs_step OS", OF b] by (simp add: ca)
  qed
qed

lemma bc_alloc_only_cache:
  "bc_alloc OS m start ca s = Some (ca', s', r) \<Longrightarrow> ca' = ca\<lparr> bc_cache := bc_cache ca' \<rparr>"
  by (auto simp: bc_alloc_def Let_def split: prod.splits option.splits Option.bind_splits)

lemma bc_free_only_cache:
  "bc_free OS m start ca s p = Some (ca', s') \<Longrightarrow> ca' = ca\<lparr> bc_cache := bc_cache ca' \<rparr>"
  by (auto simp: bc_free_def Let_def split: prod.splits option.splits Option.bind_splits)

text \<open>\<open>GlobalAllocator::alloc\<close> is a call of the selected cache, or of \<open>MapAlloc\<close>.\<close>

lemma ga_alloc_cases:
  assumes "ga_alloc OS start g s n = Some (g', s', r)"
  obtains (cached) w ca where "bs_which_for g n = Some w" "bc_alloc OS (ga_ma g) start (bs_get g w) s = Some (ca, s', r)"
      "g' = bs_set g w (bc_cache ca)"
    | (mapped) l where "bs_which_for g n = None" "layout_from_size_align n 1 = Some l" "ma_alloc OS (ga_ma g) s l = Some (s', r)" "g' = g"
proof (cases "bs_which_for g n")
  case None
  then show ?thesis using assms mapped
    by (auto simp: ga_alloc_def bs_which_for_def split: if_splits Option.bind_splits)
next
  case (Some w)
  show ?thesis
  proof (cases w)
    case Small_objs
    then obtain ca where ca: "bc_alloc OS (ga_ma g) start (ga_small_objs g) s = Some (ca, s', r)" "g' = g\<lparr> ga_small_objs := ca \<rparr>"
      using assms Some by (auto simp: ga_alloc_def bs_which_for_def split: if_splits Option.bind_splits)
    then show ?thesis using cached [of Small_objs ca] Some Small_objs bc_alloc_only_cache [OF ca(1)] by simp
  next
    case Large_objs
    then obtain ca where ca: "bc_alloc OS (ga_ma g) start (ga_large_objs g) s = Some (ca, s', r)" "g' = g\<lparr> ga_large_objs := ca \<rparr>"
      using assms Some by (auto simp: ga_alloc_def bs_which_for_def split: if_splits Option.bind_splits)
    then show ?thesis using cached [of Large_objs ca] Some Large_objs bc_alloc_only_cache [OF ca(1)] by simp
  qed
qed

lemma ga_free_cases:
  assumes "ga_free OS start g s p n = Some (g', s')"
  obtains (cached) w ca where "bs_which_for g n = Some w" "bc_free OS (ga_ma g) start (bs_get g w) s p = Some (ca, s')"
      "g' = bs_set g w (bc_cache ca)"
    | (mapped) l where "bs_which_for g n = None" "layout_from_size_align n 1 = Some l" "ma_dealloc OS (ga_ma g) s p l = Some s'" "g' = g"
proof (cases "bs_which_for g n")
  case None
  then show ?thesis using assms mapped
    by (auto simp: ga_free_def bs_which_for_def split: if_splits Option.bind_splits)
next
  case (Some w)
  show ?thesis
  proof (cases w)
    case Small_objs
    then obtain ca where ca: "bc_free OS (ga_ma g) start (ga_small_objs g) s p = Some (ca, s')" "g' = g\<lparr> ga_small_objs := ca \<rparr>"
      using assms Some by (auto simp: ga_free_def bs_which_for_def split: if_splits Option.bind_splits)
    then show ?thesis using cached [of Small_objs ca] Some Small_objs bc_free_only_cache [OF ca(1)] by simp
  next
    case Large_objs
    then obtain ca where ca: "bc_free OS (ga_ma g) start (ga_large_objs g) s p = Some (ca, s')" "g' = g\<lparr> ga_large_objs := ca \<rparr>"
      using assms Some by (auto simp: ga_free_def bs_which_for_def split: if_splits Option.bind_splits)
    then show ?thesis using cached [of Large_objs ca] Some Large_objs bc_free_only_cache [OF ca(1)] by simp
  qed
qed

text \<open>A request the allocator can serve.\<close>

definition bs_request :: "'s os_ops \<Rightarrow> global_allocator \<Rightarrow> nat \<Rightarrow> bool" where
  "bs_request OS g n \<longleftrightarrow> (bs_which_for g n = None \<longrightarrow> n + os_pagesize OS \<le> 2 ^ 64)"

lemma ga_alloc_run:
  assumes at: "bs_at st t Outside" and ok: "ga_ok (bs_g st)" "0 < os_pagesize OS" "bs_request OS (bs_g st) n"
    and al: "ga_alloc OS start (bs_g st) (bs_os st) n = Some (g', s', r)"
  shows "(bs_step OS)\<^sup>*\<^sup>* st (ga_result st g' s' n r)"
  using al
proof (cases rule: ga_alloc_cases)
  case (cached w ca)
  then show ?thesis using bc_alloc_run [OF at cached(1,2)] by simp
next
  case (mapped l)
  have "l = \<lparr> lay_size = n, lay_align = 1 \<rparr>" using mapped(2) by (simp add: layout_from_size_align_def split: if_splits)
  moreover have "0 < n" using mapped(1) ok(1) by (auto simp: bs_which_for_def ga_ok_def split: if_splits)
  ultimately have "mappable (os_pagesize OS) l" using ok(2,3) mapped(1) by (simp add: mappable_def bs_request_def)
  then show ?thesis
    using mapped at bs_step.big_alloc [of st t n l OS s'] bs_step.big_fail [of st t n l OS s']
    by (cases r) (auto simp: ga_result_def)
qed

lemma ga_free_run:
  assumes at: "bs_at st t Outside" and p: "(p, n) \<in># bs_held st"
    and fr: "ga_free OS start (bs_g st) (bs_os st) p n = Some (g', s')"
  shows "(bs_step OS)\<^sup>*\<^sup>* st (st\<lparr> bs_g := g', bs_os := s', bs_held := bs_held st - {#(p, n)#} \<rparr>)"
  using fr
proof (cases rule: ga_free_cases)
  case (cached w ca)
  then show ?thesis using bc_free_run [OF at cached(1) p cached(2)] by simp
next
  case (mapped l)
  then show ?thesis using at p bs_step.big_free [of st t p n l OS s'] by auto
qed

lemma bs_steps_inv:
  assumes "(bs_step OS)\<^sup>*\<^sup>* st st'" "mmap_os OS mapped byte (ga_ma (bs_g st))" "os_pagesize OS < 2 ^ 63" "bs_inv OS mapped base st"
  shows "bs_inv OS mapped base st' \<and> ga_ma (bs_g st') = ga_ma (bs_g st)"
  using assms
proof (induction rule: rtranclp_induct)
  case (step y z)
  then show ?case using bs_step_inv [of OS mapped byte y base z] by simp
qed simp

lemma bs_init_inv:
  assumes "ga_new OS = Some g"
  shows "bs_inv OS mapped (mapped s) (bs_init g s threads)" "ga_ma g = the (map_alloc_default OS)"
proof -
  have l: "layout_from_size_align 1024 1 = Some \<lparr> lay_size = 1024, lay_align = 1 \<rparr>"
      "layout_from_size_align 18432 1 = Some \<lparr> lay_size = 18432, lay_align = 1 \<rparr>"
    by (simp_all add: layout_from_size_align_def)
  obtain m where m: "map_alloc_default OS = Some m"
    using assms by (auto simp: ga_new_def split: Option.bind_splits)
  have g: "g = \<lparr> ga_small_objs = \<lparr> bc_object_size = 1024, bc_layout = \<lparr> lay_size = 1024, lay_align = 1 \<rparr>, bc_cache = replicate 8 null \<rparr>,
      ga_large_objs = \<lparr> bc_object_size = 18432, bc_layout = \<lparr> lay_size = 18432, lay_align = 1 \<rparr>, bc_cache = replicate 4 null \<rparr>,
      ga_ma = m \<rparr>"
    using assms by (simp add: ga_new_def bc_new_def m push_bit_eq_mult l [unfolded One_nat_def])
  have z: "sum_list (replicate n {#}) = {#}" for n :: nat by (induction n) simp_all
  have "bs_blocks (bs_init g s threads) = {#}"
    by (simp add: bs_blocks_def bs_init_def in_hand_def flights_def caches_def cached_def g z)
  then have "blocks_at (os_pagesize OS) (mapped s) Map.empty (mapped s) \<and> accounts Map.empty (bs_blocks (bs_init g s threads))"
    by (simp add: blocks_at_start accounts_def)
  moreover have "ga_ok g" by (simp add: g ga_ok_def)
  ultimately show "bs_inv OS mapped (mapped s) (bs_init g s threads)"
    unfolding bs_inv_def by (auto simp: bs_init_def)
  show "ga_ma g = the (map_alloc_default OS)" by (simp add: g m)
qed

lemma default_mmap_os:
  "os_contract OS mapped byte \<Longrightarrow> mmap_os OS mapped byte (the (map_alloc_default OS))"
  by (simp add: mmap_os_def map_alloc_default_def builder_build_def builder_default_def)

subsection \<open>No call panics, and contents are kept\<close>

lemma ma_alloc_total:
  assumes "mmap_os OS mapped byte m" "mappable (os_pagesize OS) l" "blocks_at (os_pagesize OS) base live (mapped s)"
  shows "\<exists>s' r. ma_alloc OS m s l = Some (s', r) \<and> kept byte s s' (mapped s)"
  using alloc_cases [OF assms] by blast

lemma ga_alloc_total:
  assumes os: "mmap_os OS mapped byte (ga_ma (bs_g st))" "os_pagesize OS < 2 ^ 63" and inv: "bs_inv OS mapped base st"
    and req: "bs_request OS (bs_g st) n"
  shows "\<exists>g' s' r. ga_alloc OS start (bs_g st) (bs_os st) n = Some (g', s', r) \<and> kept byte (bs_os st) s' (mapped (bs_os st))"
proof -
  let ?g = "bs_g st"
  obtain live where live: "blocks_at (os_pagesize OS) base live (mapped (bs_os st))" and ok: "ga_ok ?g"
    using inv by (auto simp: bs_inv_def)
  have bc: "\<exists>ca s' r. bc_alloc OS (ga_ma ?g) start (bs_get ?g w) (bs_os st) = Some (ca, s', r)
      \<and> kept byte (bs_os st) s' (mapped (bs_os st))" for w
    using ma_alloc_total [OF os(1) bs_layout_mappable [OF ok pg_pos [OF os(1)] os(2), of w] live]
    by (auto simp: bc_alloc_def Let_def kept_def split: prod.split option.split)
  have big: "\<exists>l s' r. layout_from_size_align n 1 = Some l \<and> ma_alloc OS (ga_ma ?g) (bs_os st) l = Some (s', r)
      \<and> kept byte (bs_os st) s' (mapped (bs_os st))" if "bs_which_for ?g n = None"
  proof -
    let ?l = "\<lparr> lay_size = n, lay_align = 1 \<rparr>"
    have n: "0 < n" "n + os_pagesize OS \<le> 2 ^ 64"
      using that ok req by (auto simp: bs_which_for_def ga_ok_def bs_request_def split: if_splits)
    have "mappable (os_pagesize OS) ?l" using n pg_pos [OF os(1)] by (simp add: mappable_def)
    moreover have "layout_from_size_align n 1 = Some ?l"
      using n pg_pos [OF os(1)] by (simp add: layout_from_size_align_def)
    ultimately show ?thesis using ma_alloc_total [OF os(1) _ live, of ?l] by blast
  qed
  show ?thesis
  proof (cases "bs_which_for ?g n")
    case None
    then show ?thesis using big by (auto simp: ga_alloc_def bs_which_for_def split: if_splits)
  next
    case (Some w)
    then show ?thesis
      using bc [of w] by (cases w) (auto simp: ga_alloc_def bs_which_for_def split: if_splits)
  qed
qed

lemma bs_flying:
  assumes inv: "bs_inv OS mapped base st" and at: "bs_at st t (Putting n v slot stride k)"
    and live: "blocks_at (os_pagesize OS) base live (mapped (bs_os st))" "accounts live (bs_blocks st)"
  shows "live v = Some (bs_block (bs_g st) n)"
proof -
  note at = bs_inv_at [OF inv at]
  have v: "v \<noteq> null" using at(3) by (auto simp: thread_ok_def)
  have "flights (bs_g st) (bs_threads st) = add_mset (v, bs_block (bs_g st) n) (flights (bs_g st) ((bs_threads st)[t := Outside]))"
    using flights_goto [OF at(1), of "bs_g st" Outside] at(2) v by simp
  then have "(v, bs_block (bs_g st) n) \<in># bs_blocks st" by (simp add: bs_blocks_def)
  then show ?thesis by (rule accounts_live [OF live(2)])
qed

lemma bc_free_total:
  assumes os: "mmap_os OS mapped byte (ga_ma (bs_g st))" "os_pagesize OS < 2 ^ 63" and inv: "bs_inv OS mapped base st"
    and at: "bs_at st t Outside" and w: "bs_which_for (bs_g st) n = Some w" and p: "(p, n) \<in># bs_held st"
  shows "\<exists>ca s'. bc_free OS (ga_ma (bs_g st)) start (bs_get (bs_g st) w) (bs_os st) p = Some (ca, s')
    \<and> kept byte (bs_os st) s' (mapped s')"
proof -
  let ?len = "length (bs_array st w)" let ?slot = "start mod ?len"
  let ?pc = "Putting n p ?slot (?slot * 2 + 1) (bc_patience ?len)"
  let ?st0 = "bs_goto (st\<lparr> bs_held := bs_held st - {#(p, n)#} \<rparr>) t ?pc"
  have b: "bs_step OS st ?st0" by (rule bs_step.free_begin [OF at p w refl])
  have at0: "bs_at ?st0 t ?pc" using at by (simp add: bs_at_def bs_goto_def)
  obtain c q where c: "put_loop (bc_patience ?len) ?slot (?slot * 2 + 1) (bs_array st w) p = (c, q)" by fastforce
  show ?thesis
  proof (cases q)
    case None
    then show ?thesis using c by (simp add: bc_free_def Let_def kept_def)
  next
    case (Some v)
    then obtain slot' where r1: "(bs_step OS)\<^sup>*\<^sup>* ?st0 (bs_goto (?st0\<lparr> bs_g := bs_set (bs_g st) w c \<rparr>) t (Putting n v slot' (?slot * 2 + 1) 0))"
      using put_loop_run [OF at0, of w c q OS] w c by auto
    let ?st1 = "bs_goto (?st0\<lparr> bs_g := bs_set (bs_g st) w c \<rparr>) t (Putting n v slot' (?slot * 2 + 1) 0)"
    have "(bs_step OS)\<^sup>*\<^sup>* st ?st1" using b r1 by (rule converse_rtranclp_into_rtranclp)
    then have inv1: "bs_inv OS mapped base ?st1" using bs_steps_inv [OF _ os inv] by blast
    then obtain live where live: "blocks_at (os_pagesize OS) base live (mapped (bs_os ?st1))" "accounts live (bs_blocks ?st1)"
      by (auto simp: bs_inv_def)
    have "bs_at ?st1 t (Putting n v slot' (?slot * 2 + 1) 0)" using at by (simp add: bs_at_def bs_goto_def)
    then have "live v = Some (bc_layout (bs_get (bs_g st) w))"
      using bs_flying [OF inv1 _ live] w by (simp add: bs_block_which)
    then obtain s' where "ma_dealloc OS (ga_ma (bs_g st)) (bs_os st) v (bc_layout (bs_get (bs_g st) w)) = Some s'"
        "kept byte (bs_os st) s' (mapped s')"
      using dealloc_ok [OF os(1) live(1), of v] by auto
    then show ?thesis using c Some by (simp add: bc_free_def Let_def)
  qed
qed

lemma bs_held_live:
  assumes "bs_inv OS mapped base st" "accounts live (bs_blocks st)" "(p, n) \<in># bs_held st"
  shows "live p = Some (bs_block (bs_g st) n)"
  using accounts_live [OF assms(2), of p "bs_block (bs_g st) n"] in_hand_remove [OF assms(3), of "bs_g st"]
  by (simp add: bs_blocks_def)

lemma ga_free_total:
  assumes os: "mmap_os OS mapped byte (ga_ma (bs_g st))" "os_pagesize OS < 2 ^ 63" and inv: "bs_inv OS mapped base st"
    and at: "bs_at st t Outside" and p: "(p, n) \<in># bs_held st"
  shows "\<exists>g' s'. ga_free OS start (bs_g st) (bs_os st) p n = Some (g', s') \<and> kept byte (bs_os st) s' (mapped s')"
proof (cases "bs_which_for (bs_g st) n")
  case (Some w)
  then show ?thesis
    using bc_free_total [OF os inv at Some p, of start]
    by (cases w) (auto simp: ga_free_def bs_which_for_def split: if_splits)
next
  case None
  obtain live where live: "blocks_at (os_pagesize OS) base live (mapped (bs_os st))" "accounts live (bs_blocks st)"
    using inv by (auto simp: bs_inv_def)
  let ?l = "\<lparr> lay_size = n, lay_align = 1 \<rparr>"
  have l: "live p = Some ?l" using bs_held_live [OF inv live(2) p] None by (simp add: bs_block_def)
  then have "mappable (os_pagesize OS) ?l" using blocks_at_block [OF live(1), of p ?l] by simp
  then have "layout_from_size_align n 1 = Some ?l"
    using pg_pos [OF os(1)] by (simp add: mappable_def layout_from_size_align_def)
  moreover obtain s' where "ma_dealloc OS (ga_ma (bs_g st)) (bs_os st) p ?l = Some s'" "kept byte (bs_os st) s' (mapped s')"
    using dealloc_ok [OF os(1) live(1), of p ?l, OF l] by auto
  ultimately show ?thesis using None by (auto simp: ga_free_def bs_which_for_def split: if_splits)
qed

lemma bs_block_size: "ga_ok g \<Longrightarrow> n \<le> lay_size (bs_block g n)"
  by (auto simp: bs_block_def bs_which_for_def ga_ok_def)

lemma block_region:
  assumes "0 < pg" "n \<le> lay_size l"
  shows "region p n \<subseteq> pages pg p (lay_size l)"
  using round_up_bounds(1) [OF assms(1), of "lay_size l"] assms(2) by (auto simp: pages_def region_def)

lemma bs_held_mapped:
  assumes inv: "bs_inv OS mapped base st" and pg: "0 < os_pagesize OS" and p: "(p, n) \<in># bs_held st"
  shows "region p n \<subseteq> mapped (bs_os st)"
proof -
  obtain live where live: "blocks_at (os_pagesize OS) base live (mapped (bs_os st))" "accounts live (bs_blocks st)"
    and ok: "ga_ok (bs_g st)"
    using inv by (auto simp: bs_inv_def)
  have "live p = Some (bs_block (bs_g st) n)" by (rule bs_held_live [OF inv live(2) p])
  then have "pages (os_pagesize OS) p (lay_size (bs_block (bs_g st) n)) \<subseteq> mapped (bs_os st)"
    using blocks_at_block [OF live(1), of p] by blast
  then show ?thesis using block_region [OF pg bs_block_size [OF ok, of n], of p] by blast
qed

lemma bs_two_held:
  assumes inv: "bs_inv OS mapped base st" and pg: "0 < os_pagesize OS"
    and pq: "(p, n) \<in># bs_held st" "(q, k) \<in># bs_held st - {#(p, n)#}"
  shows "p \<noteq> q" "region p n \<inter> region q k = {}"
proof -
  let ?g = "bs_g st"
  obtain live where live: "blocks_at (os_pagesize OS) base live (mapped (bs_os st))" "accounts live (bs_blocks st)" and ok: "ga_ok ?g"
    using inv by (auto simp: bs_inv_def)
  have q: "(q, k) \<in># bs_held st" using pq(2) by (rule in_diffD)
  have l: "live p = Some (bs_block ?g n)" "live q = Some (bs_block ?g k)"
    using bs_held_live [OF inv live(2) pq(1)] bs_held_live [OF inv live(2) q] by simp_all
  show ne: "p \<noteq> q"
  proof
    assume "p = q"
    then have same: "bs_block ?g n = bs_block ?g k" using l by simp
    have "in_hand ?g (bs_held st) = add_mset (p, bs_block ?g n) (in_hand ?g (bs_held st - {#(p, n)#}))"
      by (rule in_hand_remove [OF pq(1)])
    also have "in_hand ?g (bs_held st - {#(p, n)#}) = add_mset (q, bs_block ?g k) (in_hand ?g (bs_held st - {#(p, n)#} - {#(q, k)#}))"
      by (rule in_hand_remove [OF pq(2)])
    finally have "2 \<le> count (bs_blocks st) (p, bs_block ?g n)" using same \<open>p = q\<close> by (simp add: bs_blocks_def)
    then show False using live(2) by (simp add: accounts_def split: if_splits)
  qed
  have "apart (os_pagesize OS) live" using live(1) by (simp add: blocks_at_def)
  from this [unfolded apart_def, rule_format, of p _ q, OF l ne]
  have "pages (os_pagesize OS) p (lay_size (bs_block ?g n)) \<inter> pages (os_pagesize OS) q (lay_size (bs_block ?g k)) = {}" .
  then show "region p n \<inter> region q k = {}"
    using block_region [OF pg bs_block_size [OF ok, of n], of p] block_region [OF pg bs_block_size [OF ok, of k], of q] by blast
qed

lemma nonoverlapping_disjoint:
  assumes "region p n \<inter> region q k = {}" "0 < n" "0 < k"
  shows "nonoverlapping (unat p, unat p + n) (unat q, unat q + k)"
proof -
  have "unat p + n \<le> unat q \<or> unat q + k \<le> unat p"
  proof (rule ccontr)
    assume "\<not> ?thesis"
    then have "max (unat p) (unat q) \<in> region p n \<inter> region q k" using assms(2,3) by (auto simp: region_def max_def)
    then show False using assms(1) by blast
  qed
  then show ?thesis using assms(2,3) by (auto simp: nonoverlapping_def Let_def)
qed

text \<open>\<open>realloc\<close> panics only where the allocation of the new block fails, and otherwise the new
  block starts with the contents of the old one.\<close>

lemma bs_realloc_ok:
  assumes os: "mmap_os OS mapped byte (ga_ma (bs_g st))" "os_pagesize OS < 2 ^ 63" and copy: "copy_contract OS mapped byte"
    and inv: "bs_inv OS mapped base st" and at: "bs_at st t Outside" and p: "(p, lay_size old_l) \<in># bs_held st"
    and req: "bs_request OS (bs_g st) (lay_size new_l)" and sz: "0 < lay_size old_l" "0 < lay_size new_l"
    and al: "ga_alloc OS start (bs_g st) (bs_os st) (lay_size new_l) = Some (g1, s1, Inr q)"
  shows "\<exists>g' s'. bs_realloc OS start start' (bs_g st) (bs_os st) p old_l new_l = Some (g', s', q)
    \<and> bs_inv OS mapped base (st\<lparr> bs_g := g', bs_os := s',
        bs_held := add_mset (q, lay_size new_l) (bs_held st - {#(p, lay_size old_l)#}) \<rparr>)
    \<and> (\<forall>i < min (lay_size old_l) (lay_size new_l). byte s' (unat q + i) = byte (bs_os st) (unat p + i))"
proof -
  let ?n = "lay_size old_l" let ?k = "lay_size new_l" let ?m = "min ?n ?k"
  note pg = pg_pos [OF os(1)]
  have ok: "ga_ok (bs_g st)" using inv by (simp add: bs_inv_def)
  let ?st1 = "ga_result st g1 s1 ?k (Inr q)"
  have run1: "(bs_step OS)\<^sup>*\<^sup>* st ?st1" by (rule ga_alloc_run [OF at ok pg req al])
  note inv1 = bs_steps_inv [OF run1 os inv]
  have held1: "bs_held ?st1 = add_mset (q, ?k) (bs_held st)" by (simp add: ga_result_def)
  have p1: "(p, ?n) \<in># bs_held ?st1" "(q, ?k) \<in># bs_held ?st1 - {#(p, ?n)#}" using p by (simp_all add: held1)
  note two = bs_two_held [OF conjunct1 [OF inv1] pg p1]
  have disj: "region p ?m \<inter> region q ?m = {}" using two(2) by (auto simp: region_def disjoint_iff)
  define s2 where "s2 = os_copy OS s1 p q ?m"
  have s2: "mapped s2 = mapped s1" "\<forall>i < ?m. byte s2 (unat q + i) = byte s1 (unat p + i)" "kept byte s1 s2 (- region q ?m)"
    using copy disj unfolding copy_contract_def s2_def by blast+
  let ?st2 = "?st1\<lparr> bs_os := s2 \<rparr>"
  have "bs_inv OS mapped base ?st2"
    by (rule bs_inv_same [OF conjunct1 [OF inv1]])
      (use conjunct1 [OF inv1] s2(1) in \<open>auto simp: bs_inv_def ga_result_def bs_blocks_def\<close>)
  moreover have "bs_at ?st2 t Outside" using at by (simp add: bs_at_def ga_result_def)
  moreover have "(p, ?n) \<in># bs_held ?st2" using p1 by simp
  moreover have "mmap_os OS mapped byte (ga_ma (bs_g ?st2))" using inv1 os(1) by simp
  ultimately obtain g3 s3 where fr: "ga_free OS start' (bs_g ?st2) (bs_os ?st2) p ?n = Some (g3, s3)" "kept byte s2 s3 (mapped s3)"
    and inv3: "bs_inv OS mapped base (?st2\<lparr> bs_g := g3, bs_os := s3, bs_held := bs_held ?st2 - {#(p, ?n)#} \<rparr>)"
      (is "bs_inv _ _ _ ?st3")
    using ga_free_total [of OS mapped byte ?st2 base t p ?n start'] os(2)
      bs_steps_inv [OF ga_free_run [of ?st2 t p ?n OS start']] by auto
  have re: "bs_realloc OS start start' (bs_g st) (bs_os st) p old_l new_l = Some (g3, s3, q)"
    using al fr(1) nonoverlapping_disjoint [OF two(2) sz]
    by (simp add: bs_realloc_def bs_alloc_def bs_dealloc_def ga_result_def s2_def Let_def)
  have st3: "?st3 = st\<lparr> bs_g := g3, bs_os := s3, bs_held := add_mset (q, ?k) (bs_held st - {#(p, ?n)#}) \<rparr>"
    using p two(1) by (simp add: ga_result_def)
  have q3: "(q, ?k) \<in># bs_held ?st3" unfolding st3 by simp
  have "byte s3 (unat q + i) = byte (bs_os st) (unat p + i)" if i: "i < ?m" for i
  proof -
    have "unat q + i \<in> mapped s3" using bs_held_mapped [OF inv3 pg q3] i by (auto simp: region_def)
    then have "byte s3 (unat q + i) = byte s2 (unat q + i)" using fr(2) by (simp add: kept_def)
    also have "\<dots> = byte s1 (unat p + i)" using s2(2) i by blast
    also have "\<dots> = byte (bs_os st) (unat p + i)"
    proof -
      have "unat p + i \<in> mapped (bs_os st)" using bs_held_mapped [OF inv pg p] i by (auto simp: region_def)
      then show ?thesis using ga_alloc_total [OF os inv req, of start] al by (auto simp: kept_def)
    qed
    finally show ?thesis .
  qed
  then show ?thesis using re inv3 unfolding st3 by blast
qed

subsection \<open>Every call ends\<close>

fun rounds :: "bs_pc \<Rightarrow> nat" where
  "rounds Outside = 0"
| "rounds (Taking n slot stride k) = Suc k"
| "rounds (Putting n p slot stride k) = Suc k"

lemma bs_progress:
  assumes os: "mmap_os OS mapped byte (ga_ma (bs_g st))" "os_pagesize OS < 2 ^ 63" and inv: "bs_inv OS mapped base st"
    and at: "bs_at st t pc" and pc: "pc \<noteq> Outside"
  shows "\<exists>st' pc'. bs_step OS st st' \<and> bs_at st' t pc' \<and> rounds pc' < rounds pc"
proof -
  note ok = bs_inv_at [OF inv at]
  obtain live where live: "blocks_at (os_pagesize OS) base live (mapped (bs_os st))" "accounts live (bs_blocks st)"
    using inv by (auto simp: bs_inv_def)
  have via: ?thesis if "bs_step OS st (bs_goto st1 t pc')" "bs_threads st1 = bs_threads st" "rounds pc' < rounds pc" for st1 pc'
    using ok(1) that by (intro exI [of _ "bs_goto st1 t pc'"] exI [of _ pc']) (simp add: bs_at_def bs_goto_def)
  show ?thesis
  proof (cases pc)
    case (Taking n slot stride k)
    then obtain w where w: "bs_which_for (bs_g st) n = Some w" using ok(3) by (auto simp: thread_ok_def)
    show ?thesis
    proof (cases k)
      case 0
      note pc0 = at [unfolded Taking 0]
      obtain s' r where "ma_alloc OS (ga_ma (bs_g st)) (bs_os st) (bc_layout (bs_get (bs_g st) w)) = Some (s', r)"
        using ma_alloc_total [OF os(1) bs_layout_mappable [OF ok(4) pg_pos [OF os(1)] os(2), of w] live(1)] by blast
      then show ?thesis
        using via [OF bs_step.take_map [OF pc0 w, of OS s']] via [OF bs_step.take_fail [OF pc0 w, of OS s']] Taking
        by (cases r) simp_all
    next
      case (Suc j)
      note pc0 = at [unfolded Taking Suc]
      obtain c p where "bc_swap (bs_array st w) slot null = (c, p)" by fastforce
      then show ?thesis
        using via [OF bs_step.take_hit [OF pc0 w, of c p OS]] via [OF bs_step.take_miss [OF pc0 w, of c OS]] Taking Suc
        by (cases "p = null") simp_all
    qed
  next
    case (Putting n p slot stride k)
    then obtain w where w: "bs_which_for (bs_g st) n = Some w" using ok(3) by (auto simp: thread_ok_def)
    show ?thesis
    proof (cases k)
      case 0
      note pc0 = at [unfolded Putting 0]
      have "live p = Some (bc_layout (bs_get (bs_g st) w))"
        using bs_flying [OF inv pc0 live] w by (simp add: bs_block_which)
      then obtain s' where "ma_dealloc OS (ga_ma (bs_g st)) (bs_os st) p (bc_layout (bs_get (bs_g st) w)) = Some s'"
        using dealloc_ok [OF os(1) live(1), of p] by blast
      then show ?thesis using via [OF bs_step.put_unmap [OF pc0 w, of OS s']] Putting by simp
    next
      case (Suc j)
      note pc0 = at [unfolded Putting Suc]
      obtain c q where "bc_swap (bs_array st w) slot p = (c, q)" by fastforce
      then show ?thesis
        using via [OF bs_step.put_miss [OF pc0 w, of c q OS]] via [OF bs_step.put_hit [OF pc0 w, of c OS]] Putting Suc
        by (cases "q = null") simp_all
    qed
  qed (use pc in simp)
qed

text \<open>No step of another thread changes where a thread is.\<close>

lemma bs_step_others: "bs_step OS st st' \<Longrightarrow> \<exists>t pc. bs_threads st' = (bs_threads st)[t := pc]"
  by (erule bs_step.cases; simp add: bs_goto_def; (blast | metis list_update_id))

end
