(* ===== verification/Malloc_Bind.thy ===== *)
theory Malloc_Bind
  imports Prelude
begin

text \<open>
  The crate \<open>malloc-bind\<close> (\<open>malloc-bind/src/lib.rs\<close>): the C allocation functions on top of an
  allocator and a \<open>LayoutFinder\<close> that remembers the layout of every block.  Allocator and finder
  are one object in the code (\<open>Malloc\<close> extends both traits); here they are a record of functions
  over an arbitrary state, and \<open>malloc_contract\<close> states what the two traits document.  Sizes are
  64-bit words: whether overflow panics depends on \<open>cfg!(debug_assertions)\<close>, which the code itself
  consults, so it is an argument, as is the target operating system.  The theory shows that every
  history of calls in which \<open>realloc\<close> moves no block keeps the blocks of the client apart and their
  layouts known, that a moving \<open>realloc\<close> leaves the contract of the finder, and what the functions
  do on each error.
\<close>

subsection \<open>The traits\<close>

datatype target = Linux | MacOS | Windows

datatype mb_err = MbExhausted | MbUnsupported

datatype c_errno = ENOMEM | EINVAL

record 's malloc_ops =
  mo_alloc :: "'s \<Rightarrow> layout \<Rightarrow> 's \<times> (mb_err + ptr)"
  mo_alloc_zeroed :: "'s \<Rightarrow> layout \<Rightarrow> 's \<times> (mb_err + ptr)"
  mo_dealloc :: "'s \<Rightarrow> ptr \<Rightarrow> layout \<Rightarrow> 's"
  mo_realloc :: "'s \<Rightarrow> ptr \<Rightarrow> layout \<Rightarrow> layout \<Rightarrow> 's \<times> (mb_err + ptr)"
  mo_get_layout :: "'s \<Rightarrow> ptr \<Rightarrow> layout"
  mo_insert_layout :: "'s \<Rightarrow> ptr \<Rightarrow> layout \<Rightarrow> 's"
  mo_delete_layout :: "'s \<Rightarrow> ptr \<Rightarrow> 's"

text \<open>The object and \<open>errno\<close>.\<close>

record 's c_state =
  cs_self :: 's
  cs_errno :: "c_errno option"

definition min_align :: "target \<Rightarrow> usize" where
  "min_align T = (case T of Linux \<Rightarrow> 8 | MacOS \<Rightarrow> 16 | Windows \<Rightarrow> 16)"

definition word_size :: usize where
  "word_size = 8"

subsection \<open>Rounding\<close>

definition checked_add :: "bool \<Rightarrow> usize \<Rightarrow> usize \<Rightarrow> usize option" where
  "checked_add dbg a b = (if dbg \<and> unat a + unat b \<ge> 2 ^ 64 then None else Some (a + b))"

definition checked_mul :: "bool \<Rightarrow> usize \<Rightarrow> usize \<Rightarrow> usize option" where
  "checked_mul dbg a b = (if dbg \<and> unat a * unat b \<ge> 2 ^ 64 then None else Some (a * b))"

definition checked_rem :: "usize \<Rightarrow> usize \<Rightarrow> usize option" where
  "checked_rem a b = (if b = 0 then None else Some (a mod b))"

definition roundup :: "bool \<Rightarrow> usize \<Rightarrow> usize \<Rightarrow> usize option" where
  "roundup dbg n multiple =
     (if n = 0 then Some multiple
      else do {
        remainder \<leftarrow> checked_rem n multiple;
        if remainder = 0 then Some n
        else do {
          s \<leftarrow> checked_add dbg n multiple;
          if dbg \<and> s < remainder then None else Some (s - remainder) } })"

definition c_layout :: "bool \<Rightarrow> usize \<Rightarrow> usize \<Rightarrow> layout option" where
  "c_layout dbg sz al =
     (if dbg then layout_from_size_align (unat sz) (unat al)
      else Some \<lparr> lay_size = unat sz, lay_align = unat al \<rparr>)"

subsection \<open>Allocation\<close>

text \<open>What follows the call of the allocator in each function: the layout is remembered, or
  \<open>errno\<close> is set; \<open>None\<close> is \<open>abort\<close>.\<close>

definition c_store :: "'s malloc_ops \<Rightarrow> 's c_state \<Rightarrow> layout \<Rightarrow> 's \<times> (mb_err + ptr) \<Rightarrow> ('s c_state \<times> ptr) option" where
  "c_store M s l r =
     (case r of
        (a, Inr p) \<Rightarrow> Some (s\<lparr> cs_self := mo_insert_layout M a p l \<rparr>, p)
      | (a, Inl MbExhausted) \<Rightarrow> Some (s\<lparr> cs_self := a, cs_errno := Some ENOMEM \<rparr>, null)
      | (a, Inl MbUnsupported) \<Rightarrow> None)"

definition c_malloc :: "target \<Rightarrow> bool \<Rightarrow> 's malloc_ops \<Rightarrow> 's c_state \<Rightarrow> usize \<Rightarrow> ('s c_state \<times> ptr) option" where
  "c_malloc T dbg M s n =
     (if T = Linux \<and> n = 0 then Some (s, null)
      else do {
        sz \<leftarrow> roundup dbg n (min_align T);
        l \<leftarrow> c_layout dbg sz (min_align T);
        c_store M s l (mo_alloc M (cs_self s) l) })"

definition c_free :: "'s malloc_ops \<Rightarrow> 's c_state \<Rightarrow> ptr \<Rightarrow> 's c_state" where
  "c_free M s p =
     (if p = null then s
      else let l = mo_get_layout M (cs_self s) p; a = mo_delete_layout M (cs_self s) p
           in s\<lparr> cs_self := mo_dealloc M a p l \<rparr>)"

definition c_cfree :: "'s malloc_ops \<Rightarrow> 's c_state \<Rightarrow> ptr \<Rightarrow> 's c_state" where
  "c_cfree M s p = c_free M s p"

definition c_calloc ::
  "target \<Rightarrow> bool \<Rightarrow> 's malloc_ops \<Rightarrow> 's c_state \<Rightarrow> usize \<Rightarrow> usize \<Rightarrow> ('s c_state \<times> ptr) option" where
  "c_calloc T dbg M s nmemb n =
     (if T = Linux \<and> (nmemb = 0 \<or> n = 0) then Some (s, null)
      else do {
        prod \<leftarrow> checked_mul dbg nmemb n;
        total_size \<leftarrow> roundup dbg prod (min_align T);
        l \<leftarrow> c_layout dbg total_size (min_align T);
        c_store M s l (mo_alloc_zeroed M (cs_self s) l) })"

text \<open>\<open>pg\<close> is \<open>sysconf::page::pagesize\<close>.\<close>

definition c_valloc ::
  "target \<Rightarrow> bool \<Rightarrow> usize \<Rightarrow> 's malloc_ops \<Rightarrow> 's c_state \<Rightarrow> usize \<Rightarrow> ('s c_state \<times> ptr) option" where
  "c_valloc T dbg pg M s n =
     (if T = Linux \<and> n = 0 then Some (s, null)
      else do {
        sz \<leftarrow> roundup dbg n pg;
        l \<leftarrow> c_layout dbg sz pg;
        c_store M s l (mo_alloc M (cs_self s) l) })"

definition c_pvalloc :: "bool \<Rightarrow> usize \<Rightarrow> 's malloc_ops \<Rightarrow> 's c_state \<Rightarrow> usize \<Rightarrow> ('s c_state \<times> ptr) option" where
  "c_pvalloc dbg pg M s n =
     (if n = 0 then Some (s, null)
      else do {
        sz \<leftarrow> roundup dbg n pg;
        l \<leftarrow> c_layout dbg sz pg;
        c_store M s l (mo_alloc M (cs_self s) l) })"

text \<open>After a successful \<open>realloc\<close> the layout of the new pointer is deleted and inserted again;
  in the code the name of the old pointer is shadowed at that point.\<close>

definition c_realloc ::
  "target \<Rightarrow> bool \<Rightarrow> 's malloc_ops \<Rightarrow> 's c_state \<Rightarrow> ptr \<Rightarrow> usize \<Rightarrow> ('s c_state \<times> ptr) option" where
  "c_realloc T dbg M s p n =
     (if p = null then c_malloc T dbg M s n
      else if (T = Linux \<or> T = Windows) \<and> n = 0 then Some (c_free M s p, null)
      else do {
        sz \<leftarrow> roundup dbg n (min_align T);
        let l = mo_get_layout M (cs_self s) p;
        new_l \<leftarrow> c_layout dbg sz (min_align T);
        (case mo_realloc M (cs_self s) p l new_l of
           (a, Inr q) \<Rightarrow> Some (s\<lparr> cs_self := mo_insert_layout M (mo_delete_layout M a q) q new_l \<rparr>, q)
         | (a, Inl MbExhausted) \<Rightarrow> Some (s\<lparr> cs_self := a, cs_errno := Some ENOMEM \<rparr>, null)
         | (a, Inl MbUnsupported) \<Rightarrow> None) })"

text \<open>\<open>reallocf\<close> (macOS) also frees the block on failure.\<close>

definition c_reallocf ::
  "bool \<Rightarrow> 's malloc_ops \<Rightarrow> 's c_state \<Rightarrow> ptr \<Rightarrow> usize \<Rightarrow> ('s c_state \<times> ptr) option" where
  "c_reallocf dbg M s p n =
     (if p = null then c_malloc MacOS dbg M s n
      else do {
        sz \<leftarrow> roundup dbg n (min_align MacOS);
        let l = mo_get_layout M (cs_self s) p;
        new_l \<leftarrow> c_layout dbg sz (min_align MacOS);
        (case mo_realloc M (cs_self s) p l new_l of
           (a, Inr q) \<Rightarrow> Some (s\<lparr> cs_self := mo_insert_layout M (mo_delete_layout M a q) q new_l \<rparr>, q)
         | (a, Inl MbExhausted) \<Rightarrow> Some ((c_free M (s\<lparr> cs_self := a \<rparr>) p)\<lparr> cs_errno := Some ENOMEM \<rparr>, null)
         | (a, Inl MbUnsupported) \<Rightarrow> None) })"

text \<open>\<open>posix_memalign\<close> returns its error and writes the pointer through \<open>memptr\<close>: the result is
  the error, if any, and what was written, if anything was.\<close>

definition c_posix_memalign ::
  "target \<Rightarrow> bool \<Rightarrow> 's malloc_ops \<Rightarrow> 's c_state \<Rightarrow> usize \<Rightarrow> usize \<Rightarrow> ('s c_state \<times> c_errno option \<times> ptr option) option" where
  "c_posix_memalign T dbg M s alignment n =
     (if alignment \<le> word_size \<or> \<not> is_power_of_two (unat alignment) then Some (s, Some EINVAL, None)
      else if T = Linux \<and> n = 0 then Some (s, None, Some null)
      else do {
        sz \<leftarrow> roundup dbg n alignment;
        l \<leftarrow> c_layout dbg sz alignment;
        (case mo_alloc M (cs_self s) l of
           (a, Inr p) \<Rightarrow> Some (s\<lparr> cs_self := mo_insert_layout M a p l \<rparr>, None, Some p)
         | (a, Inl MbExhausted) \<Rightarrow> Some (s\<lparr> cs_self := a \<rparr>, Some ENOMEM, None)
         | (a, Inl MbUnsupported) \<Rightarrow> None) })"

definition c_memalign :: "bool \<Rightarrow> 's malloc_ops \<Rightarrow> 's c_state \<Rightarrow> usize \<Rightarrow> usize \<Rightarrow> ('s c_state \<times> ptr) option" where
  "c_memalign dbg M s alignment n =
     (if \<not> is_power_of_two (unat alignment) then Some (s\<lparr> cs_errno := Some EINVAL \<rparr>, null)
      else if n = 0 then Some (s, null)
      else do {
        sz \<leftarrow> roundup dbg n alignment;
        l \<leftarrow> c_layout dbg sz alignment;
        c_store M s l (mo_alloc M (cs_self s) l) })"

definition c_aligned_alloc :: "bool \<Rightarrow> 's malloc_ops \<Rightarrow> 's c_state \<Rightarrow> usize \<Rightarrow> usize \<Rightarrow> ('s c_state \<times> ptr) option" where
  "c_aligned_alloc dbg M s alignment n =
     (if \<not> is_power_of_two (unat alignment) \<or> n mod alignment \<noteq> 0 then Some (s\<lparr> cs_errno := Some EINVAL \<rparr>, null)
      else c_memalign dbg M s alignment n)"

definition c_aligned_malloc :: "bool \<Rightarrow> 's malloc_ops \<Rightarrow> 's c_state \<Rightarrow> usize \<Rightarrow> usize \<Rightarrow> ('s c_state \<times> ptr) option" where
  "c_aligned_malloc dbg M s n alignment =
     (if \<not> is_power_of_two (unat alignment) \<or> n = 0 then Some (s\<lparr> cs_errno := Some EINVAL \<rparr>, null)
      else do {
        sz \<leftarrow> roundup dbg n alignment;
        l \<leftarrow> c_layout dbg sz alignment;
        c_store M s l (mo_alloc M (cs_self s) l) })"

subsection \<open>The exported functions\<close>

text \<open>The \<open>extern "C"\<close> functions that the macros define call the methods of the global object; which
  of them exist depends on the target.\<close>

datatype c_call =
    C_malloc usize
  | C_free ptr
  | C_cfree ptr
  | C_calloc usize usize
  | C_valloc usize
  | C_pvalloc usize
  | C_realloc ptr usize
  | C_reallocf ptr usize
  | C_posix_memalign usize usize
  | C_memalign usize usize
  | C_aligned_alloc usize usize
  | C_aligned_malloc usize usize

datatype c_result = Ret_void | Ret_ptr ptr | Ret_posix "c_errno option" "ptr option"

definition ret_ptr :: "('s c_state \<times> ptr) option \<Rightarrow> ('s c_state \<times> c_result) option" where
  "ret_ptr r = map_option (\<lambda>(s, p). (s, Ret_ptr p)) r"

definition define_malloc ::
  "target \<Rightarrow> bool \<Rightarrow> usize \<Rightarrow> 's malloc_ops \<Rightarrow> 's c_state \<Rightarrow> c_call \<Rightarrow> ('s c_state \<times> c_result) option" where
  "define_malloc T dbg pg M s call =
     (case call of
        C_malloc n \<Rightarrow> ret_ptr (c_malloc T dbg M s n)
      | C_free p \<Rightarrow> Some (c_free M s p, Ret_void)
      | C_cfree p \<Rightarrow> Some (c_cfree M s p, Ret_void)
      | C_calloc nmemb n \<Rightarrow> ret_ptr (c_calloc T dbg M s nmemb n)
      | C_valloc n \<Rightarrow> ret_ptr (c_valloc T dbg pg M s n)
      | C_pvalloc n \<Rightarrow> ret_ptr (c_pvalloc dbg pg M s n)
      | C_realloc p n \<Rightarrow> ret_ptr (c_realloc T dbg M s p n)
      | C_reallocf p n \<Rightarrow> ret_ptr (c_reallocf dbg M s p n)
      | C_posix_memalign al n \<Rightarrow> map_option (\<lambda>(s, e, p). (s, Ret_posix e p)) (c_posix_memalign T dbg M s al n)
      | C_memalign al n \<Rightarrow> ret_ptr (c_memalign dbg M s al n)
      | C_aligned_alloc al n \<Rightarrow> ret_ptr (c_aligned_alloc dbg M s al n)
      | C_aligned_malloc n al \<Rightarrow> ret_ptr (c_aligned_malloc dbg M s n al))"

definition defined_for :: "target \<Rightarrow> c_call \<Rightarrow> bool" where
  "defined_for T call =
     (case call of
        C_cfree _ \<Rightarrow> T = Linux
      | C_valloc _ \<Rightarrow> T = Linux \<or> T = MacOS
      | C_pvalloc _ \<Rightarrow> T = Linux
      | C_reallocf _ _ \<Rightarrow> T = MacOS
      | C_posix_memalign _ _ \<Rightarrow> T = Linux \<or> T = MacOS
      | C_memalign _ _ \<Rightarrow> T = Linux
      | C_aligned_alloc _ _ \<Rightarrow> T = Linux
      | C_aligned_malloc _ _ \<Rightarrow> T = Windows
      | _ \<Rightarrow> True)"

subsection \<open>What the traits promise\<close>

text \<open>A view of the object: the blocks the allocator has handed out, the layouts \<open>get_layout\<close> finds,
  the pointers that may be passed to \<open>insert_layout\<close> and to \<open>delete_layout\<close>, the contents of memory,
  the invariant of the object and the layouts the allocator supports.  A finder may rely on a
  pointer not having been inserted before it is, and on its having been inserted before it is
  deleted; one that needs no such thing, like the default methods that do nothing, takes any
  pointer.\<close>

record 's malloc_view =
  mv_own :: "'s \<Rightarrow> ptr \<Rightarrow> layout option"
  mv_find :: "'s \<Rightarrow> ptr \<Rightarrow> layout option"
  mv_insertable :: "'s \<Rightarrow> ptr \<Rightarrow> bool"
  mv_deletable :: "'s \<Rightarrow> ptr \<Rightarrow> bool"
  mv_byte :: "'s \<Rightarrow> nat \<Rightarrow> 8 word"
  mv_inv :: "'s \<Rightarrow> bool"
  mv_sup :: "layout \<Rightarrow> bool"

definition served :: "'s malloc_view \<Rightarrow> layout \<Rightarrow> bool" where
  "served V l \<longleftrightarrow> layout_ok l \<and> 0 < lay_size l \<and> mv_sup V l"

definition block_at :: "layout \<Rightarrow> ptr \<Rightarrow> bool" where
  "block_at l p \<longleftrightarrow> p \<noteq> null \<and> fits p (lay_size l) \<and> lay_align l dvd unat p"

definition clear_of :: "(ptr \<Rightarrow> layout option) \<Rightarrow> layout \<Rightarrow> ptr \<Rightarrow> bool" where
  "clear_of own l p \<longleftrightarrow> (\<forall>q m. own q = Some m \<longrightarrow> q \<noteq> p \<and> region p (lay_size l) \<inter> region q (lay_size m) = {})"

definition bytes_kept :: "'s malloc_view \<Rightarrow> (ptr \<Rightarrow> layout option) \<Rightarrow> 's \<Rightarrow> 's \<Rightarrow> bool" where
  "bytes_kept V own a a' \<longleftrightarrow> (\<forall>q m i. own q = Some m \<longrightarrow> i < lay_size m \<longrightarrow> mv_byte V a' (unat q + i) = mv_byte V a (unat q + i))"

text \<open>What an operation of the allocator leaves alone: which pointers are inserted, and the layouts and
  the contents of the blocks it is not about.\<close>

definition blocks_kept :: "'s malloc_view \<Rightarrow> (ptr \<Rightarrow> layout option) \<Rightarrow> 's \<Rightarrow> 's \<Rightarrow> bool" where
  "blocks_kept V own a a' \<longleftrightarrow> mv_inv V a' \<and> bytes_kept V own a a'
     \<and> (\<forall>q. own q \<noteq> None \<longrightarrow> mv_find V a' q = mv_find V a q)
     \<and> mv_insertable V a' = mv_insertable V a \<and> mv_deletable V a' = mv_deletable V a"

definition same_blocks :: "'s malloc_view \<Rightarrow> 's \<Rightarrow> 's \<Rightarrow> bool" where
  "same_blocks V a a' \<longleftrightarrow> mv_own V a' = mv_own V a \<and> blocks_kept V (mv_own V a) a a'"

definition alloc_law :: "'s malloc_view \<Rightarrow> ('s \<Rightarrow> layout \<Rightarrow> 's \<times> (mb_err + ptr)) \<Rightarrow> bool" where
  "alloc_law V f \<longleftrightarrow> (\<forall>a l. mv_inv V a \<longrightarrow> served V l \<longrightarrow> (case f a l of
     (a', Inr p) \<Rightarrow> mv_own V a' = (mv_own V a)(p \<mapsto> l) \<and> blocks_kept V (mv_own V a) a a'
       \<and> block_at l p \<and> clear_of (mv_own V a) l p
   | (a', Inl MbExhausted) \<Rightarrow> same_blocks V a a'
   | (a', Inl MbUnsupported) \<Rightarrow> False))"

definition zero_law :: "'s malloc_view \<Rightarrow> ('s \<Rightarrow> layout \<Rightarrow> 's \<times> (mb_err + ptr)) \<Rightarrow> bool" where
  "zero_law V f \<longleftrightarrow> (\<forall>a l a' p i. mv_inv V a \<longrightarrow> served V l \<longrightarrow> f a l = (a', Inr p) \<longrightarrow> i < lay_size l
     \<longrightarrow> mv_byte V a' (unat p + i) = 0)"

definition dealloc_law :: "'s malloc_view \<Rightarrow> ('s \<Rightarrow> ptr \<Rightarrow> layout \<Rightarrow> 's) \<Rightarrow> bool" where
  "dealloc_law V f \<longleftrightarrow> (\<forall>a p l. mv_inv V a \<longrightarrow> mv_own V a p = Some l \<longrightarrow>
     mv_own V (f a p l) = (mv_own V a)(p := None) \<and> blocks_kept V ((mv_own V a)(p := None)) a (f a p l))"

definition realloc_law :: "'s malloc_view \<Rightarrow> ('s \<Rightarrow> ptr \<Rightarrow> layout \<Rightarrow> layout \<Rightarrow> 's \<times> (mb_err + ptr)) \<Rightarrow> bool" where
  "realloc_law V f \<longleftrightarrow> (\<forall>a p l l'. mv_inv V a \<longrightarrow> mv_own V a p = Some l \<longrightarrow> served V l' \<longrightarrow> (case f a p l l' of
     (a', Inr q) \<Rightarrow> mv_own V a' = (mv_own V a)(p := None, q \<mapsto> l') \<and> blocks_kept V ((mv_own V a)(p := None)) a a'
       \<and> block_at l' q \<and> clear_of ((mv_own V a)(p := None)) l' q
       \<and> (\<forall>i. i < lay_size l \<longrightarrow> i < lay_size l' \<longrightarrow> mv_byte V a' (unat q + i) = mv_byte V a (unat p + i))
   | (a', Inl MbExhausted) \<Rightarrow> same_blocks V a a'
   | (a', Inl MbUnsupported) \<Rightarrow> False))"

text \<open>The finder promises only what its trait documents.  \<open>get_layout\<close> is called on a block whose
  layout it can find.  \<open>insert_layout\<close> is called on a block the allocator has handed out with that
  layout and that has not been inserted: from then on the layout is found, and the pointer may be
  deleted.  \<open>delete_layout\<close> is called on a block that has been inserted: from then on it may be
  inserted again.  Neither touches the blocks, the memory or the other pointers.\<close>

definition entries_kept :: "'s malloc_view \<Rightarrow> ptr \<Rightarrow> 's \<Rightarrow> 's \<Rightarrow> bool" where
  "entries_kept V p a a' \<longleftrightarrow> mv_inv V a' \<and> mv_own V a' = mv_own V a \<and> mv_byte V a' = mv_byte V a
     \<and> (\<forall>q. q \<noteq> p \<longrightarrow> (mv_own V a q \<noteq> None \<longrightarrow> mv_find V a' q = mv_find V a q)
          \<and> mv_insertable V a' q = mv_insertable V a q \<and> mv_deletable V a' q = mv_deletable V a q)"

definition finder_law :: "'s malloc_ops \<Rightarrow> 's malloc_view \<Rightarrow> bool" where
  "finder_law M V \<longleftrightarrow> (\<forall>a p l. mv_inv V a \<longrightarrow> mv_own V a p = Some l \<longrightarrow>
     (mv_find V a p = Some l \<longrightarrow> mo_get_layout M a p = l)
     \<and> (mv_insertable V a p \<longrightarrow> entries_kept V p a (mo_insert_layout M a p l)
          \<and> mv_find V (mo_insert_layout M a p l) p = Some l \<and> mv_deletable V (mo_insert_layout M a p l) p)
     \<and> (mv_deletable V a p \<longrightarrow> entries_kept V p a (mo_delete_layout M a p)
          \<and> mv_insertable V (mo_delete_layout M a p) p))"

text \<open>A finder that is a plain map from pointers to layouts: it takes every call, its entries show
  which pointers are inserted, and \<open>realloc\<close> leaves it alone.\<close>

definition map_finder :: "'s malloc_ops \<Rightarrow> 's malloc_view \<Rightarrow> bool" where
  "map_finder M V \<longleftrightarrow> (\<forall>a p l. mv_inv V a \<longrightarrow>
     (mv_insertable V a p \<longleftrightarrow> mv_find V a p = None) \<and> (mv_deletable V a p \<longleftrightarrow> mv_find V a p \<noteq> None)
     \<and> mv_inv V (mo_insert_layout M a p l) \<and> mv_find V (mo_insert_layout M a p l) = (mv_find V a)(p \<mapsto> l)
     \<and> mv_own V (mo_insert_layout M a p l) = mv_own V a \<and> mv_byte V (mo_insert_layout M a p l) = mv_byte V a
     \<and> mv_inv V (mo_delete_layout M a p) \<and> mv_find V (mo_delete_layout M a p) = (mv_find V a)(p := None)
     \<and> mv_own V (mo_delete_layout M a p) = mv_own V a \<and> mv_byte V (mo_delete_layout M a p) = mv_byte V a
     \<and> (\<forall>l'. mv_find V (fst (mo_realloc M a p l l')) = mv_find V a))"

definition malloc_contract :: "'s malloc_ops \<Rightarrow> 's malloc_view \<Rightarrow> bool" where
  "malloc_contract M V \<longleftrightarrow> alloc_law V (mo_alloc M) \<and> alloc_law V (mo_alloc_zeroed M) \<and> zero_law V (mo_alloc_zeroed M)
     \<and> dealloc_law V (mo_dealloc M) \<and> realloc_law V (mo_realloc M) \<and> finder_law M V"

subsection \<open>Rounding is exact\<close>

lemma unat_mod_64: "unat (a mod b :: 64 word) = unat a mod unat b"
  by (rule unat_mod_distrib)

lemma roundup_ok:
  assumes m: "0 < unat m" and lt: "unat n + unat m < 2 ^ 64"
  shows "\<exists>sz. roundup dbg n m = Some sz \<and> 0 < unat sz \<and> unat n \<le> unat sz \<and> unat sz \<le> unat n + unat m \<and> unat m dvd unat sz"
proof -
  have m0: "m \<noteq> 0" using m by auto
  show ?thesis
  proof (cases "n = 0 \<or> n mod m = 0")
    case True
    moreover have "unat m dvd unat n" if "n mod m = 0" using that unat_mod_64 [of n m] by (simp add: mod_0_imp_dvd)
    moreover have "0 < unat n" if "n \<noteq> 0" using that by (simp add: unat_gt_0)
    ultimately show ?thesis using m m0 by (auto simp: roundup_def checked_rem_def)
  next
    case False
    let ?r = "n mod m" let ?s = "n + m"
    have r: "unat ?r = unat n mod unat m" "unat ?r < unat m" using m by (simp_all add: unat_mod_64)
    have s: "unat ?s = unat n + unat m" using lt by (simp add: unat_word_ariths)
    have le: "?r \<le> ?s" using r s by (simp add: word_le_nat_alt)
    have d: "unat (?s - ?r) = unat n + unat m - unat n mod unat m" using unat_sub [OF le] r(1) s by simp
    have "unat m dvd unat n - unat n mod unat m" by (rule dvd_minus_mod)
    then have "unat m dvd unat (?s - ?r)" unfolding d
      by (metis add_diff_assoc2 dvd_add_triv_right_iff mod_less_eq_dividend)
    moreover have "roundup dbg n m = Some (?s - ?r)"
      using False m0 lt le by (auto simp: roundup_def checked_rem_def checked_add_def word_less_nat_alt word_le_nat_alt)
    moreover have "unat n \<le> unat (?s - ?r)" "unat (?s - ?r) \<le> unat n + unat m" "0 < unat (?s - ?r)"
      unfolding d using r m by linarith+
    ultimately show ?thesis by blast
  qed
qed

text \<open>A request the rounding can serve.\<close>

definition request_ok :: "'s malloc_view \<Rightarrow> usize \<Rightarrow> usize \<Rightarrow> bool" where
  "request_ok V n al \<longleftrightarrow> is_power_of_two (unat al) \<and> unat al \<le> 2 ^ 31 \<and> unat n + 2 * unat al \<le> 2 ^ 64
     \<and> (\<forall>l. lay_align l = unat al \<longrightarrow> mv_sup V l)"

lemma request_layout:
  assumes "request_ok V n al"
  shows "\<exists>sz l. roundup dbg n al = Some sz \<and> c_layout dbg sz al = Some l \<and> served V l \<and> lay_align l = unat al
    \<and> unat n \<le> lay_size l \<and> lay_size l \<le> unat n + unat al"
proof -
  have al: "0 < unat al" using assms is_power_of_two_pos by (auto simp: request_ok_def)
  then have "unat n + unat al < 2 ^ 64" using assms by (simp add: request_ok_def)
  then obtain sz where sz: "roundup dbg n al = Some sz" "0 < unat sz" "unat n \<le> unat sz" "unat sz \<le> unat n + unat al"
    using roundup_ok [OF al] by blast
  let ?l = "\<lparr> lay_size = unat sz, lay_align = unat al \<rparr>"
  have fit: "unat sz + unat al \<le> 2 ^ 64" using sz(4) assms by (simp add: request_ok_def)
  have "c_layout dbg sz al = Some ?l"
    using assms al fit by (auto simp: c_layout_def layout_from_size_align_def request_ok_def)
  moreover have "served V ?l" using sz(2) assms fit by (simp add: served_def layout_ok_def request_ok_def)
  ultimately show ?thesis using sz by (intro exI [of _ sz] exI [of _ ?l]) simp
qed

subsection \<open>The invariant of the C functions\<close>

definition malloc_inv :: "'s malloc_view \<Rightarrow> 's c_state \<Rightarrow> bool" where
  "malloc_inv V s \<longleftrightarrow> mv_inv V (cs_self s)
     \<and> (\<forall>p l. mv_own V (cs_self s) p = Some l \<longrightarrow>
          mv_find V (cs_self s) p = Some l \<and> mv_deletable V (cs_self s) p \<and> block_at l p)
     \<and> (\<forall>p. mv_own V (cs_self s) p = None \<longrightarrow> mv_insertable V (cs_self s) p)
     \<and> (\<forall>p l q m. mv_own V (cs_self s) p = Some l \<longrightarrow> mv_own V (cs_self s) q = Some m \<longrightarrow> p \<noteq> q
          \<longrightarrow> region p (lay_size l) \<inter> region q (lay_size m) = {})"

text \<open>How a call that asks for a block ends: with a block, or without one and \<open>errno\<close> set.\<close>

definition c_got :: "'s malloc_view \<Rightarrow> 's c_state \<Rightarrow> 's c_state \<Rightarrow> ptr \<Rightarrow> layout \<Rightarrow> bool" where
  "c_got V s s' p l \<longleftrightarrow> malloc_inv V s' \<and> bytes_kept V (mv_own V (cs_self s)) (cs_self s) (cs_self s')
     \<and> (if p = null then mv_own V (cs_self s') = mv_own V (cs_self s) \<and> cs_errno s' = Some ENOMEM
        else mv_own V (cs_self s') = (mv_own V (cs_self s))(p \<mapsto> l) \<and> mv_own V (cs_self s) p = None
          \<and> cs_errno s' = cs_errno s)"

lemma malloc_invD:
  assumes "malloc_inv V s"
  shows "mv_inv V (cs_self s)"
    "mv_own V (cs_self s) p = Some l \<Longrightarrow> mv_find V (cs_self s) p = Some l \<and> mv_deletable V (cs_self s) p \<and> block_at l p"
    "mv_own V (cs_self s) p = None \<Longrightarrow> mv_insertable V (cs_self s) p"
  using assms by (simp_all add: malloc_inv_def)

lemma finderD:
  assumes "malloc_contract M V" "mv_inv V a" "mv_own V a p = Some l"
  shows "mv_find V a p = Some l \<Longrightarrow> mo_get_layout M a p = l"
    "mv_insertable V a p \<Longrightarrow> entries_kept V p a (mo_insert_layout M a p l)"
    "mv_insertable V a p \<Longrightarrow> mv_find V (mo_insert_layout M a p l) p = Some l"
    "mv_insertable V a p \<Longrightarrow> mv_deletable V (mo_insert_layout M a p l) p"
    "mv_deletable V a p \<Longrightarrow> entries_kept V p a (mo_delete_layout M a p)"
    "mv_deletable V a p \<Longrightarrow> mv_insertable V (mo_delete_layout M a p) p"
  using assms unfolding malloc_contract_def finder_law_def by blast+

lemma malloc_inv_same:
  "malloc_inv V s \<Longrightarrow> same_blocks V (cs_self s) (cs_self s') \<Longrightarrow> malloc_inv V s'"
  by (auto simp: malloc_inv_def same_blocks_def blocks_kept_def)

text \<open>The blocks \<open>own\<close> of a good state are kept, and \<open>p\<close> is added and inserted.\<close>

lemma malloc_inv_add:
  assumes inv: "malloc_inv V s" and a: "mv_inv V (cs_self s')" "mv_own V (cs_self s') = own(p \<mapsto> l)"
    and find: "mv_find V (cs_self s') p = Some l" "mv_deletable V (cs_self s') p"
      "\<And>q. q \<noteq> p \<Longrightarrow> own q \<noteq> None \<Longrightarrow> mv_find V (cs_self s') q = mv_find V (cs_self s) q"
      "\<And>q. q \<noteq> p \<Longrightarrow> mv_deletable V (cs_self s') q = mv_deletable V (cs_self s) q"
      "\<And>q. q \<noteq> p \<Longrightarrow> mv_insertable V (cs_self s') q = mv_insertable V (cs_self s) q"
    and own: "own \<subseteq>\<^sub>m mv_own V (cs_self s)" "\<And>q. q \<noteq> p \<Longrightarrow> own q = mv_own V (cs_self s) q"
    and p: "block_at l p" "clear_of own l p"
  shows "malloc_inv V s'"
  unfolding malloc_inv_def
proof (intro conjI allI impI)
  have old: "mv_own V (cs_self s) q = Some m" if "own q = Some m" for q m
    using own(1) that by (metis domI map_le_def)
  show "mv_inv V (cs_self s')" by (rule a(1))
  show "mv_insertable V (cs_self s') q" if "mv_own V (cs_self s') q = None" for q
    using that a(2) find(5) own(2) malloc_invD(3) [OF inv] by (cases "q = p") auto
  fix q m assume q: "mv_own V (cs_self s') q = Some m"
  have "mv_find V (cs_self s') q = Some m \<and> mv_deletable V (cs_self s') q \<and> block_at m q"
  proof (cases "q = p")
    case False
    then have "own q = Some m" using q a(2) by simp
    then show ?thesis using malloc_invD(2) [OF inv old] find(3,4) [OF False] by simp
  qed (use q a(2) find p(1) in simp)
  then show "mv_find V (cs_self s') q = Some m" "mv_deletable V (cs_self s') q" "block_at m q" by blast+
  fix q' m' assume q': "mv_own V (cs_self s') q' = Some m'" "q \<noteq> q'"
  show "region q (lay_size m) \<inter> region q' (lay_size m') = {}"
  proof (cases "q = p \<or> q' = p")
    case True
    then show ?thesis using q q' a(2) p(2) by (auto simp: clear_of_def Int_commute split: if_splits)
  next
    case False
    then show ?thesis using q q' a(2) inv old by (simp add: malloc_inv_def)
  qed
qed

lemma map_le_remove: "m(p := None) \<subseteq>\<^sub>m m"
  by (simp add: map_le_def)

lemma clear_none: "clear_of own l p \<Longrightarrow> own p = None"
  by (cases "own p") (auto simp: clear_of_def)

lemma bytes_kept_byte: "mv_byte V a'' = mv_byte V a' \<Longrightarrow> bytes_kept V own a a'' = bytes_kept V own a a'"
  by (simp add: bytes_kept_def)

lemma c_store_ok:
  assumes c: "malloc_contract M V" and f: "alloc_law V f" and inv: "malloc_inv V s" and l: "served V l"
  shows "\<exists>s' p. c_store M s l (f (cs_self s) l) = Some (s', p) \<and> c_got V s s' p l"
proof -
  let ?a = "cs_self s"
  obtain a r where ar: "f ?a l = (a, r)" by fastforce
  note law = f [unfolded alloc_law_def, rule_format, OF malloc_invD(1) [OF inv] l, unfolded ar]
  show ?thesis
  proof (cases r)
    case (Inl e)
    then have e: "e = MbExhausted" "same_blocks V ?a a" using law by (cases e; simp)+
    let ?s = "s\<lparr> cs_self := a, cs_errno := Some ENOMEM \<rparr>"
    have "malloc_inv V ?s" using malloc_inv_same [OF inv, of ?s] e(2) by simp
    then show ?thesis using e by (simp add: ar Inl c_store_def c_got_def same_blocks_def blocks_kept_def)
  next
    case (Inr p)
    then have a: "mv_own V a = (mv_own V ?a)(p \<mapsto> l)" "blocks_kept V (mv_own V ?a) ?a a" "block_at l p"
        "clear_of (mv_own V ?a) l p"
      using law by simp_all
    let ?i = "mo_insert_layout M a p l" let ?s = "s\<lparr> cs_self := ?i \<rparr>"
    have fresh: "mv_own V ?a p = None" by (rule clear_none [OF a(4)])
    then have ins: "mv_insertable V a p" using malloc_invD(3) [OF inv] a(2) by (simp add: blocks_kept_def)
    have own: "mv_inv V a" "mv_own V a p = Some l" using a(1,2) by (simp_all add: blocks_kept_def)
    note f = finderD [OF c own]
    have k: "entries_kept V p a ?i" by (rule f(2) [OF ins])
    have "malloc_inv V ?s"
    proof (rule malloc_inv_add [OF inv, of ?s "mv_own V ?a" p l])
      show "mv_find V (cs_self ?s) p = Some l" "mv_deletable V (cs_self ?s) p" using f(3,4) [OF ins] by simp_all
    qed (use a k in \<open>auto simp: entries_kept_def blocks_kept_def\<close>)
    moreover have "bytes_kept V (mv_own V ?a) ?a ?i" using a(2) k by (simp add: entries_kept_def blocks_kept_def bytes_kept_def)
    ultimately show ?thesis
      using a(1,3) fresh k by (simp add: ar Inr c_store_def c_got_def block_at_def entries_kept_def del: fun_upd_apply)
  qed
qed

text \<open>Remembering the layout leaves the contents of memory as the allocator made them.\<close>

lemma c_store_bytes:
  assumes c: "malloc_contract M V" and f: "alloc_law V f" and inv: "malloc_inv V s" and l: "served V l"
    and st: "c_store M s l (f (cs_self s) l) = Some (s', p)" "p \<noteq> null"
  shows "\<exists>a. f (cs_self s) l = (a, Inr p) \<and> mv_byte V (cs_self s') = mv_byte V a"
proof -
  obtain a where a: "f (cs_self s) l = (a, Inr p)" "s' = s\<lparr> cs_self := mo_insert_layout M a p l \<rparr>"
    using st by (auto simp: c_store_def split: prod.splits sum.splits mb_err.splits)
  have law: "mv_own V a = (mv_own V (cs_self s))(p \<mapsto> l)" "blocks_kept V (mv_own V (cs_self s)) (cs_self s) a"
      "clear_of (mv_own V (cs_self s)) l p"
    using f [unfolded alloc_law_def, rule_format, OF malloc_invD(1) [OF inv] l] a(1) by simp_all
  have own: "mv_inv V a" "mv_own V a p = Some l" using law(1,2) by (simp_all add: blocks_kept_def)
  have "mv_insertable V a p"
    using malloc_invD(3) [OF inv clear_none [OF law(3)]] law(2) by (simp add: blocks_kept_def)
  from finderD(2) [OF c own this] show ?thesis using a by (simp add: entries_kept_def)
qed

text \<open>Freeing a block.\<close>

lemma c_free_ok:
  assumes c: "malloc_contract M V" and inv: "malloc_inv V s" and p: "p = null \<or> mv_own V (cs_self s) p \<noteq> None"
  shows "malloc_inv V (c_free M s p)" "mv_own V (cs_self (c_free M s p)) = (mv_own V (cs_self s))(p := None)"
    "bytes_kept V ((mv_own V (cs_self s))(p := None)) (cs_self s) (cs_self (c_free M s p))" "cs_errno (c_free M s p) = cs_errno s"
proof -
  let ?a = "cs_self s" let ?s = "c_free M s p"
  have "malloc_inv V ?s \<and> mv_own V (cs_self ?s) = (mv_own V ?a)(p := None)
      \<and> bytes_kept V ((mv_own V ?a)(p := None)) ?a (cs_self ?s) \<and> cs_errno ?s = cs_errno s"
  proof (cases "p = null")
    case True
    have "mv_own V ?a null = None"
      using malloc_invD(2) [OF inv, of null] by (cases "mv_own V ?a null") (auto simp: block_at_def)
    then have "(mv_own V ?a)(null := None) = mv_own V ?a" by (simp add: fun_upd_idem)
    then show ?thesis using inv True by (simp add: c_free_def bytes_kept_def)
  next
    case False
    then obtain l where l: "mv_own V ?a p = Some l" using p by blast
    let ?b = "mo_delete_layout M ?a p"
    note i = malloc_invD(2) [OF inv l] note f = finderD [OF c malloc_invD(1) [OF inv] l]
    have k: "entries_kept V p ?a ?b" "mv_insertable V ?b p" using i f(5,6) by blast+
    have get: "mo_get_layout M ?a p = l" using i f(1) by blast
    have s: "cs_self ?s = mo_dealloc M ?b p l" "cs_errno ?s = cs_errno s"
      using False by (simp_all add: c_free_def Let_def get)
    have "dealloc_law V (mo_dealloc M)" using c by (simp add: malloc_contract_def)
    then have d: "mv_own V (cs_self ?s) = (mv_own V ?a)(p := None)" "blocks_kept V ((mv_own V ?a)(p := None)) ?b (cs_self ?s)"
      unfolding dealloc_law_def s(1) using k(1) l unfolding entries_kept_def by metis+
    have "malloc_inv V ?s"
      using inv k d by (auto simp: malloc_inv_def entries_kept_def blocks_kept_def split: if_splits)
    then show ?thesis using d s(2) k(1) by (simp add: bytes_kept_def blocks_kept_def entries_kept_def)
  qed
  then show "malloc_inv V ?s" "mv_own V (cs_self ?s) = (mv_own V ?a)(p := None)"
      "bytes_kept V ((mv_own V ?a)(p := None)) ?a (cs_self ?s)" "cs_errno ?s = cs_errno s"
    by blast+
qed

lemma request_store:
  assumes "malloc_contract M V" "alloc_law V f" "malloc_inv V s" "request_ok V n al"
  shows "\<exists>s' p l. Option.bind (roundup dbg n al) (\<lambda>sz. Option.bind (c_layout dbg sz al) (\<lambda>l. c_store M s l (f (cs_self s) l)))
      = Some (s', p) \<and> c_got V s s' p l \<and> lay_align l = unat al \<and> unat n \<le> lay_size l"
proof -
  obtain sz l where l: "roundup dbg n al = Some sz" "c_layout dbg sz al = Some l" "served V l" "lay_align l = unat al"
      "unat n \<le> lay_size l"
    using request_layout [OF assms(4)] by blast
  moreover obtain s' p where "c_store M s l (f (cs_self s) l) = Some (s', p)" "c_got V s s' p l"
    using c_store_ok [OF assms(1-3) l(3)] by blast
  ultimately show ?thesis by (intro exI [of _ s'] exI [of _ p] exI [of _ l]) simp
qed

text \<open>A block that is reallocated keeps its contents.\<close>

definition c_moved :: "'s malloc_view \<Rightarrow> 's c_state \<Rightarrow> 's c_state \<Rightarrow> ptr \<Rightarrow> ptr \<Rightarrow> layout \<Rightarrow> bool" where
  "c_moved V s s' p q l' \<longleftrightarrow> bytes_kept V ((mv_own V (cs_self s))(p := None)) (cs_self s) (cs_self s')
     \<and> q \<noteq> null \<and> mv_own V (cs_self s') = (mv_own V (cs_self s))(p := None, q \<mapsto> l')
     \<and> (\<forall>l i. mv_own V (cs_self s) p = Some l \<longrightarrow> i < lay_size l \<longrightarrow> i < lay_size l'
          \<longrightarrow> mv_byte V (cs_self s') (unat q + i) = mv_byte V (cs_self s) (unat p + i))"

text \<open>What \<open>c_realloc\<close> and \<open>c_reallocf\<close> make of a block the allocator has reallocated.  In place, the
  finder is called as documented and the state stays good.  Elsewhere it is not: the pointer it is
  asked to delete was never inserted, and the old one stays inserted; a finder that is a map then
  keeps the old entry.\<close>

definition c_reentered :: "'s malloc_ops \<Rightarrow> 's malloc_view \<Rightarrow> 's c_state \<Rightarrow> 's \<Rightarrow> ptr \<Rightarrow> ptr \<Rightarrow> layout \<Rightarrow> bool" where
  "c_reentered M V s a p q l' \<longleftrightarrow> q \<noteq> null \<and>
     (let s' = s\<lparr> cs_self := mo_insert_layout M (mo_delete_layout M a q) q l' \<rparr>
      in (q = p \<longrightarrow> c_moved V s s' p q l' \<and> malloc_inv V s')
       \<and> (map_finder M V \<longrightarrow> c_moved V s s' p q l'
            \<and> (q \<noteq> p \<longrightarrow> mv_find V (cs_self s') p = mv_find V (cs_self s) p \<and> mv_inv V (cs_self s'))))"

lemma reentered_in_place:
  assumes c: "malloc_contract M V" and inv: "malloc_inv V s" and p: "mv_own V (cs_self s) p = Some l"
    and own: "mv_own V a = (mv_own V (cs_self s))(p \<mapsto> l')" and k: "blocks_kept V ((mv_own V (cs_self s))(p := None)) (cs_self s) a"
    and bl: "block_at l' p" "clear_of ((mv_own V (cs_self s))(p := None)) l' p"
  shows "let i = mo_insert_layout M (mo_delete_layout M a p) p l'
    in mv_own V i = mv_own V a \<and> mv_byte V i = mv_byte V a \<and> malloc_inv V (s\<lparr> cs_self := i \<rparr>)"
proof -
  let ?d = "mo_delete_layout M a p" let ?i = "mo_insert_layout M ?d p l'" let ?s = "s\<lparr> cs_self := ?i \<rparr>"
  have a: "mv_inv V a" "mv_own V a p = Some l'" "mv_deletable V a p"
    using k own malloc_invD(2) [OF inv p] by (simp_all add: blocks_kept_def)
  have d: "entries_kept V p a ?d" "mv_insertable V ?d p" using finderD(5,6) [OF c a(1,2) a(3)] by blast+
  have da: "mv_inv V ?d" "mv_own V ?d p = Some l'" using d(1) a(2) by (simp_all add: entries_kept_def)
  note f = finderD [OF c da]
  have i: "entries_kept V p ?d ?i" by (rule f(2) [OF d(2)])
  have "malloc_inv V ?s"
  proof (rule malloc_inv_add [OF inv, of ?s "(mv_own V (cs_self s))(p := None)" p l'])
    show "mv_find V (cs_self ?s) p = Some l'" "mv_deletable V (cs_self ?s) p" using f(3,4) [OF d(2)] by simp_all
  qed (use own k bl d(1) i in \<open>auto simp: entries_kept_def blocks_kept_def map_le_def\<close>)
  then show ?thesis using d(1) i by (simp add: entries_kept_def)
qed

lemma realloc_step:
  assumes c: "malloc_contract M V" and inv: "malloc_inv V s" and p: "mv_own V (cs_self s) p = Some l" and l': "served V l'"
  shows "mo_get_layout M (cs_self s) p = l"
    "(\<exists>a q. mo_realloc M (cs_self s) p l l' = (a, Inr q) \<and> c_reentered M V s a p q l')
      \<or> (\<exists>a. mo_realloc M (cs_self s) p l l' = (a, Inl MbExhausted) \<and> same_blocks V (cs_self s) a)"
proof -
  let ?a = "cs_self s"
  show "mo_get_layout M ?a p = l"
    using finderD(1) [OF c malloc_invD(1) [OF inv] p] malloc_invD(2) [OF inv p] by blast
  obtain a r where ar: "mo_realloc M ?a p l l' = (a, r)" by fastforce
  have "realloc_law V (mo_realloc M)" using c by (simp add: malloc_contract_def)
  note law = this [unfolded realloc_law_def, rule_format, OF malloc_invD(1) [OF inv] p l', unfolded ar]
  show "(\<exists>a q. mo_realloc M ?a p l l' = (a, Inr q) \<and> c_reentered M V s a p q l')
      \<or> (\<exists>a. mo_realloc M ?a p l l' = (a, Inl MbExhausted) \<and> same_blocks V ?a a)"
  proof (cases r)
    case (Inl e)
    then show ?thesis using law ar by (cases e) auto
  next
    case (Inr q)
    then have a: "mv_own V a = (mv_own V ?a)(p := None, q \<mapsto> l')" "blocks_kept V ((mv_own V ?a)(p := None)) ?a a"
        "block_at l' q" "clear_of ((mv_own V ?a)(p := None)) l' q"
        "\<forall>i. i < lay_size l \<longrightarrow> i < lay_size l' \<longrightarrow> mv_byte V a (unat q + i) = mv_byte V ?a (unat p + i)"
      using law by (simp_all del: fun_upd_apply)
    let ?i = "mo_insert_layout M (mo_delete_layout M a q) q l'" let ?s = "s\<lparr> cs_self := ?i \<rparr>"
    have kept: "bytes_kept V ((mv_own V ?a)(p := None)) ?a a" using a(2) unfolding blocks_kept_def by blast
    have moved: "c_moved V s ?s p q l'" if "mv_own V ?i = mv_own V a" "mv_byte V ?i = mv_byte V a"
      using that(1) a(1,3,5) p kept bytes_kept_byte [OF that(2)] that(2)
      by (simp add: c_moved_def block_at_def del: fun_upd_apply)
    have "c_moved V s ?s p q l' \<and> malloc_inv V ?s" if "q = p"
      using reentered_in_place [OF c inv p, of a l'] a moved that by (simp add: Let_def)
    moreover have "c_moved V s ?s p q l' \<and> (q \<noteq> p \<longrightarrow> mv_find V ?i p = mv_find V ?a p \<and> mv_inv V ?i)" if "map_finder M V"
    proof -
      have "mv_inv V a" using a(2) by (simp add: blocks_kept_def)
      moreover have "mv_find V (fst (mo_realloc M ?a p l l')) = mv_find V ?a"
        using that malloc_invD(1) [OF inv] unfolding map_finder_def by blast
      ultimately show ?thesis using moved that by (simp add: map_finder_def ar)
    qed
    ultimately show ?thesis using ar Inr a(3) by (auto simp: c_reentered_def Let_def block_at_def)
  qed
qed

text \<open>What a client may call: functions of the target, with sizes that can be rounded, and with
  pointers it holds.\<close>

definition c_allowed :: "target \<Rightarrow> usize \<Rightarrow> 's malloc_view \<Rightarrow> 's c_state \<Rightarrow> c_call \<Rightarrow> bool" where
  "c_allowed T pg V s call \<longleftrightarrow> defined_for T call \<and>
     (case call of
        C_malloc n \<Rightarrow> request_ok V n (min_align T)
      | C_free p \<Rightarrow> p = null \<or> mv_own V (cs_self s) p \<noteq> None
      | C_cfree p \<Rightarrow> p = null \<or> mv_own V (cs_self s) p \<noteq> None
      | C_calloc nmemb n \<Rightarrow> unat nmemb * unat n < 2 ^ 64 \<and> request_ok V (nmemb * n) (min_align T)
      | C_valloc n \<Rightarrow> request_ok V n pg
      | C_pvalloc n \<Rightarrow> request_ok V n pg
      | C_realloc p n \<Rightarrow> (p = null \<or> mv_own V (cs_self s) p \<noteq> None) \<and> request_ok V n (min_align T)
      | C_reallocf p n \<Rightarrow> (p = null \<or> mv_own V (cs_self s) p \<noteq> None) \<and> request_ok V n (min_align T)
      | C_posix_memalign al n \<Rightarrow> is_power_of_two (unat al) \<longrightarrow> request_ok V n al
      | C_memalign al n \<Rightarrow> is_power_of_two (unat al) \<longrightarrow> request_ok V n al
      | C_aligned_alloc al n \<Rightarrow> is_power_of_two (unat al) \<longrightarrow> request_ok V n al
      | C_aligned_malloc n al \<Rightarrow> is_power_of_two (unat al) \<longrightarrow> request_ok V n al)"

lemma malloc_inv_errno [simp]: "malloc_inv V (s\<lparr> cs_errno := e \<rparr>) = malloc_inv V s"
  by (simp add: malloc_inv_def)

lemma c_got_inv: "c_got V s s' p l \<Longrightarrow> malloc_inv V s'"
  by (simp add: c_got_def)

lemmas contract_alloc = malloc_contract_def [THEN iffD1, THEN conjunct1]

lemma contract_zeroed: "malloc_contract M V \<Longrightarrow> alloc_law V (mo_alloc_zeroed M)"
  by (simp add: malloc_contract_def)

lemma c_malloc_ok:
  assumes "malloc_contract M V" "malloc_inv V s" "request_ok V n (min_align T)"
  shows "\<exists>s' p. c_malloc T dbg M s n = Some (s', p) \<and>
    (if T = Linux \<and> n = 0 then s' = s \<and> p = null
     else \<exists>l. c_got V s s' p l \<and> lay_align l = unat (min_align T) \<and> unat n \<le> lay_size l)"
  using request_store [OF assms(1) contract_alloc [OF assms(1)] assms(2,3), of dbg] by (auto simp: c_malloc_def)

text \<open>A successful reallocation, as the code completes it.\<close>

definition c_realloced ::
  "'s malloc_ops \<Rightarrow> 's malloc_view \<Rightarrow> 's c_state \<Rightarrow> ptr \<Rightarrow> usize \<Rightarrow> 's c_state \<Rightarrow> ptr \<Rightarrow> layout \<Rightarrow> bool" where
  "c_realloced M V s p n s' q l' \<longleftrightarrow> unat n \<le> lay_size l' \<and> q \<noteq> null
     \<and> (q = p \<longrightarrow> c_moved V s s' p q l' \<and> malloc_inv V s')
     \<and> (map_finder M V \<longrightarrow> c_moved V s s' p q l'
          \<and> (q \<noteq> p \<longrightarrow> mv_find V (cs_self s') p = mv_find V (cs_self s) p \<and> mv_inv V (cs_self s')))"

lemma c_reentered_realloced:
  "c_reentered M V s a p q l' \<Longrightarrow> unat n \<le> lay_size l'
    \<Longrightarrow> c_realloced M V s p n (s\<lparr> cs_self := mo_insert_layout M (mo_delete_layout M a q) q l' \<rparr>) q l'"
  by (simp add: c_reentered_def c_realloced_def Let_def)

lemma c_realloc_ok:
  assumes c: "malloc_contract M V" and inv: "malloc_inv V s" and p: "p \<noteq> null" "mv_own V (cs_self s) p = Some l"
    and n: "request_ok V n (min_align T)" "\<not> ((T = Linux \<or> T = Windows) \<and> n = 0)"
  shows "(\<exists>s' q l'. c_realloc T dbg M s p n = Some (s', q) \<and> c_realloced M V s p n s' q l')
    \<or> (\<exists>s'. c_realloc T dbg M s p n = Some (s', null) \<and> same_blocks V (cs_self s) (cs_self s') \<and> cs_errno s' = Some ENOMEM)"
proof -
  obtain sz l' where l': "roundup dbg n (min_align T) = Some sz" "c_layout dbg sz (min_align T) = Some l'" "served V l'"
      "unat n \<le> lay_size l'"
    using request_layout [OF n(1)] by blast
  note r = realloc_step [OF c inv p(2) l'(3)]
  have eq: "c_realloc T dbg M s p n = (case mo_realloc M (cs_self s) p l l' of
           (a, Inr q) \<Rightarrow> Some (s\<lparr> cs_self := mo_insert_layout M (mo_delete_layout M a q) q l' \<rparr>, q)
         | (a, Inl MbExhausted) \<Rightarrow> Some (s\<lparr> cs_self := a, cs_errno := Some ENOMEM \<rparr>, null)
         | (a, Inl MbUnsupported) \<Rightarrow> None)"
    using p(1) n(2) by (auto simp: c_realloc_def l'(1,2) r(1) Let_def)
  from r(2) show ?thesis
  proof (elim disjE exE conjE)
    fix b q assume m: "mo_realloc M (cs_self s) p l l' = (b, Inr q)" and re: "c_reentered M V s b p q l'"
    show ?thesis using c_reentered_realloced [OF re l'(4)] by (intro disjI1) (auto simp: eq m)
  qed (auto simp: eq)
qed

lemma c_reallocf_ok:
  assumes c: "malloc_contract M V" and inv: "malloc_inv V s" and p: "p \<noteq> null" "mv_own V (cs_self s) p = Some l"
    and n: "request_ok V n (min_align MacOS)"
  shows "(\<exists>s' q l'. c_reallocf dbg M s p n = Some (s', q) \<and> c_realloced M V s p n s' q l')
    \<or> (\<exists>s'. c_reallocf dbg M s p n = Some (s', null) \<and> malloc_inv V s' \<and> cs_errno s' = Some ENOMEM
        \<and> mv_own V (cs_self s') = (mv_own V (cs_self s))(p := None))"
proof -
  obtain sz l' where l': "roundup dbg n (min_align MacOS) = Some sz" "c_layout dbg sz (min_align MacOS) = Some l'" "served V l'"
      "unat n \<le> lay_size l'"
    using request_layout [OF n(1)] by blast
  note r = realloc_step [OF c inv p(2) l'(3)]
  have eq: "c_reallocf dbg M s p n = (case mo_realloc M (cs_self s) p l l' of
           (a, Inr q) \<Rightarrow> Some (s\<lparr> cs_self := mo_insert_layout M (mo_delete_layout M a q) q l' \<rparr>, q)
         | (a, Inl MbExhausted) \<Rightarrow> Some ((c_free M (s\<lparr> cs_self := a \<rparr>) p)\<lparr> cs_errno := Some ENOMEM \<rparr>, null)
         | (a, Inl MbUnsupported) \<Rightarrow> None)"
    using p(1) by (auto simp: c_reallocf_def l'(1,2) r(1) Let_def)
  from r(2) show ?thesis
  proof (elim disjE exE conjE)
    fix a assume a: "mo_realloc M (cs_self s) p l l' = (a, Inl MbExhausted)" "same_blocks V (cs_self s) a"
    have inv': "malloc_inv V (s\<lparr> cs_self := a \<rparr>)" using malloc_inv_same [OF inv, of "s\<lparr> cs_self := a \<rparr>"] a(2) by simp
    have own: "mv_own V a = mv_own V (cs_self s)" using a(2) by (simp add: same_blocks_def)
    show ?thesis
      using c_free_ok(1,2) [OF c inv', of p] p(2) own by (auto simp: eq a(1))
  next
    fix b q assume m: "mo_realloc M (cs_self s) p l l' = (b, Inr q)" and re: "c_reentered M V s b p q l'"
    show ?thesis using c_reentered_realloced [OF re l'(4)] by (intro disjI1) (auto simp: eq m)
  qed
qed

subsection \<open>Every call\<close>

text \<open>A reallocation that leaves the block where it is, or fails.\<close>

definition block_stays :: "c_call \<Rightarrow> c_result \<Rightarrow> bool" where
  "block_stays call r \<longleftrightarrow>
     (case call of
        C_realloc p n \<Rightarrow> p = null \<or> r = Ret_ptr p \<or> r = Ret_ptr null
      | C_reallocf p n \<Rightarrow> p = null \<or> r = Ret_ptr p \<or> r = Ret_ptr null
      | _ \<Rightarrow> True)"

definition c_safe :: "'s malloc_view \<Rightarrow> c_call \<Rightarrow> ('s c_state \<times> c_result) option \<Rightarrow> bool" where
  "c_safe V call r \<longleftrightarrow> (\<exists>s' x. r = Some (s', x) \<and> (block_stays call x \<longrightarrow> malloc_inv V s'))"

lemma c_safe_ptr: "(\<exists>s' p. r = Some (s', p) \<and> malloc_inv V s') \<Longrightarrow> c_safe V call (ret_ptr r)"
  by (auto simp: c_safe_def ret_ptr_def)

lemma request_safe:
  assumes "malloc_contract M V" "alloc_law V f" "malloc_inv V s" "request_ok V n al"
  shows "\<exists>s' p. Option.bind (roundup dbg n al) (\<lambda>sz. Option.bind (c_layout dbg sz al) (\<lambda>l. c_store M s l (f (cs_self s) l)))
      = Some (s', p) \<and> malloc_inv V s'"
  using request_store [OF assms, of dbg] c_got_inv by blast

lemma c_memalign_ok:
  assumes "malloc_contract M V" "malloc_inv V s" "is_power_of_two (unat al) \<longrightarrow> request_ok V n al"
  shows "\<exists>s' p. c_memalign dbg M s al n = Some (s', p) \<and> malloc_inv V s'"
  using assms(2,3) request_safe [OF assms(1) contract_alloc [OF assms(1)] assms(2), of n al dbg] by (auto simp: c_memalign_def)

lemma c_posix_memalign_ok:
  assumes c: "malloc_contract M V" and inv: "malloc_inv V s" and n: "request_ok V n al" "word_size < al" "T \<noteq> Linux \<or> n \<noteq> 0"
  shows "(\<exists>s' p l. c_posix_memalign T dbg M s al n = Some (s', None, Some p) \<and> p \<noteq> null \<and> c_got V s s' p l
        \<and> lay_align l = unat al \<and> unat n \<le> lay_size l)
    \<or> (\<exists>s'. c_posix_memalign T dbg M s al n = Some (s', Some ENOMEM, None) \<and> malloc_inv V s'
        \<and> mv_own V (cs_self s') = mv_own V (cs_self s) \<and> cs_errno s' = cs_errno s)"
proof -
  obtain sz l where l: "roundup dbg n al = Some sz" "c_layout dbg sz al = Some l" "served V l" "lay_align l = unat al"
      "unat n \<le> lay_size l"
    using request_layout [OF n(1)] by blast
  obtain a r where ar: "mo_alloc M (cs_self s) l = (a, r)" by fastforce
  have pow: "is_power_of_two (unat al)" using n(1) by (simp add: request_ok_def)
  have eq: "c_posix_memalign T dbg M s al n = (case mo_alloc M (cs_self s) l of
           (a, Inr p) \<Rightarrow> Some (s\<lparr> cs_self := mo_insert_layout M a p l \<rparr>, None, Some p)
         | (a, Inl MbExhausted) \<Rightarrow> Some (s\<lparr> cs_self := a \<rparr>, Some ENOMEM, None)
         | (a, Inl MbUnsupported) \<Rightarrow> None)"
    using n pow by (auto simp: c_posix_memalign_def l(1,2))
  note law = contract_alloc [OF c, unfolded alloc_law_def, rule_format, OF malloc_invD(1) [OF inv] l(3), unfolded ar]
  show ?thesis
  proof (cases r)
    case (Inl e)
    then have e: "e = MbExhausted" "same_blocks V (cs_self s) a" using law by (cases e; simp)+
    have "malloc_inv V (s\<lparr> cs_self := a \<rparr>)" using malloc_inv_same [OF inv, of "s\<lparr> cs_self := a \<rparr>"] e(2) by simp
    then show ?thesis using e ar Inl by (simp add: eq same_blocks_def)
  next
    case (Inr p)
    obtain s' q where "c_store M s l (mo_alloc M (cs_self s) l) = Some (s', q)" "c_got V s s' q l"
      using c_store_ok [OF c contract_alloc [OF c] inv l(3)] by blast
    then have "c_got V s (s\<lparr> cs_self := mo_insert_layout M a p l \<rparr>) p l" by (auto simp: c_store_def ar Inr)
    moreover have "p \<noteq> null" using law Inr by (simp add: block_at_def)
    ultimately show ?thesis using l(4,5) by (auto simp: eq ar Inr)
  qed
qed

lemma c_call_safe:
  assumes c: "malloc_contract M V" and inv: "malloc_inv V s" and al: "c_allowed T pg V s call"
  shows "c_safe V call (define_malloc T dbg pg M s call)"
proof -
  note req = request_safe [OF c contract_alloc [OF c] inv]
  have malloc: "\<exists>s' p. c_malloc T dbg M s n = Some (s', p) \<and> malloc_inv V s'" if "request_ok V n (min_align T)" for n T
    using inv req [OF that, of dbg] by (auto simp: c_malloc_def)
  show ?thesis
  proof (cases call)
    case (C_malloc n)
    then show ?thesis using al malloc by (auto simp: define_malloc_def c_allowed_def intro!: c_safe_ptr)
  next
    case (C_free p)
    then show ?thesis using al c_free_ok(1) [OF c inv, of p] by (auto simp: define_malloc_def c_allowed_def c_safe_def)
  next
    case (C_cfree p)
    then show ?thesis using al c_free_ok(1) [OF c inv, of p] by (auto simp: define_malloc_def c_allowed_def c_safe_def c_cfree_def)
  next
    case (C_calloc nmemb n)
    then have n: "\<not> unat nmemb * unat n \<ge> 2 ^ 64" "request_ok V (nmemb * n) (min_align T)" using al by (simp_all add: c_allowed_def)
    have "\<exists>s' p. c_calloc T dbg M s nmemb n = Some (s', p) \<and> malloc_inv V s'"
      using inv n(1) request_safe [OF c contract_zeroed [OF c] inv n(2), of dbg] by (auto simp: c_calloc_def checked_mul_def)
    then show ?thesis by (simp add: C_calloc define_malloc_def c_safe_ptr)
  next
    case (C_valloc n)
    then have "\<exists>s' p. c_valloc T dbg pg M s n = Some (s', p) \<and> malloc_inv V s'"
      using al inv req [of n pg dbg] by (auto simp: c_valloc_def c_allowed_def)
    then show ?thesis by (simp add: C_valloc define_malloc_def c_safe_ptr)
  next
    case (C_pvalloc n)
    then have "\<exists>s' p. c_pvalloc dbg pg M s n = Some (s', p) \<and> malloc_inv V s'"
      using al inv req [of n pg dbg] by (auto simp: c_pvalloc_def c_allowed_def)
    then show ?thesis by (simp add: C_pvalloc define_malloc_def c_safe_ptr)
  next
    case (C_realloc p n)
    then have a: "p = null \<or> mv_own V (cs_self s) p \<noteq> None" "request_ok V n (min_align T)" using al by (auto simp: c_allowed_def)
    show ?thesis
    proof (cases "p = null \<or> (T = Linux \<or> T = Windows) \<and> n = 0")
      case True
      then have "\<exists>s' q. c_realloc T dbg M s p n = Some (s', q) \<and> malloc_inv V s'"
        using malloc [OF a(2)] c_free_ok(1) [OF c inv a(1)] by (auto simp: c_realloc_def)
      then show ?thesis by (simp add: C_realloc define_malloc_def c_safe_ptr)
    next
      case False
      then obtain l where "p \<noteq> null" "mv_own V (cs_self s) p = Some l" using a(1) by blast
      from c_realloc_ok [OF c inv this a(2), of dbg] False show ?thesis
        using malloc_inv_same [OF inv]
        by (auto simp: C_realloc define_malloc_def c_safe_def ret_ptr_def block_stays_def c_realloced_def)
    qed
  next
    case (C_reallocf p n)
    then have a: "p = null \<or> mv_own V (cs_self s) p \<noteq> None" "request_ok V n (min_align MacOS)"
      using al by (auto simp: c_allowed_def defined_for_def)
    show ?thesis
    proof (cases "p = null")
      case True
      then show ?thesis using malloc [OF a(2)] by (simp add: C_reallocf define_malloc_def c_reallocf_def c_safe_ptr)
    next
      case False
      then obtain l where "mv_own V (cs_self s) p = Some l" using a(1) by blast
      from c_reallocf_ok [OF c inv False this a(2), of dbg] False show ?thesis
        by (auto simp: C_reallocf define_malloc_def c_safe_def ret_ptr_def block_stays_def c_realloced_def)
    qed
  next
    case (C_posix_memalign al' n)
    show ?thesis
    proof (cases "al' \<le> word_size \<or> \<not> is_power_of_two (unat al') \<or> T = Linux \<and> n = 0")
      case True
      then show ?thesis using inv by (auto simp: C_posix_memalign define_malloc_def c_safe_def c_posix_memalign_def)
    next
      case False
      then have "request_ok V n al'" using al by (simp add: C_posix_memalign c_allowed_def)
      from c_posix_memalign_ok [OF c inv this, of T dbg] False show ?thesis
        using c_got_inv by (fastforce simp: C_posix_memalign define_malloc_def c_safe_def)
    qed
  next
    case (C_memalign al' n)
    then show ?thesis
      using al c_memalign_ok [OF c inv, of al' n dbg] by (simp add: define_malloc_def c_allowed_def c_safe_ptr)
  next
    case (C_aligned_alloc al' n)
    then show ?thesis
      using al inv c_memalign_ok [OF c inv, of al' n dbg]
      by (auto simp: define_malloc_def c_allowed_def c_aligned_alloc_def intro!: c_safe_ptr)
  next
    case (C_aligned_malloc n al')
    then show ?thesis
      using al inv req [of n al' dbg]
      by (auto simp: define_malloc_def c_allowed_def c_aligned_malloc_def intro!: c_safe_ptr)
  qed
qed

text \<open>The histories of a client, as far as no reallocation has moved a block.\<close>

inductive malloc_reach ::
  "target \<Rightarrow> bool \<Rightarrow> usize \<Rightarrow> 's malloc_ops \<Rightarrow> 's malloc_view \<Rightarrow> 's c_state \<Rightarrow> 's c_state \<Rightarrow> bool"
  for T dbg pg M V s0 where
  start: "malloc_reach T dbg pg M V s0 s0"
| call: "malloc_reach T dbg pg M V s0 s \<Longrightarrow> c_allowed T pg V s call \<Longrightarrow> define_malloc T dbg pg M s call = Some (s', r)
    \<Longrightarrow> block_stays call r \<Longrightarrow> malloc_reach T dbg pg M V s0 s'"

lemma malloc_reach_inv:
  assumes "malloc_contract M V" "malloc_reach T dbg pg M V s0 s" "malloc_inv V s0"
  shows "malloc_inv V s"
  using assms(2,3)
proof induction
  case (call s c s' r)
  then show ?case using c_call_safe [OF assms(1) call.IH call.hyps(2), of dbg] call by (simp add: c_safe_def)
qed

end
