(* ===== verification/Linked_List.thy ===== *)
theory Linked_List
  imports Prelude
begin

text \<open>
  The intrusive doubly linked list of \<open>slab-alloc/src/util.rs\<close>, module \<open>list\<close>.  Nodes
  live in a heap that maps addresses to nodes; the \<open>Linkable\<close> trait is a record of
  accessors, and the list operations take it as an argument.  An operation that would
  dereference a pointer outside the heap, or that fails one of its debug assertions or overflows
  the size, has the value \<open>None\<close>.  The locale
  \<open>linkable\<close> states the laws of the trait; inside it every operation is shown to refine
  the same operation on a plain sequence of addresses, to touch only the links of the
  nodes of the list, and to leave the rest of every node alone.
\<close>

subsection \<open>The trait and the list\<close>

record 'n linkable =
  lk_next :: "'n \<Rightarrow> ptr"
  lk_prev :: "'n \<Rightarrow> ptr"
  lk_set_next :: "'n \<Rightarrow> ptr \<Rightarrow> 'n"
  lk_set_prev :: "'n \<Rightarrow> ptr \<Rightarrow> 'n"

record linked_list =
  ll_size :: nat
  ll_head :: ptr
  ll_tail :: ptr

definition set_next_at :: "'n linkable \<Rightarrow> ptr \<Rightarrow> ptr \<Rightarrow> 'n heap \<Rightarrow> 'n heap option" where
  "set_next_at L t v h =
     (case h t of None \<Rightarrow> None | Some n \<Rightarrow> Some (h(t \<mapsto> lk_set_next L n v)))"

definition set_prev_at :: "'n linkable \<Rightarrow> ptr \<Rightarrow> ptr \<Rightarrow> 'n heap \<Rightarrow> 'n heap option" where
  "set_prev_at L t v h =
     (case h t of None \<Rightarrow> None | Some n \<Rightarrow> Some (h(t \<mapsto> lk_set_prev L n v)))"

definition next_at :: "'n linkable \<Rightarrow> ptr \<Rightarrow> 'n heap \<Rightarrow> ptr option" where
  "next_at L t h = map_option (lk_next L) (h t)"

definition prev_at :: "'n linkable \<Rightarrow> ptr \<Rightarrow> 'n heap \<Rightarrow> ptr option" where
  "prev_at L t h = map_option (lk_prev L) (h t)"

text \<open>The two assertions on a node that is put into a list or taken out of one.\<close>

definition links_null :: "'n linkable \<Rightarrow> 'n heap \<Rightarrow> ptr \<Rightarrow> bool" where
  "links_null L h t =
     (case h t of None \<Rightarrow> False | Some n \<Rightarrow> lk_next L n = null \<and> lk_prev L n = null)"

definition ll_new :: linked_list where
  "ll_new = \<lparr> ll_size = 0, ll_head = null, ll_tail = null \<rparr>"

definition insert_front ::
  "'n linkable \<Rightarrow> linked_list \<Rightarrow> ptr \<Rightarrow> 'n heap \<Rightarrow> ('n heap \<times> linked_list) option" where
  "insert_front L l t h =
     (if \<not> links_null L h t then None
      else do {
        (h', l') \<leftarrow>
          (if ll_size l = 0
           then Some (h, l\<lparr> ll_head := t, ll_tail := t \<rparr>)
           else do {
             h1 \<leftarrow> set_next_at L t (ll_head l) h;
             h2 \<leftarrow> set_prev_at L (ll_head l) t h1;
             Some (h2, l\<lparr> ll_head := t \<rparr>) });
        n \<leftarrow> sum_usize (ll_size l) 1;
        Some (h', l'\<lparr> ll_size := n \<rparr>) })"

definition insert_back ::
  "'n linkable \<Rightarrow> linked_list \<Rightarrow> ptr \<Rightarrow> 'n heap \<Rightarrow> ('n heap \<times> linked_list) option" where
  "insert_back L l t h =
     (if \<not> links_null L h t then None
      else do {
        (h', l') \<leftarrow>
          (if ll_size l = 0
           then Some (h, l\<lparr> ll_head := t, ll_tail := t \<rparr>)
           else do {
             h1 \<leftarrow> set_next_at L (ll_tail l) t h;
             h2 \<leftarrow> set_prev_at L t (ll_tail l) h1;
             Some (h2, l\<lparr> ll_tail := t \<rparr>) });
        n \<leftarrow> sum_usize (ll_size l) 1;
        Some (h', l'\<lparr> ll_size := n \<rparr>) })"

definition remove_front ::
  "'n linkable \<Rightarrow> linked_list \<Rightarrow> 'n heap \<Rightarrow> ('n heap \<times> linked_list \<times> ptr) option" where
  "remove_front L l h =
     (if ll_size l = 0 then None
      else do {
        (h', l', t) \<leftarrow>
          (if ll_size l = 1
           then Some (h, l\<lparr> ll_head := null, ll_tail := null \<rparr>, ll_head l)
           else do {
             let t = ll_head l;
             hd' \<leftarrow> next_at L t h;
             h1 \<leftarrow> set_prev_at L hd' null h;
             h2 \<leftarrow> set_next_at L t null h1;
             Some (h2, l\<lparr> ll_head := hd' \<rparr>, t) });
        n \<leftarrow> sub_usize (ll_size l) 1;
        if links_null L h' t then Some (h', l'\<lparr> ll_size := n \<rparr>, t) else None })"

definition remove_back ::
  "'n linkable \<Rightarrow> linked_list \<Rightarrow> 'n heap \<Rightarrow> ('n heap \<times> linked_list \<times> ptr) option" where
  "remove_back L l h =
     (if ll_size l = 0 then None
      else do {
        (h', l', t) \<leftarrow>
          (if ll_size l = 1
           then Some (h, l\<lparr> ll_head := null, ll_tail := null \<rparr>, ll_head l)
           else do {
             let t = ll_tail l;
             tl' \<leftarrow> prev_at L t h;
             h1 \<leftarrow> set_next_at L tl' null h;
             h2 \<leftarrow> set_prev_at L t null h1;
             Some (h2, l\<lparr> ll_tail := tl' \<rparr>, t) });
        n \<leftarrow> sub_usize (ll_size l) 1;
        if links_null L h' t then Some (h', l'\<lparr> ll_size := n \<rparr>, t) else None })"

text \<open>The first half of \<open>move_to_back\<close>: take \<open>t\<close>, which is not the last node, out of its
  place; the result carries the new head.\<close>

definition unlink :: "'n linkable \<Rightarrow> linked_list \<Rightarrow> ptr \<Rightarrow> 'n heap \<Rightarrow> ('n heap \<times> ptr) option" where
  "unlink L l t h =
     (if ll_head l = t
      then do {
        nx \<leftarrow> next_at L t h;
        h' \<leftarrow> set_prev_at L nx null h;
        Some (h', nx) }
      else do {
        pv \<leftarrow> prev_at L t h;
        nx \<leftarrow> next_at L t h;
        h' \<leftarrow> set_next_at L pv nx h;
        h'' \<leftarrow> set_prev_at L nx pv h';
        Some (h'', ll_head l) })"

definition move_to_back ::
  "'n linkable \<Rightarrow> linked_list \<Rightarrow> ptr \<Rightarrow> 'n heap \<Rightarrow> ('n heap \<times> linked_list) option" where
  "move_to_back L l t h =
     (if ll_size l = 0 then None
      else if ll_size l = 1 \<or> ll_tail l = t then Some (h, l)
      else do {
        (h1, hd1) \<leftarrow> unlink L l t h;
        h2 \<leftarrow> set_prev_at L t (ll_tail l) h1;
        h3 \<leftarrow> set_next_at L t null h2;
        h4 \<leftarrow> set_next_at L (ll_tail l) t h3;
        Some (h4, l\<lparr> ll_head := hd1, ll_tail := t \<rparr>) })"

definition peek_front :: "linked_list \<Rightarrow> ptr option" where
  "peek_front l = (if ll_size l = 0 then None else Some (ll_head l))"

subsection \<open>The abstract sequence\<close>

text \<open>\<open>hd_or\<close> and \<open>last_or\<close> give the boundary pointer of a possibly empty segment;
  \<open>dseg\<close> says that the addresses \<open>xs\<close> are chained in both directions, with \<open>p\<close> before
  the first and \<open>q\<close> after the last.\<close>

definition hd_or :: "ptr \<Rightarrow> ptr list \<Rightarrow> ptr" where
  "hd_or d xs = (case xs of [] \<Rightarrow> d | x # _ \<Rightarrow> x)"

definition last_or :: "ptr \<Rightarrow> ptr list \<Rightarrow> ptr" where
  "last_or d xs = (if xs = [] then d else last xs)"

fun dseg :: "'n linkable \<Rightarrow> 'n heap \<Rightarrow> ptr \<Rightarrow> ptr list \<Rightarrow> ptr \<Rightarrow> bool" where
  "dseg L h p [] q \<longleftrightarrow> True"
| "dseg L h p (x # xs) q \<longleftrightarrow>
     x \<noteq> null
     \<and> (case h x of None \<Rightarrow> False | Some n \<Rightarrow> lk_prev L n = p \<and> lk_next L n = hd_or q xs)
     \<and> dseg L h x xs q"

definition wf_list :: "'n linkable \<Rightarrow> 'n heap \<Rightarrow> linked_list \<Rightarrow> ptr list \<Rightarrow> bool" where
  "wf_list L h l xs \<longleftrightarrow>
     dseg L h null xs null \<and> distinct xs \<and> ll_size l = length xs
     \<and> ll_head l = hd_or null xs \<and> ll_tail l = last_or null xs"

text \<open>A node outside every list.\<close>

definition unlinked :: "'n linkable \<Rightarrow> 'n heap \<Rightarrow> ptr \<Rightarrow> bool" where
  "unlinked L h t \<longleftrightarrow> t \<noteq> null
     \<and> (case h t of None \<Rightarrow> False | Some n \<Rightarrow> lk_prev L n = null \<and> lk_next L n = null)"

text \<open>Only the links of the nodes in \<open>S\<close> may differ between the two heaps.\<close>

definition same_payload :: "('n \<Rightarrow> 'd) \<Rightarrow> ptr set \<Rightarrow> 'n heap \<Rightarrow> 'n heap \<Rightarrow> bool" where
  "same_payload pay S h h' \<longleftrightarrow>
     (\<forall>p. map_option pay (h' p) = map_option pay (h p)) \<and> (\<forall>p. p \<notin> S \<longrightarrow> h' p = h p)"

lemma hd_or_simps [simp]: "hd_or d [] = d" "hd_or d (x # xs) = x"
  by (simp_all add: hd_or_def)

lemma last_or_simps [simp]:
  "last_or d [] = d" "last_or d (x # xs) = last_or x xs" "last_or d (xs @ [x]) = x"
  by (simp_all add: last_or_def)

lemma hd_or_append [simp]: "hd_or d (xs @ ys) = hd_or (hd_or d ys) xs"
  by (cases xs) simp_all

lemma last_or_append [simp]: "last_or d (xs @ ys) = last_or (last_or d xs) ys"
  by (simp add: last_or_def)

lemma dseg_append [simp]:
  "dseg L h p (xs @ ys) q \<longleftrightarrow> dseg L h p xs (hd_or q ys) \<and> dseg L h (last_or p xs) ys q"
  by (induction xs arbitrary: p) (auto split: option.splits)

lemma dseg_cong: "(\<And>x. x \<in> set xs \<Longrightarrow> h' x = h x) \<Longrightarrow> dseg L h' p xs q = dseg L h p xs q"
  by (induction xs arbitrary: p) auto

lemma dseg_upd [simp]: "t \<notin> set xs \<Longrightarrow> dseg L (h(t := v)) p xs q = dseg L h p xs q"
  by (rule dseg_cong) auto

lemma dseg_dom: "dseg L h p xs q \<Longrightarrow> set xs \<subseteq> dom h \<and> null \<notin> set xs"
  by (induction xs arbitrary: p) (auto split: option.splits)

lemma wf_list_dom: "wf_list L h l xs \<Longrightarrow> set xs \<subseteq> dom h \<and> null \<notin> set xs"
  by (auto simp: wf_list_def dest: dseg_dom)

lemma wf_list_cong:
  "(\<And>x. x \<in> set xs \<Longrightarrow> h' x = h x) \<Longrightarrow> wf_list L h' l xs = wf_list L h l xs"
  unfolding wf_list_def by (subst dseg_cong) auto

lemma wf_list_upd [simp]: "p \<notin> set xs \<Longrightarrow> wf_list L (h(p := n)) l xs = wf_list L h l xs"
  by (rule wf_list_cong) auto

lemma wf_list_new: "wf_list L h ll_new []"
  by (simp add: wf_list_def ll_new_def)

lemma wf_list_size: "wf_list L h l xs \<Longrightarrow> ll_size l = length xs"
  by (simp add: wf_list_def)

lemma wf_list_peek: "wf_list L h l (x # xs) \<Longrightarrow> peek_front l = Some x"
  by (simp add: wf_list_def peek_front_def)

lemma unlinked_links: "unlinked L h t \<Longrightarrow> links_null L h t"
  by (auto simp: unlinked_def links_null_def split: option.splits)

text \<open>A list of distinct nodes other than null never fills the address space.\<close>

lemma wf_list_lt: "wf_list L h l xs \<Longrightarrow> length xs < 2 ^ 64"
proof -
  assume wf: "wf_list L h l xs"
  have "length xs = card (set xs)" using wf by (simp add: wf_list_def distinct_card)
  also have "\<dots> < card (UNIV :: ptr set)" using wf_list_dom [OF wf] by (intro psubset_card_mono) auto
  finally show ?thesis by (simp add: card_usize)
qed

lemma wf_list_room:
  assumes wf: "wf_list L h l xs" and t: "unlinked L h t" "t \<notin> set xs"
  shows "sum_usize (ll_size l) 1 = Some (Suc (ll_size l))"
proof -
  have "Suc (length xs) = card (insert t (set xs))" using wf t(2) by (simp add: wf_list_def distinct_card)
  also have "\<dots> < card (UNIV :: ptr set)"
    using wf_list_dom [OF wf] t(1) by (intro psubset_card_mono) (auto simp: unlinked_def)
  finally show ?thesis using wf by (simp add: wf_list_def sum_usize_def card_usize)
qed

lemma same_payload_refl [simp]: "same_payload pay S h h"
  by (simp add: same_payload_def)

lemma same_payload_None: "same_payload pay S h h' \<Longrightarrow> h' p = None \<longleftrightarrow> h p = None"
  unfolding same_payload_def by (metis option.map_disc_iff)

lemma same_payload_dom: "same_payload pay S h h' \<Longrightarrow> dom h' = dom h"
  by (simp add: dom_def same_payload_None)

lemma same_payload_mono: "same_payload pay S h h' \<Longrightarrow> S \<subseteq> T \<Longrightarrow> same_payload pay T h h'"
  by (auto simp: same_payload_def)

lemma same_payload_upd:
  "same_payload pay S h h' \<Longrightarrow> t \<in> S \<Longrightarrow> h' t = Some n \<Longrightarrow> pay n' = pay n
    \<Longrightarrow> same_payload pay S h (h'(t \<mapsto> n'))"
  unfolding same_payload_def by (metis fun_upd_apply option.simps(9))

lemma unlinked_cong: "h' p = h p \<Longrightarrow> unlinked L h' p = unlinked L h p"
  by (simp add: unlinked_def)

text \<open>Heaps with the same links hold the same lists.\<close>

definition same_links :: "'n linkable \<Rightarrow> 'n heap \<Rightarrow> 'n heap \<Rightarrow> bool" where
  "same_links L h h' \<longleftrightarrow>
     (\<forall>p. map_option (\<lambda>n. (lk_prev L n, lk_next L n)) (h' p) = map_option (\<lambda>n. (lk_prev L n, lk_next L n)) (h p))"

lemma same_links_at:
  "same_links L h h' \<Longrightarrow> (case h' p of None \<Rightarrow> False | Some n \<Rightarrow> lk_prev L n = a \<and> lk_next L n = b)
    \<longleftrightarrow> (case h p of None \<Rightarrow> False | Some n \<Rightarrow> lk_prev L n = a \<and> lk_next L n = b)"
  by (cases "h p"; cases "h' p") (auto simp: same_links_def dest!: spec [of _ p])

lemma same_links_dseg: "same_links L h h' \<Longrightarrow> dseg L h' p xs q = dseg L h p xs q"
  by (induction xs arbitrary: p) (simp_all add: same_links_at)

lemma same_links_wf_list: "same_links L h h' \<Longrightarrow> wf_list L h' l xs = wf_list L h l xs"
  by (simp add: wf_list_def same_links_dseg)

lemma same_links_unlinked: "same_links L h h' \<Longrightarrow> unlinked L h' p = unlinked L h p"
  by (simp add: unlinked_def same_links_at)

lemma same_links_dom: "same_links L h h' \<Longrightarrow> dom h' = dom h"
  unfolding same_links_def dom_def by (metis (mono_tags, lifting) map_option_is_None)

subsection \<open>The operations refine operations on the sequence\<close>

locale linkable_laws =
  fixes L :: "'n linkable"
    and pay :: "'n \<Rightarrow> 'd"
  assumes next_set_next [simp]: "lk_next L (lk_set_next L n p) = p"
    and next_set_prev [simp]: "lk_next L (lk_set_prev L n p) = lk_next L n"
    and prev_set_prev [simp]: "lk_prev L (lk_set_prev L n p) = p"
    and prev_set_next [simp]: "lk_prev L (lk_set_next L n p) = lk_prev L n"
    and pay_set_next [simp]: "pay (lk_set_next L n p) = pay n"
    and pay_set_prev [simp]: "pay (lk_set_prev L n p) = pay n"
begin

lemma set_next_payload:
  "same_payload pay S h h1 \<Longrightarrow> set_next_at L t v h1 = Some h2 \<Longrightarrow> t \<in> S \<Longrightarrow> same_payload pay S h h2"
  by (auto simp: set_next_at_def intro: same_payload_upd split: option.splits)

lemma set_prev_payload:
  "same_payload pay S h h1 \<Longrightarrow> set_prev_at L t v h1 = Some h2 \<Longrightarrow> t \<in> S \<Longrightarrow> same_payload pay S h h2"
  by (auto simp: set_prev_at_def intro: same_payload_upd split: option.splits)

lemma insert_front_wf:
  assumes wf: "wf_list L h l xs" and t: "unlinked L h t" "t \<notin> set xs"
  shows "\<exists>h' l'. insert_front L l t h = Some (h', l') \<and> wf_list L h' l' (t # xs)
    \<and> same_payload pay (set (t # xs)) h h'"
proof (cases xs)
  case Nil
  then show ?thesis
    using wf t wf_list_room [OF wf t] unlinked_links [OF t(1)]
    by (auto simp: insert_front_def wf_list_def unlinked_def split: option.splits)
next
  case (Cons y ys)
  obtain n where n: "h t = Some n" "t \<noteq> null" "lk_prev L n = null" "lk_next L n = null"
    using t(1) by (auto simp: unlinked_def split: option.splits)
  obtain m where m: "h y = Some m" "y \<noteq> null" "lk_next L m = hd_or null ys" "lk_prev L m = null"
    using wf Cons by (auto simp: wf_list_def split: option.splits)
  have ne: "y \<noteq> t" "t \<notin> set ys" "y \<notin> set ys"
    using t(2) wf Cons by (auto simp: wf_list_def)
  let ?h = "h(t \<mapsto> lk_set_next L n y, y \<mapsto> lk_set_prev L m t)"
  have "insert_front L l t h = Some (?h, l\<lparr> ll_head := t, ll_size := ll_size l + 1 \<rparr>)"
    using wf Cons n m ne wf_list_room [OF wf t] unlinked_links [OF t(1)]
    by (simp add: insert_front_def wf_list_def set_next_at_def set_prev_at_def)
  moreover have "wf_list L ?h (l\<lparr> ll_head := t, ll_size := ll_size l + 1 \<rparr>) (t # xs)"
    using wf Cons n m ne by (auto simp: wf_list_def)
  moreover have "same_payload pay (set (t # xs)) h ?h"
    using n m ne Cons by (auto intro!: same_payload_upd)
  ultimately show ?thesis by blast
qed

lemma insert_back_wf:
  assumes wf: "wf_list L h l xs" and t: "unlinked L h t" "t \<notin> set xs"
  shows "\<exists>h' l'. insert_back L l t h = Some (h', l') \<and> wf_list L h' l' (xs @ [t])
    \<and> same_payload pay (set (xs @ [t])) h h'"
proof (cases xs rule: rev_cases)
  case Nil
  then show ?thesis
    using wf t wf_list_room [OF wf t] unlinked_links [OF t(1)]
    by (auto simp: insert_back_def wf_list_def unlinked_def split: option.splits)
next
  case (snoc ys y)
  obtain n where n: "h t = Some n" "t \<noteq> null" "lk_next L n = null" "lk_prev L n = null"
    using t(1) by (auto simp: unlinked_def split: option.splits)
  obtain m where m: "h y = Some m" "y \<noteq> null" "lk_prev L m = last_or null ys" "lk_next L m = null"
    using wf snoc by (auto simp: wf_list_def split: option.splits)
  have ne: "y \<noteq> t" "t \<notin> set ys" "y \<notin> set ys"
    using t(2) wf snoc by (auto simp: wf_list_def)
  let ?h = "h(y \<mapsto> lk_set_next L m t, t \<mapsto> lk_set_prev L n y)"
  have "insert_back L l t h = Some (?h, l\<lparr> ll_tail := t, ll_size := ll_size l + 1 \<rparr>)"
    using wf snoc n m ne wf_list_room [OF wf t] unlinked_links [OF t(1)]
    by (simp add: insert_back_def wf_list_def set_next_at_def set_prev_at_def)
  moreover have "wf_list L ?h (l\<lparr> ll_tail := t, ll_size := ll_size l + 1 \<rparr>) (xs @ [t])"
    using wf snoc n m ne by (auto simp: wf_list_def)
  moreover have "same_payload pay (set (xs @ [t])) h ?h"
    using n m ne snoc by (auto intro!: same_payload_upd)
  ultimately show ?thesis by blast
qed

lemma remove_front_wf:
  assumes wf: "wf_list L h l (t # xs)"
  shows "\<exists>h' l'. remove_front L l h = Some (h', l', t) \<and> wf_list L h' l' xs \<and> unlinked L h' t
    \<and> same_payload pay (set (t # xs)) h h'"
proof (cases xs)
  case Nil
  then show ?thesis
    using wf by (auto simp: remove_front_def wf_list_def unlinked_def links_null_def sub_usize_def split: option.splits)
next
  case (Cons y ys)
  obtain n where n: "h t = Some n" "t \<noteq> null" "lk_prev L n = null" "lk_next L n = y"
    using wf Cons by (auto simp: wf_list_def split: option.splits)
  obtain m where m: "h y = Some m" "y \<noteq> null" "lk_next L m = hd_or null ys" "lk_prev L m = t"
    using wf Cons by (auto simp: wf_list_def split: option.splits)
  have ne: "y \<noteq> t" "t \<notin> set ys" "y \<notin> set ys"
    using wf Cons by (auto simp: wf_list_def)
  let ?h = "h(y \<mapsto> lk_set_prev L m null, t \<mapsto> lk_set_next L n null)"
  let ?l = "l\<lparr> ll_head := y, ll_size := ll_size l - 1 \<rparr>"
  have "remove_front L l h = Some (?h, ?l, t)"
    using wf Cons n m ne
    by (simp add: remove_front_def wf_list_def set_next_at_def set_prev_at_def next_at_def links_null_def sub_usize_def)
  moreover have "wf_list L ?h ?l xs" "unlinked L ?h t"
    using wf Cons n m ne by (auto simp: wf_list_def unlinked_def)
  moreover have "same_payload pay (set (t # xs)) h ?h"
    using n m ne Cons by (auto intro!: same_payload_upd)
  ultimately show ?thesis by blast
qed

lemma remove_back_wf:
  assumes wf: "wf_list L h l (xs @ [t])"
  shows "\<exists>h' l'. remove_back L l h = Some (h', l', t) \<and> wf_list L h' l' xs \<and> unlinked L h' t
    \<and> same_payload pay (set (xs @ [t])) h h'"
proof (cases xs rule: rev_cases)
  case Nil
  then show ?thesis
    using wf by (auto simp: remove_back_def wf_list_def unlinked_def links_null_def sub_usize_def split: option.splits)
next
  case (snoc ys y)
  obtain n where n: "h t = Some n" "t \<noteq> null" "lk_prev L n = y" "lk_next L n = null"
    using wf snoc by (auto simp: wf_list_def split: option.splits)
  obtain m where m: "h y = Some m" "y \<noteq> null" "lk_prev L m = last_or null ys" "lk_next L m = t"
    using wf snoc by (auto simp: wf_list_def split: option.splits)
  have ne: "y \<noteq> t" "t \<notin> set ys" "y \<notin> set ys"
    using wf snoc by (auto simp: wf_list_def)
  let ?h = "h(y \<mapsto> lk_set_next L m null, t \<mapsto> lk_set_prev L n null)"
  let ?l = "l\<lparr> ll_tail := y, ll_size := ll_size l - 1 \<rparr>"
  have "remove_back L l h = Some (?h, ?l, t)"
    using wf snoc n m ne
    by (simp add: remove_back_def wf_list_def set_next_at_def set_prev_at_def prev_at_def links_null_def sub_usize_def)
  moreover have "wf_list L ?h ?l xs" "unlinked L ?h t"
    using wf snoc n m ne by (auto simp: wf_list_def unlinked_def)
  moreover have "same_payload pay (set (xs @ [t])) h ?h"
    using n m ne snoc by (auto intro!: same_payload_upd)
  ultimately show ?thesis by blast
qed

lemma unlink_wf:
  assumes wf: "wf_list L h l (as @ t # x # bs)"
  shows "\<exists>h1. unlink L l t h = Some (h1, hd_or null (as @ x # bs)) \<and> h1 t = h t
    \<and> dseg L h1 null (as @ x # bs) null \<and> same_payload pay (set (as @ x # bs)) h h1"
proof (cases as rule: rev_cases)
  case Nil
  obtain n where n: "h t = Some n" "lk_next L n = x"
    using wf Nil by (auto simp: wf_list_def split: option.splits)
  obtain m where m: "h x = Some m"
    using wf by (auto simp: wf_list_def split: option.splits)
  show ?thesis
    using wf n m Nil
    by (auto simp: unlink_def wf_list_def set_prev_at_def next_at_def intro!: same_payload_upd)
next
  case (snoc as' p)
  obtain n where n: "h t = Some n" "lk_next L n = x" "lk_prev L n = p"
    using wf snoc by (auto simp: wf_list_def split: option.splits)
  obtain m where m: "h x = Some m"
    using wf by (auto simp: wf_list_def split: option.splits)
  obtain k where k: "h p = Some k"
    using wf snoc by (auto simp: wf_list_def split: option.splits)
  have ne: "p \<noteq> x" "p \<noteq> t" "x \<noteq> t" "hd_or p as' \<noteq> t" "hd_or x as' \<noteq> t"
    using wf snoc by (cases as'; auto simp: wf_list_def)+
  show ?thesis
    using wf n m k ne snoc
    by (auto simp: unlink_def wf_list_def set_prev_at_def set_next_at_def next_at_def prev_at_def
        intro!: same_payload_upd)
qed

lemma move_to_back_wf:
  assumes wf: "wf_list L h l (as @ t # bs)"
  shows "\<exists>h' l'. move_to_back L l t h = Some (h', l') \<and> wf_list L h' l' (as @ bs @ [t])
    \<and> same_payload pay (set (as @ t # bs)) h h'"
proof (cases bs rule: rev_cases)
  case Nil
  then show ?thesis
    using wf by (auto simp: move_to_back_def wf_list_def)
next
  case (snoc bs' y)
  let ?zs = "as @ bs'"
  obtain x bs'' where x: "bs = x # bs''"
    using snoc by (cases bs') auto
  obtain h1 where h1: "unlink L l t h = Some (h1, hd_or null (?zs @ [y]))" "h1 t = h t"
    "dseg L h1 null (?zs @ [y]) null" "same_payload pay (set (?zs @ [y])) h h1"
    using unlink_wf [of h l as t x bs''] wf unfolding x [symmetric] snoc append_assoc by blast
  obtain n where n: "h1 t = Some n" "t \<noteq> null"
    using wf h1(2) by (auto simp: wf_list_def split: option.splits)
  obtain m where m: "h1 y = Some m"
    using h1(3) by (auto split: option.splits)
  have ne: "y \<noteq> t" "t \<notin> set ?zs" "y \<notin> set ?zs" "distinct ?zs" "ll_tail l = y"
    using wf snoc by (auto simp: wf_list_def)
  let ?h = "h1(t \<mapsto> lk_set_next L (lk_set_prev L n y) null, y \<mapsto> lk_set_next L m t)"
  let ?l = "l\<lparr> ll_head := hd_or null (?zs @ [y]), ll_tail := t \<rparr>"
  have "move_to_back L l t h = Some (?h, ?l)"
    using wf snoc ne n m h1(1)
    by (simp add: move_to_back_def wf_list_def set_next_at_def set_prev_at_def)
  moreover have "wf_list L ?h ?l (as @ bs @ [t])"
    using wf snoc ne n m h1(3) by (auto simp: wf_list_def)
  moreover have "same_payload pay (set (as @ t # bs)) h ?h"
    using n m ne snoc same_payload_mono [OF h1(4), of "set (as @ t # bs)"]
    by (auto intro!: same_payload_upd)
  ultimately show ?thesis by blast
qed

end

end
