(* ===== verification/Slab_Util.thy ===== *)
theory Slab_Util
  imports Prelude Complex_Main
begin

text \<open>
  The small building blocks of \<open>slab-alloc/src/util.rs\<close> apart from the linked list: the
  slab size search \<open>choose_size\<close>, the manually allocated \<open>Stack\<close>, slab colouring,
  the working set and \<open>satisfy_min_align\<close>.  A panic of the source is \<open>None\<close>.
\<close>

subsection \<open>Double precision ratios\<close>

text \<open>\<open>choose_size\<close> compares ratios of two \<open>usize\<close> values computed as \<open>f64\<close>.  The
  operands are non-negative and at most \<open>2^64\<close>, so no exponent overflows and the only
  effect of the format is rounding to 53 significant bits, half to even.\<close>

definition round_half_even :: "nat \<Rightarrow> nat \<Rightarrow> nat" where
  "round_half_even a b =
     (let q = a div b; r = a mod b in
      if 2 * r < b then q else if 2 * r > b then q + 1
      else if even q then q else q + 1)"

fun bit_length :: "nat \<Rightarrow> nat" where
  "bit_length n = (if n = 0 then 0 else Suc (bit_length (n div 2)))"

declare bit_length.simps [simp del]

text \<open>A positive ratio \<open>a / b\<close> is scaled by a power of two so that the quotient has 53
  bits; the result is the pair of the rounded quotient and the scale, as a rational.\<close>

definition f64_ratio :: "nat \<Rightarrow> nat \<Rightarrow> rat" where
  "f64_ratio a b =
     (if a = 0 then 0 else
      let k = int 53 + int (bit_length b) - int (bit_length a);
          scaled = (\<lambda>k. if 0 \<le> k then (a * 2 ^ nat k, b) else (a, b * 2 ^ nat (- k)));
          k' = (if 2 ^ 53 * snd (scaled k) \<le> fst (scaled k) then k - 1 else k);
          m = round_half_even (fst (scaled k')) (snd (scaled k')) in
      if 0 \<le> k' then of_nat m / 2 ^ nat k' else of_nat m * 2 ^ nat (- k'))"

definition f64_of_usize :: "nat \<Rightarrow> rat" where
  "f64_of_usize a = f64_ratio a 1"

definition f64_div :: "nat \<Rightarrow> nat \<Rightarrow> rat" where
  "f64_div a b =
     (let x = quotient_of (f64_of_usize a); y = quotient_of (f64_of_usize b) in
      f64_ratio (nat (fst x) * nat (snd y)) (nat (snd x) * nat (fst y)))"

subsection \<open>\<open>size::choose_size\<close>\<close>

text \<open>The loop body keeps the best size so far and its unused space per object, given what the
  closure says of the size \<open>sz\<close>; \<open>Inl\<close> is the \<open>break\<close>, \<open>Inr\<close> goes on.\<close>

type_synonym size_choice = "nat option \<times> rat option"

definition cs_leq :: "rat \<Rightarrow> rat option \<Rightarrow> bool" where
  "cs_leq a b = (case b of None \<Rightarrow> True | Some b' \<Rightarrow> a \<le> b')"

definition choose_step ::
  "(nat \<times> nat) option \<Rightarrow> nat \<Rightarrow> nat \<Rightarrow> size_choice \<Rightarrow> size_choice + size_choice" where
  "choose_step unused max_objs sz st =
     (case unused of
        None \<Rightarrow> Inr st
      | Some (objects, un) \<Rightarrow>
          let per = f64_div un objects in
          if max_objs < objects
          then Inl (if fst st = None then (Some sz, snd st) else st)
          else if cs_leq per (snd st) then Inr (Some sz, Some per)
          else Inr st)"

text \<open>The sizes come from an iterator: a state and a function that gives the next item and
  the next state.  The iterator may be endless, so the loop is a partial function; a
  result of \<open>Some\<close> means that the loop ended and that the closure did not panic, which is its
  outer \<open>None\<close>.\<close>

partial_function (option) choose_loop ::
  "('s \<Rightarrow> (nat \<times> 's) option) \<Rightarrow> (nat \<Rightarrow> (nat \<times> nat) option option) \<Rightarrow> nat \<Rightarrow> 's \<Rightarrow> size_choice
    \<Rightarrow> size_choice option" where
  [code]: "choose_loop nx unused max_objs s st =
     (case nx s of
        None \<Rightarrow> Some st
      | Some (sz, s') \<Rightarrow>
          (case unused sz of
             None \<Rightarrow> None
           | Some un \<Rightarrow>
               (case choose_step un max_objs sz st of
                  Inl st' \<Rightarrow> Some st'
                | Inr st' \<Rightarrow> choose_loop nx unused max_objs s' st')))"

text \<open>\<open>Some None\<close> is the panic \<open>no valid slab size found\<close>.\<close>

definition choose_size ::
  "('s \<Rightarrow> (nat \<times> 's) option) \<Rightarrow> 's \<Rightarrow> (nat \<Rightarrow> (nat \<times> nat) option option) \<Rightarrow> nat \<Rightarrow> nat option option" where
  "choose_size nx s unused max_objs =
     map_option fst (choose_loop nx unused max_objs s (None, None))"

subsection \<open>\<open>stack::Stack\<close>\<close>

text \<open>Only the size is part of the header; the elements are the words of memory from
  \<open>data\<close> on.  The element type is always \<open>usize\<close>.\<close>

type_synonym word_mem = "ptr \<Rightarrow> usize"

record stack =
  stk_size :: nat

definition word_bytes :: nat where
  "word_bytes = 8"

definition padding_after :: "nat \<Rightarrow> nat" where
  "padding_after sz = padding_needed_for sz word_bytes"

definition bytes_for :: "nat \<Rightarrow> nat" where
  "bytes_for sz = sz * word_bytes"

definition stack_new :: stack where
  "stack_new = \<lparr> stk_size = 0 \<rparr>"

definition get_at_idx :: "word_mem \<Rightarrow> ptr \<Rightarrow> nat \<Rightarrow> usize" where
  "get_at_idx mem data idx = mem (offset data (idx * word_bytes))"

definition set_at_idx :: "word_mem \<Rightarrow> ptr \<Rightarrow> nat \<Rightarrow> usize \<Rightarrow> word_mem" where
  "set_at_idx mem data idx v = mem(offset data (idx * word_bytes) := v)"

definition stack_push :: "stack \<Rightarrow> ptr \<Rightarrow> usize \<Rightarrow> word_mem \<Rightarrow> stack \<times> word_mem" where
  "stack_push s data v mem =
     (s\<lparr> stk_size := stk_size s + 1 \<rparr>, set_at_idx mem data (stk_size s) v)"

text \<open>Popping an empty stack reads before the start of the data: \<open>None\<close>.\<close>

definition stack_pop :: "stack \<Rightarrow> ptr \<Rightarrow> word_mem \<Rightarrow> (stack \<times> usize) option" where
  "stack_pop s data mem =
     (if stk_size s = 0 then None
      else let n = stk_size s - 1 in Some (s\<lparr> stk_size := n \<rparr>, get_at_idx mem data n))"

text \<open>The elements of a stack, bottom first.\<close>

definition stack_elems :: "stack \<Rightarrow> ptr \<Rightarrow> word_mem \<Rightarrow> usize list" where
  "stack_elems s data mem = map (get_at_idx mem data) [0 ..< stk_size s]"

subsection \<open>\<open>color\<close>\<close>

type_synonym color = nat

record color_settings =
  cs_max_color :: nat
  cs_cur_color :: nat

definition color_settings_new :: "nat \<Rightarrow> nat \<Rightarrow> color_settings" where
  "color_settings_new al unused =
     \<lparr> cs_max_color = (unused div al) * al, cs_cur_color = 0 \<rparr>"

definition next_color :: "nat \<Rightarrow> color_settings \<Rightarrow> (color_settings \<times> color) option" where
  "next_color al cs =
     (let c = cs_cur_color cs in
      if c mod al = 0 \<and> cs_max_color cs mod al = 0 \<and> c \<le> cs_max_color cs
      then Some (cs\<lparr> cs_cur_color := (if c = cs_max_color cs then 0 else c + al) \<rparr>, c)
      else None)"

subsection \<open>\<open>workingset\<close> and \<open>misc\<close>\<close>

text \<open>An \<open>Instant\<close> is a number of nanoseconds; \<open>duration_since\<close> panics on an instant
  that lies in the future.\<close>

record 'a working_set =
  ws_data :: 'a
  ws_period_begin :: nat

definition working_set_new :: "nat \<Rightarrow> 'a \<Rightarrow> 'a working_set" where
  "working_set_new now init = \<lparr> ws_data = init, ws_period_begin = now \<rparr>"

definition working_set_set :: "'a \<Rightarrow> 'a working_set \<Rightarrow> 'a working_set" where
  "working_set_set new ws = ws\<lparr> ws_data := new \<rparr>"

definition refresh_now ::
  "nat \<Rightarrow> nat \<Rightarrow> 'a working_set \<Rightarrow> ('a working_set \<times> 'a option) option" where
  "refresh_now secs now ws =
     (if now < ws_period_begin ws then None
      else if secs \<le> (now - ws_period_begin ws) div 10 ^ 9
      then Some (ws\<lparr> ws_period_begin := now \<rparr>, Some (ws_data ws))
      else Some (ws, None))"

definition update_min :: "'a :: linorder \<Rightarrow> 'a working_set \<Rightarrow> 'a working_set" where
  "update_min new ws = (if new < ws_data ws then ws\<lparr> ws_data := new \<rparr> else ws)"

text \<open>\<open>Layout::align_to\<close> raises the alignment and panics where the result is no layout.\<close>

definition layout_align_to :: "layout \<Rightarrow> nat \<Rightarrow> layout option" where
  "layout_align_to l al = layout_from_size_align (lay_size l) (max (lay_align l) al)"

definition satisfy_min_align :: "layout \<Rightarrow> nat \<Rightarrow> layout option" where
  "satisfy_min_align l min_align =
     (if min_align \<le> lay_align l then Some l
      else if lay_size l mod min_align = 0 then layout_align_to l min_align
      else layout_from_size_align
             (lay_size l + min_align - lay_size l mod min_align) min_align)"

subsection \<open>The stack behaves like a sequence\<close>

lemma idx_inj [addr_simps]:
  assumes "fits data (bytes_for cap)" "i < cap" "j < cap"
  shows "offset data (i * word_bytes) = offset data (j * word_bytes) \<longleftrightarrow> i = j"
proof -
  have "i * word_bytes < bytes_for cap" "j * word_bytes < bytes_for cap"
    using assms(2,3) by (auto simp: word_bytes_def bytes_for_def)
  then show ?thesis
    using offset_inj [OF assms(1)] by (auto simp: word_bytes_def)
qed

lemma stack_elems_length [simp]: "length (stack_elems s data mem) = stk_size s"
  by (simp add: stack_elems_def)

lemma stack_elems_new [simp]: "stack_elems stack_new data mem = []"
  by (simp add: stack_elems_def stack_new_def)

lemma stack_elems_push:
  assumes "fits data (bytes_for cap)" "stk_size s < cap" "stack_push s data v mem = (s', mem')"
  shows "stack_elems s' data mem' = stack_elems s data mem @ [v]"
  using assms(2,3) idx_inj [OF assms(1)]
  by (auto simp: stack_push_def stack_elems_def get_at_idx_def set_at_idx_def)

lemma stack_pop_elems:
  assumes "stack_elems s data mem = xs @ [v]"
  shows "\<exists>s'. stack_pop s data mem = Some (s', v) \<and> stack_elems s' data mem = xs"
proof -
  have n: "stk_size s = Suc (length xs)"
    using arg_cong [OF assms, of length] by simp
  then have "xs @ [v] = map (get_at_idx mem data) [0 ..< length xs] @ [get_at_idx mem data (length xs)]"
    using assms by (simp add: stack_elems_def)
  then show ?thesis
    using n by (simp add: stack_pop_def stack_elems_def Let_def)
qed

lemma stack_elems_cong:
  "(\<And>i. i < stk_size s \<Longrightarrow> mem' (offset data (i * word_bytes)) = mem (offset data (i * word_bytes)))
    \<Longrightarrow> stack_elems s data mem' = stack_elems s data mem"
  by (simp add: stack_elems_def get_at_idx_def)

lemma stack_push_frame:
  "stack_push s data v mem = (s', mem') \<Longrightarrow> a \<noteq> offset data (stk_size s * word_bytes) \<Longrightarrow> mem' a = mem a"
  by (auto simp: stack_push_def set_at_idx_def)

lemma stack_push_size: "stack_push s data v mem = (s', mem') \<Longrightarrow> stk_size s' = Suc (stk_size s)"
  by (auto simp: stack_push_def)

subsection \<open>Colours\<close>

definition color_wf :: "nat \<Rightarrow> color_settings \<Rightarrow> bool" where
  "color_wf al cs \<longleftrightarrow> 0 < al \<and> al dvd cs_max_color cs \<and> al dvd cs_cur_color cs
     \<and> cs_cur_color cs \<le> cs_max_color cs"

lemma color_settings_new_wf:
  "0 < al \<Longrightarrow> color_wf al (color_settings_new al unused)
    \<and> cs_max_color (color_settings_new al unused) \<le> unused"
  by (simp add: color_wf_def color_settings_new_def)

lemma next_color_wf:
  assumes "color_wf al cs"
  shows "\<exists>cs' c. next_color al cs = Some (cs', c) \<and> color_wf al cs' \<and> c = cs_cur_color cs
    \<and> cs_max_color cs' = cs_max_color cs \<and> al dvd c \<and> c \<le> cs_max_color cs
    \<and> cs_cur_color cs' div al = (cs_cur_color cs div al + 1) mod (cs_max_color cs div al + 1)"
proof -
  obtain m k where mk: "cs_max_color cs = al * m" "cs_cur_color cs = al * k" "0 < al" "k \<le> m"
    using assms by (auto simp: color_wf_def dvd_def)
  have "k \<noteq> m \<Longrightarrow> k * al + al \<le> m * al"
    using mk(4) mult_le_mono1 [of "Suc k" m al] by simp
  moreover have "(k * al + al) div al = Suc k"
    using mk(3) by (simp add: add.commute)
  ultimately show ?thesis
    using mk by (auto simp: color_wf_def next_color_def Let_def mult.commute [of al])
qed

text \<open>The colours of the next \<open>n\<close> slabs.\<close>

fun colors :: "nat \<Rightarrow> nat \<Rightarrow> color_settings \<Rightarrow> color list" where
  "colors al 0 cs = []"
| "colors al (Suc n) cs =
     (case next_color al cs of None \<Rightarrow> [] | Some (cs', c) \<Rightarrow> c # colors al n cs')"

lemma colors_cycle:
  assumes "color_wf al cs"
  shows "colors al n cs =
    map (\<lambda>i. ((cs_cur_color cs div al + i) mod (cs_max_color cs div al + 1)) * al) [0 ..< n]"
  using assms
proof (induction n arbitrary: cs)
  case 0
  then show ?case by simp
next
  case (Suc n)
  obtain cs' c where step: "next_color al cs = Some (cs', c)" "color_wf al cs'" "c = cs_cur_color cs"
    "cs_max_color cs' = cs_max_color cs" "al dvd c" "c \<le> cs_max_color cs"
    "cs_cur_color cs' div al = (cs_cur_color cs div al + 1) mod (cs_max_color cs div al + 1)"
    using next_color_wf [OF Suc.prems] by blast
  have "cs_cur_color cs div al \<le> cs_max_color cs div al"
    using step(3,6) div_le_mono by blast
  then have c: "c = ((cs_cur_color cs div al + 0) mod (cs_max_color cs div al + 1)) * al"
    using step(3,5) by simp
  have "colors al (Suc n) cs = c # map (\<lambda>i. ((cs_cur_color cs div al + 1 + i)
    mod (cs_max_color cs div al + 1)) * al) [0 ..< n]"
    using Suc.IH [OF step(2)] step by (simp add: mod_add_left_eq)
  also have "\<dots> = map (\<lambda>i. ((cs_cur_color cs div al + i) mod (cs_max_color cs div al + 1)) * al)
    (0 # map Suc [0 ..< n])"
    using c by simp
  finally show ?case
    by (simp only: upt_conv_Cons map_Suc_upt zero_less_Suc)
qed

subsection \<open>The search for a slab size\<close>

text \<open>\<open>enumerates nx s xs\<close>: from state \<open>s\<close> the iterator gives exactly the items \<open>xs\<close>.
  On such an iterator the loop is the fold \<open>choose_list\<close> over the items.\<close>

fun enumerates :: "('s \<Rightarrow> (nat \<times> 's) option) \<Rightarrow> 's \<Rightarrow> nat list \<Rightarrow> bool" where
  "enumerates nx s [] \<longleftrightarrow> nx s = None"
| "enumerates nx s (x # xs) \<longleftrightarrow>
     (case nx s of None \<Rightarrow> False | Some (y, s') \<Rightarrow> y = x \<and> enumerates nx s' xs)"

fun choose_list ::
  "(nat \<Rightarrow> (nat \<times> nat) option) \<Rightarrow> nat \<Rightarrow> nat list \<Rightarrow> size_choice \<Rightarrow> size_choice" where
  "choose_list unused m [] st = st"
| "choose_list unused m (x # xs) st =
     (case choose_step (unused x) m x st of Inl st' \<Rightarrow> st' | Inr st' \<Rightarrow> choose_list unused m xs st')"

text \<open>The sizes the loop looks at before one holds too many objects, those of them that
  can hold a slab, and the ratio it minimises.\<close>

definition scanned :: "(nat \<Rightarrow> (nat \<times> nat) option) \<Rightarrow> nat \<Rightarrow> nat list \<Rightarrow> nat list" where
  "scanned unused m xs =
     takeWhile (\<lambda>x. case unused x of None \<Rightarrow> True | Some (n, u) \<Rightarrow> n \<le> m) xs"

definition candidates :: "(nat \<Rightarrow> (nat \<times> nat) option) \<Rightarrow> nat \<Rightarrow> nat list \<Rightarrow> nat list" where
  "candidates unused m xs = filter (\<lambda>x. \<not> Option.is_none (unused x)) (scanned unused m xs)"

definition unused_ratio :: "(nat \<Rightarrow> (nat \<times> nat) option) \<Rightarrow> nat \<Rightarrow> rat" where
  "unused_ratio unused x = (case unused x of None \<Rightarrow> 0 | Some (n, u) \<Rightarrow> f64_div u n)"

lemma scanned_simps [simp]:
  "scanned unused m [] = []"
  "scanned unused m (x # xs) =
     (if (case unused x of None \<Rightarrow> True | Some (n, u) \<Rightarrow> n \<le> m) then x # scanned unused m xs else [])"
  by (simp_all add: scanned_def)

lemma candidates_Nil [simp]: "candidates unused m [] = []"
  by (simp add: candidates_def)

lemma candidates_Cons [simp]:
  "candidates unused m (x # xs) =
     (case unused x of None \<Rightarrow> candidates unused m xs
      | Some (n, u) \<Rightarrow> if n \<le> m then x # candidates unused m xs else [])"
proof (cases "unused x")
  case None
  then show ?thesis by (simp add: candidates_def)
next
  case (Some p)
  then show ?thesis by (cases "fst p \<le> m") (simp_all add: candidates_def split_beta)
qed

text \<open>The sizes the loop asks the closure about: those before the first with too many objects, and
  that one.  On an iterator that gives \<open>xs\<close>, the loop panics if the closure does on one of them,
  and is the fold otherwise.\<close>

definition asked :: "(nat \<Rightarrow> (nat \<times> nat) option) \<Rightarrow> nat \<Rightarrow> nat list \<Rightarrow> nat list" where
  "asked unused m xs = take (Suc (length (scanned unused m xs))) xs"

definition unpanic :: "(nat \<Rightarrow> 'a option option) \<Rightarrow> nat \<Rightarrow> 'a option" where
  "unpanic f x = Option.bind (f x) (\<lambda>y. y)"

lemma asked_simps [simp]:
  "asked unused m [] = []"
  "asked unused m (x # xs) =
     (if (case unused x of None \<Rightarrow> True | Some (n, u) \<Rightarrow> n \<le> m) then x # asked unused m xs else [x])"
  by (simp_all add: asked_def)

lemma choose_loop_list:
  "enumerates nx s xs \<Longrightarrow> choose_loop nx unused m s st =
    (if \<forall>x \<in> set (asked (unpanic unused) m xs). unused x \<noteq> None then Some (choose_list (unpanic unused) m xs st) else None)"
proof (induction xs arbitrary: s st)
  case Nil
  then show ?case by (simp add: choose_loop.simps)
next
  case (Cons x xs)
  then obtain s' where s': "nx s = Some (x, s')" "enumerates nx s' xs"
    by (auto split: option.splits)
  show ?case
  proof (cases "unused x")
    case None
    then show ?thesis using s'(1) by (subst choose_loop.simps) auto
  next
    case (Some un)
    then have u: "unpanic unused x = un" by (simp add: unpanic_def)
    show ?thesis
      using s' u Some Cons.IH [OF s'(2)]
      by (subst choose_loop.simps) (auto simp: choose_step_def Let_def split: option.splits)
  qed
qed

lemma choose_list_best:
  "mu = Some (unused_ratio unused b) \<Longrightarrow>
   \<exists>r. fst (choose_list unused m xs (Some b, mu)) = Some r \<and> r \<in> insert b (set (candidates unused m xs))
     \<and> unused_ratio unused r \<le> unused_ratio unused b
     \<and> (\<forall>x \<in> set (candidates unused m xs). unused_ratio unused r \<le> unused_ratio unused x)"
proof (induction xs arbitrary: b mu)
  case Nil
  then show ?case by simp
next
  case (Cons x xs)
  show ?case
  proof (cases "unused x")
    case None
    then show ?thesis
      using Cons.IH [OF Cons.prems] by (simp add: choose_step_def)
  next
    case (Some p)
    obtain n u where p: "p = (n, u)" by (cases p)
    have r: "unused_ratio unused x = f64_div u n"
      using Some p by (simp add: unused_ratio_def)
    show ?thesis
      using Some p r Cons.prems Cons.IH [of mu b] Cons.IH [of "Some (f64_div u n)" x]
      by (auto simp: choose_step_def cs_leq_def Let_def intro: order_trans)
  qed
qed

text \<open>What the search returns: the candidate with the least unused space per object, or,
  when there is none, the first size with too many objects; and no size at all only when
  no size of the iterator can hold a slab.\<close>

definition best_size :: "(nat \<Rightarrow> (nat \<times> nat) option) \<Rightarrow> nat \<Rightarrow> nat list \<Rightarrow> nat option \<Rightarrow> bool" where
  "best_size unused m xs r \<longleftrightarrow>
     (if candidates unused m xs = []
      then r = (if scanned unused m xs = xs then None else Some (xs ! length (scanned unused m xs)))
      else case r of None \<Rightarrow> False
           | Some b \<Rightarrow> b \<in> set (candidates unused m xs)
               \<and> list_all (\<lambda>x. unused_ratio unused b \<le> unused_ratio unused x)
                   (candidates unused m xs))"

lemma choose_list_first: "best_size unused m xs (fst (choose_list unused m xs (None, None)))"
proof (induction xs)
  case Nil
  then show ?case by (simp add: best_size_def)
next
  case (Cons x xs)
  show ?case
  proof (cases "unused x")
    case None
    then show ?thesis
      using Cons.IH by (auto simp: best_size_def choose_step_def split: option.splits if_splits)
  next
    case (Some p)
    obtain n u where p: "p = (n, u)" by (cases p)
    have r: "unused_ratio unused x = f64_div u n"
      using Some p by (simp add: unused_ratio_def)
    show ?thesis
      using Some p r choose_list_best [of "Some (f64_div u n)" unused x m xs]
      by (auto simp: best_size_def choose_step_def cs_leq_def Let_def list_all_iff)
  qed
qed

lemma choose_size_best:
  assumes "enumerates nx s xs"
  shows "if \<forall>x \<in> set (asked (unpanic unused) m xs). unused x \<noteq> None
    then \<exists>r. choose_size nx s unused m = Some r \<and> best_size (unpanic unused) m xs r
    else choose_size nx s unused m = None"
  using choose_loop_list [OF assms] choose_list_first by (auto simp: choose_size_def)

lemma candidates_mem: "x \<in> set (candidates unused m xs) \<Longrightarrow> x \<in> set xs \<and> unused x \<noteq> None"
  by (auto simp: candidates_def scanned_def Option.is_none_def dest: set_takeWhileD)

lemma scanned_stop:
  assumes "scanned unused m xs \<noteq> xs"
  shows "xs ! length (scanned unused m xs) \<in> set xs \<and>
    (\<exists>n u. unused (xs ! length (scanned unused m xs)) = Some (n, u) \<and> m < n)"
proof -
  have len: "length (scanned unused m xs) < length xs"
    using assms length_takeWhile_le [of _ xs] takeWhile_eq_take unfolding scanned_def
    by (metis order.not_eq_order_implies_strict take_all_iff)
  then show ?thesis
    using nth_length_takeWhile [of _ xs] unfolding scanned_def
    by (fastforce split: option.splits)
qed

lemma best_size_mem: "best_size unused m xs (Some b) \<Longrightarrow> b \<in> set xs \<and> unused b \<noteq> None"
  using scanned_stop [of unused m xs]
  by (auto simp: best_size_def split: if_splits dest: candidates_mem)

lemma best_size_exists:
  assumes "best_size unused m xs r" "x \<in> set xs" "unused x \<noteq> None"
  shows "r \<noteq> None"
proof -
  have "scanned unused m xs = xs \<Longrightarrow> x \<in> set (candidates unused m xs)"
    using assms(2,3) by (simp add: candidates_def Option.is_none_def)
  then show ?thesis
    using assms(1) by (cases r) (auto simp: best_size_def split: if_splits)
qed

text \<open>The search does not go past a size with too many objects.\<close>

lemma scanned_length:
  assumes "i < length xs" "unused (xs ! i) = Some (n, u)" "m < n"
  shows "length (scanned unused m xs) \<le> i"
proof (rule ccontr)
  let ?P = "\<lambda>x. case unused x of None \<Rightarrow> True | Some (n, u) \<Rightarrow> n \<le> m"
  assume "\<not> length (scanned unused m xs) \<le> i"
  then have "i < length (takeWhile ?P xs)" by (simp add: scanned_def)
  then have "?P (xs ! i)" using set_takeWhileD [of _ ?P xs] takeWhile_nth [of i ?P xs] nth_mem by metis
  then show False using assms(2,3) by simp
qed

lemma asked_stop:
  assumes "i < length xs" "unused (xs ! i) = Some (n, u)" "m < n"
  shows "set (asked unused m xs) \<subseteq> set (take (Suc i) xs)"
  unfolding asked_def using scanned_length [of i xs unused, OF assms] by (intro set_take_subset_set_take) simp

lemma best_size_stop:
  assumes best: "best_size unused m xs (Some b)" and i: "i < length xs" "unused (xs ! i) = Some (n, u)" "m < n"
  shows "b \<in> set (take (Suc i) xs)"
proof -
  have len: "length (scanned unused m xs) \<le> i" by (rule scanned_length [of i xs unused, OF i])
  show ?thesis
  proof (cases "candidates unused m xs = []")
    case True
    then have "b = xs ! length (scanned unused m xs)" "length (scanned unused m xs) < length xs"
      using best len i(1) by (auto simp: best_size_def split: if_splits)
    then show ?thesis using len by (auto simp: in_set_conv_nth intro!: exI [of _ "length (scanned unused m xs)"])
  next
    case False
    then have "b \<in> set (scanned unused m xs)"
      using best by (auto simp: best_size_def candidates_def)
    moreover have "scanned unused m xs = take (length (scanned unused m xs)) xs"
      unfolding scanned_def by (rule takeWhile_eq_take)
    ultimately show ?thesis
      using len set_take_subset_set_take [of "length (scanned unused m xs)" "Suc i" xs] by auto
  qed
qed

subsection \<open>Working set and minimum alignment\<close>

lemma refresh_now_total:
  "ws_period_begin ws \<le> now \<Longrightarrow> \<exists>ws' r. refresh_now secs now ws = Some (ws', r)
    \<and> ws_data ws' = ws_data ws \<and> ws_period_begin ws' \<le> now \<and> (r = None \<or> r = Some (ws_data ws))"
  by (auto simp: refresh_now_def)

lemma update_min_data: "ws_data (update_min new ws) = min new (ws_data ws)"
  "ws_period_begin (update_min new ws) = ws_period_begin ws"
  by (auto simp: update_min_def)

lemma satisfy_min_align_ok:
  assumes "satisfy_min_align l a = Some l'" "layout_ok l" "is_power_of_two a"
  shows "layout_ok l' \<and> lay_size l \<le> lay_size l' \<and> lay_size l' < lay_size l + a
    \<and> lay_align l dvd lay_align l' \<and> a dvd lay_align l' \<and> (lay_size l' = lay_size l \<or> a dvd lay_size l')"
proof -
  have a: "0 < a" "lay_size l mod a < a"
    using assms(3) is_power_of_two_pos by auto
  have "a dvd lay_size l + a - lay_size l mod a"
    using mod_less_divisor [OF a(1), of "lay_size l"]
    by (metis add.commute dvd_add_triv_left_iff dvd_minus_mod le_add2 mod_le_divisor Nat.add_diff_assoc
        a(1) mod_less_eq_dividend)
  moreover have "lay_size l \<le> lay_size l + a - lay_size l mod a"
    using a(2) by linarith
  ultimately show ?thesis
    using assms a pow2_le_dvd [of a "lay_align l"] pow2_le_dvd [of "lay_align l" a]
    by (auto simp: satisfy_min_align_def layout_align_to_def layout_ok_def max_def
        dest!: layout_from_size_align_Some split: if_splits)
qed

lemma satisfy_min_align_dvd:
  assumes "satisfy_min_align l a = Some l'" "layout_ok l" "is_power_of_two a" "lay_align l dvd lay_size l"
  shows "lay_align l' dvd lay_size l'"
proof -
  note ok = satisfy_min_align_ok [OF assms(1-3)]
  show ?thesis
  proof (cases "a \<le> lay_align l")
    case True
    then have "a dvd lay_align l" using pow2_le_dvd assms(2,3) by (auto simp: layout_ok_def)
    then have "lay_size l mod a = 0" using assms(4) by (auto intro: dvd_trans)
    then show ?thesis
      using assms True by (auto simp: satisfy_min_align_def layout_align_to_def max_def
          dest!: layout_from_size_align_Some split: if_splits)
  next
    case False
    have up: "lay_size l < lay_size l + a - lay_size l mod a"
      using mod_less_divisor [OF is_power_of_two_pos [OF assms(3)], of "lay_size l"] by linarith
    show ?thesis
    proof (cases "lay_size l mod a = 0")
      case True
      then show ?thesis
        using assms False by (auto simp: satisfy_min_align_def layout_align_to_def max_def
            dest!: layout_from_size_align_Some split: if_splits)
    next
      case rem: False
      then have "layout_from_size_align (lay_size l + a - lay_size l mod a) a = Some l'"
        using assms(1) False by (simp add: satisfy_min_align_def)
      then have "lay_size l' = lay_size l + a - lay_size l mod a" "lay_align l' = a"
        by (auto dest: layout_from_size_align_Some)
      then show ?thesis using ok up by auto
    qed
  qed
qed

end
