(* ===== verification/Init_System.thy ===== *)
theory Init_System
  imports Prelude
begin

text \<open>
  \<open>slab-alloc/src/init.rs\<close>.  The \<open>InitSystem\<close> trait is a record of its functions.  The
  effects of \<open>init\<close> and \<open>drop\<close> on an object are events of a trace: the object is
  initialised by the user's \<open>Initializer\<close>, or dropped in place.  The locale
  \<open>init_system\<close> states that packing loses nothing on pointers of the required alignment;
  both systems of the source are interpreted in it.
\<close>

datatype init_event = Initialised ptr | Dropped ptr

record 's init_sys =
  is_status_initialized :: 's
  is_status_uninitialized :: 's
  is_min_align :: nat
  is_pack :: "ptr \<Rightarrow> 's \<Rightarrow> usize"
  is_unpack_status :: "usize \<Rightarrow> 's"
  is_unpack_ptr :: "usize \<Rightarrow> ptr"
  is_init :: "ptr \<Rightarrow> 's \<Rightarrow> init_event list"
  is_drop :: "ptr \<Rightarrow> 's \<Rightarrow> init_event list"

definition nop_pack :: "ptr \<Rightarrow> unit \<Rightarrow> usize" where
  "nop_pack p st = p"

definition nop_unpack_ptr :: "usize \<Rightarrow> ptr" where
  "nop_unpack_ptr w = w"

definition nop_init_system :: "unit init_sys" where
  "nop_init_system =
     \<lparr> is_status_initialized = (), is_status_uninitialized = (), is_min_align = 1,
       is_pack = nop_pack, is_unpack_status = (\<lambda>_. ()), is_unpack_ptr = nop_unpack_ptr,
       is_init = (\<lambda>_ _. []), is_drop = (\<lambda>_ _. []) \<rparr>"

text \<open>\<open>InitInitSystem\<close> keeps the status in the lowest bit of the pointer.\<close>

definition init_pack :: "ptr \<Rightarrow> bool \<Rightarrow> usize" where
  "init_pack p st = p OR (if st then 1 else 0)"

definition init_unpack_status :: "usize \<Rightarrow> bool" where
  "init_unpack_status w \<longleftrightarrow> w AND 1 = 1"

definition init_unpack_ptr :: "usize \<Rightarrow> ptr" where
  "init_unpack_ptr w = w AND (-1 - 1)"

definition init_init :: "ptr \<Rightarrow> bool \<Rightarrow> init_event list" where
  "init_init p st = (if \<not> st then [Initialised p] else [])"

definition init_drop :: "ptr \<Rightarrow> bool \<Rightarrow> init_event list" where
  "init_drop p st = (if st then [Dropped p] else [])"

definition init_init_system :: "bool init_sys" where
  "init_init_system =
     \<lparr> is_status_initialized = True, is_status_uninitialized = False, is_min_align = 2,
       is_pack = init_pack, is_unpack_status = init_unpack_status,
       is_unpack_ptr = init_unpack_ptr, is_init = init_init, is_drop = init_drop \<rparr>"

subsection \<open>The contract\<close>

locale init_system =
  fixes I :: "'s init_sys"
  assumes min_align_pow2: "is_power_of_two (is_min_align I)"
    and unpack_ptr_pack: "is_min_align I dvd unat p \<Longrightarrow> is_unpack_ptr I (is_pack I p st) = p"
    and unpack_status_pack: "is_min_align I dvd unat p \<Longrightarrow> is_unpack_status I (is_pack I p st) = st"
    and init_once: "is_init I p (is_status_initialized I) = []"
    and drop_uninit: "is_drop I p (is_status_uninitialized I) = []"
begin

text \<open>Packing is injective, so a stack of packed words determines the objects on it.\<close>

lemma pack_inj:
  assumes "is_min_align I dvd unat p" "is_min_align I dvd unat q"
  shows "is_pack I p s = is_pack I q t \<longleftrightarrow> p = q \<and> s = t"
  using assms unpack_ptr_pack unpack_status_pack by metis

end

lemma even_word_bit0: "2 dvd unat (p :: 64 word) \<Longrightarrow> \<not> bit p 0"
proof -
  assume "2 dvd unat p"
  then have "\<not> bit (unat p) 0" by (simp add: bit_0)
  then show ?thesis by (simp only: bit_unsigned_iff) simp
qed

lemma init_unpack_ptr_pack: "2 dvd unat p \<Longrightarrow> init_unpack_ptr (init_pack p st) = p"
proof (rule bit_word_eqI)
  fix n
  assume "2 dvd unat p" "n < LENGTH(64)"
  then show "bit (init_unpack_ptr (init_pack p st)) n = bit p n"
    using even_word_bit0 [of p] not_one_eq [where ?'a = "64 word"]
    by (cases n) (auto simp: init_unpack_ptr_def init_pack_def bit_simps)
qed

lemma init_unpack_status_bit: "init_unpack_status w \<longleftrightarrow> bit w 0"
  by (simp add: init_unpack_status_def and_one_eq bit_0 odd_iff_mod_2_eq_one)

lemma init_unpack_status_pack: "2 dvd unat p \<Longrightarrow> init_unpack_status (init_pack p st) = st"
  using even_word_bit0 [of p] by (auto simp: init_unpack_status_bit init_pack_def bit_or_iff)

interpretation nop: init_system nop_init_system
  by unfold_locales (simp_all add: nop_init_system_def nop_pack_def nop_unpack_ptr_def)

interpretation ini: init_system init_init_system
  by unfold_locales
    (simp_all add: init_init_system_def init_unpack_ptr_pack init_unpack_status_pack init_init_def
      init_drop_def is_power_of_two_power [of 1, simplified])

end
