(* ===== verification/Stack_Slab.thy ===== *)
theory Stack_Slab
  imports Linked_List Slab_Util Init_System
begin

text \<open>
  \<open>slab-alloc/src/stack.rs\<close>: the stack-based slab.  Headers live in a heap from slab
  addresses to \<open>SlabHeader\<close> records; the words of the pointer stacks live in a word memory
  that is part of the state of the slab system, next to the fields of \<open>System\<close>.  The traits
  the code is generic in are records of functions: \<open>UntypedObjectAlloc\<close> for the memory
  behind the slabs, \<open>ConfigData\<close> for the map from objects to slabs, \<open>InitSystem\<close> for
  initialisation.  The locales \<open>backing_alloc\<close> and \<open>config_data\<close> state what \<open>System\<close> relies
  on, \<open>slab_system\<close> what \<open>SizedSlabAlloc\<close> relies on; the last part proves the third from
  the first two.
\<close>

subsection \<open>Slab layout\<close>

record slab_header =
  sh_stack :: stack
  sh_color :: color
  sh_next :: ptr
  sh_prev :: ptr

definition slab_header_linkable :: "slab_header linkable" where
  "slab_header_linkable =
     \<lparr> lk_next = sh_next, lk_prev = sh_prev,
       lk_set_next = (\<lambda>n p. n\<lparr> sh_next := p \<rparr>), lk_set_prev = (\<lambda>n p. n\<lparr> sh_prev := p \<rparr>) \<rparr>"

text \<open>Four words: the size of the stack, the colour and the two links.\<close>

definition slab_header_size :: nat where
  "slab_header_size = 32"

record slab_layout =
  sl_num_obj :: nat
  sl_layout :: layout
  sl_stack_begin_offset :: nat
  sl_array_begin_offset :: nat
  sl_color_settings :: color_settings

definition stack_begin_offset :: nat where
  "stack_begin_offset = slab_header_size + padding_after slab_header_size"

text \<open>The offset of the object array of a slab with \<open>n\<close> objects, and the bytes such a slab
  needs.\<close>

definition array_offset :: "nat \<Rightarrow> nat \<Rightarrow> nat" where
  "array_offset al n =
     (let total_hdr_size = stack_begin_offset + bytes_for n
      in total_hdr_size + padding_needed_for total_hdr_size al)"

definition slab_needs :: "layout \<Rightarrow> nat \<Rightarrow> nat" where
  "slab_needs l n = array_offset (lay_align l) n + n * lay_size l"

lemma slab_needs_ge: "n \<le> slab_needs l n"
  by (simp add: slab_needs_def array_offset_def bytes_for_def word_bytes_def Let_def)

text \<open>The two quantities as the loop of \<open>for_slab_size\<close> computes them, with the panics on overflow.\<close>

definition checked_needs :: "layout \<Rightarrow> nat \<Rightarrow> (nat \<times> nat) option" where
  "checked_needs l candidate = do {
     stack_bytes \<leftarrow> mul_usize candidate word_bytes;
     total_hdr_size \<leftarrow> sum_usize stack_begin_offset stack_bytes;
     hdr_layout \<leftarrow> layout_from_size_align total_hdr_size 1;
     let post_stack_padding = padding_needed_for (lay_size hdr_layout) (lay_align l);
     array_begin \<leftarrow> sum_usize total_hdr_size post_stack_padding;
     obj_bytes \<leftarrow> mul_usize candidate (lay_size l);
     total \<leftarrow> sum_usize array_begin obj_bytes;
     Some (array_begin, total) }"

lemma checked_needs_eq:
  "checked_needs l n = (if slab_needs l n < 2 ^ 64 then Some (array_offset (lay_align l) n, slab_needs l n) else None)"
  by (auto simp: checked_needs_def slab_needs_def array_offset_def bytes_for_def word_bytes_def mul_usize_def sum_usize_def
      layout_from_size_align_def Let_def split: bind_splits)

function num_obj_loop :: "layout \<Rightarrow> nat \<Rightarrow> nat \<Rightarrow> nat \<Rightarrow> (nat \<times> nat) option" where
  "num_obj_loop l slab_size num_obj array_begin =
     (let candidate = num_obj + 1 in
      case checked_needs l candidate of
        None \<Rightarrow> None
      | Some (array_begin', needed) \<Rightarrow>
          if needed \<le> slab_size then num_obj_loop l slab_size candidate array_begin'
          else Some (num_obj, array_begin))"
  by pat_completeness auto

termination
proof (relation "measure (\<lambda>(l, slab_size, num_obj, _). slab_size - num_obj)", goal_cases)
  case (2 l slab_size num_obj array_begin candidate r array_begin' needed)
  then show ?case
    using slab_needs_ge [of "num_obj + 1" l] by (auto simp: checked_needs_eq split: if_splits)
qed simp

declare num_obj_loop.simps [simp del]

text \<open>The outer \<open>None\<close> is a panic, of the arithmetic or of one of the two assertions; the inner one is
  the result \<open>None\<close> of the function.\<close>

definition for_slab_size :: "layout \<Rightarrow> nat \<Rightarrow> (slab_layout \<times> nat) option option" where
  "for_slab_size l slab_size = do {
     (num_obj, array_begin) \<leftarrow> num_obj_loop l slab_size 0 0;
     if num_obj = 0 then Some None
     else if array_begin = 0 then None
     else do {
       rest \<leftarrow> sub_usize slab_size array_begin;
       obj_bytes \<leftarrow> mul_usize num_obj (lay_size l);
       unused \<leftarrow> sub_usize rest obj_bytes;
       let sl = \<lparr> sl_num_obj = num_obj, sl_layout = l,
                  sl_stack_begin_offset = stack_begin_offset,
                  sl_array_begin_offset = array_begin,
                  sl_color_settings = color_settings_new (lay_align l) unused \<rparr>;
       array_end \<leftarrow> sum_usize array_begin (cs_max_color (sl_color_settings sl));
       total \<leftarrow> sum_usize array_end obj_bytes;
       if total \<le> slab_size then Some (Some (sl, unused)) else None } }"

definition array_begin :: "slab_layout \<Rightarrow> ptr \<Rightarrow> color \<Rightarrow> ptr" where
  "array_begin sl slab c = offset slab (sl_array_begin_offset sl + c)"

definition stack_begin :: "slab_layout \<Rightarrow> ptr \<Rightarrow> ptr" where
  "stack_begin sl slab = offset slab (sl_stack_begin_offset sl)"

definition nth_obj :: "slab_layout \<Rightarrow> ptr \<Rightarrow> color \<Rightarrow> nat \<Rightarrow> ptr" where
  "nth_obj sl slab c n = offset (array_begin sl slab c) (n * lay_size (sl_layout sl))"

text \<open>The call with the assertions of \<open>array_begin\<close> and \<open>nth_obj\<close> and the panics on overflow.\<close>

definition checked_nth_obj :: "slab_layout \<Rightarrow> ptr \<Rightarrow> color \<Rightarrow> nat \<Rightarrow> ptr option" where
  "checked_nth_obj sl slab c n =
     (if n < sl_num_obj sl \<and> c \<le> cs_max_color (sl_color_settings sl)
         \<and> unat slab + (sl_array_begin_offset sl + c) + n * lay_size (sl_layout sl) < 2 ^ 64
      then Some (nth_obj sl slab c n) else None)"

subsection \<open>The traits \<open>System\<close> is generic in\<close>

text \<open>\<open>object_alloc::UntypedObjectAlloc\<close>: the inner \<open>None\<close> is \<open>Err(Exhausted)\<close>, the outer one a
  panic.\<close>

record 'b untyped_object_alloc =
  oa_layout :: "'b \<Rightarrow> layout"
  oa_alloc :: "'b \<Rightarrow> ('b \<times> ptr option) option"
  oa_dealloc :: "'b \<Rightarrow> ptr \<Rightarrow> 'b"

record 'c config_ops =
  cd_post_alloc :: "'c \<Rightarrow> slab_layout \<Rightarrow> nat \<Rightarrow> slab_header heap \<Rightarrow> ptr \<Rightarrow> 'c option"
  cd_pre_dealloc :: "'c \<Rightarrow> slab_layout \<Rightarrow> nat \<Rightarrow> slab_header heap \<Rightarrow> ptr \<Rightarrow> 'c option"
  cd_ptr_to_slab :: "'c \<Rightarrow> nat \<Rightarrow> ptr \<Rightarrow> ptr option"

text \<open>The state of \<open>System\<close>, with the words of the stacks.\<close>

record ('c, 'b) system =
  sy_data :: 'c
  sy_layout :: slab_layout
  sy_alloc :: 'b
  sy_words :: word_mem

definition from_config_data :: "'c \<Rightarrow> slab_layout \<Rightarrow> 'b \<Rightarrow> word_mem \<Rightarrow> ('c, 'b) system" where
  "from_config_data d sl a mem =
     \<lparr> sy_data = d, sy_layout = sl, sy_alloc = a, sy_words = mem \<rparr>"

subsection \<open>\<open>SlabSystem\<close> for \<open>System\<close>\<close>

text \<open>Pushing a word on the stack of a slab.\<close>

definition slab_push ::
  "slab_layout \<Rightarrow> ptr \<Rightarrow> usize \<Rightarrow> slab_header heap \<times> word_mem \<Rightarrow> (slab_header heap \<times> word_mem) option" where
  "slab_push sl slab w hm =
     (let (h, mem) = hm in do {
        hdr \<leftarrow> h slab;
        let (stk, mem') = stack_push (sh_stack hdr) (stack_begin sl slab) w mem;
        Some (h(slab \<mapsto> hdr\<lparr> sh_stack := stk \<rparr>), mem') })"

definition slab_pop ::
  "slab_layout \<Rightarrow> ptr \<Rightarrow> slab_header heap \<times> word_mem \<Rightarrow> (slab_header heap \<times> usize) option" where
  "slab_pop sl slab hm =
     (let (h, mem) = hm in do {
        hdr \<leftarrow> h slab;
        (stk, w) \<leftarrow> stack_pop (sh_stack hdr) (stack_begin sl slab) mem;
        Some (h(slab \<mapsto> hdr\<lparr> sh_stack := stk \<rparr>), w) })"

text \<open>The loop of \<open>alloc_slab\<close> over the indices of the objects.\<close>

fun push_objs ::
  "'s init_sys \<Rightarrow> slab_layout \<Rightarrow> ptr \<Rightarrow> color \<Rightarrow> nat list \<Rightarrow> slab_header heap \<times> word_mem
    \<Rightarrow> (slab_header heap \<times> word_mem) option" where
  "push_objs I sl slab c [] hm = Some hm"
| "push_objs I sl slab c (i # is) hm =
     do { obj \<leftarrow> checked_nth_obj sl slab c i;
          hm' \<leftarrow> slab_push sl slab (is_pack I obj (is_status_uninitialized I)) hm;
          push_objs I sl slab c is hm' }"

definition sys_alloc_slab ::
  "'s init_sys \<Rightarrow> 'b untyped_object_alloc \<Rightarrow> 'c config_ops
    \<Rightarrow> slab_header heap \<Rightarrow> ('c, 'b) system \<Rightarrow> (slab_header heap \<times> ('c, 'b) system \<times> ptr) option" where
  "sys_alloc_slab I B C h s = do {
     (cs, c) \<leftarrow> next_color (lay_align (sl_layout (sy_layout s))) (sl_color_settings (sy_layout s));
     let sl = (sy_layout s)\<lparr> sl_color_settings := cs \<rparr>;
     let s1 = s\<lparr> sy_layout := sl \<rparr>;
     (a, r) \<leftarrow> oa_alloc B (sy_alloc s1);
     let s2 = s1\<lparr> sy_alloc := a \<rparr>;
     (case r of
        None \<Rightarrow> Some (h, s2, null)
      | Some slab \<Rightarrow> do {
          let h1 = h(slab \<mapsto> \<lparr> sh_stack = stack_new, sh_color = c, sh_next = null, sh_prev = null \<rparr>);
          (h2, mem) \<leftarrow> push_objs I sl slab c [0 ..< sl_num_obj sl] (h1, sy_words s2);
          d \<leftarrow> cd_post_alloc C (sy_data s2) sl (lay_size (oa_layout B a)) h2 slab;
          Some (h2, s2\<lparr> sy_words := mem, sy_data := d \<rparr>, slab) }) }"

text \<open>The loop of \<open>dealloc_slab\<close>: pop every object and drop it.\<close>

fun drop_objs ::
  "'s init_sys \<Rightarrow> slab_layout \<Rightarrow> ptr \<Rightarrow> nat \<Rightarrow> word_mem \<Rightarrow> slab_header heap
    \<Rightarrow> (slab_header heap \<times> init_event list) option" where
  "drop_objs I sl slab 0 mem h = Some (h, [])"
| "drop_objs I sl slab (Suc n) mem h =
     do { (h1, w) \<leftarrow> slab_pop sl slab (h, mem);
          (h2, evs) \<leftarrow> drop_objs I sl slab n mem h1;
          Some (h2, is_drop I (is_unpack_ptr I w) (is_unpack_status I w) @ evs) }"

definition sys_dealloc_slab ::
  "'s init_sys \<Rightarrow> 'b untyped_object_alloc \<Rightarrow> 'c config_ops \<Rightarrow> slab_header heap \<Rightarrow> ('c, 'b) system
    \<Rightarrow> ptr \<Rightarrow> (slab_header heap \<times> ('c, 'b) system \<times> init_event list) option" where
  "sys_dealloc_slab I B C h s slab = do {
     hdr \<leftarrow> h slab;
     if stk_size (sh_stack hdr) \<noteq> sl_num_obj (sy_layout s) then None
     else do {
       d \<leftarrow> cd_pre_dealloc C (sy_data s) (sy_layout s) (lay_size (oa_layout B (sy_alloc s))) h slab;
       (h1, evs) \<leftarrow> drop_objs I (sy_layout s) slab (sl_num_obj (sy_layout s)) (sy_words s) h;
       Some (h1(slab := None), s\<lparr> sy_data := d, sy_alloc := oa_dealloc B (sy_alloc s) slab \<rparr>, evs) } }"

definition sys_is_full :: "slab_header heap \<Rightarrow> ('c, 'b) system \<Rightarrow> ptr \<Rightarrow> bool option" where
  "sys_is_full h s slab =
     map_option (\<lambda>hdr. stk_size (sh_stack hdr) = sl_num_obj (sy_layout s)) (h slab)"

definition sys_is_empty :: "slab_header heap \<Rightarrow> ('c, 'b) system \<Rightarrow> ptr \<Rightarrow> bool option" where
  "sys_is_empty h s slab = map_option (\<lambda>hdr. stk_size (sh_stack hdr) = 0) (h slab)"

definition sys_alloc ::
  "'s init_sys \<Rightarrow> slab_header heap \<Rightarrow> ('c, 'b) system \<Rightarrow> ptr \<Rightarrow> (slab_header heap \<times> ptr \<times> 's) option" where
  "sys_alloc I h s slab = do {
     (h1, w) \<leftarrow> slab_pop (sy_layout s) slab (h, sy_words s);
     Some (h1, is_unpack_ptr I w, is_unpack_status I w) }"

definition sys_dealloc ::
  "'s init_sys \<Rightarrow> 'b untyped_object_alloc \<Rightarrow> 'c config_ops \<Rightarrow> slab_header heap \<Rightarrow> ('c, 'b) system
    \<Rightarrow> ptr \<Rightarrow> 's \<Rightarrow> (slab_header heap \<times> ('c, 'b) system \<times> ptr \<times> bool) option" where
  "sys_dealloc I B C h s obj st = do {
     slab \<leftarrow> cd_ptr_to_slab C (sy_data s) (lay_size (oa_layout B (sy_alloc s))) obj;
     was_empty \<leftarrow> sys_is_empty h s slab;
     (h1, mem) \<leftarrow> slab_push (sy_layout s) slab (is_pack I obj st) (h, sy_words s);
     Some (h1, s\<lparr> sy_words := mem \<rparr>, slab, was_empty) }"

subsection \<open>The layout uses the slab as far as possible\<close>

lemma array_offset_props:
  assumes "0 < al"
  shows "al dvd array_offset al n" "stack_begin_offset + bytes_for n \<le> array_offset al n"
    "al dvd m \<Longrightarrow> stack_begin_offset + bytes_for n \<le> m \<Longrightarrow> array_offset al n \<le> m"
  using padding_needed_for_dvd [OF assms] padding_needed_for_least [OF assms]
  by (auto simp: array_offset_def Let_def)

lemma array_offset_mono: "0 < al \<Longrightarrow> n \<le> m \<Longrightarrow> array_offset al n \<le> array_offset al m"
proof -
  assume al: "0 < al" and nm: "n \<le> m"
  have "bytes_for n \<le> bytes_for m" using nm by (simp add: bytes_for_def)
  then show ?thesis
    using array_offset_props(2) [OF al, of m]
    by (intro array_offset_props(3) [OF al array_offset_props(1) [OF al]]) linarith
qed

lemma slab_needs_mono: "0 < lay_align l \<Longrightarrow> n \<le> m \<Longrightarrow> slab_needs l n \<le> slab_needs l m"
  unfolding slab_needs_def by (intro add_mono array_offset_mono mult_le_mono1)

text \<open>One more object never needs more than the first did, so the loop does not overflow while the
  slab and one object together fit the address space.\<close>

lemma slab_needs_step: "0 < lay_align l \<Longrightarrow> slab_needs l (Suc n) \<le> slab_needs l n + slab_needs l 1"
proof -
  assume al: "0 < lay_align l"
  have "array_offset (lay_align l) (Suc n) \<le> array_offset (lay_align l) n + array_offset (lay_align l) 1"
    using array_offset_props(1,2) [OF al, of n] array_offset_props(1,2) [OF al, of 1]
    by (intro array_offset_props(3) [OF al]) (auto simp: bytes_for_def)
  then show ?thesis by (simp add: slab_needs_def)
qed

lemma num_obj_loop_spec:
  assumes "0 < lay_align l" "num_obj_loop l S n a = Some (n', a')"
    "n = 0 \<or> slab_needs l n \<le> S \<and> a = array_offset (lay_align l) n"
  shows "n \<le> n' \<and> (n' = 0 \<or> slab_needs l n' \<le> S \<and> a' = array_offset (lay_align l) n')
    \<and> S < slab_needs l (Suc n') \<and> slab_needs l (Suc n') < 2 ^ 64"
  using assms
proof (induction l S n a rule: num_obj_loop.induct)
  case (1 l S n a)
  have loop: "(if slab_needs l (Suc n) < 2 ^ 64
      then if slab_needs l (Suc n) \<le> S then num_obj_loop l S (Suc n) (array_offset (lay_align l) (Suc n)) else Some (n, a)
      else None) = Some (n', a')"
    using "1.prems"(2) by (subst (asm) num_obj_loop.simps) (simp add: checked_needs_eq split: if_splits)
  then have lt: "slab_needs l (Suc n) < 2 ^ 64" by (meson option.distinct(1))
  show ?case
  proof (cases "slab_needs l (Suc n) \<le> S")
    case True
    have "Suc n \<le> n' \<and> (n' = 0 \<or> slab_needs l n' \<le> S \<and> a' = array_offset (lay_align l) n')
        \<and> S < slab_needs l (Suc n') \<and> slab_needs l (Suc n') < 2 ^ 64"
      using "1.IH" [OF refl, of "(array_offset (lay_align l) (Suc n), slab_needs l (Suc n))"] True "1.prems"(1) loop lt
      by (auto simp: checked_needs_eq)
    then show ?thesis by auto
  next
    case False
    then show ?thesis using loop lt "1.prems"(3) by auto
  qed
qed

lemma num_obj_loop_total:
  assumes "0 < lay_align l" "S + slab_needs l 1 < 2 ^ 64" "n = 0 \<or> slab_needs l n \<le> S"
  shows "num_obj_loop l S n a \<noteq> None"
  using assms
proof (induction l S n a rule: num_obj_loop.induct)
  case (1 l S n a)
  have "slab_needs l (Suc n) \<le> S + slab_needs l 1"
    using "1.prems"(3) slab_needs_step [OF "1.prems"(1), of n] by (cases n) auto
  then have lt: "slab_needs l (Suc n) < 2 ^ 64" using "1.prems"(2) by simp
  show ?case
    using "1.IH" [of "n + 1" _ _ _] "1.prems"(1,2) lt
    by (subst num_obj_loop.simps) (simp add: checked_needs_eq)
qed

lemma header_pos: "0 < lay_align l \<Longrightarrow> 0 < array_offset (lay_align l) n"
  using array_offset_props(2) [of "lay_align l" n] by (simp add: stack_begin_offset_def slab_header_size_def)

lemma for_slab_size_spec:
  assumes al: "0 < lay_align l" and sl: "for_slab_size l S = Some (Some (sl, u))"
  shows "0 < sl_num_obj sl" "n \<le> sl_num_obj sl \<longleftrightarrow> slab_needs l n \<le> S"
    "sl_layout sl = l" "sl_stack_begin_offset sl = stack_begin_offset"
    "sl_array_begin_offset sl = array_offset (lay_align l) (sl_num_obj sl)"
    "u = S - slab_needs l (sl_num_obj sl)"
    "sl_color_settings sl = color_settings_new (lay_align l) u"
proof -
  obtain k a where ka: "num_obj_loop l S 0 0 = Some (k, a)"
    using sl by (auto simp: for_slab_size_def split: bind_splits)
  have k: "k \<noteq> 0" "sl = \<lparr> sl_num_obj = k, sl_layout = l, sl_stack_begin_offset = stack_begin_offset,
      sl_array_begin_offset = a,
      sl_color_settings = color_settings_new (lay_align l) (S - a - k * lay_size l) \<rparr>"
    "u = S - a - k * lay_size l"
    using sl ka by (auto simp: for_slab_size_def sub_usize_def mul_usize_def Let_def split: if_splits bind_splits)
  note loop = num_obj_loop_spec [OF al ka, simplified]
  show "0 < sl_num_obj sl" "sl_layout sl = l" "sl_stack_begin_offset sl = stack_begin_offset"
    "sl_array_begin_offset sl = array_offset (lay_align l) (sl_num_obj sl)"
    "u = S - slab_needs l (sl_num_obj sl)"
    "sl_color_settings sl = color_settings_new (lay_align l) u"
    using k loop by (auto simp: slab_needs_def)
  show "n \<le> sl_num_obj sl \<longleftrightarrow> slab_needs l n \<le> S"
    using k loop slab_needs_mono [OF al, of n k] slab_needs_mono [OF al, of "Suc k" n]
    by (cases "n \<le> k") (auto simp: not_le)
qed

lemma for_slab_size_too_small:
  assumes "0 < lay_align l" "for_slab_size l S = Some None"
  shows "S < slab_needs l 1"
proof -
  obtain a where "num_obj_loop l S 0 0 = Some (0, a)"
    using assms(2) by (auto simp: for_slab_size_def Let_def split: if_splits bind_splits)
  then show ?thesis using num_obj_loop_spec [OF assms(1)] by fastforce
qed

text \<open>The later arithmetic and the assertions never fail, so only the loop can panic.\<close>

lemma for_slab_size_result:
  assumes al: "0 < lay_align l" and S: "S < 2 ^ 64" and ka: "num_obj_loop l S 0 0 = Some (k, a)"
  shows "if S < slab_needs l 1 then for_slab_size l S = Some None else \<exists>sl u. for_slab_size l S = Some (Some (sl, u))"
proof -
  note loop = num_obj_loop_spec [OF al ka, simplified]
  have k: "k = 0 \<longleftrightarrow> S < slab_needs l 1" using loop slab_needs_mono [OF al, of 1 k] by (cases k) auto
  show ?thesis
  proof (cases "k = 0")
    case True
    then show ?thesis using k ka by (simp add: for_slab_size_def)
  next
    case False
    then have a: "a = array_offset (lay_align l) k" "a + k * lay_size l \<le> S" using loop by (auto simp: slab_needs_def)
    let ?u = "S - a - k * lay_size l"
    have "cs_max_color (color_settings_new (lay_align l) ?u) \<le> ?u" using color_settings_new_wf [OF al] by simp
    then have "a + cs_max_color (color_settings_new (lay_align l) ?u) + k * lay_size l \<le> S" using a(2) by linarith
    then show ?thesis
      using False k ka a header_pos [OF al, of k] S
      by (simp add: for_slab_size_def sub_usize_def mul_usize_def sum_usize_def Let_def)
  qed
qed

lemma for_slab_size_total:
  assumes "0 < lay_align l" "S + slab_needs l 1 < 2 ^ 64"
  shows "if S < slab_needs l 1 then for_slab_size l S = Some None else \<exists>sl u. for_slab_size l S = Some (Some (sl, u))"
proof -
  have "num_obj_loop l S 0 0 \<noteq> None" using num_obj_loop_total [OF assms, of 0] by simp
  then obtain k a where "num_obj_loop l S 0 0 = Some (k, a)" by fastforce
  then show ?thesis using for_slab_size_result [OF assms(1)] assms(2) by simp
qed

text \<open>What the two assertions of \<open>for_slab_size\<close> establish, and what the rest of the slab system needs
  of a layout.\<close>

definition for_slab_size_asserts :: "slab_layout \<Rightarrow> nat \<Rightarrow> bool" where
  "for_slab_size_asserts sl slab_size \<longleftrightarrow>
     0 < sl_array_begin_offset sl
     \<and> sl_array_begin_offset sl + cs_max_color (sl_color_settings sl)
         + sl_num_obj sl * lay_size (sl_layout sl) \<le> slab_size"

definition slab_layout_ok :: "slab_layout \<Rightarrow> nat \<Rightarrow> bool" where
  "slab_layout_ok sl S \<longleftrightarrow>
     0 < sl_num_obj sl \<and> 0 < lay_size (sl_layout sl) \<and> sl_stack_begin_offset sl = stack_begin_offset
     \<and> stack_begin_offset + bytes_for (sl_num_obj sl) \<le> sl_array_begin_offset sl
     \<and> lay_align (sl_layout sl) dvd sl_array_begin_offset sl
     \<and> color_wf (lay_align (sl_layout sl)) (sl_color_settings sl)
     \<and> for_slab_size_asserts sl S"

lemma for_slab_size_ok:
  assumes "0 < lay_align l" "0 < lay_size l" "for_slab_size l S = Some (Some (sl, u))"
  shows "slab_layout_ok sl S"
proof -
  note spec = for_slab_size_spec [OF assms(1,3)]
  have "slab_needs l (sl_num_obj sl) \<le> S" using spec(2) by blast
  moreover have "0 < array_offset (lay_align l) (sl_num_obj sl)"
    using array_offset_props(2) [OF assms(1), of "sl_num_obj sl"]
    by (simp add: stack_begin_offset_def slab_header_size_def)
  moreover have "cs_max_color (color_settings_new (lay_align l) u) \<le> S - slab_needs l (sl_num_obj sl)"
    using color_settings_new_wf [OF assms(1), of u] spec(6) by simp
  ultimately show ?thesis
    unfolding slab_layout_ok_def for_slab_size_asserts_def spec(3,4,5,7)
    using spec(1) assms(2) array_offset_props [OF assms(1)] color_settings_new_wf [OF assms(1), of u]
    by (auto simp: slab_needs_def)
qed

definition obj_offset :: "slab_layout \<Rightarrow> color \<Rightarrow> nat \<Rightarrow> nat" where
  "obj_offset sl c i = sl_array_begin_offset sl + c + i * lay_size (sl_layout sl)"

lemma nth_obj_offset: "nth_obj sl p c i = offset p (obj_offset sl c i)"
  by (simp add: nth_obj_def array_begin_def obj_offset_def offset_offset)

lemma obj_offset_end:
  assumes "slab_layout_ok sl S" "c \<le> cs_max_color (sl_color_settings sl)" "i < sl_num_obj sl"
  shows "obj_offset sl c i + lay_size (sl_layout sl) \<le> S" "obj_offset sl c i < S"
    "stack_begin_offset + bytes_for (sl_num_obj sl) \<le> obj_offset sl c i"
proof -
  have "Suc i * lay_size (sl_layout sl) \<le> sl_num_obj sl * lay_size (sl_layout sl)"
    using assms(3) by (intro mult_le_mono1) simp
  then show "obj_offset sl c i + lay_size (sl_layout sl) \<le> S"
    using assms(1,2) by (simp add: slab_layout_ok_def for_slab_size_asserts_def obj_offset_def)
  then show "obj_offset sl c i < S"
    using assms(1) by (simp add: slab_layout_ok_def)
  show "stack_begin_offset + bytes_for (sl_num_obj sl) \<le> obj_offset sl c i"
    using assms(1) by (simp add: slab_layout_ok_def obj_offset_def)
qed

lemma checked_nth_obj_ok:
  assumes "slab_layout_ok sl S" "fits p S" "c \<le> cs_max_color (sl_color_settings sl)" "i < sl_num_obj sl"
  shows "checked_nth_obj sl p c i = Some (nth_obj sl p c i)"
  using obj_offset_end(2) [OF assms(1,3,4)] assms(2-4) by (simp add: checked_nth_obj_def obj_offset_def fits_def)

lemma obj_offset_inj:
  "0 < lay_size (sl_layout sl) \<Longrightarrow> obj_offset sl c i = obj_offset sl c j \<longleftrightarrow> i = j"
  by (simp add: obj_offset_def)

end
