(* ===== verification/Slab_System.thy ===== *)
theory Slab_System
  imports Linked_List Init_System
begin

text \<open>
  The trait \<open>SlabSystem\<close> of \<open>slab-alloc/src/lib.rs\<close>.  Its methods are a record of
  functions on a heap of slabs and the state of the system; \<open>None\<close> is a panic or a bad
  dereference.  The locale \<open>slab_system\<close> is the contract: an abstract view gives, for every
  slab, the set of its objects and the objects that are free to hand out, the next one
  last; each method is described by its effect on the view.
\<close>

record ('n, 's, 'st) slab_ops =
  ss_alloc_slab :: "'n heap \<Rightarrow> 's \<Rightarrow> ('n heap \<times> 's \<times> ptr) option"
  ss_dealloc_slab :: "'n heap \<Rightarrow> 's \<Rightarrow> ptr \<Rightarrow> ('n heap \<times> 's \<times> init_event list) option"
  ss_is_full :: "'n heap \<Rightarrow> 's \<Rightarrow> ptr \<Rightarrow> bool option"
  ss_is_empty :: "'n heap \<Rightarrow> 's \<Rightarrow> ptr \<Rightarrow> bool option"
  ss_alloc :: "'n heap \<Rightarrow> 's \<Rightarrow> ptr \<Rightarrow> ('n heap \<times> ptr \<times> 'st) option"
  ss_dealloc :: "'n heap \<Rightarrow> 's \<Rightarrow> ptr \<Rightarrow> 'st \<Rightarrow> ('n heap \<times> 's \<times> ptr \<times> bool) option"

type_synonym 'st slab_view = "ptr \<Rightarrow> (ptr set \<times> (ptr \<times> 'st) list) option"

text \<open>The objects handed out: those of a slab that are not free.\<close>

definition live_objs :: "'st slab_view \<Rightarrow> ptr set" where
  "live_objs v = (\<Union>p \<in> dom v. fst (the (v p)) - fst ` set (snd (the (v p))))"

text \<open>Every slab has \<open>n\<close> objects, none of them null and all aligned to \<open>al\<close>; the free ones are among
  them; and the slabs share no object.\<close>

definition view_ok :: "nat \<Rightarrow> nat \<Rightarrow> 'st slab_view \<Rightarrow> bool" where
  "view_ok n al v \<longleftrightarrow>
     0 < n \<and> v null = None
     \<and> (\<forall>p os av. v p = Some (os, av) \<longrightarrow>
          finite os \<and> card os = n \<and> distinct (map fst av) \<and> fst ` set av \<subseteq> os
          \<and> (\<forall>x \<in> os. x \<noteq> null \<and> al dvd unat x))
     \<and> (\<forall>p q os av os' av'. v p = Some (os, av) \<longrightarrow> v q = Some (os', av') \<longrightarrow> p \<noteq> q \<longrightarrow> os \<inter> os' = {})"

text \<open>The effect of \<open>alloc_slab\<close>: nothing when it returns null, and otherwise one more slab
  that is linked nowhere and all of whose objects are free and uninitialised.\<close>

definition new_slab ::
  "'n linkable \<Rightarrow> 'st init_sys \<Rightarrow> nat \<Rightarrow> 'n heap \<Rightarrow> 'st slab_view \<Rightarrow> 'n heap \<Rightarrow> 'st slab_view \<Rightarrow> ptr \<Rightarrow> bool" where
  "new_slab L I n h v h' v' p \<longleftrightarrow>
     (if p = null then h' = h \<and> v' = v
      else p \<notin> dom h \<and> unlinked L h' p \<and> (\<forall>q. q \<noteq> p \<longrightarrow> h' q = h q)
        \<and> (\<exists>os av. v' = v(p \<mapsto> (os, av)) \<and> length av = n
             \<and> snd ` set av \<subseteq> {is_status_uninitialized I}))"

lemma new_slabI:
  assumes "p \<noteq> null" "p \<notin> dom h" "unlinked L h' p" "\<And>q. q \<noteq> p \<Longrightarrow> h' q = h q" "length av = n"
    "snd ` set av \<subseteq> {is_status_uninitialized I}"
  shows "new_slab L I n h v h' (v(p \<mapsto> (os, av))) p"
  using assms unfolding new_slab_def by auto

locale slab_system = linkable_laws L pay
  for L :: "'n linkable" and pay :: "'n \<Rightarrow> 'd" +
  fixes S :: "('n, 's, 'st) slab_ops"
    and I :: "'st init_sys"
    and sinv :: "'n heap \<Rightarrow> 's \<Rightarrow> bool"
    and view :: "'n heap \<Rightarrow> 's \<Rightarrow> 'st slab_view"
    and cap :: "'s \<Rightarrow> nat"
    and al :: nat
  assumes view_dom: "sinv h s \<Longrightarrow> dom (view h s) = dom h"
    and sinv_view: "sinv h s \<Longrightarrow> view_ok (cap s) al (view h s)"
    and relink: "sinv h s \<Longrightarrow> same_payload pay X h h' \<Longrightarrow> sinv h' s \<and> view h' s = view h s"
    and alloc_slab: "sinv h s \<Longrightarrow> \<exists>h' s' p. ss_alloc_slab S h s = Some (h', s', p)
      \<and> sinv h' s' \<and> cap s' = cap s \<and> new_slab L I (cap s) h (view h s) h' (view h' s') p"
    and dealloc_slab: "sinv h s \<Longrightarrow> view h s p = Some (os, av) \<Longrightarrow> length av = cap s
      \<Longrightarrow> \<exists>s'. ss_dealloc_slab S h s p =
            Some (h(p := None), s', concat (map (\<lambda>(x, st). is_drop I x st) (rev av)))
          \<and> sinv (h(p := None)) s' \<and> cap s' = cap s \<and> view (h(p := None)) s' = (view h s)(p := None)"
    and is_full: "sinv h s \<Longrightarrow> view h s p = Some (os, av) \<Longrightarrow> ss_is_full S h s p = Some (length av = cap s)"
    and is_empty: "sinv h s \<Longrightarrow> view h s p = Some (os, av) \<Longrightarrow> ss_is_empty S h s p = Some (av = [])"
    and alloc: "sinv h s \<Longrightarrow> view h s p = Some (os, av @ [(x, st)])
      \<Longrightarrow> \<exists>h'. ss_alloc S h s p = Some (h', x, st) \<and> sinv h' s \<and> same_links L h h'
          \<and> view h' s = (view h s)(p \<mapsto> (os, av))"
    and dealloc: "sinv h s \<Longrightarrow> view h s p = Some (os, av) \<Longrightarrow> x \<in> os \<Longrightarrow> x \<notin> fst ` set av
      \<Longrightarrow> \<exists>h' s'. ss_dealloc S h s x st = Some (h', s', p, av = [])
          \<and> sinv h' s' \<and> cap s' = cap s \<and> same_links L h h'
          \<and> view h' s' = (view h s)(p \<mapsto> (os, av @ [(x, st)]))"

subsection \<open>Facts on views\<close>

lemma view_okI:
  assumes "0 < n" "v null = None"
    "\<And>p os av. v p = Some (os, av) \<Longrightarrow>
      finite os \<and> card os = n \<and> distinct (map fst av) \<and> fst ` set av \<subseteq> os \<and> (\<forall>x \<in> os. x \<noteq> null \<and> al dvd unat x)"
    "\<And>p q os av os' av'. v p = Some (os, av) \<Longrightarrow> v q = Some (os', av') \<Longrightarrow> p \<noteq> q \<Longrightarrow> os \<inter> os' = {}"
  shows "view_ok n al v"
  unfolding view_ok_def using assms(1,2) by (intro conjI allI impI assms(3,4); simp add: assms(3))

lemma view_okD:
  assumes "view_ok n al v" "v p = Some (os, av)"
  shows "0 < n" "p \<noteq> null" "finite os" "card os = n" "distinct (map fst av)" "fst ` set av \<subseteq> os"
    "length av \<le> n" "length av = n \<Longrightarrow> fst ` set av = os"
proof -
  show base: "0 < n" "p \<noteq> null" "finite os" "card os = n" "distinct (map fst av)" "fst ` set av \<subseteq> os"
    using assms by (auto simp: view_ok_def)
  have len: "card (fst ` set av) = length av"
    using distinct_card [OF base(5)] by simp
  then show "length av \<le> n"
    using card_mono [OF base(3,6)] base(4) by simp
  show "length av = n \<Longrightarrow> fst ` set av = os"
    using card_subset_eq [OF base(3,6)] base(4) len by simp
qed

lemma view_ok_lt:
  assumes "view_ok n al v" "v p = Some (os, av)" "x \<in> os" "x \<notin> fst ` set av"
  shows "length av < n"
  using view_okD(7,8) [OF assms(1,2)] assms(3,4) by (auto simp: le_less)

lemma view_ok_disjoint:
  "view_ok n al v \<Longrightarrow> v p = Some (os, av) \<Longrightarrow> v q = Some (os', av') \<Longrightarrow> p \<noteq> q \<Longrightarrow> os \<inter> os' = {}"
  unfolding view_ok_def by meson

lemma live_finite: "view_ok n al v \<Longrightarrow> finite (dom v) \<Longrightarrow> finite (live_objs v)"
proof -
  assume v: "view_ok n al v" "finite (dom v)"
  have "live_objs v \<subseteq> (\<Union>p \<in> dom v. fst (the (v p)))"
    by (force simp: live_objs_def)
  moreover have "finite (\<Union>p \<in> dom v. fst (the (v p)))"
    using v by (auto simp: view_ok_def)
  ultimately show ?thesis
    by (rule finite_subset)
qed

text \<open>The contribution of one slab.\<close>

lemma live_upd: "live_objs (v(p \<mapsto> (os, av))) = live_objs (v(p := None)) \<union> (os - fst ` set av)"
proof -
  have d: "dom (v(p \<mapsto> (os, av))) = insert p (dom (v(p := None)))"
    by auto
  have "(\<Union>q \<in> dom (v(p := None)). fst (the ((v(p \<mapsto> (os, av))) q)) - fst ` set (snd (the ((v(p \<mapsto> (os, av))) q))))
      = live_objs (v(p := None))"
    unfolding live_objs_def by (rule SUP_cong) auto
  then show ?thesis
    unfolding live_objs_def [of "v(p \<mapsto> (os, av))"] d UN_insert by (simp add: Un_commute)
qed

lemma live_split:
  "v p = Some (os, av) \<Longrightarrow> live_objs v = live_objs (v(p := None)) \<union> (os - fst ` set av)"
  using live_upd [of v p os av] by (simp add: map_upd_triv)

lemma live_other:
  assumes "view_ok n al v" "v p = Some (os, av)"
  shows "live_objs (v(p := None)) \<inter> os = {}"
proof -
  have "os' \<inter> os = {}" if "(v(p := None)) q = Some (os', av')" for q os' av'
    using that assms view_ok_disjoint [of n al v q os' av' p os av] by (cases "q = p") auto
  then have "fst (the ((v(p := None)) q)) \<inter> os = {}" if "q \<in> dom (v(p := None))" for q
    using that by (metis domD option.sel prod.collapse)
  then show ?thesis
    unfolding live_objs_def by blast
qed

text \<open>Taking the last free object, and giving one back.\<close>

lemma live_take:
  assumes v: "view_ok n al v" "v p = Some (os, av @ [(x, st)])"
  shows "x \<notin> live_objs v" "live_objs (v(p \<mapsto> (os, av))) = insert x (live_objs v)"
proof -
  have x: "x \<in> os" "x \<notin> fst ` set av"
    using view_okD(5,6) [OF v] by auto
  show "x \<notin> live_objs v"
    using live_other [OF v] live_split [of v p, OF v(2)] x(1) by auto
  show "live_objs (v(p \<mapsto> (os, av))) = insert x (live_objs v)"
    using live_split [of v p, OF v(2)] x by (auto simp: live_upd)
qed

lemma live_give:
  assumes v: "view_ok n al v" "v p = Some (os, av)" "x \<in> os"
  shows "live_objs (v(p \<mapsto> (os, av @ [(x, st)]))) = live_objs v - {x}"
  using live_split [of v p, OF v(2)] live_other [OF v(1,2)] v(3) by (auto simp: live_upd)

lemma live_objD:
  assumes "view_ok n al v" "x \<in> live_objs v"
  shows "x \<noteq> null" "al dvd unat x"
  using assms by (fastforce simp: live_objs_def view_ok_def)+

text \<open>There are fewer objects than addresses.\<close>

lemma live_room: "view_ok n al v \<Longrightarrow> card (live_objs v) < 2 ^ 64"
proof -
  assume v: "view_ok n al v"
  have "null \<notin> live_objs v" using live_objD(1) [OF v, of null] by blast
  then have "card (live_objs v) < card (UNIV :: ptr set)" by (intro psubset_card_mono) auto
  then show ?thesis by (simp add: card_usize)
qed

lemma live_mem:
  assumes "x \<in> live_objs v"
  obtains p os av where "v p = Some (os, av)" "x \<in> os" "x \<notin> fst ` set av"
  using assms that by (fastforce simp: live_objs_def)

text \<open>A slab all of whose objects are free carries no live object.\<close>

lemma live_full_slab:
  assumes "view_ok n al v" "v p = Some (os, av)" "length av = n"
  shows "live_objs (v(p := None)) = live_objs v"
  using view_okD(8) [OF assms] live_split [of v p, OF assms(2)] by simp

lemma live_new_slab:
  assumes "view_ok n al (v(p \<mapsto> (os, av)))" "v p = None" "length av = n"
  shows "live_objs (v(p \<mapsto> (os, av))) = live_objs v"
proof -
  have "live_objs ((v(p \<mapsto> (os, av)))(p := None)) = live_objs (v(p \<mapsto> (os, av)))"
    by (rule live_full_slab [OF assms(1) _ assms(3)]) simp
  moreover have "(v(p \<mapsto> (os, av)))(p := None) = v"
    using assms(2) by auto
  ultimately show ?thesis by simp
qed

end
