(* ===== verification/Stack_System.thy ===== *)
theory Stack_System
  imports Stack_Slab Slab_System
begin

text \<open>
  \<open>System\<close> of \<open>slab-alloc/src/stack.rs\<close> fulfils the contract of \<open>SlabSystem\<close>.  The
  locales \<open>backing_alloc\<close> and \<open>config_data\<close> state what is asked of the allocator behind the
  slabs (\<open>UntypedObjectAlloc\<close>: blocks of the announced layout that do not overlap) and of
  the object-to-slab map (\<open>ConfigData\<close>); \<open>stack_system\<close> combines them with an
  \<open>InitSystem\<close>, and is a sublocale of \<open>slab_system\<close>.
\<close>

subsection \<open>Where slabs lie\<close>

text \<open>All slabs are blocks of layout \<open>bl\<close> that do not overlap, the objects fit and are
  aligned, and every colour is one of the colours of the layout.\<close>

definition slabs_placed :: "slab_layout \<Rightarrow> layout \<Rightarrow> slab_header heap \<Rightarrow> bool" where
  "slabs_placed sl bl h \<longleftrightarrow>
     slab_layout_ok sl (lay_size bl)
     \<and> lay_align (sl_layout sl) dvd lay_align bl \<and> lay_align (sl_layout sl) dvd lay_size (sl_layout sl)
     \<and> (\<forall>p \<in> dom h. p \<noteq> null \<and> fits p (lay_size bl) \<and> lay_align bl dvd unat p)
     \<and> (\<forall>p \<in> dom h. \<forall>q \<in> dom h. p \<noteq> q \<longrightarrow> region p (lay_size bl) \<inter> region q (lay_size bl) = {})
     \<and> (\<forall>p hdr. h p = Some hdr \<longrightarrow>
          sh_color hdr \<le> cs_max_color (sl_color_settings sl) \<and> lay_align (sl_layout sl) dvd sh_color hdr)"

definition slab_objs :: "slab_layout \<Rightarrow> ptr \<Rightarrow> color \<Rightarrow> ptr set" where
  "slab_objs sl p c = nth_obj sl p c ` {..<sl_num_obj sl}"

definition slab_words :: "slab_layout \<Rightarrow> word_mem \<Rightarrow> ptr \<Rightarrow> slab_header \<Rightarrow> usize list" where
  "slab_words sl mem p hdr = stack_elems (sh_stack hdr) (stack_begin sl p) mem"

definition slab_avail :: "'s init_sys \<Rightarrow> slab_layout \<Rightarrow> word_mem \<Rightarrow> ptr \<Rightarrow> slab_header \<Rightarrow> (ptr \<times> 's) list" where
  "slab_avail I sl mem p hdr = map (\<lambda>w. (is_unpack_ptr I w, is_unpack_status I w)) (slab_words sl mem p hdr)"

text \<open>The words on the stack of a slab are packed objects of this slab, each at most once.\<close>

definition slab_stack_ok :: "'s init_sys \<Rightarrow> slab_layout \<Rightarrow> word_mem \<Rightarrow> ptr \<Rightarrow> slab_header \<Rightarrow> bool" where
  "slab_stack_ok I sl mem p hdr \<longleftrightarrow>
     (let av = slab_avail I sl mem p hdr in
      distinct (map fst av) \<and> fst ` set av \<subseteq> slab_objs sl p (sh_color hdr)
      \<and> slab_words sl mem p hdr = map (\<lambda>(x, st). is_pack I x st) av)"

definition sys_view :: "'s init_sys \<Rightarrow> slab_header heap \<Rightarrow> ('c, 'b) system \<Rightarrow> 's slab_view" where
  "sys_view I h s p =
     (case h p of None \<Rightarrow> None
      | Some hdr \<Rightarrow> Some (slab_objs (sy_layout s) p (sh_color hdr), slab_avail I (sy_layout s) (sy_words s) p hdr))"

definition header_payload :: "slab_header \<Rightarrow> stack \<times> color" where
  "header_payload hdr = (sh_stack hdr, sh_color hdr)"

definition sys_cap :: "('c, 'b) system \<Rightarrow> nat" where
  "sys_cap s = sl_num_obj (sy_layout s)"

definition sys_inv ::
  "'s init_sys \<Rightarrow> 'b untyped_object_alloc \<Rightarrow> ('b \<Rightarrow> ptr set) \<Rightarrow> ('b \<Rightarrow> bool)
    \<Rightarrow> ('c \<Rightarrow> slab_layout \<Rightarrow> layout \<Rightarrow> slab_header heap \<Rightarrow> bool) \<Rightarrow> layout
    \<Rightarrow> slab_header heap \<Rightarrow> ('c, 'b) system \<Rightarrow> bool" where
  "sys_inv I B own binv cinv l h s \<longleftrightarrow>
     l = sl_layout (sy_layout s) \<and> slabs_placed (sy_layout s) (oa_layout B (sy_alloc s)) h
     \<and> is_min_align I dvd lay_align (sl_layout (sy_layout s))
     \<and> binv (sy_alloc s) \<and> own (sy_alloc s) = dom h
     \<and> cinv (sy_data s) (sy_layout s) (oa_layout B (sy_alloc s)) h
     \<and> (\<forall>p hdr. h p = Some hdr \<longrightarrow> slab_stack_ok I (sy_layout s) (sy_words s) p hdr)"

definition sys_ops ::
  "'s init_sys \<Rightarrow> 'b untyped_object_alloc \<Rightarrow> 'c config_ops \<Rightarrow> (slab_header, ('c, 'b) system, 's) slab_ops" where
  "sys_ops I B C =
     \<lparr> ss_alloc_slab = sys_alloc_slab I B C, ss_dealloc_slab = sys_dealloc_slab I B C,
       ss_is_full = sys_is_full, ss_is_empty = sys_is_empty,
       ss_alloc = sys_alloc I, ss_dealloc = sys_dealloc I B C \<rparr>"

subsection \<open>Objects and stacks of a slab\<close>

text \<open>Blocks of layout \<open>l\<close> at the addresses \<open>xs\<close>.\<close>

definition blocks_ok :: "layout \<Rightarrow> ptr set \<Rightarrow> bool" where
  "blocks_ok l xs \<longleftrightarrow>
     (\<forall>x \<in> xs. x \<noteq> null \<and> fits x (lay_size l) \<and> lay_align l dvd unat x)
     \<and> (\<forall>x \<in> xs. \<forall>y \<in> xs. x \<noteq> y \<longrightarrow> region x (lay_size l) \<inter> region y (lay_size l) = {})"

lemma blocks_okI:
  assumes "\<And>x. x \<in> xs \<Longrightarrow> x \<noteq> null \<and> fits x (lay_size l) \<and> lay_align l dvd unat x"
    "\<And>x y. x \<in> xs \<Longrightarrow> y \<in> xs \<Longrightarrow> x \<noteq> y \<Longrightarrow> region x (lay_size l) \<inter> region y (lay_size l) = {}"
  shows "blocks_ok l xs"
  using assms unfolding blocks_ok_def by blast

text \<open>Smaller blocks with a weaker alignment are blocks too.\<close>

lemma blocks_ok_weaken:
  assumes ok: "blocks_ok l xs" and le: "lay_size l' \<le> lay_size l" "lay_align l' dvd lay_align l"
  shows "blocks_ok l' xs"
proof (rule blocks_okI)
  fix x assume "x \<in> xs"
  then show "x \<noteq> null \<and> fits x (lay_size l') \<and> lay_align l' dvd unat x"
    using ok le by (auto simp: blocks_ok_def intro: fits_mono dvd_trans)
next
  fix x y assume xy: "x \<in> xs" "y \<in> xs" "x \<noteq> y"
  have sub: "region z (lay_size l') \<subseteq> region z (lay_size l)" for z using le(1) by (auto simp: region_def)
  have "region x (lay_size l) \<inter> region y (lay_size l) = {}" using ok xy by (simp add: blocks_ok_def)
  then show "region x (lay_size l') \<inter> region y (lay_size l') = {}"
    using sub [of x] sub [of y] by blast
qed

lemma slabs_placedD:
  assumes "slabs_placed sl bl h" "h p = Some hdr"
  shows "slab_layout_ok sl (lay_size bl)" "p \<noteq> null" "fits p (lay_size bl)" "lay_align bl dvd unat p"
    "sh_color hdr \<le> cs_max_color (sl_color_settings sl)" "lay_align (sl_layout sl) dvd sh_color hdr"
  using assms by (auto simp: slabs_placed_def)

lemma nth_obj_unat:
  assumes "slab_layout_ok sl S" "fits p S" "c \<le> cs_max_color (sl_color_settings sl)" "i < sl_num_obj sl"
  shows "unat (nth_obj sl p c i) = unat p + obj_offset sl c i"
  using unat_offset_fits [OF assms(2) obj_offset_end(2) [OF assms(1,3,4)]] by (simp add: nth_obj_offset)

lemma nth_obj_inj:
  assumes "slab_layout_ok sl S" "fits p S" "c \<le> cs_max_color (sl_color_settings sl)"
  shows "inj_on (nth_obj sl p c) {..<sl_num_obj sl}"
proof (rule inj_onI)
  fix i j
  assume ij: "i \<in> {..<sl_num_obj sl}" "j \<in> {..<sl_num_obj sl}" "nth_obj sl p c i = nth_obj sl p c j"
  then have "obj_offset sl c i = obj_offset sl c j"
    using nth_obj_unat [OF assms, of i] nth_obj_unat [OF assms, of j] by simp
  then show "i = j"
    using assms(1) obj_offset_inj by (simp add: slab_layout_ok_def)
qed

lemma slab_objs_card:
  assumes "slab_layout_ok sl S" "fits p S" "c \<le> cs_max_color (sl_color_settings sl)"
  shows "card (slab_objs sl p c) = sl_num_obj sl" "finite (slab_objs sl p c)"
  using card_image [OF nth_obj_inj [OF assms]] by (simp_all add: slab_objs_def)

lemma slab_objs_region:
  assumes "slab_layout_ok sl S" "fits p S" "c \<le> cs_max_color (sl_color_settings sl)" "x \<in> slab_objs sl p c"
  shows "unat x \<in> region p S" "unat x + lay_size (sl_layout sl) \<le> unat p + S"
proof -
  obtain i where i: "i < sl_num_obj sl" "x = nth_obj sl p c i"
    using assms(4) by (auto simp: slab_objs_def)
  then have "unat x = unat p + obj_offset sl c i"
    using nth_obj_unat [OF assms(1-3)] by simp
  then show "unat x \<in> region p S" "unat x + lay_size (sl_layout sl) \<le> unat p + S"
    using obj_offset_end [OF assms(1,3) i(1)] by (auto simp: region_def)
qed

text \<open>Two objects of the same slab do not overlap.\<close>

lemma slab_objs_apart:
  assumes ok: "slab_layout_ok sl S" "fits p S" "c \<le> cs_max_color (sl_color_settings sl)"
    and xy: "x \<in> slab_objs sl p c" "y \<in> slab_objs sl p c" "x \<noteq> y"
  shows "region x (lay_size (sl_layout sl)) \<inter> region y (lay_size (sl_layout sl)) = {}"
proof -
  obtain i j where ij: "i < sl_num_obj sl" "x = nth_obj sl p c i" "j < sl_num_obj sl" "y = nth_obj sl p c j"
    using xy by (auto simp: slab_objs_def)
  have u: "unat x = unat p + obj_offset sl c i" "unat y = unat p + obj_offset sl c j"
    using nth_obj_unat [OF ok] ij by simp_all
  have "i * lay_size (sl_layout sl) + lay_size (sl_layout sl) \<le> j * lay_size (sl_layout sl)
      \<or> j * lay_size (sl_layout sl) + lay_size (sl_layout sl) \<le> i * lay_size (sl_layout sl)"
    using ij(2,4) xy(3) mult_le_mono1 [of "Suc i" j "lay_size (sl_layout sl)"]
      mult_le_mono1 [of "Suc j" i "lay_size (sl_layout sl)"] by (cases i j rule: linorder_cases) auto
  then show ?thesis
    using u by (auto simp: region_def obj_offset_def)
qed

lemma slab_objs_disjoint:
  assumes "slabs_placed sl bl h" "h p = Some hdr" "h q = Some hdr'" "p \<noteq> q"
  shows "slab_objs sl p (sh_color hdr) \<inter> slab_objs sl q (sh_color hdr') = {}"
proof -
  have "region p (lay_size bl) \<inter> region q (lay_size bl) = {}"
    using assms by (auto simp: slabs_placed_def)
  then show ?thesis
    using slab_objs_region(1) [OF slabs_placedD(1,3,5) [OF assms(1,2)]]
      slab_objs_region(1) [OF slabs_placedD(1,3,5) [OF assms(1,3)]] by blast
qed

lemma slab_objs_aligned:
  assumes "slabs_placed sl bl h" "h p = Some hdr" "x \<in> slab_objs sl p (sh_color hdr)"
  shows "lay_align (sl_layout sl) dvd unat x"
proof -
  obtain i where i: "i < sl_num_obj sl" "x = nth_obj sl p (sh_color hdr) i"
    using assms(3) by (auto simp: slab_objs_def)
  have "lay_align (sl_layout sl) dvd unat p"
    using assms(1) slabs_placedD(4) [OF assms(1,2)] dvd_trans by (auto simp: slabs_placed_def)
  moreover have "lay_align (sl_layout sl) dvd obj_offset sl (sh_color hdr) i"
    using assms(1) slabs_placedD(1,6) [OF assms(1,2)]
    by (auto simp: slabs_placed_def slab_layout_ok_def obj_offset_def)
  ultimately show ?thesis
    using nth_obj_unat [OF slabs_placedD(1,3,5) [OF assms(1,2)] i(1)] i(2) by simp
qed

text \<open>The slots of the stacks of different slabs are different words.\<close>

lemma slot_offset:
  "slab_layout_ok sl S \<Longrightarrow> offset (stack_begin sl p) (i * word_bytes) = offset p (stack_begin_offset + i * word_bytes)"
  by (simp add: stack_begin_def slab_layout_ok_def offset_offset)

lemma slot_lt:
  "slab_layout_ok sl S \<Longrightarrow> i < sl_num_obj sl \<Longrightarrow> stack_begin_offset + i * word_bytes < S"
  by (auto simp: slab_layout_ok_def for_slab_size_asserts_def bytes_for_def word_bytes_def)

lemma stack_begin_fits:
  assumes "slab_layout_ok sl S" "fits p S"
  shows "fits (stack_begin sl p) (bytes_for (sl_num_obj sl))"
proof -
  have "stack_begin_offset + bytes_for (sl_num_obj sl) \<le> S" "sl_stack_begin_offset sl = stack_begin_offset"
    using assms(1) by (auto simp: slab_layout_ok_def for_slab_size_asserts_def)
  moreover have "stack_begin_offset < S"
    using slot_lt [OF assms(1), of 0] assms(1) by (simp add: slab_layout_ok_def)
  ultimately show ?thesis
    using assms(2) unat_offset_fits [OF assms(2), of stack_begin_offset]
    by (simp add: fits_def stack_begin_def)
qed

lemma slot_other:
  assumes "slabs_placed sl bl h" "p \<in> dom h" "q \<in> dom h" "p \<noteq> q" "i < sl_num_obj sl" "j < sl_num_obj sl"
  shows "offset (stack_begin sl p) (i * word_bytes) \<noteq> offset (stack_begin sl q) (j * word_bytes)"
proof -
  have ok: "slab_layout_ok sl (lay_size bl)" using assms(1) by (simp add: slabs_placed_def)
  have "region p (lay_size bl) \<inter> region q (lay_size bl) = {}" "fits p (lay_size bl)" "fits q (lay_size bl)"
    using assms(1-4) by (auto simp: slabs_placed_def)
  then show ?thesis
    using region_disjoint_offset slot_lt [OF ok] assms(5,6) unfolding slot_offset [OF ok] by blast
qed

definition same_colors :: "slab_header heap \<Rightarrow> slab_header heap \<Rightarrow> bool" where
  "same_colors h h' \<longleftrightarrow> (\<forall>p. map_option sh_color (h' p) = map_option sh_color (h p))"

lemma same_colors_upd [simp]:
  "h p = Some hdr \<Longrightarrow> sh_color hdr' = sh_color hdr \<Longrightarrow> same_colors h (h(p \<mapsto> hdr'))"
  by (simp add: same_colors_def)

lemma same_colors_refl [simp]: "same_colors h h"
  by (simp add: same_colors_def)

lemma same_colors_trans: "same_colors h1 h2 \<Longrightarrow> same_colors h2 h3 \<Longrightarrow> same_colors h1 h3"
  by (simp add: same_colors_def)

lemma same_colors_dom: "same_colors h h' \<Longrightarrow> dom h' = dom h"
  unfolding same_colors_def dom_def by (metis (mono_tags, lifting) map_option_is_None)

lemma same_colors_Some: "same_colors h h' \<Longrightarrow> h' p = Some hdr' \<Longrightarrow> \<exists>hdr. h p = Some hdr \<and> sh_color hdr' = sh_color hdr"
  unfolding same_colors_def by (metis map_option_eq_Some)

lemma same_colors_placed:
  assumes "slabs_placed sl bl h" "same_colors h h'"
  shows "slabs_placed sl bl h'"
proof -
  have "\<exists>hdr. h p = Some hdr \<and> sh_color hdr' = sh_color hdr" if "h' p = Some hdr'" for p hdr'
    using same_colors_Some [OF assms(2) that] .
  then show ?thesis
    using assms(1) unfolding slabs_placed_def same_colors_dom [OF assms(2)] by metis
qed

lemma slab_words_length [simp]: "length (slab_words sl mem p hdr) = stk_size (sh_stack hdr)"
  by (simp add: slab_words_def)

lemma slab_avail_length [simp]: "length (slab_avail I sl mem p hdr) = stk_size (sh_stack hdr)"
  by (simp add: slab_avail_def)

lemma slab_stack_ok_size:
  assumes "slabs_placed sl bl h" "h p = Some hdr" "slab_stack_ok I sl mem p hdr"
  shows "stk_size (sh_stack hdr) \<le> sl_num_obj sl"
proof -
  let ?av = "slab_avail I sl mem p hdr"
  have "distinct (map fst ?av)" "fst ` set ?av \<subseteq> slab_objs sl p (sh_color hdr)"
    using assms(3) by (simp_all add: slab_stack_ok_def Let_def)
  then have "length ?av \<le> card (slab_objs sl p (sh_color hdr))"
    using distinct_card [of "map fst ?av"] card_mono slab_objs_card(2) [OF slabs_placedD(1,3,5) [OF assms(1,2)]]
    by (metis length_map list.set_map)
  then show ?thesis
    using slab_objs_card(1) [OF slabs_placedD(1,3,5) [OF assms(1,2)]] by simp
qed

text \<open>The stacks of all slabs but \<open>p\<close> are the same in both memories.\<close>

definition words_frame :: "slab_layout \<Rightarrow> slab_header heap \<Rightarrow> ptr \<Rightarrow> word_mem \<Rightarrow> word_mem \<Rightarrow> bool" where
  "words_frame sl h p mem mem' \<longleftrightarrow>
     (\<forall>q hq. h q = Some hq \<longrightarrow> q \<noteq> p \<longrightarrow> stk_size (sh_stack hq) \<le> sl_num_obj sl
        \<longrightarrow> slab_words sl mem' q hq = slab_words sl mem q hq)"

lemma words_frame_refl [simp]: "words_frame sl h p mem mem"
  by (simp add: words_frame_def)

lemma words_frame_upd [simp]: "words_frame sl (h(p := v)) p mem mem' = words_frame sl h p mem mem'"
  by (auto simp: words_frame_def)

lemma words_frame_trans:
  "words_frame sl h p m1 m2 \<Longrightarrow> words_frame sl h p m2 m3 \<Longrightarrow> words_frame sl h p m1 m3"
  by (simp add: words_frame_def)

text \<open>One push, seen from the slab and from the others.\<close>

lemma slab_push_ok:
  assumes pl: "slabs_placed sl bl h" and p: "h p = Some hdr" and sz: "stk_size (sh_stack hdr) < sl_num_obj sl"
  shows "\<exists>hdr' mem'. slab_push sl p w (h, mem) = Some (h(p \<mapsto> hdr'), mem')
    \<and> hdr' = hdr\<lparr> sh_stack := \<lparr> stk_size = Suc (stk_size (sh_stack hdr)) \<rparr> \<rparr>
    \<and> slab_words sl mem' p hdr' = slab_words sl mem p hdr @ [w]
    \<and> words_frame sl h p mem mem'"
proof -
  obtain stk mem' where st: "stack_push (sh_stack hdr) (stack_begin sl p) w mem = (stk, mem')"
    by (cases "stack_push (sh_stack hdr) (stack_begin sl p) w mem")
  have stk: "stk = \<lparr> stk_size = Suc (stk_size (sh_stack hdr)) \<rparr>"
    using st by (auto simp: stack_push_def)
  have "words_frame sl h p mem mem'"
    unfolding slab_words_def words_frame_def
  proof (intro allI impI stack_elems_cong)
    fix q hq i
    assume that: "h q = Some hq" "q \<noteq> p" "stk_size (sh_stack hq) \<le> sl_num_obj sl" "i < stk_size (sh_stack hq)"
    then show "mem' (offset (stack_begin sl q) (i * word_bytes)) = mem (offset (stack_begin sl q) (i * word_bytes))"
      using stack_push_frame [OF st] slot_other [OF pl, of q p i "stk_size (sh_stack hdr)"] p sz by auto
  qed
  moreover have "stack_elems stk (stack_begin sl p) mem' = slab_words sl mem p hdr @ [w]"
    unfolding slab_words_def
    by (rule stack_elems_push [OF stack_begin_fits [OF slabs_placedD(1,3) [OF pl p]] sz st])
  ultimately show ?thesis
    using p st stk by (auto simp: slab_push_def slab_words_def)
qed

lemma slab_pop_ok:
  assumes "h p = Some hdr" "slab_words sl mem p hdr = ws @ [w]"
  shows "\<exists>hdr'. slab_pop sl p (h, mem) = Some (h(p \<mapsto> hdr'), w)
    \<and> hdr' = hdr\<lparr> sh_stack := \<lparr> stk_size = length ws \<rparr> \<rparr> \<and> slab_words sl mem p hdr' = ws"
proof -
  obtain stk where stk: "stack_pop (sh_stack hdr) (stack_begin sl p) mem = Some (stk, w)"
    "stack_elems stk (stack_begin sl p) mem = ws"
    using stack_pop_elems [of "sh_stack hdr" "stack_begin sl p" mem ws w] assms(2)
    by (auto simp: slab_words_def)
  then have "stk = \<lparr> stk_size = length ws \<rparr>" by auto
  then show ?thesis
    using assms(1) stk by (auto simp: slab_pop_def slab_words_def)
qed

text \<open>The loop of \<open>alloc_slab\<close>.\<close>

lemma push_objs_ok:
  assumes "slabs_placed sl bl h" "h p = Some hdr" "stk_size (sh_stack hdr) + length is \<le> sl_num_obj sl"
    "c \<le> cs_max_color (sl_color_settings sl)" "set is \<subseteq> {..<sl_num_obj sl}"
  shows "\<exists>hdr' mem'. push_objs I sl p c is (h, mem) = Some (h(p \<mapsto> hdr'), mem')
    \<and> sh_color hdr' = sh_color hdr \<and> sh_next hdr' = sh_next hdr \<and> sh_prev hdr' = sh_prev hdr
    \<and> slab_words sl mem' p hdr' = slab_words sl mem p hdr
        @ map (\<lambda>i. is_pack I (nth_obj sl p c i) (is_status_uninitialized I)) is
    \<and> words_frame sl h p mem mem'"
  using assms
proof (induction "is" arbitrary: h hdr mem)
  case Nil
  then show ?case by (intro exI [of _ hdr] exI [of _ mem]) (simp add: map_upd_triv)
next
  case (Cons i "is")
  let ?w = "is_pack I (nth_obj sl p c i) (is_status_uninitialized I)"
  have obj: "checked_nth_obj sl p c i = Some (nth_obj sl p c i)"
    using checked_nth_obj_ok [OF slabs_placedD(1,3) [OF Cons.prems(1,2)] Cons.prems(4)] Cons.prems(5) by simp
  obtain hdr1 mem1 where one: "slab_push sl p ?w (h, mem) = Some (h(p \<mapsto> hdr1), mem1)"
    "hdr1 = hdr\<lparr> sh_stack := \<lparr> stk_size = Suc (stk_size (sh_stack hdr)) \<rparr> \<rparr>"
    "slab_words sl mem1 p hdr1 = slab_words sl mem p hdr @ [?w]"
    and fr: "words_frame sl h p mem mem1"
    using slab_push_ok [OF Cons.prems(1,2), of ?w mem] Cons.prems(3) by auto
  have "slabs_placed sl bl (h(p \<mapsto> hdr1))"
    using same_colors_placed [OF Cons.prems(1)] Cons.prems(2) one(2) by simp
  moreover have "(h(p \<mapsto> hdr1)) p = Some hdr1" "stk_size (sh_stack hdr1) + length is \<le> sl_num_obj sl"
    using one(2) Cons.prems(3) by simp_all
  ultimately obtain hdr2 mem2 where two: "push_objs I sl p c is (h(p \<mapsto> hdr1), mem1) = Some ((h(p \<mapsto> hdr1))(p \<mapsto> hdr2), mem2)"
    "sh_color hdr2 = sh_color hdr1" "sh_next hdr2 = sh_next hdr1" "sh_prev hdr2 = sh_prev hdr1"
    "slab_words sl mem2 p hdr2 = slab_words sl mem1 p hdr1
        @ map (\<lambda>i. is_pack I (nth_obj sl p c i) (is_status_uninitialized I)) is"
    "words_frame sl (h(p \<mapsto> hdr1)) p mem1 mem2"
    using Cons.IH Cons.prems(4,5) by (metis insert_subset list.simps(15))
  then show ?case
    using one obj words_frame_trans [OF fr, of mem2]
    by (intro exI [of _ hdr2] exI [of _ mem2]) (simp del: fun_upd_apply)
qed

text \<open>The loop of \<open>dealloc_slab\<close>.\<close>

lemma drop_objs_ok:
  assumes "h p = Some hdr" "slab_words sl mem p hdr = ws" "length ws = n"
  shows "\<exists>hdr'. drop_objs I sl p n mem h = Some (h(p \<mapsto> hdr'),
      concat (map (\<lambda>w. is_drop I (is_unpack_ptr I w) (is_unpack_status I w)) (rev ws)))"
  using assms
proof (induction n arbitrary: h hdr ws)
  case 0
  then show ?case by (intro exI [of _ hdr]) (simp add: map_upd_triv)
next
  case (Suc n)
  obtain ws' w where ws: "ws = ws' @ [w]"
    using Suc.prems(3) by (cases ws rule: rev_cases) auto
  obtain hdr1 where pop: "slab_pop sl p (h, mem) = Some (h(p \<mapsto> hdr1), w)" "slab_words sl mem p hdr1 = ws'"
    using slab_pop_ok [of h p hdr sl mem ws' w] Suc.prems ws by blast
  have "(h(p \<mapsto> hdr1)) p = Some hdr1" "length ws' = n"
    using Suc.prems(3) ws by simp_all
  from Suc.IH [of "h(p \<mapsto> hdr1)" hdr1 ws', OF this(1) pop(2) this(2)]
  obtain hdr2 where "drop_objs I sl p n mem (h(p \<mapsto> hdr1)) = Some ((h(p \<mapsto> hdr1))(p \<mapsto> hdr2),
      concat (map (\<lambda>w. is_drop I (is_unpack_ptr I w) (is_unpack_status I w)) (rev ws')))"
    by blast
  then show ?case
    using pop(1) ws by (intro exI [of _ hdr2]) (simp del: fun_upd_apply)
qed

subsection \<open>The interfaces\<close>

text \<open>The memory behind the slabs: \<open>own b\<close> are the blocks handed out and not returned.\<close>

definition fresh_block :: "layout \<Rightarrow> ptr set \<Rightarrow> ptr \<Rightarrow> bool" where
  "fresh_block l ps p \<longleftrightarrow> p \<noteq> null \<and> p \<notin> ps \<and> fits p (lay_size l) \<and> lay_align l dvd unat p
     \<and> (\<forall>q \<in> ps. region p (lay_size l) \<inter> region q (lay_size l) = {})"

locale backing_alloc =
  fixes B :: "'b untyped_object_alloc"
    and own :: "'b \<Rightarrow> ptr set"
    and binv :: "'b \<Rightarrow> bool"
  assumes balloc_total: "binv b \<Longrightarrow> oa_alloc B b \<noteq> None"
    and balloc_Some: "binv b \<Longrightarrow> oa_alloc B b = Some (b', Some p)
      \<Longrightarrow> binv b' \<and> own b' = insert p (own b) \<and> oa_layout B b' = oa_layout B b
        \<and> fresh_block (oa_layout B b) (own b) p"
    and balloc_None: "binv b \<Longrightarrow> oa_alloc B b = Some (b', None)
      \<Longrightarrow> binv b' \<and> own b' = own b \<and> oa_layout B b' = oa_layout B b"
    and bdealloc: "binv b \<Longrightarrow> p \<in> own b \<Longrightarrow> binv (oa_dealloc B b p) \<and> own (oa_dealloc B b p) = own b - {p}
        \<and> oa_layout B (oa_dealloc B b p) = oa_layout B b"

text \<open>The map from objects to slabs: \<open>cinv c sl bl h\<close> says that \<open>c\<close> knows exactly the slabs
  of \<open>h\<close>.\<close>

locale config_data =
  fixes C :: "'c config_ops"
    and cinv :: "'c \<Rightarrow> slab_layout \<Rightarrow> layout \<Rightarrow> slab_header heap \<Rightarrow> bool"
  assumes cinv_colors: "same_colors h h' \<Longrightarrow> cinv c sl bl h' = cinv c sl bl h"
    and cinv_settings: "cinv c (sl\<lparr> sl_color_settings := cs \<rparr>) bl h = cinv c sl bl h"
    and post_alloc: "slabs_placed sl bl h \<Longrightarrow> p \<in> dom h \<Longrightarrow> cinv c sl bl (h(p := None))
      \<Longrightarrow> \<exists>c'. cd_post_alloc C c sl (lay_size bl) h p = Some c' \<and> cinv c' sl bl h"
    and pre_dealloc: "slabs_placed sl bl h \<Longrightarrow> p \<in> dom h \<Longrightarrow> cinv c sl bl h
      \<Longrightarrow> \<exists>c'. cd_pre_dealloc C c sl (lay_size bl) h p = Some c' \<and> cinv c' sl bl (h(p := None))"
    and ptr_to_slab: "slabs_placed sl bl h \<Longrightarrow> h p = Some hdr \<Longrightarrow> cinv c sl bl h \<Longrightarrow> i < sl_num_obj sl
      \<Longrightarrow> cd_ptr_to_slab C c (lay_size bl) (nth_obj sl p (sh_color hdr) i) = Some p"

locale stack_system = init_system I + backing_alloc B own binv + config_data C cinv
  for I :: "'s init_sys"
    and B :: "'b untyped_object_alloc" and own :: "'b \<Rightarrow> ptr set" and binv :: "'b \<Rightarrow> bool"
    and C :: "'c config_ops" and cinv :: "'c \<Rightarrow> slab_layout \<Rightarrow> layout \<Rightarrow> slab_header heap \<Rightarrow> bool" +
  fixes l :: layout
begin

lemma inv_obj_aligned:
  assumes "sys_inv I B own binv cinv l h s" "h p = Some hdr" "x \<in> slab_objs (sy_layout s) p (sh_color hdr)"
  shows "is_min_align I dvd unat x"
  using assms slab_objs_aligned [of "sy_layout s" "oa_layout B (sy_alloc s)" h p hdr x]
  by (auto simp: sys_inv_def intro: dvd_trans)

lemma unpack_avail:
  assumes "\<forall>x \<in> fst ` set av. is_min_align I dvd unat x"
  shows "map (\<lambda>w. (is_unpack_ptr I w, is_unpack_status I w)) (map (\<lambda>(x, st). is_pack I x st) av) = av"
  using assms by (induction av) (auto simp: unpack_ptr_pack unpack_status_pack)

lemma sys_view_ok:
  assumes inv: "sys_inv I B own binv cinv l h s"
  shows "view_ok (sys_cap s) (lay_align l) (sys_view I h s)"
proof -
  let ?sl = "sy_layout s" and ?bl = "oa_layout B (sy_alloc s)"
  have pl: "slabs_placed ?sl ?bl h" and st: "\<And>p hdr. h p = Some hdr \<Longrightarrow> slab_stack_ok I ?sl (sy_words s) p hdr"
    using inv by (auto simp: sys_inv_def)
  have v: "\<exists>hdr. h p = Some hdr \<and> os = slab_objs ?sl p (sh_color hdr) \<and> av = slab_avail I ?sl (sy_words s) p hdr"
    if "sys_view I h s p = Some (os, av)" for p os av
    using that by (auto simp: sys_view_def split: option.splits)
  show ?thesis
  proof (rule view_okI)
    show "0 < sys_cap s" "sys_view I h s null = None"
      using pl by (auto simp: sys_cap_def slabs_placed_def slab_layout_ok_def sys_view_def split: option.splits)
    show "finite os \<and> card os = sys_cap s \<and> distinct (map fst av) \<and> fst ` set av \<subseteq> os
        \<and> (\<forall>x \<in> os. x \<noteq> null \<and> lay_align l dvd unat x)"
      if view: "sys_view I h s p = Some (os, av)" for p os av
    proof -
      obtain hdr where hdr: "h p = Some hdr" "os = slab_objs ?sl p (sh_color hdr)" "av = slab_avail I ?sl (sy_words s) p hdr"
        using v [OF view] by blast
      have "x \<noteq> null" if "x \<in> os" for x
        using slab_objs_region(1) [OF slabs_placedD(1,3,5) [OF pl hdr(1)]] that hdr(2) slabs_placedD(2) [OF pl hdr(1)]
        by (force simp: region_def unat_eq_zero)
      moreover have "lay_align l dvd unat x" if "x \<in> os" for x
        using slab_objs_aligned [OF pl hdr(1)] that hdr(2) inv by (simp add: sys_inv_def)
      ultimately show ?thesis
        using hdr st slab_objs_card [OF slabs_placedD(1,3,5) [OF pl]]
        by (auto simp: sys_cap_def slab_stack_ok_def Let_def)
    qed
    show "os \<inter> os' = {}"
      if "sys_view I h s p = Some (os, av)" "sys_view I h s q = Some (os', av')" "p \<noteq> q" for p q os os' av av'
      using v [OF that(1)] v [OF that(2)] slab_objs_disjoint [OF pl] that(3) by blast
  qed
qed

lemma sys_relink:
  assumes inv: "sys_inv I B own binv cinv l h s" and pay: "same_payload header_payload X h h'"
  shows "sys_inv I B own binv cinv l h' s" "sys_view I h' s = sys_view I h s"
proof -
  have eq: "map_option header_payload (h' p) = map_option header_payload (h p)" for p
    using pay by (simp add: same_payload_def)
  have col: "same_colors h h'"
    unfolding same_colors_def
  proof
    fix p
    show "map_option sh_color (h' p) = map_option sh_color (h p)"
      using eq [of p] by (cases "h p"; cases "h' p") (auto simp: header_payload_def)
  qed
  have one: "slab_avail I sl mem p hdr' = slab_avail I sl mem p hdr" "slab_words sl mem p hdr' = slab_words sl mem p hdr"
    if "header_payload hdr' = header_payload hdr" for sl mem p hdr hdr'
    using that by (simp_all add: header_payload_def slab_avail_def slab_words_def)
  have st: "slab_stack_ok I (sy_layout s) (sy_words s) p hdr'" if p: "h' p = Some hdr'" for p hdr'
  proof -
    obtain hdr where hdr: "h p = Some hdr" "header_payload hdr' = header_payload hdr"
      using eq [of p] p by (cases "h p") auto
    then have "slab_stack_ok I (sy_layout s) (sy_words s) p hdr"
      using inv by (simp add: sys_inv_def)
    then show ?thesis
      using one [OF hdr(2)] hdr(2) by (simp add: slab_stack_ok_def header_payload_def)
  qed
  show "sys_inv I B own binv cinv l h' s"
    using inv st same_colors_placed [OF _ col] cinv_colors [OF col] same_colors_dom [OF col]
    by (simp add: sys_inv_def)
  show "sys_view I h' s = sys_view I h s"
  proof
    fix p
    show "sys_view I h' s p = sys_view I h s p"
    proof (cases "h p")
      case None
      then show ?thesis using eq [of p] by (simp add: sys_view_def)
    next
      case (Some hdr)
      then obtain hdr' where hdr': "h' p = Some hdr'" "header_payload hdr' = header_payload hdr"
        using eq [of p] by (cases "h' p") auto
      then have "sh_color hdr' = sh_color hdr" by (simp add: header_payload_def)
      then show ?thesis
        using one(1) [OF hdr'(2), of "sy_layout s" "sy_words s" p] Some hdr'(1) by (simp add: sys_view_def)
    qed
  qed
qed

lemma avail_push:
  assumes inv: "sys_inv I B own binv cinv l h s" and p: "h p = Some hdr"
    and x: "x \<in> slab_objs (sy_layout s) p (sh_color hdr)" "x \<notin> fst ` set (slab_avail I (sy_layout s) (sy_words s) p hdr)"
    and w: "slab_words (sy_layout s) mem' p hdr' = slab_words (sy_layout s) (sy_words s) p hdr @ [is_pack I x st]"
      "sh_color hdr' = sh_color hdr"
  shows "slab_avail I (sy_layout s) mem' p hdr' = slab_avail I (sy_layout s) (sy_words s) p hdr @ [(x, st)]"
    "slab_stack_ok I (sy_layout s) mem' p hdr'"
proof -
  show av: "slab_avail I (sy_layout s) mem' p hdr' = slab_avail I (sy_layout s) (sy_words s) p hdr @ [(x, st)]"
    using w(1) inv_obj_aligned [OF inv p x(1)] by (simp add: slab_avail_def unpack_ptr_pack unpack_status_pack)
  have "slab_stack_ok I (sy_layout s) (sy_words s) p hdr"
    using inv p by (simp add: sys_inv_def)
  then show "slab_stack_ok I (sy_layout s) mem' p hdr'"
    using x w unfolding slab_stack_ok_def av by (simp add: Let_def)
qed

text \<open>Changing the stack of one slab: the rest of the invariant follows.\<close>

lemma sys_inv_step:
  assumes inv: "sys_inv I B own binv cinv l h s" and p: "h p = Some hdr" "sh_color hdr' = sh_color hdr"
    and fr: "words_frame (sy_layout s) h p (sy_words s) mem'"
    and ok: "slab_stack_ok I (sy_layout s) mem' p hdr'"
  shows "sys_inv I B own binv cinv l (h(p \<mapsto> hdr')) (s\<lparr> sy_words := mem' \<rparr>)"
    "sys_view I (h(p \<mapsto> hdr')) (s\<lparr> sy_words := mem' \<rparr>) =
      (sys_view I h s)(p \<mapsto> (slab_objs (sy_layout s) p (sh_color hdr), slab_avail I (sy_layout s) mem' p hdr'))"
proof -
  let ?sl = "sy_layout s" and ?bl = "oa_layout B (sy_alloc s)"
  have pl: "slabs_placed ?sl ?bl h" and st: "\<And>q hq. h q = Some hq \<Longrightarrow> slab_stack_ok I ?sl (sy_words s) q hq"
    using inv by (auto simp: sys_inv_def)
  have col: "same_colors h (h(p \<mapsto> hdr'))" using p by simp
  have words: "slab_words ?sl mem' q hq = slab_words ?sl (sy_words s) q hq" if "h q = Some hq" "q \<noteq> p" for q hq
    using fr that slab_stack_ok_size [OF pl that(1) st [OF that(1)]] by (simp add: words_frame_def)
  then have avail: "slab_avail I ?sl mem' q hq = slab_avail I ?sl (sy_words s) q hq" if "h q = Some hq" "q \<noteq> p" for q hq
    using that by (simp add: slab_avail_def)
  have "slab_stack_ok I ?sl mem' q hq" if "(h(p \<mapsto> hdr')) q = Some hq" for q hq
    using that ok st [of q hq] words [of q hq] avail [of q hq]
    by (cases "q = p") (simp_all add: slab_stack_ok_def)
  then show "sys_inv I B own binv cinv l (h(p \<mapsto> hdr')) (s\<lparr> sy_words := mem' \<rparr>)"
    using inv same_colors_placed [OF pl col] cinv_colors [OF col] same_colors_dom [OF col]
    unfolding sys_inv_def by simp
  show "sys_view I (h(p \<mapsto> hdr')) (s\<lparr> sy_words := mem' \<rparr>) =
      (sys_view I h s)(p \<mapsto> (slab_objs (sy_layout s) p (sh_color hdr), slab_avail I (sy_layout s) mem' p hdr'))"
    using p avail by (auto simp: sys_view_def fun_eq_iff split: option.splits)
qed

lemma header_links:
  "h p = Some hdr \<Longrightarrow> sh_next hdr' = sh_next hdr \<Longrightarrow> sh_prev hdr' = sh_prev hdr
    \<Longrightarrow> same_links slab_header_linkable h (h(p \<mapsto> hdr'))"
  by (simp add: same_links_def slab_header_linkable_def)

lemma sys_alloc_ok:
  assumes inv: "sys_inv I B own binv cinv l h s" and p: "sys_view I h s p = Some (os, av @ [(x, st)])"
  shows "\<exists>h'. sys_alloc I h s p = Some (h', x, st) \<and> sys_inv I B own binv cinv l h' s
    \<and> same_links slab_header_linkable h h' \<and> sys_view I h' s = (sys_view I h s)(p \<mapsto> (os, av))"
proof -
  let ?sl = "sy_layout s" and ?mem = "sy_words s"
  obtain hdr where hdr: "h p = Some hdr" "os = slab_objs ?sl p (sh_color hdr)"
    "slab_avail I ?sl ?mem p hdr = av @ [(x, st)]"
    using p by (auto simp: sys_view_def split: option.splits)
  then have ok: "slab_stack_ok I ?sl ?mem p hdr" using inv by (simp add: sys_inv_def)
  obtain ws w where w: "slab_words ?sl ?mem p hdr = ws @ [w]" "is_unpack_ptr I w = x" "is_unpack_status I w = st"
    "av = map (\<lambda>w. (is_unpack_ptr I w, is_unpack_status I w)) ws"
    using hdr(3) by (cases "slab_words ?sl ?mem p hdr" rule: rev_cases) (auto simp: slab_avail_def)
  obtain hdr' where pop: "slab_pop ?sl p (h, ?mem) = Some (h(p \<mapsto> hdr'), w)"
    "hdr' = hdr\<lparr> sh_stack := \<lparr> stk_size = length ws \<rparr> \<rparr>" "slab_words ?sl ?mem p hdr' = ws"
    using slab_pop_ok [of h p, OF hdr(1) w(1)] by blast
  have av: "slab_avail I ?sl ?mem p hdr' = av"
    using pop(3) w(4) by (simp add: slab_avail_def)
  have "slab_stack_ok I ?sl ?mem p hdr'"
    using ok hdr(3) pop(2,3) w(1) unfolding slab_stack_ok_def av by (auto simp: Let_def)
  from sys_inv_step [of h s p, OF inv hdr(1) _ _ this] show ?thesis
    using pop(1,2) w(2,3) av hdr(2) header_links [of h p hdr hdr', OF hdr(1)]
    by (intro exI [of _ "h(p \<mapsto> hdr')"]) (simp add: sys_alloc_def)
qed

lemma sys_dealloc_ok:
  assumes inv: "sys_inv I B own binv cinv l h s" and p: "sys_view I h s p = Some (os, av)"
    and x: "x \<in> os" "x \<notin> fst ` set av"
  shows "\<exists>h' s'. sys_dealloc I B C h s x st = Some (h', s', p, av = [])
    \<and> sys_inv I B own binv cinv l h' s' \<and> sys_cap s' = sys_cap s \<and> same_links slab_header_linkable h h'
    \<and> sys_view I h' s' = (sys_view I h s)(p \<mapsto> (os, av @ [(x, st)]))"
proof -
  let ?sl = "sy_layout s" and ?mem = "sy_words s" and ?bl = "oa_layout B (sy_alloc s)"
  obtain hdr where hdr: "h p = Some hdr" "os = slab_objs ?sl p (sh_color hdr)" "av = slab_avail I ?sl ?mem p hdr"
    using p by (auto simp: sys_view_def split: option.splits)
  have pl: "slabs_placed ?sl ?bl h" and ci: "cinv (sy_data s) ?sl ?bl h"
    using inv by (auto simp: sys_inv_def)
  have len: "stk_size (sh_stack hdr) < sl_num_obj ?sl"
    using view_ok_lt [OF sys_view_ok [OF inv] p x] hdr(3) by (simp add: sys_cap_def)
  obtain i where "i < sl_num_obj ?sl" "x = nth_obj ?sl p (sh_color hdr) i"
    using x(1) hdr(2) by (auto simp: slab_objs_def)
  then have slab: "cd_ptr_to_slab C (sy_data s) (lay_size ?bl) x = Some p"
    using ptr_to_slab [OF pl hdr(1) ci] by simp
  obtain hdr' mem' where push: "slab_push ?sl p (is_pack I x st) (h, ?mem) = Some (h(p \<mapsto> hdr'), mem')"
    "hdr' = hdr\<lparr> sh_stack := \<lparr> stk_size = Suc (stk_size (sh_stack hdr)) \<rparr> \<rparr>"
    "slab_words ?sl mem' p hdr' = slab_words ?sl ?mem p hdr @ [is_pack I x st]" "words_frame ?sl h p ?mem mem'"
    using slab_push_ok [OF pl hdr(1) len] by blast
  have av': "slab_avail I ?sl mem' p hdr' = av @ [(x, st)]" "slab_stack_ok I ?sl mem' p hdr'"
    using avail_push [of h s p hdr x mem' hdr' st] inv hdr x push by auto
  have "sys_is_empty h s p = Some (av = [])"
    using hdr(1,3) by (simp add: sys_is_empty_def slab_avail_def slab_words_def stack_elems_def)
  then have "sys_dealloc I B C h s x st = Some (h(p \<mapsto> hdr'), s\<lparr> sy_words := mem' \<rparr>, p, av = [])"
    using slab push(1) by (simp add: sys_dealloc_def)
  then show ?thesis
    using sys_inv_step [of h s p hdr hdr' mem'] inv hdr push(2,4) av' header_links [of h p hdr hdr']
    by (intro exI [of _ "h(p \<mapsto> hdr')"] exI [of _ "s\<lparr> sy_words := mem' \<rparr>"]) (simp add: sys_cap_def)
qed

text \<open>The state after \<open>alloc_slab\<close> has written the header of slab \<open>p\<close>.\<close>

lemma new_slab_placed:
  assumes pl: "slabs_placed sl bl h" and p: "fresh_block bl (dom h) p"
    and c: "c \<le> cs_max_color (sl_color_settings sl)" "lay_align (sl_layout sl) dvd c" "sh_color hdr = c"
  shows "slabs_placed sl bl (h(p \<mapsto> hdr))"
proof -
  have "region a (lay_size bl) \<inter> region b (lay_size bl) = {}"
    if "a \<in> insert p (dom h)" "b \<in> insert p (dom h)" "a \<noteq> b" for a b
    using pl p that unfolding slabs_placed_def fresh_block_def by (metis Int_commute insertE)
  moreover have "a \<noteq> null \<and> fits a (lay_size bl) \<and> lay_align bl dvd unat a" if "a \<in> insert p (dom h)" for a
    using pl p that unfolding slabs_placed_def fresh_block_def by (metis insertE)
  ultimately show ?thesis
    using pl c by (simp add: slabs_placed_def)
qed

lemma settings_placed:
  assumes "slabs_placed sl bl h" "color_wf (lay_align (sl_layout sl)) cs"
    "cs_max_color cs = cs_max_color (sl_color_settings sl)"
  shows "slabs_placed (sl\<lparr> sl_color_settings := cs \<rparr>) bl h"
  using assms by (simp add: slabs_placed_def slab_layout_ok_def for_slab_size_asserts_def)

lemma settings_same [simp]:
  "nth_obj (sl\<lparr> sl_color_settings := cs \<rparr>) = nth_obj sl"
  "slab_objs (sl\<lparr> sl_color_settings := cs \<rparr>) = slab_objs sl"
  "slab_words (sl\<lparr> sl_color_settings := cs \<rparr>) = slab_words sl"
  "slab_avail I (sl\<lparr> sl_color_settings := cs \<rparr>) = slab_avail I sl"
  "slab_stack_ok I (sl\<lparr> sl_color_settings := cs \<rparr>) = slab_stack_ok I sl"
  by (simp_all add: fun_eq_iff nth_obj_def array_begin_def slab_objs_def slab_words_def stack_begin_def
      slab_avail_def slab_stack_ok_def)

text \<open>\<open>next_color\<close> changes nothing the invariant depends on.\<close>

lemma sys_inv_settings:
  assumes inv: "sys_inv I B own binv cinv l h s" and cs: "color_wf (lay_align (sl_layout (sy_layout s))) cs"
    "cs_max_color cs = cs_max_color (sl_color_settings (sy_layout s))"
  shows "sys_inv I B own binv cinv l h (s\<lparr> sy_layout := (sy_layout s)\<lparr> sl_color_settings := cs \<rparr> \<rparr>)"
    "sys_view I h (s\<lparr> sy_layout := (sy_layout s)\<lparr> sl_color_settings := cs \<rparr> \<rparr>) = sys_view I h s"
  using inv settings_placed [OF _ cs] cinv_settings
  by (simp_all add: sys_inv_def sys_view_def fun_eq_iff split: option.split)

text \<open>A slab all of whose objects are on its stack.\<close>

lemma full_stack:
  assumes pl: "slabs_placed sl bl h" and p: "h p = Some hdr" and min: "is_min_align I dvd lay_align (sl_layout sl)"
    and w: "slab_words sl mem p hdr
      = map (\<lambda>i. is_pack I (nth_obj sl p (sh_color hdr) i) (is_status_uninitialized I)) [0..<sl_num_obj sl]"
  shows "slab_avail I sl mem p hdr
      = map (\<lambda>i. (nth_obj sl p (sh_color hdr) i, is_status_uninitialized I)) [0..<sl_num_obj sl]"
    "slab_stack_ok I sl mem p hdr"
proof -
  have "is_min_align I dvd unat (nth_obj sl p (sh_color hdr) i)" if "i < sl_num_obj sl" for i
    using slab_objs_aligned [of sl bl h p, OF pl p] min that by (auto simp: slab_objs_def intro: dvd_trans)
  then show av: "slab_avail I sl mem p hdr
      = map (\<lambda>i. (nth_obj sl p (sh_color hdr) i, is_status_uninitialized I)) [0..<sl_num_obj sl]"
    unfolding slab_avail_def w by (simp add: unpack_ptr_pack unpack_status_pack)
  have "distinct (map (nth_obj sl p (sh_color hdr)) [0..<sl_num_obj sl])"
    using nth_obj_inj [OF slabs_placedD(1,3,5) [of sl bl h p, OF pl p]]
    by (simp add: distinct_map atLeast0LessThan)
  then show "slab_stack_ok I sl mem p hdr"
    unfolding slab_stack_ok_def av w by (auto simp: Let_def comp_def slab_objs_def)
qed

text \<open>Adding a full slab to a system.\<close>

lemma sys_inv_new:
  assumes inv: "sys_inv I B own binv cinv l h s" and p: "p \<notin> dom h"
    and pl: "slabs_placed (sy_layout s) (oa_layout B (sy_alloc s)) (h(p \<mapsto> hdr))"
    and w: "slab_words (sy_layout s) mem' p hdr
      = map (\<lambda>i. is_pack I (nth_obj (sy_layout s) p (sh_color hdr) i) (is_status_uninitialized I))
          [0..<sl_num_obj (sy_layout s)]"
    and fr: "words_frame (sy_layout s) h p (sy_words s) mem'"
    and b: "binv b" "own b = insert p (own (sy_alloc s))" "oa_layout B b = oa_layout B (sy_alloc s)"
    and d: "cinv d (sy_layout s) (oa_layout B (sy_alloc s)) (h(p \<mapsto> hdr))"
  defines "s' \<equiv> s\<lparr> sy_alloc := b, sy_words := mem', sy_data := d \<rparr>"
  shows "sys_inv I B own binv cinv l (h(p \<mapsto> hdr)) s'"
    "sys_view I (h(p \<mapsto> hdr)) s' = (sys_view I h s)(p \<mapsto>
       (slab_objs (sy_layout s) p (sh_color hdr),
        map (\<lambda>i. (nth_obj (sy_layout s) p (sh_color hdr) i, is_status_uninitialized I)) [0..<sl_num_obj (sy_layout s)]))"
proof -
  let ?sl = "sy_layout s"
  have inv': "slabs_placed ?sl (oa_layout B (sy_alloc s)) h" "own (sy_alloc s) = dom h"
      "is_min_align I dvd lay_align (sl_layout ?sl)" "l = sl_layout ?sl"
    and st: "\<And>q hq. h q = Some hq \<Longrightarrow> slab_stack_ok I ?sl (sy_words s) q hq"
    using inv by (auto simp: sys_inv_def)
  have words: "slab_words ?sl mem' q hq = slab_words ?sl (sy_words s) q hq" if "h q = Some hq" for q hq
    using fr that p slab_stack_ok_size [of ?sl _ h q, OF inv'(1) that st [OF that]] by (auto simp: words_frame_def)
  then have avail: "slab_avail I ?sl mem' q hq = slab_avail I ?sl (sy_words s) q hq" if "h q = Some hq" for q hq
    using that by (simp add: slab_avail_def)
  have p': "(h(p \<mapsto> hdr)) p = Some hdr" by simp
  note full = full_stack [of _ _ "h(p \<mapsto> hdr)" p, OF pl p' inv'(3) w]
  have "slab_stack_ok I ?sl mem' q hq" if "(h(p \<mapsto> hdr)) q = Some hq" for q hq
    using that full(2) st [of q hq] words [of q hq] avail [of q hq]
    by (cases "q = p") (simp_all add: slab_stack_ok_def)
  then show "sys_inv I B own binv cinv l (h(p \<mapsto> hdr)) s'"
    using pl inv' b d unfolding sys_inv_def s'_def by simp
  show "sys_view I (h(p \<mapsto> hdr)) s' = (sys_view I h s)(p \<mapsto>
       (slab_objs ?sl p (sh_color hdr),
        map (\<lambda>i. (nth_obj ?sl p (sh_color hdr) i, is_status_uninitialized I)) [0..<sl_num_obj ?sl]))"
    using avail full(1) p by (auto simp: sys_view_def s'_def fun_eq_iff split: option.splits)
qed

lemma slabs_placed_remove: "slabs_placed sl bl h \<Longrightarrow> slabs_placed sl bl (h(p := None))"
  by (auto simp: slabs_placed_def)

lemma sys_dealloc_slab_ok:
  assumes inv: "sys_inv I B own binv cinv l h s" and p: "sys_view I h s p = Some (os, av)" "length av = sys_cap s"
  shows "\<exists>s'. sys_dealloc_slab I B C h s p =
            Some (h(p := None), s', concat (map (\<lambda>(x, st). is_drop I x st) (rev av)))
      \<and> sys_inv I B own binv cinv l (h(p := None)) s' \<and> sys_cap s' = sys_cap s
      \<and> sys_view I (h(p := None)) s' = (sys_view I h s)(p := None)"
proof -
  let ?sl = "sy_layout s" and ?bl = "oa_layout B (sy_alloc s)"
  obtain hdr where hdr: "h p = Some hdr" "av = slab_avail I ?sl (sy_words s) p hdr"
    using p(1) by (auto simp: sys_view_def split: option.splits)
  have pl: "slabs_placed ?sl ?bl h" and ci: "cinv (sy_data s) ?sl ?bl h" and own: "own (sy_alloc s) = dom h"
    and bi: "binv (sy_alloc s)"
    using inv by (auto simp: sys_inv_def)
  obtain d where d: "cd_pre_dealloc C (sy_data s) ?sl (lay_size ?bl) h p = Some d" "cinv d ?sl ?bl (h(p := None))"
    using pre_dealloc [OF pl _ ci, of p] hdr(1) by auto
  obtain hdr' where dr: "drop_objs I ?sl p (sl_num_obj ?sl) (sy_words s) h = Some (h(p \<mapsto> hdr'),
      concat (map (\<lambda>w. is_drop I (is_unpack_ptr I w) (is_unpack_status I w)) (rev (slab_words ?sl (sy_words s) p hdr))))"
    using drop_objs_ok [of h p hdr ?sl "sy_words s" _ "sl_num_obj ?sl" I, OF hdr(1) refl] p(2) hdr(2)
    by (auto simp: sys_cap_def)
  have b: "binv (oa_dealloc B (sy_alloc s) p)" "own (oa_dealloc B (sy_alloc s) p) = dom (h(p := None))"
      "oa_layout B (oa_dealloc B (sy_alloc s) p) = ?bl"
    using bdealloc [OF bi, of p] own hdr(1) by auto
  let ?s = "s\<lparr> sy_data := d, sy_alloc := oa_dealloc B (sy_alloc s) p \<rparr>"
  have "sys_dealloc_slab I B C h s p = Some (h(p := None), ?s, concat (map (\<lambda>(x, st). is_drop I x st) (rev av)))"
    using d(1) dr hdr p(2) by (simp add: sys_dealloc_slab_def slab_avail_def rev_map comp_def sys_cap_def)
  moreover have "sys_inv I B own binv cinv l (h(p := None)) ?s"
    using inv slabs_placed_remove [OF pl] b d(2) by (simp add: sys_inv_def)
  moreover have "sys_view I (h(p := None)) ?s = (sys_view I h s)(p := None)"
    by (simp add: fun_eq_iff sys_view_def split: option.split)
  ultimately show ?thesis
    by (intro exI [of _ ?s]) (simp add: sys_cap_def)
qed

lemma unlinked_header: "h p = Some hdr \<Longrightarrow> p \<noteq> null \<Longrightarrow> sh_next hdr = null \<Longrightarrow> sh_prev hdr = null
    \<Longrightarrow> unlinked slab_header_linkable h p"
  by (simp add: unlinked_def next_at_def prev_at_def slab_header_linkable_def)

text \<open>Writing the header, filling the stack and registering the slab.\<close>

lemma fill_slab_ok:
  assumes inv: "sys_inv I B own binv cinv l h s" and al: "oa_alloc B (sy_alloc s) = Some (a, Some p)"
    and c: "c \<le> cs_max_color (sl_color_settings (sy_layout s))" "lay_align (sl_layout (sy_layout s)) dvd c"
  defines "hd0 \<equiv> \<lparr> sh_stack = stack_new, sh_color = c, sh_next = null, sh_prev = null \<rparr>"
  shows "\<exists>h' mem d. push_objs I (sy_layout s) p c [0 ..< sl_num_obj (sy_layout s)] (h(p \<mapsto> hd0), sy_words s) = Some (h', mem)
      \<and> cd_post_alloc C (sy_data s) (sy_layout s) (lay_size (oa_layout B a)) h' p = Some d
      \<and> sys_inv I B own binv cinv l h' (s\<lparr> sy_alloc := a, sy_words := mem, sy_data := d \<rparr>)
      \<and> p \<noteq> null \<and> new_slab slab_header_linkable I (sys_cap s) h (sys_view I h s) h'
          (sys_view I h' (s\<lparr> sy_alloc := a, sy_words := mem, sy_data := d \<rparr>)) p"
proof -
  let ?sl = "sy_layout s" and ?bl = "oa_layout B (sy_alloc s)"
  have bi: "binv (sy_alloc s)" and own: "own (sy_alloc s) = dom h" and pl: "slabs_placed ?sl ?bl h"
    and ci: "cinv (sy_data s) ?sl ?bl h"
    using inv by (simp_all add: sys_inv_def)
  have a: "binv a" "own a = insert p (own (sy_alloc s))" "oa_layout B a = ?bl" and fresh: "fresh_block ?bl (dom h) p"
    using balloc_Some [OF bi al] own by auto
  have p: "p \<notin> dom h" "p \<noteq> null" using fresh by (auto simp: fresh_block_def)
  have pl0: "slabs_placed ?sl ?bl (h(p \<mapsto> hd0))"
    using new_slab_placed [OF pl fresh c, of hd0] by (simp add: hd0_def)
  have w0: "slab_words ?sl (sy_words s) p hd0 = []" "(h(p \<mapsto> hd0)) p = Some hd0"
    by (simp_all add: hd0_def slab_words_def stack_new_def stack_elems_def)
  obtain hdr mem where push: "push_objs I ?sl p c [0 ..< sl_num_obj ?sl] (h(p \<mapsto> hd0), sy_words s) = Some (h(p \<mapsto> hdr), mem)"
      "sh_color hdr = c" "sh_next hdr = null" "sh_prev hdr = null"
      "slab_words ?sl mem p hdr = map (\<lambda>i. is_pack I (nth_obj ?sl p c i) (is_status_uninitialized I)) [0 ..< sl_num_obj ?sl]"
      "words_frame ?sl h p (sy_words s) mem"
    using push_objs_ok [of ?sl ?bl "h(p \<mapsto> hd0)" p hd0 "[0 ..< sl_num_obj ?sl]" c I "sy_words s", OF pl0 w0(2)] w0(1) c(1)
    by (auto simp: hd0_def stack_new_def lessThan_atLeast0)
  have pl1: "slabs_placed ?sl ?bl (h(p \<mapsto> hdr))"
    using new_slab_placed [OF pl fresh c push(2)] .
  obtain d where d: "cd_post_alloc C (sy_data s) ?sl (lay_size ?bl) (h(p \<mapsto> hdr)) p = Some d" "cinv d ?sl ?bl (h(p \<mapsto> hdr))"
    using post_alloc [OF pl1, of p "sy_data s"] ci p(1) by (auto simp: fun_upd_idem domIff)
  have w: "slab_words ?sl mem p hdr = map (\<lambda>i. is_pack I (nth_obj ?sl p (sh_color hdr) i) (is_status_uninitialized I)) [0 ..< sl_num_obj ?sl]"
    using push(2,5) by simp
  note new = sys_inv_new [OF inv p(1) pl1 w push(6) a d(2)]
  have "new_slab slab_header_linkable I (sys_cap s) h (sys_view I h s) (h(p \<mapsto> hdr))
      (sys_view I (h(p \<mapsto> hdr)) (s\<lparr> sy_alloc := a, sy_words := mem, sy_data := d \<rparr>)) p"
    unfolding new(2) by (rule new_slabI) (use p push(3,4) unlinked_header [of "h(p \<mapsto> hdr)" p hdr] in
      \<open>auto simp: sys_cap_def\<close>)
  then show ?thesis
    using push(1) d(1) new(1) a(3) p(2) by (intro exI [of _ "h(p \<mapsto> hdr)"] exI [of _ mem] exI [of _ d]) simp
qed

lemma sys_alloc_slab_ok:
  assumes inv: "sys_inv I B own binv cinv l h s"
  shows "\<exists>h' s' p. sys_alloc_slab I B C h s = Some (h', s', p) \<and> sys_inv I B own binv cinv l h' s'
    \<and> sys_cap s' = sys_cap s
    \<and> new_slab slab_header_linkable I (sys_cap s) h (sys_view I h s) h' (sys_view I h' s') p"
proof -
  let ?al = "lay_align (sl_layout (sy_layout s))"
  have "color_wf ?al (sl_color_settings (sy_layout s))"
    using inv by (simp add: sys_inv_def slabs_placed_def slab_layout_ok_def)
  then obtain cs c where c: "next_color ?al (sl_color_settings (sy_layout s)) = Some (cs, c)" "color_wf ?al cs"
      "cs_max_color cs = cs_max_color (sl_color_settings (sy_layout s))" "?al dvd c"
      "c \<le> cs_max_color (sl_color_settings (sy_layout s))"
    using next_color_wf by blast
  define s1 where "s1 = s\<lparr> sy_layout := (sy_layout s)\<lparr> sl_color_settings := cs \<rparr> \<rparr>"
  have inv1: "sys_inv I B own binv cinv l h s1" and v1: "sys_view I h s1 = sys_view I h s" and cap1: "sys_cap s1 = sys_cap s"
    using sys_inv_settings [OF inv c(2,3)] by (simp_all add: s1_def sys_cap_def)
  have b1: "binv (sy_alloc s1)" using inv1 by (simp add: sys_inv_def)
  then obtain a r where al: "oa_alloc B (sy_alloc s1) = Some (a, r)"
    using balloc_total by fastforce
  show ?thesis
  proof (cases r)
    case None
    have "binv a" "own a = own (sy_alloc s1)" "oa_layout B a = oa_layout B (sy_alloc s1)"
      using balloc_None [OF b1, of a] al None by auto
    then have "sys_inv I B own binv cinv l h (s1\<lparr> sy_alloc := a \<rparr>)" "sys_view I h (s1\<lparr> sy_alloc := a \<rparr>) = sys_view I h s1"
      using inv1 by (simp_all add: sys_inv_def sys_view_def fun_eq_iff split: option.split)
    moreover have "sys_alloc_slab I B C h s = Some (h, s1\<lparr> sy_alloc := a \<rparr>, null)"
      using c(1) al None by (simp add: sys_alloc_slab_def s1_def Let_def)
    ultimately show ?thesis
      using v1 cap1 by (intro exI [of _ h] exI [of _ "s1\<lparr> sy_alloc := a \<rparr>"] exI [of _ null])
        (simp add: new_slab_def sys_cap_def)
  next
    case (Some p)
    obtain h' mem d where f: "push_objs I (sy_layout s1) p c [0 ..< sl_num_obj (sy_layout s1)]
          (h(p \<mapsto> \<lparr> sh_stack = stack_new, sh_color = c, sh_next = null, sh_prev = null \<rparr>), sy_words s1) = Some (h', mem)"
        "cd_post_alloc C (sy_data s1) (sy_layout s1) (lay_size (oa_layout B a)) h' p = Some d"
        "sys_inv I B own binv cinv l h' (s1\<lparr> sy_alloc := a, sy_words := mem, sy_data := d \<rparr>)"
        "new_slab slab_header_linkable I (sys_cap s1) h (sys_view I h s1) h'
          (sys_view I h' (s1\<lparr> sy_alloc := a, sy_words := mem, sy_data := d \<rparr>)) p"
      using fill_slab_ok [OF inv1, of a p c] al Some c(3-5) by (auto simp: s1_def)
    have "sys_alloc_slab I B C h s = Some (h', s1\<lparr> sy_alloc := a, sy_words := mem, sy_data := d \<rparr>, p)"
      using c(1) al Some f(1,2) by (simp add: sys_alloc_slab_def s1_def Let_def del: fun_upd_apply)
    then show ?thesis
      using f(3,4) v1 cap1
      by (intro exI [of _ h'] exI [of _ "s1\<lparr> sy_alloc := a, sy_words := mem, sy_data := d \<rparr>"] exI [of _ p])
        (simp add: sys_cap_def)
  qed
qed

text \<open>The live objects are blocks of the object layout that do not overlap.\<close>

lemma sys_live_blocks:
  assumes inv: "sys_inv I B own binv cinv l h s"
  shows "blocks_ok l (live_objs (sys_view I h s))"
proof -
  let ?sl = "sy_layout s" and ?bl = "oa_layout B (sy_alloc s)"
  have pl: "slabs_placed ?sl ?bl h" and l: "l = sl_layout ?sl"
    using inv by (simp_all add: sys_inv_def)
  have obj: "\<exists>p hdr. h p = Some hdr \<and> x \<in> slab_objs ?sl p (sh_color hdr)" if "x \<in> live_objs (sys_view I h s)" for x
    using that by (rule live_mem) (auto simp: sys_view_def split: option.splits)
  show ?thesis
    unfolding l
  proof (rule blocks_okI)
    fix x assume "x \<in> live_objs (sys_view I h s)"
    then obtain p hdr where p: "h p = Some hdr" "x \<in> slab_objs ?sl p (sh_color hdr)" using obj by blast
    note D = slabs_placedD [of ?sl ?bl h p, OF pl p(1)]
    show "x \<noteq> null \<and> fits x (lay_size (sl_layout ?sl)) \<and> lay_align (sl_layout ?sl) dvd unat x"
      using slab_objs_region [OF D(1,3,5) p(2)] slab_objs_aligned [of ?sl ?bl h p, OF pl p] D(2,3)
      by (auto simp: region_def fits_def unat_eq_zero)
  next
    fix x y assume xy: "x \<in> live_objs (sys_view I h s)" "y \<in> live_objs (sys_view I h s)" "x \<noteq> y"
    obtain p hdr q hq where p: "h p = Some hdr" "x \<in> slab_objs ?sl p (sh_color hdr)"
      and q: "h q = Some hq" "y \<in> slab_objs ?sl q (sh_color hq)"
      using obj xy(1,2) by blast
    note P = slabs_placedD [of ?sl ?bl h p, OF pl p(1)] and Q = slabs_placedD [of ?sl ?bl h q, OF pl q(1)]
    show "region x (lay_size (sl_layout ?sl)) \<inter> region y (lay_size (sl_layout ?sl)) = {}"
    proof (cases "p = q")
      case True
      then show ?thesis
        using slab_objs_apart [OF P(1,3,5) p(2)] q p(1) xy(3) by simp
    next
      case False
      then have "region p (lay_size ?bl) \<inter> region q (lay_size ?bl) = {}"
        using pl p(1) q(1) by (auto simp: slabs_placed_def)
      then show ?thesis
        using slab_objs_region [OF P(1,3,5) p(2)] slab_objs_region [OF Q(1,3,5) q(2)]
        by (auto simp: region_def)
    qed
  qed
qed

end

text \<open>The headers of slabs are linkable, and \<open>System\<close> obeys the laws of \<open>SlabSystem\<close>.\<close>

interpretation slab_headers: linkable_laws slab_header_linkable header_payload
  by unfold_locales (simp_all add: slab_header_linkable_def header_payload_def)

sublocale stack_system \<subseteq> slab_system slab_header_linkable header_payload "sys_ops I B C" I
    "sys_inv I B own binv cinv l" "sys_view I" sys_cap "lay_align l"
proof (unfold_locales, goal_cases)
  case (1 h s)
  then show ?case by (auto simp: sys_view_def split: option.splits)
next
  case (2 h s)
  then show ?case by (rule sys_view_ok)
next
  case (3 h s X h')
  then show ?case by (blast intro: sys_relink)
next
  case (4 h s)
  then show ?case unfolding sys_ops_def slab_ops.simps by (rule sys_alloc_slab_ok)
next
  case (5 h s p os av)
  then show ?case unfolding sys_ops_def slab_ops.simps by (rule sys_dealloc_slab_ok)
next
  case (6 h s p os av)
  then show ?case
    by (auto simp: sys_ops_def sys_is_full_def sys_view_def sys_cap_def split: option.splits)
next
  case (7 h s p os av)
  then show ?case
    by (auto simp: sys_ops_def sys_is_empty_def sys_view_def slab_avail_def slab_words_def stack_elems_def
        split: option.splits)
next
  case (8 h s p os av x st)
  then show ?case unfolding sys_ops_def slab_ops.simps by (rule sys_alloc_ok)
next
  case (9 h s p os av x st)
  then show ?case unfolding sys_ops_def slab_ops.simps by (rule sys_dealloc_ok)
qed

end
