(* ===== verification/Ptr_Map.thy ===== *)
theory Ptr_Map
  imports Prelude "HOL-Library.Multiset"
begin

text \<open>
  The pointer hash table of \<open>slab-alloc/src/ptr_map.rs\<close> and the wrapper
  \<open>util::ptrmap::Map\<close>.  A bucket is an array of four slots and an optional overflow
  bucket; a raw pointer into a chain of buckets is the pair of a depth and a slot index.
  A read outside the vector, an \<open>unwrap\<close> of \<open>None\<close> and a lookup of a missing key are
  \<open>None\<close>.  The locale \<open>ptr_map\<close> states what \<open>large.rs\<close> relies on; both
  implementations selected by the \<open>use-stdlib-hashmap\<close> feature are interpreted in it.
\<close>

subsection \<open>Buckets\<close>

type_synonym slot = "ptr \<times> ptr"

datatype bucket = Bucket (bk_data: "slot list") (bk_next: "bucket option")

abbreviation empty_slot :: slot where
  "empty_slot \<equiv> (null, null)"

definition bucket_size :: nat where
  "bucket_size = 4"

definition new_buckets :: "slot list" where
  "new_buckets = replicate bucket_size empty_slot"

definition bucket_default :: bucket where
  "bucket_default = Bucket new_buckets None"

text \<open>\<open>Clone\<close> drops the overflow chain.\<close>

definition bucket_clone :: "bucket \<Rightarrow> bucket" where
  "bucket_clone b = Bucket (bk_data b) None"

fun bucket_dump :: "bucket \<Rightarrow> slot list" where
  "bucket_dump (Bucket d nx) =
     filter (\<lambda>s. fst s \<noteq> null) d @ (case nx of None \<Rightarrow> [] | Some b \<Rightarrow> bucket_dump b)"

text \<open>The first index of a slot with key \<open>k\<close>: the \<open>for\<close> loops of \<open>get\<close>, \<open>delete\<close>
  and, for the null key, of \<open>insert\<close>.\<close>

fun slot_index :: "ptr \<Rightarrow> slot list \<Rightarrow> nat option" where
  "slot_index k [] = None"
| "slot_index k (s # ss) = (if fst s = k then Some 0 else map_option Suc (slot_index k ss))"

fun bucket_get :: "bucket \<Rightarrow> ptr \<Rightarrow> ptr option" where
  "bucket_get (Bucket d nx) k =
     (case slot_index k d of
        Some i \<Rightarrow> Some (snd (d ! i))
      | None \<Rightarrow> (case nx of None \<Rightarrow> None | Some b \<Rightarrow> bucket_get b k))"

text \<open>\<open>remove_last\<close> scans the indices \<open>BUCKET_SIZE..idx\<close>, as the source has them.\<close>

definition last_used :: "slot list \<Rightarrow> nat list \<Rightarrow> nat option" where
  "last_used d is = fold (\<lambda>i acc. if fst (d ! i) \<noteq> null then Some i else acc) is None"

fun remove_last :: "bucket \<Rightarrow> nat \<Rightarrow> bucket \<times> slot \<times> bool" where
  "remove_last (Bucket d nx) idx =
     (case last_used d [bucket_size ..< idx] of
        Some li \<Rightarrow>
          (case nx of
             Some b \<Rightarrow>
               (let (b', kv, remove) = remove_last b 0
                in (Bucket d (if remove then None else Some b'), kv, False))
           | None \<Rightarrow> (Bucket (d[li := empty_slot]) None, d ! li, li = 0))
      | None \<Rightarrow> (Bucket d nx, empty_slot, False))"

fun bucket_delete :: "bucket \<Rightarrow> ptr \<Rightarrow> bucket option" where
  "bucket_delete (Bucket d nx) k =
     (case slot_index k d of
        Some i \<Rightarrow>
          (let (b', new, _) = remove_last (Bucket d nx) (i + 1)
           in Some (Bucket ((bk_data b')[i := new]) (bk_next b')))
      | None \<Rightarrow>
          (case nx of
             None \<Rightarrow> None
           | Some b \<Rightarrow> map_option (\<lambda>b'. Bucket d (Some b')) (bucket_delete b k)))"

fun bucket_insert :: "bucket \<Rightarrow> ptr \<Rightarrow> ptr \<Rightarrow> bucket" where
  "bucket_insert (Bucket d nx) k v =
     (case slot_index null d of
        Some i \<Rightarrow> Bucket (d[i := (k, v)]) nx
      | None \<Rightarrow>
          (case nx of
             Some b \<Rightarrow> Bucket d (Some (bucket_insert b k v))
           | None \<Rightarrow> Bucket d (Some (Bucket (new_buckets[0 := (k, v)]) None))))"

text \<open>Raw pointers into a chain: \<open>chain_at b n\<close> is the bucket at depth \<open>n\<close>, and
  \<open>chain_write\<close> stores into one of its slots.\<close>

fun chain_at :: "bucket \<Rightarrow> nat \<Rightarrow> bucket option" where
  "chain_at b 0 = Some b"
| "chain_at b (Suc n) = (case bk_next b of None \<Rightarrow> None | Some b' \<Rightarrow> chain_at b' n)"

definition chain_read :: "bucket \<Rightarrow> nat \<Rightarrow> nat \<Rightarrow> slot option" where
  "chain_read b n j = map_option (\<lambda>c. bk_data c ! j) (chain_at b n)"

fun chain_write :: "bucket \<Rightarrow> nat \<Rightarrow> nat \<Rightarrow> slot \<Rightarrow> bucket option" where
  "chain_write (Bucket d nx) 0 j s = Some (Bucket (d[j := s]) nx)"
| "chain_write (Bucket d nx) (Suc n) j s =
     (case nx of None \<Rightarrow> None
      | Some b \<Rightarrow> map_option (\<lambda>b'. Bucket d (Some b')) (chain_write b n j s))"

subsection \<open>The table\<close>

record ptr_hash_map =
  pm_vec :: "bucket list"
  pm_size :: nat
  pm_align_shift :: nat

definition ptr_hash_map_new :: "nat \<Rightarrow> nat \<Rightarrow> ptr_hash_map option" where
  "ptr_hash_map_new sz al =
     (if al \<ge> 1
      then Some \<lparr> pm_vec = replicate (next_power_of_two sz) bucket_default, pm_size = 0,
                  pm_align_shift = trailing_zeros al \<rparr>
      else None)"

definition dump_by_bucket :: "ptr_hash_map \<Rightarrow> slot list list" where
  "dump_by_bucket m = map bucket_dump (pm_vec m)"

definition hash_with_len :: "ptr_hash_map \<Rightarrow> ptr \<Rightarrow> nat \<Rightarrow> nat" where
  "hash_with_len m k len = unat (drop_bit (pm_align_shift m) k AND (of_nat len - 1))"

definition pm_hash :: "ptr_hash_map \<Rightarrow> ptr \<Rightarrow> nat" where
  "pm_hash m k = hash_with_len m k (length (pm_vec m))"

definition get_bucket :: "ptr_hash_map \<Rightarrow> ptr \<Rightarrow> bucket option" where
  "get_bucket m k =
     (if pm_hash m k < length (pm_vec m) then Some (pm_vec m ! pm_hash m k) else None)"

definition pm_get :: "ptr_hash_map \<Rightarrow> ptr \<Rightarrow> ptr option" where
  "pm_get m k = do { b \<leftarrow> get_bucket m k; bucket_get b k }"

text \<open>\<open>grow\<close>: the state of the scan of one chain is the vector and the first free slot.
  The search for the next free slot ends because a chain is finite.\<close>

fun chain_depth :: "bucket \<Rightarrow> nat" where
  "chain_depth (Bucket d nx) = (case nx of None \<Rightarrow> 1 | Some b \<Rightarrow> Suc (chain_depth b))"

lemma chain_at_depth: "chain_at b n \<noteq> None \<longleftrightarrow> n < chain_depth b"
proof (induction b n rule: chain_at.induct)
  case (1 b)
  then show ?case by (cases b) (auto split: option.splits)
next
  case (2 b n)
  then show ?case by (cases b) (auto split: option.splits)
qed

function next_free :: "bucket \<Rightarrow> nat \<Rightarrow> nat \<Rightarrow> (nat \<times> nat) option" where
  "next_free b n j =
     (if \<not> n < chain_depth b \<or> \<not> j < bucket_size then None else
      case chain_read b n j of
        None \<Rightarrow> None
      | Some s \<Rightarrow>
          if fst s = null then Some (n, j)
          else if j = bucket_size - 1 then next_free b (n + 1) 0
          else next_free b n (j + 1))"
  by pat_completeness auto

termination
  by (relation "measures [\<lambda>(b, n, j). chain_depth b - n, \<lambda>(b, n, j). bucket_size - j]") auto

declare next_free.simps [simp del]

type_synonym grow_state = "bucket list \<times> (nat \<times> nat) option"

definition update_first_free :: "nat \<Rightarrow> nat \<Rightarrow> (nat \<times> nat) option \<Rightarrow> (nat \<times> nat) option" where
  "update_first_free n j ff = (case ff of None \<Rightarrow> Some (n, j) | Some p \<Rightarrow> Some p)"

definition grow_slot :: "nat \<Rightarrow> nat \<Rightarrow> nat \<Rightarrow> nat \<Rightarrow> nat \<Rightarrow> grow_state \<Rightarrow> grow_state option" where
  "grow_slot shift old_len i n j st =
     (let (vec, ff) = st in do {
        (k, v) \<leftarrow> chain_read (vec ! i) n j;
        if k = null then Some (vec, update_first_free n j ff)
        else if drop_bit shift k AND of_nat old_len \<noteq> 0
        then do {
          b \<leftarrow> chain_write (vec ! i) n j empty_slot;
          let vec1 = vec[i := b];
          let new_idx = i + old_len;
          Some (vec1[new_idx := bucket_insert (vec1 ! new_idx) k v], update_first_free n j ff) }
        else (case ff of
            None \<Rightarrow> Some (vec, ff)
          | Some (fn, fj) \<Rightarrow> do {
              b1 \<leftarrow> chain_write (vec ! i) n j empty_slot;
              b2 \<leftarrow> chain_write b1 fn fj (k, v);
              ff' \<leftarrow> next_free b2 fn fj;
              Some (vec[i := b2], Some ff') }) })"

fun grow_slots :: "nat \<Rightarrow> nat \<Rightarrow> nat \<Rightarrow> nat \<Rightarrow> nat list \<Rightarrow> grow_state \<Rightarrow> grow_state option" where
  "grow_slots shift old_len i n [] st = Some st"
| "grow_slots shift old_len i n (j # js) st =
     do { st' \<leftarrow> grow_slot shift old_len i n j st; grow_slots shift old_len i n js st' }"

partial_function (option) grow_chain ::
  "nat \<Rightarrow> nat \<Rightarrow> nat \<Rightarrow> nat \<Rightarrow> grow_state \<Rightarrow> grow_state option" where
  [code]: "grow_chain shift old_len i n st =
     (case chain_at (fst st ! i) n of
        None \<Rightarrow> Some st
      | Some _ \<Rightarrow> do {
          st' \<leftarrow> grow_slots shift old_len i n [0 ..< bucket_size] st;
          grow_chain shift old_len i (n + 1) st' })"

fun grow_all :: "nat \<Rightarrow> nat \<Rightarrow> nat list \<Rightarrow> bucket list \<Rightarrow> bucket list option" where
  "grow_all shift old_len [] vec = Some vec"
| "grow_all shift old_len (i # is) vec =
     do { st \<leftarrow> grow_chain shift old_len i 0 (vec, None); grow_all shift old_len is (fst st) }"

definition pm_grow :: "ptr_hash_map \<Rightarrow> ptr_hash_map option" where
  "pm_grow m =
     (let old_len = length (pm_vec m);
          vec = pm_vec m @ replicate old_len (bucket_clone bucket_default) in
      map_option (\<lambda>vec'. m\<lparr> pm_vec := vec' \<rparr>)
        (grow_all (pm_align_shift m) old_len [0 ..< old_len] vec))"

text \<open>\<open>shrink\<close> re-inserts the entries of the upper half into the lower half.\<close>

fun shrink_slots :: "nat \<Rightarrow> slot list \<Rightarrow> bucket list \<Rightarrow> bucket list" where
  "shrink_slots new_idx [] vec = vec"
| "shrink_slots new_idx ((k, v) # ss) vec =
     shrink_slots new_idx ss
       (if k \<noteq> null then vec[new_idx := bucket_insert (vec ! new_idx) k v] else vec)"

fun shrink_chain :: "nat \<Rightarrow> bucket \<Rightarrow> bucket list \<Rightarrow> bucket list" where
  "shrink_chain new_idx (Bucket d nx) vec =
     (let vec' = shrink_slots new_idx d vec in
      case nx of None \<Rightarrow> vec' | Some b \<Rightarrow> shrink_chain new_idx b vec')"

definition pm_shrink :: "ptr_hash_map \<Rightarrow> ptr_hash_map" where
  "pm_shrink m =
     (let old_len = length (pm_vec m); new_len = old_len div 2;
          vec = fold (\<lambda>i vec. shrink_chain (i - new_len) (vec ! i) vec) [new_len ..< old_len] (pm_vec m)
      in m\<lparr> pm_vec := take new_len vec \<rparr>)"

definition pm_insert :: "ptr_hash_map \<Rightarrow> ptr \<Rightarrow> ptr \<Rightarrow> ptr_hash_map option" where
  "pm_insert m k v = (if k = null then None else do {
     m1 \<leftarrow> (if pm_size m = length (pm_vec m) then pm_grow m else Some m);
     b \<leftarrow> get_bucket m1 k;
     Some (m1\<lparr> pm_vec := (pm_vec m1)[pm_hash m1 k := bucket_insert b k v],
               pm_size := pm_size m1 + 1 \<rparr>) })"

definition pm_delete :: "ptr_hash_map \<Rightarrow> ptr \<Rightarrow> ptr_hash_map option" where
  "pm_delete m k = (if k = null then None else do {
     let m1 = (if pm_size m = length (pm_vec m) div 2 then pm_shrink m else m);
     b \<leftarrow> get_bucket m1 k;
     b' \<leftarrow> bucket_delete b k;
     Some (m1\<lparr> pm_vec := (pm_vec m1)[pm_hash m1 k := b'], pm_size := pm_size m1 - 1 \<rparr>) })"

text \<open>The alternative of the \<open>use-stdlib-hashmap\<close> feature, over the map of the standard
  library.\<close>

type_synonym std_map = "ptr \<Rightarrow> ptr option"

definition std_get :: "std_map \<Rightarrow> ptr \<Rightarrow> ptr option" where
  "std_get m k = m k"

definition std_insert :: "std_map \<Rightarrow> ptr \<Rightarrow> ptr \<Rightarrow> std_map option" where
  "std_insert m k v = Some (m(k \<mapsto> v))"

definition std_delete :: "std_map \<Rightarrow> ptr \<Rightarrow> std_map option" where
  "std_delete m k = Some (m(k := None))"

subsection \<open>Buckets as multisets of entries\<close>

fun slots :: "bucket \<Rightarrow> slot list" where
  "slots (Bucket d nx) = d @ (case nx of None \<Rightarrow> [] | Some b \<Rightarrow> slots b)"

definition entries :: "bucket \<Rightarrow> slot list" where
  "entries b = filter (\<lambda>s. fst s \<noteq> null) (slots b)"

text \<open>Every array has four slots and an unused slot holds no value.\<close>

fun bucket_wf :: "bucket \<Rightarrow> bool" where
  "bucket_wf (Bucket d nx) \<longleftrightarrow> length d = bucket_size \<and> list_all (\<lambda>s. fst s = null \<longrightarrow> s = empty_slot) d
     \<and> (case nx of None \<Rightarrow> True | Some b \<Rightarrow> bucket_wf b)"

lemma bucket_dump_entries: "bucket_dump b = entries b"
  by (induction b) (auto simp: entries_def split: option.splits)

lemma entries_default [simp]: "entries bucket_default = []" "bucket_wf bucket_default"
  by (simp_all add: bucket_default_def entries_def new_buckets_def list_all_iff)

lemma slot_index_Some:
  "slot_index k d = Some i \<Longrightarrow> i < length d \<and> fst (d ! i) = k \<and> map_of d k = Some (snd (d ! i))"
proof (induction d arbitrary: i)
  case Nil
  then show ?case by simp
next
  case (Cons s d)
  then show ?case by (cases s) (auto split: if_splits)
qed

lemma slot_index_None: "slot_index k d = None \<longleftrightarrow> map_of d k = None"
  by (induction d) auto

lemma bucket_get_slots: "bucket_get b k = map_of (slots b) k"
proof (induction b)
  case (Bucket d nx)
  show ?case
  proof (cases "slot_index k d")
    case None
    then show ?thesis
      using Bucket.IH slot_index_None [of k d]
      by (cases nx) (auto simp: map_add_def split: option.splits)
  next
    case (Some i)
    then show ?thesis
      using slot_index_Some [OF Some] by (simp add: map_add_def split: option.splits)
  qed
qed

lemma map_of_used: "k \<noteq> null \<Longrightarrow> map_of (filter (\<lambda>s. fst s \<noteq> null) xs) k = map_of xs k"
  by (induction xs) auto

lemma bucket_get_entries: "k \<noteq> null \<Longrightarrow> bucket_get b k = map_of (entries b) k"
  by (simp add: bucket_get_slots entries_def map_of_used)

lemma mset_filter_update:
  assumes "i < length d" "\<not> P (d ! i)" "P x"
  shows "filter_mset P (mset (d[i := x])) = add_mset x (filter_mset P (mset d))"
  using assms by (simp add: mset_update)

lemma list_all_update: "list_all P d \<Longrightarrow> P x \<Longrightarrow> list_all P (d[i := x])"
  using set_update_subset_insert by (fastforce simp: list_all_iff)

lemma bucket_insert_entries:
  assumes "k \<noteq> null" "bucket_wf b"
  shows "mset (entries (bucket_insert b k v)) = add_mset (k, v) (mset (entries b))
    \<and> bucket_wf (bucket_insert b k v)"
  using assms(2)
proof (induction b)
  case (Bucket d nx)
  show ?case
  proof (cases "slot_index null d")
    case (Some i)
    then show ?thesis
      using slot_index_Some [OF Some] assms(1) Bucket.prems
      by (auto simp: entries_def mset_filter_update list_all_update split: option.splits)
  next
    case None
    have new: "filter (\<lambda>s. fst s \<noteq> null) (new_buckets[0 := (k, v)]) = [(k, v)]"
      "bucket_wf (Bucket (new_buckets[0 := (k, v)]) None)"
      using assms(1) by (auto simp: new_buckets_def bucket_size_def numeral_eq_Suc)
    show ?thesis
      using None new Bucket by (cases nx) (auto simp: entries_def)
  qed
qed

lemma remove_last_noop: "idx \<le> bucket_size \<Longrightarrow> remove_last b idx = (b, empty_slot, False)"
  by (cases b) (simp add: last_used_def)

lemma bucket_delete_entries:
  assumes "k \<noteq> null" "bucket_wf b" "map_of (entries b) k = Some v"
  shows "\<exists>b'. bucket_delete b k = Some b' \<and> mset (entries b) = add_mset (k, v) (mset (entries b'))
    \<and> bucket_wf b'"
  using assms(2,3)
proof (induction b)
  case (Bucket d nx)
  let ?P = "\<lambda>s :: slot. fst s \<noteq> null"
  show ?case
  proof (cases "slot_index k d")
    case (Some i)
    have i: "i < length d" "fst (d ! i) = k" "length d = bucket_size"
      "map_of (slots (Bucket d nx)) k = Some (snd (d ! i))"
      using slot_index_Some [OF Some] Bucket.prems(1) by (auto simp: map_add_def)
    then have v: "d ! i = (k, v)"
      using Bucket.prems(2) map_of_used [OF assms(1), of "slots (Bucket d nx)"]
      by (simp add: entries_def prod_eq_iff del: slots.simps)
    have "filter_mset ?P (mset d) = add_mset (k, v) (filter_mset ?P (mset (d[i := empty_slot])))"
      using mset_filter_update [of i "d[i := empty_slot]" ?P "d ! i"] i(1,2) assms(1)
      unfolding v [symmetric] by simp
    then show ?thesis
      using Some i(3) Bucket.prems(1) slot_index_Some [OF Some]
      by (auto simp: last_used_def entries_def list_all_update)
  next
    case None
    then have "map_of d k = None" by (simp add: slot_index_None)
    then have "map_of (slots (Bucket d nx)) k = (case nx of None \<Rightarrow> None | Some b \<Rightarrow> map_of (slots b) k)"
      by (auto simp: map_add_def split: option.splits)
    then obtain b where b: "nx = Some b" "map_of (entries b) k = Some v"
      using Bucket.prems(2) assms(1) by (auto simp: entries_def map_of_used split: option.splits)
    then show ?thesis
      using None Bucket.IH [of b] Bucket.prems by (auto simp: entries_def)
  qed
qed

subsection \<open>Flat positions in a chain\<close>

definition pos :: "nat \<Rightarrow> nat \<times> nat" where
  "pos p = (p div bucket_size, p mod bucket_size)"

lemma slots_length: "bucket_wf b \<Longrightarrow> length (slots b) = bucket_size * chain_depth b"
  by (induction b) (auto split: option.splits)

lemma div_bucket_size:
  "n * bucket_size + j < bucket_size * m \<Longrightarrow> j < bucket_size \<Longrightarrow> n < m"
  by (simp add: bucket_size_def)

lemma chain_read_slots:
  assumes "bucket_wf b" "n < chain_depth b" "j < bucket_size"
  shows "chain_read b n j = Some (slots b ! (bucket_size * n + j))"
  using assms
proof (induction b arbitrary: n)
  case (Bucket d nx)
  then show ?case
    by (cases n) (auto simp: chain_read_def nth_append split: option.splits)
qed

lemma chain_write_slots:
  assumes "bucket_wf b" "n < chain_depth b" "j < bucket_size" "fst s = null \<longrightarrow> s = empty_slot"
  shows "\<exists>b'. chain_write b n j s = Some b' \<and> slots b' = (slots b)[bucket_size * n + j := s]
    \<and> bucket_wf b' \<and> chain_depth b' = chain_depth b"
  using assms(1,2)
proof (induction b arbitrary: n)
  case (Bucket d nx)
  show ?case
  proof (cases n)
    case 0
    then show ?thesis
      using Bucket.prems assms(3,4) by (auto simp: list_update_append list_all_update)
  next
    case (Suc m)
    then obtain b where b: "nx = Some b" "m < chain_depth b" "bucket_wf b" "length d = bucket_size"
      using Bucket.prems by (auto split: option.splits)
    obtain b' where "chain_write b m j s = Some b'" "slots b' = (slots b)[bucket_size * m + j := s]"
      "bucket_wf b'" "chain_depth b' = chain_depth b"
      using Bucket.IH [of b m] b by auto
    then show ?thesis
      using Suc b Bucket.prems by (auto simp: list_update_append)
  qed
qed

lemma next_free_here:
  assumes "bucket_wf b" "p < length (slots b)" "fst (slots b ! p) = null"
  shows "next_free b (p div bucket_size) (p mod bucket_size) = Some (pos p)"
proof -
  have "p div bucket_size < chain_depth b" "p mod bucket_size < bucket_size"
    using assms(1,2) by (auto simp: slots_length bucket_size_def)
  then show ?thesis
    using assms chain_read_slots [of b "p div bucket_size" "p mod bucket_size"]
    by (simp add: next_free.simps pos_def)
qed

lemma next_free_step:
  assumes "bucket_wf b" "Suc p < length (slots b)" "fst (slots b ! p) \<noteq> null"
    "fst (slots b ! Suc p) = null"
  shows "next_free b (p div bucket_size) (p mod bucket_size) = Some (pos (Suc p))"
proof -
  have lt: "p div bucket_size < chain_depth b" "p mod bucket_size < bucket_size"
    using assms(1,2) by (auto simp: slots_length bucket_size_def)
  have succ: "(Suc p div bucket_size, Suc p mod bucket_size) =
    (if p mod bucket_size = bucket_size - 1 then (p div bucket_size + 1, 0)
     else (p div bucket_size, p mod bucket_size + 1))"
    by (auto simp: bucket_size_def mod_Suc div_Suc)
  show ?thesis
    using lt assms chain_read_slots [of b "p div bucket_size" "p mod bucket_size"]
      next_free_here [OF assms(1,2,4)] succ
    by (subst next_free.simps) (auto split: if_splits)
qed

subsection \<open>Growing and shrinking move every entry to its new bucket\<close>

lemma slots_empty: "bucket_wf b \<Longrightarrow> s \<in> set (slots b) \<Longrightarrow> fst s = null \<Longrightarrow> s = empty_slot"
  by (induction b) (auto simp: list_all_iff split: option.splits)

definition moves :: "nat \<Rightarrow> nat \<Rightarrow> slot \<Rightarrow> bool" where
  "moves shift old_len s \<longleftrightarrow> fst s \<noteq> null \<and> drop_bit shift (fst s) AND of_nat old_len \<noteq> 0"

definition stays :: "nat \<Rightarrow> nat \<Rightarrow> slot \<Rightarrow> bool" where
  "stays shift old_len s \<longleftrightarrow> fst s \<noteq> null \<and> drop_bit shift (fst s) AND of_nat old_len = 0"

text \<open>After the first \<open>p\<close> slots of chain \<open>i\<close>, whose slots were \<open>xs\<close>: the entries that
  stay are packed at the front, followed by empty slots and the part not yet seen; the
  first free slot is known; the others are in chain \<open>i + old_len\<close>.\<close>

definition packed :: "nat \<Rightarrow> nat \<Rightarrow> slot list \<Rightarrow> nat \<Rightarrow> slot list" where
  "packed shift old_len xs p =
     (let ks = filter (stays shift old_len) (take p xs)
      in ks @ replicate (p - length ks) empty_slot @ drop p xs)"

definition grow_inv ::
  "nat \<Rightarrow> nat \<Rightarrow> nat \<Rightarrow> slot list \<Rightarrow> bucket list \<Rightarrow> nat \<Rightarrow> grow_state \<Rightarrow> bool" where
  "grow_inv shift old_len i xs vec0 p st \<longleftrightarrow>
     (let (vec, ff) = st; ks = filter (stays shift old_len) (take p xs) in
      length vec = length vec0
      \<and> (\<forall>j < length vec0. j \<noteq> i \<longrightarrow> j \<noteq> i + old_len \<longrightarrow> vec ! j = vec0 ! j)
      \<and> bucket_wf (vec ! i) \<and> slots (vec ! i) = packed shift old_len xs p
      \<and> ff = (if length ks = p then None else Some (pos (length ks)))
      \<and> bucket_wf (vec ! (i + old_len))
      \<and> mset (entries (vec ! (i + old_len))) =
          mset (filter (moves shift old_len) (take p xs)) + mset (entries (vec0 ! (i + old_len))))"

lemma filter_stays_used [simp]:
  "filter (\<lambda>s. fst s \<noteq> null) (filter (stays shift old_len) xs) = filter (stays shift old_len) xs"
  by (induction xs) (auto simp: stays_def)

lemma packed_0 [simp]: "packed shift old_len xs 0 = xs"
  by (simp add: packed_def)

lemma filter_take_le: "length (filter P (take p xs)) \<le> p"
  using length_filter_le [of P "take p xs"] by simp

lemma packed_length: "p \<le> length xs \<Longrightarrow> length (packed shift old_len xs p) = length xs"
  using filter_take_le [of "stays shift old_len" p xs] by (simp add: packed_def Let_def)

lemma packed_nth: "p < length xs \<Longrightarrow> packed shift old_len xs p ! p = xs ! p"
  using filter_take_le [of "stays shift old_len" p xs] by (simp add: packed_def Let_def nth_append)

lemma packed_clear:
  assumes "p < length xs" "\<not> stays shift old_len (xs ! p)"
  shows "(packed shift old_len xs p)[p := empty_slot] = packed shift old_len xs (Suc p)"
proof -
  let ?k = "length (filter (stays shift old_len) (take p xs))"
  have "?k \<le> p" by (rule filter_take_le)
  moreover have "drop p xs = xs ! p # drop (Suc p) xs"
    using assms(1) by (simp add: Cons_nth_drop_Suc)
  moreover have "replicate (Suc p - ?k) empty_slot = replicate (p - ?k) empty_slot @ [empty_slot]"
    using \<open>?k \<le> p\<close> by (simp add: Suc_diff_le replicate_append_same)
  ultimately show ?thesis
    using assms by (simp add: packed_def Let_def list_update_append take_Suc_conv_app_nth)
qed

lemma packed_keep:
  assumes "p < length xs" "stays shift old_len (xs ! p)"
    "length (filter (stays shift old_len) (take p xs)) = p"
  shows "packed shift old_len xs (Suc p) = packed shift old_len xs p"
  using assms by (simp add: packed_def Let_def take_Suc_conv_app_nth Cons_nth_drop_Suc)

lemma list_move:
  "(ks @ replicate (Suc m) e @ x # r)[Suc (length ks + m) := e, length ks := x]
    = (ks @ [x]) @ replicate (Suc m) e @ r"
proof -
  have "(ks @ replicate (Suc m) e @ x # r)[Suc (length ks + m) := e] = ks @ replicate (Suc m) e @ e # r"
    using list_update_length [of "ks @ replicate (Suc m) e" x r e] by simp
  also have "\<dots> = ks @ e # (replicate m e @ e # r)"
    by simp
  finally show ?thesis
    using list_update_length [of ks e "replicate m e @ e # r" x]
    by (simp add: replicate_app_Cons_same)
qed

lemma packed_move:
  assumes p: "p < length xs" "stays shift old_len (xs ! p)"
    and k: "k = length (filter (stays shift old_len) (take p xs))" "k < p"
  shows "(packed shift old_len xs p)[p := empty_slot, k := xs ! p] = packed shift old_len xs (Suc p)"
    "packed shift old_len xs (Suc p) ! k = xs ! p"
    "packed shift old_len xs (Suc p) ! Suc k = empty_slot"
proof -
  let ?ks = "filter (stays shift old_len) (take p xs)"
  have d: "drop p xs = xs ! p # drop (Suc p) xs"
    using p(1) by (simp add: Cons_nth_drop_Suc)
  obtain m where m: "p = Suc (k + m)"
    using k(2) less_iff_Suc_add by blast
  then have diff: "p - k = Suc m" "Suc p - Suc k = Suc m" by simp_all
  have now: "packed shift old_len xs p = ?ks @ replicate (Suc m) empty_slot @ xs ! p # drop (Suc p) xs"
    unfolding packed_def Let_def k(1) [symmetric] diff d ..
  have then': "packed shift old_len xs (Suc p) =
    (?ks @ [xs ! p]) @ replicate (Suc m) empty_slot @ drop (Suc p) xs"
    using p k(1) diff(2) by (simp add: packed_def Let_def take_Suc_conv_app_nth)
  show "(packed shift old_len xs p)[p := empty_slot, k := xs ! p] = packed shift old_len xs (Suc p)"
    unfolding now then' using list_move [of ?ks m empty_slot "xs ! p" "drop (Suc p) xs"]
    unfolding k(1) [symmetric] m [symmetric] .
  show "packed shift old_len xs (Suc p) ! k = xs ! p"
    "packed shift old_len xs (Suc p) ! Suc k = empty_slot"
    unfolding then' using k(1) by (simp_all add: nth_append)
qed

lemma grow_inv_read:
  assumes inv: "grow_inv shift old_len i xs vec0 p (vec, ff)" and p: "p < length xs"
  shows "chain_read (vec ! i) (p div bucket_size) (p mod bucket_size) = Some (xs ! p)"
    "p div bucket_size < chain_depth (vec ! i)"
proof -
  have wf: "bucket_wf (vec ! i)" and sl: "slots (vec ! i) = packed shift old_len xs p"
    using inv by (simp_all add: grow_inv_def Let_def)
  have "length xs = bucket_size * chain_depth (vec ! i)"
    using slots_length [OF wf] packed_length [of p xs] p sl by simp
  then show lt: "p div bucket_size < chain_depth (vec ! i)"
    using p by (simp add: bucket_size_def)
  then show "chain_read (vec ! i) (p div bucket_size) (p mod bucket_size) = Some (xs ! p)"
    using chain_read_slots [OF wf lt, of "p mod bucket_size"] sl packed_nth [OF p]
    by (simp add: bucket_size_def)
qed

lemma grow_slot_empty:
  assumes inv: "grow_inv shift old_len i xs vec0 p (vec, ff)" and p: "p < length xs"
    and k: "fst (xs ! p) = null"
  shows "\<exists>st'. grow_slot shift old_len i (p div bucket_size) (p mod bucket_size) (vec, ff) = Some st'
    \<and> grow_inv shift old_len i xs vec0 (Suc p) st'"
proof -
  have sl: "slots (vec ! i) = packed shift old_len xs p" "bucket_wf (vec ! i)"
    using inv by (simp_all add: grow_inv_def Let_def)
  have len: "p < length (slots (vec ! i))" "slots (vec ! i) ! p = xs ! p"
    using sl packed_length [of p xs] packed_nth p by auto
  then have "xs ! p = empty_slot"
    using slots_empty [OF sl(2) _ k] nth_mem [OF len(1)] by simp
  then have "slots (vec ! i) = packed shift old_len xs (Suc p)"
    using packed_clear [OF p, of shift old_len] packed_nth [OF p, of shift old_len] k sl(1)
    by (metis fst_conv list_update_id stays_def)
  moreover have "\<not> stays shift old_len (xs ! p)" "\<not> moves shift old_len (xs ! p)"
    using k by (simp_all add: stays_def moves_def)
  ultimately show ?thesis
    using grow_inv_read [OF inv p] inv k p filter_take_le [of "stays shift old_len" p xs]
    by (cases "xs ! p")
      (auto simp: grow_slot_def grow_inv_def Let_def update_first_free_def pos_def
        take_Suc_conv_app_nth)
qed

lemma grow_slot_moves:
  assumes inv: "grow_inv shift old_len i xs vec0 p (vec, ff)" and p: "p < length xs"
    and k: "moves shift old_len (xs ! p)"
    and i: "i < old_len" "i + old_len < length vec0"
  shows "\<exists>st'. grow_slot shift old_len i (p div bucket_size) (p mod bucket_size) (vec, ff) = Some st'
    \<and> grow_inv shift old_len i xs vec0 (Suc p) st'"
proof -
  have sl: "slots (vec ! i) = packed shift old_len xs p" "bucket_wf (vec ! i)"
    "bucket_wf (vec ! (i + old_len))" "length vec = length vec0"
    using inv by (simp_all add: grow_inv_def Let_def)
  have ns: "\<not> stays shift old_len (xs ! p)" "fst (xs ! p) \<noteq> null"
    using k by (simp_all add: stays_def moves_def)
  obtain b where b: "chain_write (vec ! i) (p div bucket_size) (p mod bucket_size) empty_slot = Some b"
    "slots b = packed shift old_len xs (Suc p)" "bucket_wf b"
    using chain_write_slots [OF sl(2) grow_inv_read(2) [OF inv p], of "p mod bucket_size" empty_slot]
      packed_clear [OF p ns(1)] sl(1) by (auto simp: bucket_size_def)
  let ?c = "bucket_insert (vec ! (i + old_len)) (fst (xs ! p)) (snd (xs ! p))"
  have c: "mset (entries ?c) = add_mset (xs ! p) (mset (entries (vec ! (i + old_len))))" "bucket_wf ?c"
    using bucket_insert_entries [OF ns(2) sl(3)] by simp_all
  have "grow_slot shift old_len i (p div bucket_size) (p mod bucket_size) (vec, ff)
      = Some (vec[i := b, i + old_len := ?c], update_first_free (p div bucket_size) (p mod bucket_size) ff)"
    using grow_inv_read(1) [OF inv p] k b(1) i
    by (cases "xs ! p") (simp add: grow_slot_def moves_def Let_def)
  moreover have "grow_inv shift old_len i xs vec0 (Suc p) (vec[i := b, i + old_len := ?c],
      update_first_free (p div bucket_size) (p mod bucket_size) ff)"
    using inv p k ns(1) b(2,3) c i sl(4) filter_take_le [of "stays shift old_len" p xs]
    by (auto simp: grow_inv_def Let_def update_first_free_def pos_def take_Suc_conv_app_nth)
  ultimately show ?thesis by blast
qed

lemma grow_slot_stays:
  assumes inv: "grow_inv shift old_len i xs vec0 p (vec, ff)" and p: "p < length xs"
    and k: "stays shift old_len (xs ! p)"
    and i: "i < old_len" "i + old_len < length vec0"
  shows "\<exists>st'. grow_slot shift old_len i (p div bucket_size) (p mod bucket_size) (vec, ff) = Some st'
    \<and> grow_inv shift old_len i xs vec0 (Suc p) st'"
proof -
  let ?k = "length (filter (stays shift old_len) (take p xs))"
  have sl: "slots (vec ! i) = packed shift old_len xs p" "bucket_wf (vec ! i)"
    "length vec = length vec0" "ff = (if ?k = p then None else Some (pos ?k))"
    using inv by (simp_all add: grow_inv_def Let_def)
  have nm: "\<not> moves shift old_len (xs ! p)" "fst (xs ! p) \<noteq> null"
    "drop_bit shift (fst (xs ! p)) AND of_nat old_len = 0"
    using k by (simp_all add: stays_def moves_def)
  note read = grow_inv_read [OF inv p]
  show ?thesis
  proof (cases "?k = p")
    case True
    then have "grow_slot shift old_len i (p div bucket_size) (p mod bucket_size) (vec, ff) = Some (vec, ff)"
      using read(1) nm sl(4) by (cases "xs ! p") (simp add: grow_slot_def)
    moreover have "grow_inv shift old_len i xs vec0 (Suc p) (vec, ff)"
      using inv p k nm True packed_keep [OF p k True]
      by (auto simp: grow_inv_def Let_def take_Suc_conv_app_nth)
    ultimately show ?thesis by blast
  next
    case False
    then have lt: "?k < p"
      using filter_take_le [of "stays shift old_len" p xs] by simp
    note move = packed_move [OF p k refl lt]
    have j: "p mod bucket_size < bucket_size" "?k mod bucket_size < bucket_size"
      "bucket_size * (p div bucket_size) + p mod bucket_size = p"
      "bucket_size * (?k div bucket_size) + ?k mod bucket_size = ?k"
      by (simp_all add: bucket_size_def)
    obtain b1 where b1: "chain_write (vec ! i) (p div bucket_size) (p mod bucket_size) empty_slot = Some b1"
      "slots b1 = (slots (vec ! i))[p := empty_slot]" "bucket_wf b1"
      "chain_depth b1 = chain_depth (vec ! i)"
      using chain_write_slots [OF sl(2) read(2) j(1), of empty_slot] j by auto
    have d: "?k div bucket_size < chain_depth b1"
      using read(2) b1(4) lt div_le_mono [of ?k p bucket_size] by simp
    obtain b2 where b2: "chain_write b1 (?k div bucket_size) (?k mod bucket_size) (xs ! p) = Some b2"
      "slots b2 = packed shift old_len xs (Suc p)" "bucket_wf b2"
      using chain_write_slots [OF b1(3) d j(2), of "xs ! p"] j nm(2) b1(2) sl(1) move(1) by auto
    have nf: "next_free b2 (?k div bucket_size) (?k mod bucket_size) = Some (pos (Suc ?k))"
      using next_free_step [OF b2(3), of ?k] move(2,3) nm(2) b2(2) lt p packed_length [of "Suc p" xs]
      by simp
    have "grow_slot shift old_len i (p div bucket_size) (p mod bucket_size) (vec, ff)
        = Some (vec[i := b2], Some (pos (Suc ?k)))"
      using read(1) nm sl(4) False b1(1) b2(1) nf
      by (cases "xs ! p") (simp add: grow_slot_def pos_def)
    moreover have "grow_inv shift old_len i xs vec0 (Suc p) (vec[i := b2], Some (pos (Suc ?k)))"
      using inv p k nm(1) lt b2(2,3) i sl(3)
      by (auto simp: grow_inv_def Let_def take_Suc_conv_app_nth)
    ultimately show ?thesis by blast
  qed
qed

lemma grow_slot_inv:
  assumes "grow_inv shift old_len i xs vec0 p st" "p < length xs" "i < old_len" "i + old_len < length vec0"
  shows "\<exists>st'. grow_slot shift old_len i (p div bucket_size) (p mod bucket_size) st = Some st'
    \<and> grow_inv shift old_len i xs vec0 (Suc p) st'"
  using grow_slot_empty [of shift old_len i xs vec0 p] grow_slot_moves [of shift old_len i xs vec0 p]
    grow_slot_stays [of shift old_len i xs vec0 p] assms
  by (cases st) (metis moves_def stays_def)

lemma grow_slots_inv:
  assumes "grow_inv shift old_len i xs vec0 (bucket_size * n + j) st" "j \<le> bucket_size"
    "bucket_size * n + bucket_size \<le> length xs" "i < old_len" "i + old_len < length vec0"
  shows "\<exists>st'. grow_slots shift old_len i n [j ..< bucket_size] st = Some st'
    \<and> grow_inv shift old_len i xs vec0 (bucket_size * Suc n) st'"
  using assms(1,2)
proof (induction "bucket_size - j" arbitrary: j st)
  case 0
  then show ?case by (simp add: add.commute)
next
  case (Suc d)
  then have j: "j < bucket_size" by simp
  then have pos: "(bucket_size * n + j) div bucket_size = n" "(bucket_size * n + j) mod bucket_size = j"
    by (simp_all add: bucket_size_def)
  obtain st1 where st1: "grow_slot shift old_len i n j st = Some st1"
    "grow_inv shift old_len i xs vec0 (Suc (bucket_size * n + j)) st1"
    using grow_slot_inv [OF Suc.prems(1) _ assms(4,5)] assms(3) j unfolding pos by auto
  obtain st' where "grow_slots shift old_len i n [Suc j ..< bucket_size] st1 = Some st'"
    "grow_inv shift old_len i xs vec0 (bucket_size * Suc n) st'"
  proof -
    have "d = bucket_size - Suc j" using Suc.hyps(2) by simp
    then show thesis
      using Suc.hyps(1) [of "Suc j" st1] st1(2) j that by auto
  qed
  then show ?case
    using st1(1) j by (simp add: upt_conv_Cons)
qed

lemma grow_chain_inv:
  assumes "grow_inv shift old_len i xs vec0 (bucket_size * n) st" "length xs = bucket_size * m" "n \<le> m"
    "i < old_len" "i + old_len < length vec0"
  shows "\<exists>st'. grow_chain shift old_len i n st = Some st' \<and> grow_inv shift old_len i xs vec0 (length xs) st'"
  using assms(1,3)
proof (induction "m - n" arbitrary: n st)
  case (0 n st)
  have "chain_depth (fst st ! i) = m"
    using 0 slots_length [of "fst st ! i"] packed_length [of "length xs" xs shift old_len] assms(2)
    by (auto simp: grow_inv_def Let_def bucket_size_def)
  then have "chain_at (fst st ! i) n = None"
    using 0 chain_at_depth [of "fst st ! i" n] by auto
  then show ?case
    using 0 assms(2) by (subst grow_chain.simps) simp
next
  case (Suc d n st)
  have le: "bucket_size * n + bucket_size \<le> length xs"
    using Suc.hyps(2) assms(2) by (simp add: bucket_size_def)
  have "chain_depth (fst st ! i) = m"
    using Suc.prems slots_length [of "fst st ! i"] packed_length [of "bucket_size * n" xs shift old_len]
      assms(2) by (auto simp: grow_inv_def Let_def bucket_size_def)
  then have at: "chain_at (fst st ! i) n \<noteq> None"
    using Suc.hyps(2) chain_at_depth [of "fst st ! i" n] by auto
  obtain st1 where st1: "grow_slots shift old_len i n [0 ..< bucket_size] st = Some st1"
    "grow_inv shift old_len i xs vec0 (bucket_size * Suc n) st1"
    using grow_slots_inv [of shift old_len i xs vec0 n 0 st] Suc.prems(1) le assms(4,5) by auto
  then show ?case
    using Suc.hyps(1) [of "Suc n" st1] Suc.hyps(2) Suc.prems(2) at
    by (subst grow_chain.simps) auto
qed

lemma grow_chain_spec:
  assumes "bucket_wf (vec ! i)" "bucket_wf (vec ! (i + old_len))" "i < old_len" "i + old_len < length vec"
  shows "\<exists>vec' ff. grow_chain shift old_len i 0 (vec, None) = Some (vec', ff) \<and> length vec' = length vec
    \<and> (\<forall>j < length vec. j \<noteq> i \<longrightarrow> j \<noteq> i + old_len \<longrightarrow> vec' ! j = vec ! j)
    \<and> bucket_wf (vec' ! i) \<and> bucket_wf (vec' ! (i + old_len))
    \<and> entries (vec' ! i) = filter (stays shift old_len) (slots (vec ! i))
    \<and> mset (entries (vec' ! (i + old_len))) =
        mset (filter (moves shift old_len) (slots (vec ! i))) + mset (entries (vec ! (i + old_len)))"
proof -
  have "grow_inv shift old_len i (slots (vec ! i)) vec 0 (vec, None)"
    using assms by (simp add: grow_inv_def)
  then obtain vec' ff where "grow_chain shift old_len i 0 (vec, None) = Some (vec', ff)"
    and inv: "grow_inv shift old_len i (slots (vec ! i)) vec (length (slots (vec ! i))) (vec', ff)"
    using grow_chain_inv [of shift old_len i "slots (vec ! i)" vec 0 "(vec, None)"]
      slots_length [OF assms(1)] assms(3,4) by fastforce
  moreover have "entries (vec' ! i) = filter (stays shift old_len) (slots (vec ! i))"
    using inv by (simp add: grow_inv_def packed_def entries_def Let_def del: filter_filter)
  ultimately show ?thesis
    by (auto simp: grow_inv_def Let_def)
qed

lemma grow_all_spec:
  assumes "length vec = 2 * old_len" "\<And>j. j < 2 * old_len \<Longrightarrow> bucket_wf (vec ! j)"
    "distinct is" "set is \<subseteq> {0 ..< old_len}"
  shows "\<exists>vec'. grow_all shift old_len is vec = Some vec' \<and> length vec' = 2 * old_len
    \<and> (\<forall>j < 2 * old_len. bucket_wf (vec' ! j))
    \<and> (\<forall>i < old_len. mset (entries (vec' ! i)) =
         mset (if i \<in> set is then filter (stays shift old_len) (slots (vec ! i)) else entries (vec ! i)))
    \<and> (\<forall>i < old_len. mset (entries (vec' ! (i + old_len))) =
         mset (if i \<in> set is then filter (moves shift old_len) (slots (vec ! i)) else [])
         + mset (entries (vec ! (i + old_len))))"
  using assms
proof (induction "is" arbitrary: vec)
  case Nil
  then show ?case by simp
next
  case (Cons i "is")
  have i: "i < old_len" "i + old_len < length vec"
    using Cons.prems by auto
  obtain vec1 ff where v1: "grow_chain shift old_len i 0 (vec, None) = Some (vec1, ff)"
    "length vec1 = length vec"
    "\<And>j. j < length vec \<Longrightarrow> j \<noteq> i \<Longrightarrow> j \<noteq> i + old_len \<Longrightarrow> vec1 ! j = vec ! j"
    "bucket_wf (vec1 ! i)" "bucket_wf (vec1 ! (i + old_len))"
    "entries (vec1 ! i) = filter (stays shift old_len) (slots (vec ! i))"
    "mset (entries (vec1 ! (i + old_len))) =
       mset (filter (moves shift old_len) (slots (vec ! i))) + mset (entries (vec ! (i + old_len)))"
    using grow_chain_spec [of vec i old_len shift] i Cons.prems(1,2) by auto
  have wf1: "bucket_wf (vec1 ! j)" if "j < 2 * old_len" for j
    using that v1(3) [of j] v1(4,5) Cons.prems(1,2) by metis
  have same: "vec1 ! j = vec ! j" if "j < old_len" "j \<noteq> i" for j
    using that v1(3) [of j] Cons.prems(1) i by auto
  have same': "vec1 ! (j + old_len) = vec ! (j + old_len)" if "j < old_len" "j \<noteq> i" for j
    using that v1(3) [of "j + old_len"] Cons.prems(1) i by auto
  obtain vec' where v': "grow_all shift old_len is vec1 = Some vec'" "length vec' = 2 * old_len"
    "\<forall>j < 2 * old_len. bucket_wf (vec' ! j)"
    "\<forall>i < old_len. mset (entries (vec' ! i)) =
       mset (if i \<in> set is then filter (stays shift old_len) (slots (vec1 ! i)) else entries (vec1 ! i))"
    "\<forall>i < old_len. mset (entries (vec' ! (i + old_len))) =
       mset (if i \<in> set is then filter (moves shift old_len) (slots (vec1 ! i)) else [])
       + mset (entries (vec1 ! (i + old_len)))"
    using Cons.IH [of vec1] Cons.prems v1(2) wf1 by auto
  have ni: "i \<notin> set is" using Cons.prems(3) by simp
  have "mset (entries (vec' ! j)) =
      mset (if j \<in> set (i # is) then filter (stays shift old_len) (slots (vec ! j)) else entries (vec ! j))"
    if "j < old_len" for j
    using v'(4) that v1(6) ni same [of j] by (cases "j = i") auto
  moreover have "mset (entries (vec' ! (j + old_len))) =
      mset (if j \<in> set (i # is) then filter (moves shift old_len) (slots (vec ! j)) else [])
      + mset (entries (vec ! (j + old_len)))"
    if "j < old_len" for j
    using v'(5) that v1(7) ni same [of j] same' [of j] by (cases "j = i") auto
  ultimately show ?case
    using v1(1) v'(1-3) by auto
qed

lemma shrink_slots_spec:
  assumes "idx < length vec" "bucket_wf (vec ! idx)"
  shows "length (shrink_slots idx ss vec) = length vec
    \<and> (\<forall>j. j \<noteq> idx \<longrightarrow> shrink_slots idx ss vec ! j = vec ! j)
    \<and> bucket_wf (shrink_slots idx ss vec ! idx)
    \<and> mset (entries (shrink_slots idx ss vec ! idx)) =
        mset (entries (vec ! idx)) + mset (filter (\<lambda>s. fst s \<noteq> null) ss)"
  using assms
proof (induction ss arbitrary: vec)
  case Nil
  then show ?case by simp
next
  case (Cons s ss)
  obtain k v where s: "s = (k, v)" by (cases s)
  show ?case
    using Cons.IH [of vec] Cons.IH [of "vec[idx := bucket_insert (vec ! idx) k v]"] Cons.prems s
      bucket_insert_entries [of k "vec ! idx" v]
    by (cases "k = null") auto
qed

lemma shrink_chain_spec:
  assumes "idx < length vec" "bucket_wf (vec ! idx)"
  shows "length (shrink_chain idx b vec) = length vec
    \<and> (\<forall>j. j \<noteq> idx \<longrightarrow> shrink_chain idx b vec ! j = vec ! j)
    \<and> bucket_wf (shrink_chain idx b vec ! idx)
    \<and> mset (entries (shrink_chain idx b vec ! idx)) = mset (entries (vec ! idx)) + mset (entries b)"
  using assms
proof (induction b arbitrary: vec)
  case (Bucket d nx)
  note spec = shrink_slots_spec [OF Bucket.prems, of d]
  show ?case
  proof (cases nx)
    case None
    then show ?thesis using spec by (simp add: entries_def)
  next
    case (Some b)
    then show ?thesis
      using spec Bucket.IH [of b "shrink_slots idx d vec"] Bucket.prems
      by (simp add: entries_def Let_def ac_simps)
  qed
qed

lemma shrink_fold_spec:
  assumes "length vec = 2 * n" "\<forall>j < 2 * n. bucket_wf (vec ! j)" "m \<le> n"
  shows "let vec' = fold (\<lambda>i vec. shrink_chain (i - n) (vec ! i) vec) [n ..< n + m] vec in
    length vec' = 2 * n \<and> (\<forall>j < 2 * n. bucket_wf (vec' ! j))
    \<and> (\<forall>j \<ge> m. vec' ! j = vec ! j)
    \<and> (\<forall>j < m. mset (entries (vec' ! j)) = mset (entries (vec ! j)) + mset (entries (vec ! (j + n))))"
  using assms(3)
proof (induction m)
  case 0
  then show ?case using assms(1,2) by simp
next
  case (Suc m)
  let ?v = "fold (\<lambda>i vec. shrink_chain (i - n) (vec ! i) vec) [n ..< n + m] vec"
  have IH: "length ?v = 2 * n" "\<forall>j < 2 * n. bucket_wf (?v ! j)" "\<forall>j \<ge> m. ?v ! j = vec ! j"
    "\<forall>j < m. mset (entries (?v ! j)) = mset (entries (vec ! j)) + mset (entries (vec ! (j + n)))"
    using Suc by (simp_all add: Let_def)
  have m: "m < length ?v" "bucket_wf (?v ! m)" "?v ! m = vec ! m" "?v ! (n + m) = vec ! (n + m)"
    using IH(1) IH(2) [rule_format, of m] IH(3) [rule_format, of m] IH(3) [rule_format, of "n + m"]
      Suc.prems by auto
  note step = shrink_chain_spec [OF m(1,2), of "?v ! (n + m)"]
  have fold: "fold (\<lambda>i vec. shrink_chain (i - n) (vec ! i) vec) [n ..< n + Suc m] vec =
    shrink_chain m (?v ! (n + m)) ?v"
    by simp
  show ?case
    unfolding fold Let_def using step m(3,4) IH Suc.prems
    by (auto simp: less_Suc_eq add.commute [of n])
qed

subsection \<open>The table refines a map\<close>

definition hash_nat :: "nat \<Rightarrow> ptr \<Rightarrow> nat" where
  "hash_nat shift k = unat (drop_bit shift k)"

lemma word_and_mask:
  fixes w :: "64 word"
  assumes "n \<le> 64"
  shows "unat (w AND (of_nat (2 ^ n) - 1)) = unat w mod 2 ^ n"
proof -
  have "of_nat (2 ^ n) - 1 = (mask n :: 64 word)"
    by (simp add: mask_eq_exp_minus_1)
  then have "w AND (of_nat (2 ^ n) - 1) = take_bit n w"
    by (simp add: take_bit_eq_mask)
  then have "unat (w AND (of_nat (2 ^ n) - 1)) = take_bit n (unat w)"
    by (simp only: unsigned_take_bit_eq)
  then show ?thesis
    by (simp only: take_bit_eq_mod)
qed

lemma word_and_pow2:
  fixes w :: "64 word"
  assumes "n < 64"
  shows "w AND of_nat (2 ^ n) \<noteq> 0 \<longleftrightarrow> odd (unat w div 2 ^ n)"
proof -
  have "w AND of_nat (2 ^ n) \<noteq> 0 \<longleftrightarrow> bit w n"
    by (simp add: bit_iff_and_push_bit_not_eq_0 push_bit_eq_mult)
  also have "\<dots> \<longleftrightarrow> bit (unat w) n"
    using assms by (simp add: bit_unsigned_iff)
  finally show ?thesis
    by (simp add: bit_iff_odd)
qed

lemma hash_with_len_mod:
  "n \<le> 64 \<Longrightarrow> hash_with_len m k (2 ^ n) = hash_nat (pm_align_shift m) k mod 2 ^ n"
  unfolding hash_with_len_def hash_nat_def by (rule word_and_mask)

lemma mod_double:
  "(h :: nat) mod (2 * n) = (if even (h div n) then h mod n else h mod n + n)" if "0 < n"
proof -
  have "h mod (n * 2) = n * (h div n mod 2) + h mod n"
    by (rule mod_mult2_eq)
  then show ?thesis
    by (auto simp: mult.commute even_iff_mod_2_eq_zero odd_iff_mod_2_eq_one)
qed

lemma map_of_mset:
  assumes "mset xs = mset ys" "distinct (map fst ys)"
  shows "map_of xs = map_of ys" "distinct (map fst xs)"
proof -
  have "mset (map fst xs) = mset (map fst ys)" using assms(1) by simp
  then show d: "distinct (map fst xs)"
    using assms(2) mset_eq_imp_distinct_iff by blast
  show "map_of xs = map_of ys"
    using map_of_inject_set [OF d assms(2)] mset_eq_setD [OF assms(1)] by simp
qed

lemma map_of_filter_key:
  "map_of (filter (\<lambda>s. P (fst s)) xs) k = (if P k then map_of xs k else None)"
  by (induction xs) auto

text \<open>A vector of \<open>2^n\<close> well-formed chains, every key at most once and in the chain of its
  hash; the number of entries is the stored size.\<close>

definition chain_ok :: "nat \<Rightarrow> nat \<Rightarrow> nat \<Rightarrow> bucket \<Rightarrow> bool" where
  "chain_ok shift len j b \<longleftrightarrow> bucket_wf b \<and> distinct (map fst (entries b))
     \<and> list_all (\<lambda>s. hash_nat shift (fst s) mod len = j) (entries b)"

definition vec_entries :: "bucket list \<Rightarrow> nat" where
  "vec_entries vec = (\<Sum>j < length vec. length (entries (vec ! j)))"

definition vec_ok :: "nat \<Rightarrow> bucket list \<Rightarrow> bool" where
  "vec_ok shift vec \<longleftrightarrow> (\<forall>j < length vec. chain_ok shift (length vec) j (vec ! j))"

definition vec_map :: "nat \<Rightarrow> bucket list \<Rightarrow> ptr \<Rightarrow> ptr option" where
  "vec_map shift vec k =
     (if k = null then None else map_of (entries (vec ! (hash_nat shift k mod length vec))) k)"

definition pm_inv :: "ptr_hash_map \<Rightarrow> bool" where
  "pm_inv m \<longleftrightarrow> (\<exists>n \<le> 64. length (pm_vec m) = 2 ^ n) \<and> vec_ok (pm_align_shift m) (pm_vec m)
     \<and> pm_size m = vec_entries (pm_vec m)"

definition pm_map :: "ptr_hash_map \<Rightarrow> ptr \<Rightarrow> ptr option" where
  "pm_map m = vec_map (pm_align_shift m) (pm_vec m)"

lemma pm_hash_nat: "pm_inv m \<Longrightarrow> pm_hash m k = hash_nat (pm_align_shift m) k mod length (pm_vec m)"
  by (auto simp: pm_inv_def pm_hash_def hash_with_len_mod)

lemma pm_len_pos: "pm_inv m \<Longrightarrow> 0 < length (pm_vec m)"
  by (auto simp: pm_inv_def)

lemma get_bucket_inv:
  "pm_inv m \<Longrightarrow> get_bucket m k = Some (pm_vec m ! (hash_nat (pm_align_shift m) k mod length (pm_vec m)))"
  using pm_len_pos [of m] by (simp add: get_bucket_def pm_hash_nat)

lemma pm_get_map: "pm_inv m \<Longrightarrow> k \<noteq> null \<Longrightarrow> pm_get m k = pm_map m k"
  by (simp add: pm_get_def get_bucket_inv bucket_get_entries pm_map_def vec_map_def)

lemma vec_entries_update:
  assumes "j < length vec"
  shows "vec_entries (vec[j := b]) + length (entries (vec ! j)) = vec_entries vec + length (entries b)"
proof -
  have "vec_entries (vec[j := b]) = length (entries b) + (\<Sum>i \<in> {..<length vec} - {j}. length (entries (vec ! i)))"
    using assms by (simp add: vec_entries_def sum.remove [of _ j])
  moreover have "vec_entries vec = length (entries (vec ! j))
      + (\<Sum>i \<in> {..<length vec} - {j}. length (entries (vec ! i)))"
    using assms by (simp add: vec_entries_def sum.remove [of _ j])
  ultimately show ?thesis by simp
qed

lemma chain_ok_cong:
  assumes "mset (entries b') = mset (filter P (entries b))" "chain_ok shift len j b" "bucket_wf b'"
    and "\<And>s. s \<in> set (entries b) \<Longrightarrow> P s \<Longrightarrow> hash_nat shift (fst s) mod len' = j'"
  shows "chain_ok shift len' j' b'" "map_of (entries b') = map_of (filter P (entries b))"
proof -
  have d: "distinct (map fst (filter P (entries b)))"
    using assms(2) by (simp add: chain_ok_def distinct_map_filter)
  have st: "set (entries b') = set (filter P (entries b))"
    using mset_eq_setD [OF assms(1)] .
  show "chain_ok shift len' j' b'"
    using assms(3,4) map_of_mset(2) [OF assms(1) d] st by (simp add: chain_ok_def list_all_iff)
  show "map_of (entries b') = map_of (filter P (entries b))"
    by (rule map_of_mset(1) [OF assms(1) d])
qed

text \<open>After \<open>grow\<close>, chain \<open>j\<close> of the doubled vector has the entries of chain
  \<open>j mod N\<close> that hash to \<open>j\<close>.\<close>

lemma grow_all_chains:
  assumes ok: "vec_ok sh vec" and n: "length vec = N" "N = 2 ^ n" "n < 64"
  shows "\<exists>vec'. grow_all sh N [0 ..< N] (vec @ replicate N (bucket_clone bucket_default)) = Some vec'
    \<and> length vec' = 2 * N \<and> (\<forall>j < 2 * N. bucket_wf (vec' ! j) \<and>
        mset (entries (vec' ! j)) =
          mset (filter (\<lambda>s. hash_nat sh (fst s) mod (2 * N) = j) (entries (vec ! (j mod N)))))"
proof -
  let ?v = "vec @ replicate N (bucket_clone bucket_default)"
  have N: "0 < N" using n(2) by simp
  have def: "bucket_clone bucket_default = bucket_default"
    by (simp add: bucket_clone_def bucket_default_def)
  have old: "bucket_wf (vec ! j)" "\<And>s. s \<in> set (entries (vec ! j)) \<Longrightarrow> hash_nat sh (fst s) mod N = j"
    if "j < N" for j
    using ok that n(1) by (auto simp: vec_ok_def chain_ok_def list_all_iff)
  have "bucket_wf (?v ! j)" if "j < 2 * N" for j
    using old(1) that n(1) def by (auto simp: nth_append)
  then obtain vec' where g: "grow_all sh N [0 ..< N] ?v = Some vec'" "length vec' = 2 * N"
    "\<forall>j < 2 * N. bucket_wf (vec' ! j)"
    "\<forall>i < N. mset (entries (vec' ! i)) = mset (filter (stays sh N) (slots (vec ! i)))"
    "\<forall>i < N. mset (entries (vec' ! (i + N))) = mset (filter (moves sh N) (slots (vec ! i)))"
    using grow_all_spec [of ?v N "[0 ..< N]" sh] n(1) def by (auto simp: nth_append)
  have bit: "drop_bit sh k AND of_nat N \<noteq> 0 \<longleftrightarrow> odd (hash_nat sh k div N)" for k
    using word_and_pow2 [OF n(3), of "drop_bit sh k"] n(2) by (simp add: hash_nat_def)
  have flt: "filter (stays sh N) (slots b) = filter (\<lambda>s. \<not> odd (hash_nat sh (fst s) div N)) (entries b)"
    "filter (moves sh N) (slots b) = filter (\<lambda>s. odd (hash_nat sh (fst s) div N)) (entries b)" for b
    unfolding stays_def moves_def bit [symmetric] entries_def filter_filter by (simp_all add: conj_commute)
  have "mset (entries (vec' ! j)) =
      mset (filter (\<lambda>s. hash_nat sh (fst s) mod (2 * N) = j) (entries (vec ! (j mod N))))"
    if j: "j < 2 * N" for j
  proof (cases "j < N")
    case True
    then have "filter (\<lambda>s. hash_nat sh (fst s) mod (2 * N) = j) (entries (vec ! j)) =
        filter (\<lambda>s. \<not> odd (hash_nat sh (fst s) div N)) (entries (vec ! j))"
      using old(2) mod_double [OF N] by (intro filter_cong) auto
    then show ?thesis using True g(4) flt(1) by simp
  next
    case False
    then obtain i where i: "j = i + N" "i < N"
      using j by (metis add.commute le_add_diff_inverse linorder_not_less mult_2 nat_add_left_cancel_less)
    then have "filter (\<lambda>s. hash_nat sh (fst s) mod (2 * N) = j) (entries (vec ! i)) =
        filter (\<lambda>s. odd (hash_nat sh (fst s) div N)) (entries (vec ! i))"
      using old(2) mod_double [OF N] by (intro filter_cong) auto
    then show ?thesis using i g(5) flt(2) by simp
  qed
  then show ?thesis using g(1-3) by blast
qed

lemma sum_double: "(\<Sum>j < 2 * N. f j) = (\<Sum>j < N. f j + f (j + N))" for f :: "nat \<Rightarrow> nat"
proof -
  have "(\<Sum>j < 2 * N. f j) = (\<Sum>j < N. f j) + (\<Sum>j \<in> {N ..< N + N}. f j)"
    by (simp add: mult_2 lessThan_atLeast0 sum.atLeastLessThan_concat)
  also have "(\<Sum>j \<in> {N ..< N + N}. f j) = (\<Sum>j < N. f (j + N))"
    using sum.shift_bounds_nat_ivl [of f 0 N N] by (simp add: lessThan_atLeast0)
  finally show ?thesis by (simp add: sum.distrib)
qed

lemma grow_vec_ok:
  assumes ok: "vec_ok sh vec" "length vec = N" "0 < N" and len: "length vec' = 2 * N"
    and ch: "\<forall>j < 2 * N. bucket_wf (vec' ! j) \<and> mset (entries (vec' ! j)) =
      mset (filter (\<lambda>s. hash_nat sh (fst s) mod (2 * N) = j) (entries (vec ! (j mod N))))"
  shows "vec_ok sh vec'" "vec_map sh vec' = vec_map sh vec" "vec_entries vec' = vec_entries vec"
proof -
  have chain: "chain_ok sh (2 * N) j (vec' ! j)"
    "map_of (entries (vec' ! j)) =
      map_of (filter (\<lambda>s. hash_nat sh (fst s) mod (2 * N) = j) (entries (vec ! (j mod N))))"
    if "j < 2 * N" for j
    using chain_ok_cong [of "vec' ! j" "\<lambda>s. hash_nat sh (fst s) mod (2 * N) = j" "vec ! (j mod N)" sh N
        "j mod N" "2 * N" j] ch ok that by (auto simp: vec_ok_def)
  show "vec_ok sh vec'"
    using chain(1) len by (simp add: vec_ok_def)
  show "vec_map sh vec' = vec_map sh vec"
  proof
    fix k
    have "hash_nat sh k mod (2 * N) < 2 * N" "hash_nat sh k mod (2 * N) mod N = hash_nat sh k mod N"
      using ok(3) by (simp_all add: mod_mod_cancel)
    then show "vec_map sh vec' k = vec_map sh vec k"
      using chain(2) len ok(2)
      by (simp add: vec_map_def map_of_filter_key [of "\<lambda>k'. hash_nat sh k' mod (2 * N) = hash_nat sh k mod (2 * N)"])
  qed
  have "length (entries (vec' ! j)) + length (entries (vec' ! (j + N))) = length (entries (vec ! j))"
    if j: "j < N" for j
  proof -
    have h: "hash_nat sh (fst s) mod N = j" if "s \<in> set (entries (vec ! j))" for s
      using ok(1,2) j that by (auto simp: vec_ok_def chain_ok_def list_all_iff)
    have len': "length (entries (vec' ! i)) =
      length (filter (\<lambda>s. hash_nat sh (fst s) mod (2 * N) = i) (entries (vec ! (i mod N))))" if "i < 2 * N" for i
      using ch that by (metis size_mset)
    have "filter (\<lambda>s. hash_nat sh (fst s) mod (2 * N) = j + N) (entries (vec ! j)) =
        filter (\<lambda>s. \<not> hash_nat sh (fst s) mod (2 * N) = j) (entries (vec ! j))"
      using h mod_double [OF ok(3)] ok(3) by (intro filter_cong) auto
    then show ?thesis
      using len' [of j] len' [of "j + N"] j sum_length_filter_compl by simp
  qed
  then show "vec_entries vec' = vec_entries vec"
    using len ok(2) by (simp add: vec_entries_def sum_double)
qed

lemma pm_grow_spec:
  assumes inv: "pm_inv m" and n: "length (pm_vec m) = 2 ^ n" "n < 64"
  shows "\<exists>m'. pm_grow m = Some m' \<and> pm_inv m' \<and> pm_map m' = pm_map m \<and> pm_size m' = pm_size m"
proof -
  let ?N = "2 ^ n :: nat" and ?sh = "pm_align_shift m"
  have ok: "vec_ok ?sh (pm_vec m)" using inv by (simp add: pm_inv_def)
  obtain vec' where vec': "grow_all ?sh ?N [0 ..< ?N]
      (pm_vec m @ replicate ?N (bucket_clone bucket_default)) = Some vec'" "length vec' = 2 * ?N"
    and ch: "\<forall>j < 2 * ?N. bucket_wf (vec' ! j) \<and> mset (entries (vec' ! j)) =
      mset (filter (\<lambda>s. hash_nat ?sh (fst s) mod (2 * ?N) = j) (entries (pm_vec m ! (j mod ?N))))"
    using grow_all_chains [OF ok n(1) refl n(2)] by blast
  have "length vec' = 2 ^ Suc n" using vec'(2) by simp
  then show ?thesis
    using vec'(1) grow_vec_ok [OF ok n(1) _ vec'(2) ch] n inv
    by (auto simp: pm_grow_def pm_inv_def pm_map_def intro!: exI [of _ "Suc n"])
qed

lemma vec_map_None_chain:
  assumes "vec_ok sh vec" "j < length vec" "j \<noteq> hash_nat sh k mod length vec"
  shows "map_of (entries (vec ! j)) k = None"
  using assms by (auto simp: vec_ok_def chain_ok_def list_all_iff map_of_eq_None_iff)

text \<open>\<open>shrink\<close> merges chains \<open>j\<close> and \<open>j + N\<close>.\<close>

lemma shrink_chain_ok:
  assumes ok: "vec_ok sh vec" "length vec = 2 * N" and j: "j < N" and wf: "bucket_wf b"
    and b: "mset (entries b) = mset (entries (vec ! j)) + mset (entries (vec ! (j + N)))"
  shows "chain_ok sh N j b" "map_of (entries b) = map_of (entries (vec ! j) @ entries (vec ! (j + N)))"
proof -
  let ?es = "entries (vec ! j) @ entries (vec ! (j + N))"
  have lo: "chain_ok sh (2 * N) j (vec ! j)" and hi: "chain_ok sh (2 * N) (j + N) (vec ! (j + N))"
    using ok j by (auto simp: vec_ok_def)
  have mod: "hash_nat sh k mod (2 * N) mod N = hash_nat sh k mod N" for k
    by (simp add: mod_mod_cancel)
  have "hash_nat sh (fst s) mod N = j" if "s \<in> set ?es" for s
    using lo hi that mod [of "fst s"] j by (auto simp: chain_ok_def list_all_iff)
  moreover have "distinct (map fst ?es)"
    using lo hi j by (fastforce simp: chain_ok_def list_all_iff)
  moreover have "mset (entries b) = mset ?es" using b by simp
  ultimately show "chain_ok sh N j b" "map_of (entries b) = map_of ?es"
    using map_of_mset [of "entries b" ?es] wf mset_eq_setD [of "entries b" ?es]
    unfolding chain_ok_def list_all_iff by (metis, metis)
qed

lemma shrink_vec_ok:
  assumes ok: "vec_ok sh vec" "length vec = 2 * N" "0 < N" and len: "length vec' = N"
    and ch: "\<forall>j < N. bucket_wf (vec' ! j) \<and> mset (entries (vec' ! j)) =
      mset (entries (vec ! j)) + mset (entries (vec ! (j + N)))"
  shows "vec_ok sh vec'" "vec_map sh vec' = vec_map sh vec" "vec_entries vec' = vec_entries vec"
proof -
  note chain = shrink_chain_ok [OF ok(1,2)]
  show "vec_ok sh vec'"
    using chain(1) ch len by (simp add: vec_ok_def)
  show "vec_map sh vec' = vec_map sh vec"
  proof
    fix k
    let ?h = "hash_nat sh k mod N" and ?h2 = "hash_nat sh k mod (2 * N)"
    have h: "?h < N" using ok(3) by simp
    have h2: "?h2 = ?h \<or> ?h2 = ?h + N"
      using mod_double [OF ok(3)] by auto
    have "map_of (entries (vec ! ?h) @ entries (vec ! (?h + N))) k = map_of (entries (vec ! ?h2)) k"
      using h2 vec_map_None_chain [OF ok(1), of ?h k] vec_map_None_chain [OF ok(1), of "?h + N" k] ok(2,3) h
      by (auto simp: map_add_def split: option.splits)
    then show "vec_map sh vec' k = vec_map sh vec k"
      using chain(2) [OF h, of "vec' ! ?h"] ch h len ok(2) by (simp add: vec_map_def)
  qed
  have "length (entries (vec' ! j)) = length (entries (vec ! j)) + length (entries (vec ! (j + N)))"
    if "j < N" for j
    using ch that by (metis size_mset size_union)
  then show "vec_entries vec' = vec_entries vec"
    using len ok(2) by (simp add: vec_entries_def sum_double)
qed

lemma pm_shrink_spec:
  assumes inv: "pm_inv m" and len: "2 \<le> length (pm_vec m)"
  shows "pm_inv (pm_shrink m) \<and> pm_map (pm_shrink m) = pm_map m \<and> pm_size (pm_shrink m) = pm_size m"
proof -
  obtain n where n: "length (pm_vec m) = 2 ^ n" "n \<le> 64"
    using inv by (auto simp: pm_inv_def)
  then obtain n' where n': "n = Suc n'"
    using len by (cases n) auto
  let ?N = "2 ^ n' :: nat" and ?sh = "pm_align_shift m"
  let ?vec = "fold (\<lambda>i vec. shrink_chain (i - ?N) (vec ! i) vec) [?N ..< ?N + ?N] (pm_vec m)"
  have N: "length (pm_vec m) = 2 * ?N" using n n' by simp
  have ok: "vec_ok ?sh (pm_vec m)" using inv by (simp add: pm_inv_def)
  have spec: "length ?vec = 2 * ?N" "\<forall>j < 2 * ?N. bucket_wf (?vec ! j)"
    "\<forall>j < ?N. mset (entries (?vec ! j)) = mset (entries (pm_vec m ! j)) + mset (entries (pm_vec m ! (j + ?N)))"
    using shrink_fold_spec [OF N, of ?N] ok N by (auto simp: vec_ok_def chain_ok_def Let_def)
  have "\<forall>j < ?N. bucket_wf (take ?N ?vec ! j) \<and> mset (entries (take ?N ?vec ! j)) =
      mset (entries (pm_vec m ! j)) + mset (entries (pm_vec m ! (j + ?N)))"
    using spec by simp
  note ok' = shrink_vec_ok [OF ok N _ _ this]
  have "pm_shrink m = m\<lparr> pm_vec := take ?N ?vec \<rparr>"
    using N by (simp add: pm_shrink_def Let_def mult_2)
  then show ?thesis
    using ok' spec(1) n n' inv by (auto simp: pm_inv_def pm_map_def intro!: exI [of _ n'])
qed

lemma entries_used: "s \<in> set (entries b) \<Longrightarrow> fst s \<noteq> null"
  by (simp add: entries_def)

lemma chains_disjoint:
  assumes "vec_ok sh vec" "i < length vec" "j < length vec" "i \<noteq> j"
  shows "fst ` set (entries (vec ! i)) \<inter> fst ` set (entries (vec ! j)) = {}"
proof -
  have "hash_nat sh (fst s) mod length vec = l" if "l < length vec" "s \<in> set (entries (vec ! l))" for l s
    using assms(1) that by (auto simp: vec_ok_def chain_ok_def list_all_iff)
  then have "hash_nat sh k mod length vec = l" if "l < length vec" "k \<in> fst ` set (entries (vec ! l))" for l k
    using that by auto
  then show ?thesis
    using assms(2-4) by blast
qed

lemma vec_dom:
  assumes "vec_ok sh vec" "0 < length vec"
  shows "dom (vec_map sh vec) = (\<Union>j < length vec. fst ` set (entries (vec ! j)))"
proof (rule set_eqI)
  fix k
  let ?h = "hash_nat sh k mod length vec"
  have h: "?h < length vec" using assms(2) by simp
  have "k \<in> dom (vec_map sh vec) \<longleftrightarrow> k \<in> fst ` set (entries (vec ! ?h))"
    using dom_map_of_conv_image_fst [of "entries (vec ! ?h)"] entries_used [of _ "vec ! ?h"]
    by (auto simp: vec_map_def dom_def)
  also have "\<dots> \<longleftrightarrow> k \<in> (\<Union>j < length vec. fst ` set (entries (vec ! j)))"
    using vec_map_None_chain [OF assms(1), of _ k] h by (force simp: map_of_eq_None_iff)
  finally show "k \<in> dom (vec_map sh vec) \<longleftrightarrow> k \<in> (\<Union>j < length vec. fst ` set (entries (vec ! j)))" .
qed

lemma vec_card:
  assumes ok: "vec_ok sh vec" and "0 < length vec"
  shows "card (dom (vec_map sh vec)) = vec_entries vec"
proof -
  have "card (\<Union>j < length vec. fst ` set (entries (vec ! j))) =
      (\<Sum>j < length vec. card (fst ` set (entries (vec ! j))))"
    using chains_disjoint [OF ok] by (intro card_UN_disjoint) auto
  also have "\<dots> = vec_entries vec"
    using ok by (auto simp: vec_entries_def vec_ok_def chain_ok_def intro!: sum.cong)
      (metis distinct_card length_map list.set_map)
  finally show ?thesis
    using vec_dom [OF ok assms(2)] by simp
qed

lemma pm_size_bound:
  assumes inv: "pm_inv m" and k: "pm_map m k = None" "k \<noteq> null"
  shows "pm_size m < 2 ^ 64 - 1"
proof -
  have "dom (pm_map m) \<subseteq> UNIV - {null, k}"
    using k by (auto simp: pm_map_def vec_map_def)
  then have "card (dom (pm_map m)) \<le> card (UNIV - {null, k} :: 64 word set)"
    by (intro card_mono) auto
  also have "\<dots> = 2 ^ 64 - 2"
    using k(2) by (subst card_Diff_subset) (auto simp: card_word)
  finally show ?thesis
    using inv vec_card pm_len_pos [OF inv] by (simp add: pm_inv_def pm_map_def)
qed

text \<open>Replacing the chain of one key.\<close>

lemma vec_update_ok:
  assumes ok: "vec_ok sh vec" and h: "h < length vec" and b: "chain_ok sh (length vec) h b"
  shows "vec_ok sh (vec[h := b])"
    "k \<noteq> null \<Longrightarrow> hash_nat sh k mod length vec = h \<Longrightarrow> vec_map sh (vec[h := b]) k = map_of (entries b) k"
    "hash_nat sh k mod length vec \<noteq> h \<Longrightarrow> vec_map sh (vec[h := b]) k = vec_map sh vec k"
  using assms by (auto simp: vec_ok_def vec_map_def nth_list_update)

lemma pm_insert_small:
  assumes inv: "pm_inv m" and k: "k \<noteq> null" "pm_map m k = None"
  shows "\<exists>m'. (do { b \<leftarrow> get_bucket m k;
      Some (m\<lparr> pm_vec := (pm_vec m)[pm_hash m k := bucket_insert b k v], pm_size := pm_size m + 1 \<rparr>) })
      = Some m' \<and> pm_inv m' \<and> pm_map m' = (pm_map m)(k \<mapsto> v)"
proof -
  let ?sh = "pm_align_shift m" and ?vec = "pm_vec m"
  let ?h = "hash_nat ?sh k mod length ?vec"
  let ?b = "bucket_insert (?vec ! ?h) k v"
  have ok: "vec_ok ?sh ?vec" and h: "?h < length ?vec"
    using inv pm_len_pos [OF inv] by (simp_all add: pm_inv_def)
  then have c: "chain_ok ?sh (length ?vec) ?h (?vec ! ?h)" by (simp add: vec_ok_def)
  have new: "mset (entries ?b) = mset ((k, v) # entries (?vec ! ?h))" "bucket_wf ?b"
    using bucket_insert_entries [OF k(1)] c by (simp_all add: chain_ok_def)
  have d: "distinct (map fst ((k, v) # entries (?vec ! ?h)))"
    using c k by (auto simp: chain_ok_def pm_map_def vec_map_def map_of_eq_None_iff)
  have b: "chain_ok ?sh (length ?vec) ?h ?b" "map_of (entries ?b) = (map_of (entries (?vec ! ?h)))(k \<mapsto> v)"
    using map_of_mset [OF new(1) d] c new mset_eq_setD [OF new(1)]
    by (auto simp: chain_ok_def list_all_iff)
  have sz: "vec_entries (?vec[?h := ?b]) = Suc (vec_entries ?vec)"
    using vec_entries_update [OF h, of ?b] arg_cong [OF new(1), of size] by simp
  have "pm_map (m\<lparr> pm_vec := ?vec[?h := ?b], pm_size := pm_size m + 1 \<rparr>) k' = ((pm_map m)(k \<mapsto> v)) k'" for k'
    using vec_update_ok(2,3) [OF ok h b(1), of k'] b(2) k(1)
    by (cases "hash_nat ?sh k' mod length ?vec = ?h") (auto simp: pm_map_def vec_map_def)
  then show ?thesis
    using vec_update_ok(1) [OF ok h b(1)] sz inv get_bucket_inv [OF inv] pm_hash_nat [OF inv]
    by (auto simp: pm_inv_def)
qed

lemma pm_insert_map:
  assumes inv: "pm_inv m" and k: "k \<noteq> null" "pm_map m k = None"
  shows "\<exists>m'. pm_insert m k v = Some m' \<and> pm_inv m' \<and> pm_map m' = (pm_map m)(k \<mapsto> v)"
proof (cases "pm_size m = length (pm_vec m)")
  case False
  then show ?thesis
    using pm_insert_small [OF assms] k(1) by (simp add: pm_insert_def)
next
  case True
  obtain n where n: "length (pm_vec m) = 2 ^ n"
    using inv by (auto simp: pm_inv_def)
  then have "(2 :: nat) ^ n < 2 ^ 64"
    using pm_size_bound [OF inv k(2,1)] True by linarith
  then have "n < 64"
    using power_less_imp_less_exp [of 2 n 64] by simp
  then obtain m1 where m1: "pm_grow m = Some m1" "pm_inv m1" "pm_map m1 = pm_map m"
    using pm_grow_spec [OF inv n] by blast
  then show ?thesis
    using pm_insert_small [of m1 k v] k True by (simp add: pm_insert_def)
qed

lemma pm_delete_small:
  assumes inv: "pm_inv m" and k: "pm_map m k = Some v"
  shows "\<exists>m'. (do { b \<leftarrow> get_bucket m k; b' \<leftarrow> bucket_delete b k;
      Some (m\<lparr> pm_vec := (pm_vec m)[pm_hash m k := b'], pm_size := pm_size m - 1 \<rparr>) })
      = Some m' \<and> pm_inv m' \<and> pm_map m' = (pm_map m)(k := None)"
proof -
  let ?sh = "pm_align_shift m" and ?vec = "pm_vec m"
  let ?h = "hash_nat ?sh k mod length ?vec"
  have k0: "k \<noteq> null" and kv: "map_of (entries (?vec ! ?h)) k = Some v"
    using k by (auto simp: pm_map_def vec_map_def split: if_splits)
  have ok: "vec_ok ?sh ?vec" and h: "?h < length ?vec"
    using inv pm_len_pos [OF inv] by (simp_all add: pm_inv_def)
  then have c: "chain_ok ?sh (length ?vec) ?h (?vec ! ?h)" by (simp add: vec_ok_def)
  obtain b where b: "bucket_delete (?vec ! ?h) k = Some b"
    "mset ((k, v) # entries b) = mset (entries (?vec ! ?h))" "bucket_wf b"
    using bucket_delete_entries [OF k0 _ kv] c by (auto simp: chain_ok_def)
  have "distinct (map fst (entries (?vec ! ?h)))" using c by (simp add: chain_ok_def)
  note eq = map_of_mset [OF b(2) this]
  have b': "chain_ok ?sh (length ?vec) ?h b"
    using eq(2) c b(3) mset_eq_setD [OF b(2)] by (auto simp: chain_ok_def list_all_iff)
  have mb: "map_of (entries b) k' = ((map_of (entries (?vec ! ?h)))(k := None)) k'" for k'
    using eq by (auto simp: map_of_eq_None_iff fun_eq_iff dest: spec [of _ k'])
  have sz: "Suc (vec_entries (?vec[?h := b])) = vec_entries ?vec"
    using vec_entries_update [OF h, of b] arg_cong [OF b(2), of size] by simp
  have "pm_map (m\<lparr> pm_vec := ?vec[?h := b], pm_size := pm_size m - 1 \<rparr>) k' = ((pm_map m)(k := None)) k'" for k'
    using vec_update_ok(2,3) [OF ok h b', of k'] mb k0
    by (cases "hash_nat ?sh k' mod length ?vec = ?h") (auto simp: pm_map_def vec_map_def)
  then show ?thesis
    using vec_update_ok(1) [OF ok h b'] sz inv get_bucket_inv [OF inv] pm_hash_nat [OF inv] b(1)
    by (auto simp: pm_inv_def)
qed

lemma pm_map_null [simp]: "pm_map m null = None"
  by (simp add: pm_map_def vec_map_def)

lemma pm_delete_map:
  assumes inv: "pm_inv m" and k: "pm_map m k = Some v"
  shows "\<exists>m'. pm_delete m k = Some m' \<and> pm_inv m' \<and> pm_map m' = (pm_map m)(k := None)"
proof (cases "pm_size m = length (pm_vec m) div 2")
  case False
  then show ?thesis
    using pm_delete_small [OF assms] k by (cases "k = null") (simp_all add: pm_delete_def)
next
  case True
  have "card (dom (pm_map m)) = pm_size m"
    using vec_card [of "pm_align_shift m" "pm_vec m"] inv pm_len_pos [OF inv]
    by (simp add: pm_inv_def pm_map_def)
  then have "0 < pm_size m"
    using k card_gt_0_iff [of "dom (pm_map m)"] by auto
  then have "2 \<le> length (pm_vec m)" using True by simp
  then show ?thesis
    using pm_shrink_spec [OF inv] pm_delete_small [of "pm_shrink m" k v] k True
    by (cases "k = null") (simp_all add: pm_delete_def Let_def)
qed

lemma pm_new_inv:
  assumes "1 \<le> al" "sz \<le> 2 ^ 63"
  shows "\<exists>m. ptr_hash_map_new sz al = Some m \<and> pm_inv m \<and> pm_map m = Map.empty"
proof -
  obtain n where n: "next_power_of_two sz = 2 ^ n"
    using next_power_of_two_pow2 [of sz] by (auto simp: is_power_of_two_iff)
  then have "(2 :: nat) ^ n \<le> 2 ^ 63"
    using next_power_of_two_least [OF is_power_of_two_power assms(2)] by simp
  then have "n \<le> 63" by (rule power_le_imp_le_exp [rotated]) simp
  then show ?thesis
    using assms(1) n
    by (auto simp: ptr_hash_map_new_def pm_inv_def pm_map_def vec_map_def vec_ok_def chain_ok_def
        vec_entries_def fun_eq_iff intro!: exI [of _ n])
qed

subsection \<open>What a user of a pointer map relies on\<close>

locale ptr_map =
  fixes get :: "'m \<Rightarrow> ptr \<Rightarrow> ptr option"
    and ins :: "'m \<Rightarrow> ptr \<Rightarrow> ptr \<Rightarrow> 'm option"
    and del :: "'m \<Rightarrow> ptr \<Rightarrow> 'm option"
    and inv :: "'m \<Rightarrow> bool"
    and abs :: "'m \<Rightarrow> ptr \<Rightarrow> ptr option"
  assumes get_abs: "inv m \<Longrightarrow> abs m k = Some v \<Longrightarrow> get m k = Some v"
    and ins_abs: "inv m \<Longrightarrow> k \<noteq> null \<Longrightarrow> abs m k = None
      \<Longrightarrow> \<exists>m'. ins m k v = Some m' \<and> inv m' \<and> abs m' = (abs m)(k \<mapsto> v)"
    and del_abs: "inv m \<Longrightarrow> abs m k = Some v
      \<Longrightarrow> \<exists>m'. del m k = Some m' \<and> inv m' \<and> abs m' = (abs m)(k := None)"

interpretation pmap: ptr_map pm_get pm_insert pm_delete pm_inv pm_map
proof
  fix m k v
  assume "pm_inv m" "pm_map m k = Some v"
  then show "pm_get m k = Some v"
    using pm_get_map [of m k] by (cases "k = null") (simp_all add: pm_map_def vec_map_def)
qed (use pm_insert_map pm_delete_map in blast)+

interpretation smap: ptr_map std_get std_insert std_delete "\<lambda>m. True" "\<lambda>m. m"
  by unfold_locales (simp_all add: std_get_def std_insert_def std_delete_def)

end
