(* ===== verification/Sized_Slab.thy ===== *)
theory Sized_Slab
  imports Slab_System Slab_Util
begin

text \<open>
  \<open>SizedSlabAlloc\<close> of \<open>slab-alloc/src/lib.rs\<close>: the allocator proper, over any slab system.
  The record has the fields of the struct, the heap of the slabs and the trace of
  initialisations and drops.  The clock is an argument of the operations that read it.  The
  results are proved once for every slab system, inside the locale \<open>slab_system\<close>: the
  invariant of the free list (partial slabs first, then the full ones, empty slabs outside),
  its preservation, the effect of every operation on the set of live objects, and that
  dropping the allocator gives every slab back.
\<close>

definition working_period_seconds :: nat where
  "working_period_seconds = 15"

definition objects_per_slab :: nat where
  "objects_per_slab = 8"

record ('n, 's) sized_slab_alloc =
  sa_freelist :: linked_list
  sa_total_slabs :: nat
  sa_num_full :: nat
  sa_refcnt :: nat
  sa_working_set :: "nat working_set"
  sa_slab_system :: 's
  sa_layout :: layout
  sa_heap :: "'n heap"
  sa_events :: "init_event list"

definition sized_new :: "nat \<Rightarrow> layout \<Rightarrow> 's \<Rightarrow> ('n, 's) sized_slab_alloc" where
  "sized_new now l s =
     \<lparr> sa_freelist = ll_new, sa_total_slabs = 0, sa_num_full = 0, sa_refcnt = 0,
       sa_working_set = working_set_new now 0, sa_slab_system = s, sa_layout = l,
       sa_heap = Map.empty, sa_events = [] \<rparr>"

text \<open>\<open>SizedSlabAlloc::alloc_slab\<close>; the flag is the result of the function.\<close>

definition sized_alloc_slab ::
  "'n linkable \<Rightarrow> ('n, 's, 'st) slab_ops \<Rightarrow> ('n, 's) sized_slab_alloc
    \<Rightarrow> (('n, 's) sized_slab_alloc \<times> bool) option" where
  "sized_alloc_slab L S a = do {
     (h, s, new) \<leftarrow> ss_alloc_slab S (sa_heap a) (sa_slab_system a);
     let a1 = a\<lparr> sa_heap := h, sa_slab_system := s \<rparr>;
     if new = null then Some (a1, False)
     else do {
       (h', fl) \<leftarrow> insert_back L (sa_freelist a1) new h;
       total \<leftarrow> sum_usize (sa_total_slabs a1) 1;
       nf \<leftarrow> sum_usize (sa_num_full a1) 1;
       Some (a1\<lparr> sa_heap := h', sa_freelist := fl, sa_total_slabs := total, sa_num_full := nf \<rparr>, True) } }"

text \<open>A slab without free objects leaves the list.\<close>

definition leave_freelist ::
  "'n linkable \<Rightarrow> bool \<Rightarrow> linked_list \<Rightarrow> 'n heap \<Rightarrow> ('n heap \<times> linked_list) option" where
  "leave_freelist L emp fl h =
     (if emp then do { (h', fl', _) \<leftarrow> remove_front L fl h; Some (h', fl') } else Some (h, fl))"

text \<open>The part of \<open>alloc\<close> after a slab is available.\<close>

definition sized_take ::
  "'n linkable \<Rightarrow> ('n, 's, 'st) slab_ops \<Rightarrow> 'st init_sys \<Rightarrow> ('n, 's) sized_slab_alloc
    \<Rightarrow> (('n, 's) sized_slab_alloc \<times> ptr) option" where
  "sized_take L S I a = do {
     slab \<leftarrow> peek_front (sa_freelist a);
     full \<leftarrow> ss_is_full S (sa_heap a) (sa_slab_system a) slab;
     a1 \<leftarrow> (if full
       then do {
         nf \<leftarrow> sub_usize (sa_num_full a) 1;
         Some (a\<lparr> sa_num_full := nf, sa_working_set := update_min nf (sa_working_set a) \<rparr>) }
       else Some a);
     (h, obj, st) \<leftarrow> ss_alloc S (sa_heap a1) (sa_slab_system a1) slab;
     emp \<leftarrow> ss_is_empty S h (sa_slab_system a1) slab;
     (h', fl) \<leftarrow> leave_freelist L emp (sa_freelist a1) h;
     rc \<leftarrow> sum_usize (sa_refcnt a1) 1;
     if unat obj mod lay_align (sa_layout a1) \<noteq> 0 then None
     else Some (a1\<lparr> sa_heap := h', sa_freelist := fl, sa_refcnt := rc,
                    sa_events := sa_events a1 @ is_init I obj st \<rparr>, obj) }"

text \<open>\<open>SizedSlabAlloc::alloc\<close>; \<open>None\<close> as the result is \<open>Err(Exhausted)\<close>.\<close>

definition sized_alloc ::
  "'n linkable \<Rightarrow> ('n, 's, 'st) slab_ops \<Rightarrow> 'st init_sys \<Rightarrow> ('n, 's) sized_slab_alloc
    \<Rightarrow> (('n, 's) sized_slab_alloc \<times> ptr option) option" where
  "sized_alloc L S I a = do {
     (a1, ok) \<leftarrow> (if ll_size (sa_freelist a) = 0 then sized_alloc_slab L S a else Some (a, True));
     if ok then do { (a2, obj) \<leftarrow> sized_take L S I a1; Some (a2, Some obj) }
     else Some (a1, None) }"

fun collect_slabs ::
  "'n linkable \<Rightarrow> ('n, 's, 'st) slab_ops \<Rightarrow> nat \<Rightarrow> ('n, 's) sized_slab_alloc
    \<Rightarrow> ('n, 's) sized_slab_alloc option" where
  "collect_slabs L S 0 a = Some a"
| "collect_slabs L S (Suc n) a = do {
     (h, fl, slab) \<leftarrow> remove_back L (sa_freelist a) (sa_heap a);
     (h', s, evs) \<leftarrow> ss_dealloc_slab S h (sa_slab_system a) slab;
     total \<leftarrow> sub_usize (sa_total_slabs a) 1;
     nf \<leftarrow> sub_usize (sa_num_full a) 1;
     collect_slabs L S n
       (a\<lparr> sa_heap := h', sa_freelist := fl, sa_slab_system := s,
           sa_total_slabs := total, sa_num_full := nf,
           sa_events := sa_events a @ evs \<rparr>) }"

definition garbage_collect_slabs ::
  "'n linkable \<Rightarrow> ('n, 's, 'st) slab_ops \<Rightarrow> nat \<Rightarrow> ('n, 's) sized_slab_alloc
    \<Rightarrow> ('n, 's) sized_slab_alloc option" where
  "garbage_collect_slabs L S now a = do {
     (ws, r) \<leftarrow> refresh_now working_period_seconds now (sa_working_set a);
     let a1 = a\<lparr> sa_working_set := ws \<rparr>;
     (case r of
        None \<Rightarrow> Some a1
      | Some min_full \<Rightarrow> do {
          a2 \<leftarrow> collect_slabs L S min_full a1;
          Some (a2\<lparr> sa_working_set := working_set_set (sa_num_full a2) (sa_working_set a2) \<rparr>) }) }"

text \<open>The \<open>match\<close> of \<open>dealloc\<close> that puts the slab in its place in the list.\<close>

definition relist ::
  "'n linkable \<Rightarrow> bool \<Rightarrow> bool \<Rightarrow> ptr \<Rightarrow> ('n, 's) sized_slab_alloc \<Rightarrow> ('n, 's) sized_slab_alloc option" where
  "relist L was_empty full slab a =
     (if \<not> was_empty \<and> full then do {
        (h, fl) \<leftarrow> move_to_back L (sa_freelist a) slab (sa_heap a);
        nf \<leftarrow> sum_usize (sa_num_full a) 1;
        Some (a\<lparr> sa_heap := h, sa_freelist := fl, sa_num_full := nf \<rparr>) }
      else if was_empty \<and> full then do {
        (h, fl) \<leftarrow> insert_back L (sa_freelist a) slab (sa_heap a);
        nf \<leftarrow> sum_usize (sa_num_full a) 1;
        Some (a\<lparr> sa_heap := h, sa_freelist := fl, sa_num_full := nf \<rparr>) }
      else if was_empty then do {
        (h, fl) \<leftarrow> insert_front L (sa_freelist a) slab (sa_heap a);
        Some (a\<lparr> sa_heap := h, sa_freelist := fl \<rparr>) }
      else Some a)"

definition sized_dealloc ::
  "'n linkable \<Rightarrow> ('n, 's, 'st) slab_ops \<Rightarrow> 'st init_sys \<Rightarrow> nat \<Rightarrow> ('n, 's) sized_slab_alloc
    \<Rightarrow> ptr \<Rightarrow> ('n, 's) sized_slab_alloc option" where
  "sized_dealloc L S I now a x =
     (if unat x mod lay_align (sa_layout a) \<noteq> 0 then None
      else do {
        (h, s, slab, was_empty) \<leftarrow>
          ss_dealloc S (sa_heap a) (sa_slab_system a) x (is_status_initialized I);
        full \<leftarrow> ss_is_full S h s slab;
        a2 \<leftarrow> relist L was_empty full slab (a\<lparr> sa_heap := h, sa_slab_system := s \<rparr>);
        a3 \<leftarrow> (if full then garbage_collect_slabs L S now a2 else Some a2);
        rc \<leftarrow> sub_usize (sa_refcnt a3) 1;
        Some (a3\<lparr> sa_refcnt := rc \<rparr>) })"

text \<open>\<open>Drop\<close>: the loop may only be left when the free list is empty.\<close>

partial_function (option) drop_loop ::
  "'n linkable \<Rightarrow> ('n, 's, 'st) slab_ops \<Rightarrow> ('n, 's) sized_slab_alloc
    \<Rightarrow> ('n, 's) sized_slab_alloc option" where
  [code]: "drop_loop L S a =
     (if ll_size (sa_freelist a) = 0 then Some a
      else do {
        (h, fl, slab) \<leftarrow> remove_front L (sa_freelist a) (sa_heap a);
        (h', s, evs) \<leftarrow> ss_dealloc_slab S h (sa_slab_system a) slab;
        drop_loop L S (a\<lparr> sa_heap := h', sa_freelist := fl, sa_slab_system := s,
                          sa_events := sa_events a @ evs \<rparr>) })"

definition sized_drop ::
  "'n linkable \<Rightarrow> ('n, 's, 'st) slab_ops \<Rightarrow> bool \<Rightarrow> ('n, 's) sized_slab_alloc
    \<Rightarrow> ('n, 's) sized_slab_alloc option" where
  "sized_drop L S panicking a =
     (if sa_refcnt a \<noteq> 0 \<and> \<not> panicking then None else drop_loop L S a)"

subsection \<open>The invariant\<close>

definition n_avail :: "'st slab_view \<Rightarrow> ptr \<Rightarrow> nat" where
  "n_avail v p = (case v p of None \<Rightarrow> 0 | Some (os, av) \<Rightarrow> length av)"

text \<open>The free list is the partial slabs \<open>part\<close> followed by the full slabs \<open>full\<close>; every
  other slab has no free object and is in no list.\<close>

definition freelist_ok ::
  "'n linkable \<Rightarrow> nat \<Rightarrow> 'st slab_view \<Rightarrow> 'n heap \<Rightarrow> linked_list \<Rightarrow> ptr list \<Rightarrow> ptr list \<Rightarrow> bool" where
  "freelist_ok L n v h fl part full \<longleftrightarrow>
     wf_list L h fl (part @ full) \<and> set (part @ full) \<subseteq> dom v
     \<and> (\<forall>p \<in> set part. 0 < n_avail v p \<and> n_avail v p < n)
     \<and> (\<forall>p \<in> set full. n_avail v p = n)
     \<and> (\<forall>p \<in> dom v - set (part @ full). n_avail v p = 0 \<and> unlinked L h p)"

text \<open>The same with an arbitrary slab \<open>q\<close> in front.\<close>

definition freelist_at ::
  "'n linkable \<Rightarrow> nat \<Rightarrow> 'st slab_view \<Rightarrow> 'n heap \<Rightarrow> linked_list \<Rightarrow> ptr \<Rightarrow> ptr list \<Rightarrow> ptr list \<Rightarrow> bool" where
  "freelist_at L n v h fl q part full \<longleftrightarrow>
     wf_list L h fl (q # part @ full) \<and> set (q # part @ full) \<subseteq> dom v
     \<and> (\<forall>p \<in> set part. 0 < n_avail v p \<and> n_avail v p < n)
     \<and> (\<forall>p \<in> set full. n_avail v p = n)
     \<and> (\<forall>p \<in> dom v - set (q # part @ full). n_avail v p = 0 \<and> unlinked L h p)"

definition sized_live ::
  "('n heap \<Rightarrow> 's \<Rightarrow> 'st slab_view) \<Rightarrow> ('n, 's) sized_slab_alloc \<Rightarrow> ptr set" where
  "sized_live view a = live_objs (view (sa_heap a) (sa_slab_system a))"

text \<open>Besides the shape of the free list: the counters count what their names say, the working set
  never exceeds the number of full slabs, and the layout asks for no more alignment than the
  objects have.\<close>

definition sized_core ::
  "'n linkable \<Rightarrow> ('n heap \<Rightarrow> 's \<Rightarrow> bool) \<Rightarrow> ('n heap \<Rightarrow> 's \<Rightarrow> 'st slab_view) \<Rightarrow> ('s \<Rightarrow> nat) \<Rightarrow> nat
    \<Rightarrow> ('n, 's) sized_slab_alloc \<Rightarrow> ptr list \<Rightarrow> ptr list \<Rightarrow> bool" where
  "sized_core L sinv view cap al a part full \<longleftrightarrow>
     sinv (sa_heap a) (sa_slab_system a) \<and> finite (dom (sa_heap a))
     \<and> freelist_ok L (cap (sa_slab_system a)) (view (sa_heap a) (sa_slab_system a)) (sa_heap a)
         (sa_freelist a) part full
     \<and> sa_num_full a = length full \<and> sa_total_slabs a = card (dom (sa_heap a))
     \<and> lay_align (sa_layout a) dvd al"

definition sized_inv ::
  "'n linkable \<Rightarrow> ('n heap \<Rightarrow> 's \<Rightarrow> bool) \<Rightarrow> ('n heap \<Rightarrow> 's \<Rightarrow> 'st slab_view) \<Rightarrow> ('s \<Rightarrow> nat) \<Rightarrow> nat
    \<Rightarrow> ('n, 's) sized_slab_alloc \<Rightarrow> bool" where
  "sized_inv L sinv view cap al a \<longleftrightarrow>
     (\<exists>part full. sized_core L sinv view cap al a part full)
     \<and> ws_data (sa_working_set a) \<le> sa_num_full a
     \<and> sa_refcnt a = card (sized_live view a)"

lemma n_avail_upd [simp]:
  "n_avail (v(p \<mapsto> (os, av))) q = (if q = p then length av else n_avail v q)"
  "n_avail (v(p := None)) q = (if q = p then 0 else n_avail v q)"
  by (simp_all add: n_avail_def)

lemma n_avail_Some: "v p = Some (os, av) \<Longrightarrow> n_avail v p = length av"
  by (simp add: n_avail_def)

lemma freelist_ok_wf: "freelist_ok L n v h fl part full \<Longrightarrow> wf_list L h fl (part @ full)"
  by (simp add: freelist_ok_def)

lemma freelist_ok_size: "freelist_ok L n v h fl part full \<Longrightarrow> ll_size fl = length (part @ full)"
  using wf_list_size by (fastforce simp: freelist_ok_def)

lemma freelist_room: "freelist_ok L n v h fl part full \<Longrightarrow> length full < 2 ^ 64"
  using wf_list_lt [OF freelist_ok_wf] by fastforce

lemma freelist_all_full:
  assumes fl: "freelist_ok L n v h fl part full" and all: "\<forall>p \<in> dom v. n_avail v p = n" and n: "0 < n"
  shows "part = []" "set full = dom v"
proof -
  show part: "part = []"
  proof (cases part)
    case (Cons p ps)
    then have "p \<in> dom v" "n_avail v p < n" using fl unfolding freelist_ok_def by auto
    then show ?thesis using all by auto
  qed
  have "p \<in> set full" if "p \<in> dom v" for p
    using fl that n part bspec [OF all that] unfolding freelist_ok_def by (metis DiffI append_Nil less_irrefl)
  then show "set full = dom v"
    using fl part unfolding freelist_ok_def by auto
qed

context slab_system
begin

lemma sized_new_inv:
  assumes "sinv Map.empty s" "lay_align l dvd al"
  shows "sized_inv L sinv view cap al (sized_new now l s) \<and> sized_live view (sized_new now l s) = {}"
proof -
  have "dom (view Map.empty s) = {}"
    using view_dom [OF assms(1)] by simp
  then have "freelist_ok L (cap s) (view Map.empty s) Map.empty ll_new [] []"
    by (simp add: freelist_ok_def wf_list_new)
  moreover have "live_objs (view Map.empty s) = {}"
    using \<open>dom (view Map.empty s) = {}\<close> by (simp add: live_objs_def)
  ultimately show ?thesis
    using assms
    by (auto simp: sized_inv_def sized_core_def sized_live_def sized_new_def working_set_new_def)
qed

lemma dom_room: "sinv h s \<Longrightarrow> card (dom h) < 2 ^ 64"
proof -
  assume inv: "sinv h s"
  have "null \<notin> dom h" using sinv_view [OF inv] view_dom [OF inv] by (auto simp: view_ok_def)
  then have "card (dom h) < card (UNIV :: ptr set)" by (intro psubset_card_mono) auto
  then show ?thesis by (simp add: card_usize)
qed

lemma sized_alloc_slab_core:
  assumes core: "sized_core L sinv view cap al a part full"
  shows "\<exists>a' ok full'. sized_alloc_slab L S a = Some (a', ok) \<and> sized_core L sinv view cap al a' part full'
    \<and> sized_live view a' = sized_live view a \<and> sa_refcnt a' = sa_refcnt a
    \<and> sa_working_set a' = sa_working_set a
    \<and> (if ok then length full' = Suc (length full) else full' = full \<and> sa_heap a' = sa_heap a)"
proof -
  let ?h = "sa_heap a" and ?s = "sa_slab_system a" and ?v = "view (sa_heap a) (sa_slab_system a)"
  have inv: "sinv ?h ?s" and fl: "freelist_ok L (cap ?s) ?v ?h (sa_freelist a) part full"
    using core by (simp_all add: sized_core_def)
  obtain h1 s1 p where new: "ss_alloc_slab S ?h ?s = Some (h1, s1, p)" "sinv h1 s1" "cap s1 = cap ?s"
    and ns: "new_slab L I (cap ?s) ?h ?v h1 (view h1 s1) p"
    using alloc_slab [OF inv] by blast
  show ?thesis
  proof (cases "p = null")
    case True
    then have "h1 = ?h" "view ?h s1 = ?v"
      using ns by (auto simp: new_slab_def)
    then show ?thesis
      using new core True
      by (intro exI [of _ "a\<lparr> sa_heap := h1, sa_slab_system := s1 \<rparr>"] exI [of _ False] exI [of _ full])
        (simp add: sized_alloc_slab_def sized_core_def sized_live_def)
  next
    case False
    obtain os av where v1: "view h1 s1 = ?v(p \<mapsto> (os, av))" "length av = cap ?s"
      using ns False by (auto simp: new_slab_def)
    have p: "p \<notin> dom ?h" "unlinked L h1 p" "\<And>q. q \<noteq> p \<Longrightarrow> h1 q = ?h q"
      using ns False by (auto simp: new_slab_def)
    have vd: "dom ?v = dom ?h" by (rule view_dom [OF inv])
    have px: "p \<notin> set (part @ full)"
      using fl p(1) vd by (auto simp: freelist_ok_def)
    have "wf_list L h1 (sa_freelist a) (part @ full)"
      using wf_list_cong [of "part @ full" h1 ?h] p(3) px freelist_ok_wf [OF fl] by metis
    then obtain h2 fl2 where ins: "insert_back L (sa_freelist a) p h1 = Some (h2, fl2)"
      "wf_list L h2 fl2 ((part @ full) @ [p])" "same_payload pay (set ((part @ full) @ [p])) h1 h2"
      using insert_back_wf [OF _ p(2) px] by blast
    have inv2: "sinv h2 s1" "view h2 s1 = ?v(p \<mapsto> (os, av))"
      using relink [OF new(2) ins(3)] v1(1) by simp_all
    have dom2: "dom h2 = insert p (dom ?h)"
      using view_dom [OF inv2(1)] inv2(2) vd by simp
    have un: "unlinked L h2 q = unlinked L ?h q" if "q \<notin> set (part @ full)" "q \<noteq> p" for q
      using that ins(3) p(3) by (intro unlinked_cong) (simp add: same_payload_def)
    have fl2: "freelist_ok L (cap s1) (view h2 s1) h2 fl2 part (full @ [p])"
      using fl ins(2) un px new(3) v1(2) unfolding inv2(2) freelist_ok_def by auto
    have fin: "finite (dom ?h)" using core by (simp add: sized_core_def)
    have room: "sum_usize (sa_total_slabs a) 1 = Some (sa_total_slabs a + 1)" "sum_usize (sa_num_full a) 1 = Some (sa_num_full a + 1)"
      using dom_room [OF inv2(1)] freelist_room [OF fl2] fin core dom2 p(1)
      by (simp_all add: sum_usize_def sized_core_def)
    have "live_objs (view h2 s1) = live_objs ?v"
      unfolding inv2(2) using sinv_view [OF inv2(1)] vd p(1) v1(2) new(3)
      by (intro live_new_slab [of "cap s1" al]) (auto simp: inv2(2))
    then show ?thesis
      using new(1) False ins(1) inv2(1) core dom2 p(1) fl2 room
      by (intro exI [of _ "a\<lparr> sa_heap := h2, sa_slab_system := s1, sa_freelist := fl2,
          sa_total_slabs := sa_total_slabs a + 1, sa_num_full := sa_num_full a + 1 \<rparr>"] exI [of _ True]
          exI [of _ "full @ [p]"])
        (simp add: sized_alloc_slab_def sized_core_def sized_live_def)
  qed
qed

text \<open>Taking an object from the first slab \<open>q\<close> of the list.  If \<open>q\<close> was full it becomes
  the only partial slab; if it is now empty it leaves the list.\<close>

lemma freelist_take:
  assumes inv: "sinv h s" and fl: "freelist_at L (cap s) (view h s) h fl q part full"
    and q: "view h s q = Some (os, av @ [(x, st)])" "length av < cap s"
    and h1: "sinv h1 s" "same_links L h h1" "view h1 s = (view h s)(q \<mapsto> (os, av))"
  shows "\<exists>h2 fl2 part2. leave_freelist L (av = []) fl h1 = Some (h2, fl2)
    \<and> sinv h2 s \<and> view h2 s = view h1 s \<and> freelist_ok L (cap s) (view h2 s) h2 fl2 part2 full"
proof -
  have wf: "wf_list L h1 fl (q # part @ full)"
    using fl same_links_wf_list [OF h1(2)] by (simp add: freelist_at_def)
  have d: "q \<notin> set (part @ full)"
    using wf by (auto simp: wf_list_def)
  show ?thesis
  proof (cases "av = []")
    case True
    obtain h2 fl2 where rm: "remove_front L fl h1 = Some (h2, fl2, q)" "wf_list L h2 fl2 (part @ full)"
      "unlinked L h2 q" "same_payload pay (set (q # part @ full)) h1 h2"
      using remove_front_wf [OF wf] by blast
    have h2: "sinv h2 s" "view h2 s = view h1 s"
      using relink [OF h1(1) rm(4)] by simp_all
    have "unlinked L h2 p = unlinked L h p" if "p \<notin> set (q # part @ full)" for p
      using that rm(4) same_links_unlinked [OF h1(2), of p] unlinked_cong [of h2 p h1 L]
      by (simp add: same_payload_def)
    then have "freelist_ok L (cap s) (view h2 s) h2 fl2 part full"
      using fl rm(2,3) d True unfolding h2(2) h1(3) freelist_ok_def freelist_at_def by auto
    then show ?thesis
      using True rm(1) h2 by (auto simp: leave_freelist_def)
  next
    case False
    have "freelist_ok L (cap s) (view h1 s) h1 fl (q # part) full"
      using fl wf d q False same_links_unlinked [OF h1(2)]
      unfolding h1(3) freelist_ok_def freelist_at_def by auto
    then show ?thesis
      using False h1(1) by (auto simp: leave_freelist_def)
  qed
qed

lemma freelist_cases:
  assumes "freelist_ok L n v h fl part full" "part @ full \<noteq> []" "0 < n"
  obtains q part' full' where "freelist_at L n v h fl q part' full'" "0 < n_avail v q"
    "length full' = length full - (if n_avail v q = n then 1 else 0)" "peek_front fl = Some q"
    "n_avail v q = n \<Longrightarrow> 0 < length full"
proof (cases part)
  case Nil
  then obtain q full' where "full = q # full'"
    using assms(2) by (cases full) auto
  then show thesis
    using that [of q "[]" full'] assms(1,3) Nil wf_list_peek [of L h fl q full']
    by (auto simp: freelist_ok_def freelist_at_def)
next
  case (Cons q part')
  then show thesis
    using that [of q part' full] assms(1) wf_list_peek [of L h fl q "part' @ full"]
    by (auto simp: freelist_ok_def freelist_at_def)
qed

lemma core_live_finite: "sized_core L sinv view cap al a part full \<Longrightarrow> finite (sized_live view a)"
  unfolding sized_core_def sized_live_def using live_finite sinv_view view_dom by metis

lemma sized_take_core:
  assumes core: "sized_core L sinv view cap al a part full" and ne: "part @ full \<noteq> []"
    and rc: "sa_refcnt a = card (sized_live view a)"
  shows "\<exists>a' x part' full'. sized_take L S I a = Some (a', x) \<and> sized_core L sinv view cap al a' part' full'
    \<and> x \<notin> sized_live view a \<and> sized_live view a' = insert x (sized_live view a)
    \<and> sa_refcnt a' = sa_refcnt a + 1
    \<and> (ws_data (sa_working_set a) \<le> sa_num_full a \<longrightarrow> ws_data (sa_working_set a') \<le> sa_num_full a')"
proof -
  let ?h = "sa_heap a" and ?s = "sa_slab_system a"
  let ?v = "view ?h ?s"
  have inv: "sinv ?h ?s" and fl: "freelist_ok L (cap ?s) ?v ?h (sa_freelist a) part full"
    using core by (simp_all add: sized_core_def)
  note vok = sinv_view [OF inv]
  have "0 < cap ?s" using vok by (simp add: view_ok_def)
  then obtain q part' full' where at: "freelist_at L (cap ?s) ?v ?h (sa_freelist a) q part' full'"
    and q: "0 < n_avail ?v q" "peek_front (sa_freelist a) = Some q"
      "n_avail ?v q = cap ?s \<Longrightarrow> 0 < length full"
    and len: "length full' = length full - (if n_avail ?v q = cap ?s then 1 else 0)"
    using freelist_cases [OF fl ne] by metis
  obtain os av0 where "?v q = Some (os, av0)"
    using at by (auto simp: freelist_at_def)
  moreover obtain av x st where "av0 = av @ [(x, st)]"
    using q(1) calculation by (cases av0 rule: rev_cases) (auto simp: n_avail_def)
  ultimately have vq: "?v q = Some (os, av @ [(x, st)])" by simp
  have nq: "n_avail ?v q = Suc (length av)" by (simp add: n_avail_def vq)
  have lt: "length av < cap ?s" using view_okD(7) [OF vok vq] by simp
  obtain h1 where h1: "ss_alloc S ?h ?s q = Some (h1, x, st)" "sinv h1 ?s" "same_links L ?h h1"
    "view h1 ?s = ?v(q \<mapsto> (os, av))"
    using alloc [OF inv vq] by blast
  obtain h2 fl2 part2 where h2: "leave_freelist L (av = []) (sa_freelist a) h1 = Some (h2, fl2)"
    "sinv h2 ?s" "view h2 ?s = view h1 ?s" "freelist_ok L (cap ?s) (view h2 ?s) h2 fl2 part2 full'"
    using freelist_take [OF inv at vq lt h1(2-4)] by blast
  let ?nf = "length full'"
  let ?ws = "if Suc (length av) = cap ?s then update_min (sa_num_full a - 1) (sa_working_set a) else sa_working_set a"
  let ?a = "a\<lparr> sa_num_full := ?nf, sa_working_set := ?ws, sa_heap := h2, sa_freelist := fl2,
      sa_refcnt := sa_refcnt a + 1, sa_events := sa_events a @ is_init I x st \<rparr>"
  have nf: "sa_num_full a = length full" using core by (simp add: sized_core_def)
  have live: "sized_live view ?a = insert x (sized_live view a)" "x \<notin> sized_live view a"
    using live_take [OF vok vq] h2(3) h1(4) by (simp_all add: sized_live_def)
  have room: "sum_usize (sa_refcnt a) 1 = Some (sa_refcnt a + 1)"
    using live_room [OF sinv_view [OF h2(2)]] live core_live_finite [OF core] rc
    by (simp add: sum_usize_def sized_live_def)
  have al: "unat x mod lay_align (sa_layout a) = 0"
    using live_objD(2) [OF sinv_view [OF h2(2)], of x] live(1) core
    by (auto simp: sized_live_def sized_core_def intro: dvd_trans)
  have sub: "sub_usize (sa_num_full a) 1 = Some (sa_num_full a - 1)" if "n_avail ?v q = cap ?s"
    using q(3) [OF that] nf by (simp add: sub_usize_def Suc_le_eq)
  have "sized_take L S I a = Some (?a, x)"
    using is_full [OF inv vq] is_empty [OF h1(2), of q os av] h1(1,4) h2(1) q(2) len nq nf room al sub
    by (auto simp: sized_take_def Let_def)
  moreover have "dom h2 = dom ?h"
    using view_dom [OF h2(2)] view_dom [OF inv] h2(3) h1(4) domI [of ?v, OF vq] by (simp add: insert_absorb)
  moreover have "ws_data (sa_working_set a) \<le> sa_num_full a \<longrightarrow> ws_data ?ws \<le> ?nf"
    using nf len nq by (auto simp: update_min_data)
  ultimately show ?thesis
    using core h2(2,4) vq live
    by (intro exI [of _ ?a] exI [of _ x] exI [of _ part2] exI [of _ full']) (auto simp: sized_core_def)
qed

lemma core_size: "sized_core L sinv view cap al a part full \<Longrightarrow> ll_size (sa_freelist a) = length (part @ full)"
  unfolding sized_core_def using freelist_ok_size by blast

lemma sized_alloc_spec:
  assumes inv: "sized_inv L sinv view cap al a"
  shows "\<exists>a' r. sized_alloc L S I a = Some (a', r) \<and> sized_inv L sinv view cap al a'
    \<and> (case r of None \<Rightarrow> ll_size (sa_freelist a) = 0 \<and> sized_live view a' = sized_live view a
          \<and> sa_heap a' = sa_heap a
       | Some x \<Rightarrow> x \<notin> sized_live view a \<and> sized_live view a' = insert x (sized_live view a))"
proof -
  obtain part full where core: "sized_core L sinv view cap al a part full"
    and ws: "ws_data (sa_working_set a) \<le> sa_num_full a" and rc: "sa_refcnt a = card (sized_live view a)"
    using inv by (auto simp: sized_inv_def)
  have "\<exists>a1 ok full1. (if ll_size (sa_freelist a) = 0 then sized_alloc_slab L S a else Some (a, True)) = Some (a1, ok)
      \<and> sized_core L sinv view cap al a1 part full1 \<and> sized_live view a1 = sized_live view a
      \<and> sa_refcnt a1 = sa_refcnt a \<and> sa_working_set a1 = sa_working_set a \<and> length full \<le> length full1
      \<and> (if ok then part @ full1 \<noteq> [] else ll_size (sa_freelist a) = 0 \<and> sa_heap a1 = sa_heap a)"
  proof (cases "ll_size (sa_freelist a) = 0")
    case True
    then show ?thesis
      using sized_alloc_slab_core [OF core] by (force split: if_splits)
  next
    case False
    then show ?thesis
      using core core_size [OF core] by auto
  qed
  then obtain a1 ok full1 where a1: "(if ll_size (sa_freelist a) = 0 then sized_alloc_slab L S a else Some (a, True)) = Some (a1, ok)"
    and core1: "sized_core L sinv view cap al a1 part full1"
    and same: "sized_live view a1 = sized_live view a" "sa_refcnt a1 = sa_refcnt a"
      "sa_working_set a1 = sa_working_set a" "length full \<le> length full1"
    and ok: "if ok then part @ full1 \<noteq> [] else ll_size (sa_freelist a) = 0 \<and> sa_heap a1 = sa_heap a"
    by blast
  have ws1: "ws_data (sa_working_set a1) \<le> sa_num_full a1"
    using ws same core core1 by (simp add: sized_core_def)
  show ?thesis
  proof (cases ok)
    case False
    then show ?thesis
      using a1 core1 same ok ws1 rc
      by (intro exI [of _ a1] exI [of _ None]) (auto simp: sized_alloc_def sized_inv_def)
  next
    case True
    then have "part @ full1 \<noteq> []" using ok by simp
    then obtain a2 x part2 full2 where a2: "sized_take L S I a1 = Some (a2, x)"
      "sized_core L sinv view cap al a2 part2 full2" "x \<notin> sized_live view a1"
      "sized_live view a2 = insert x (sized_live view a1)" "sa_refcnt a2 = sa_refcnt a1 + 1"
      "ws_data (sa_working_set a1) \<le> sa_num_full a1 \<longrightarrow> ws_data (sa_working_set a2) \<le> sa_num_full a2"
      using sized_take_core [OF core1] same(1,2) rc by metis
    then show ?thesis
      using a1 True same rc ws1 core_live_finite [OF core1]
      by (intro exI [of _ a2] exI [of _ "Some x"]) (auto simp: sized_alloc_def sized_inv_def)
  qed
qed

text \<open>Returning full slabs from the back of the list.\<close>

lemma freelist_drop_last:
  assumes fl: "freelist_ok L n v h fl part (full @ [p])" and h2: "wf_list L h2 fl2 (part @ full)"
    and un: "\<And>q. q \<notin> set (part @ full @ [p]) \<Longrightarrow> h2 q = h q"
  shows "freelist_ok L n (v(p := None)) (h2(p := None)) fl2 part full"
proof -
  have p: "p \<notin> set (part @ full)"
    using fl by (auto simp: freelist_ok_def wf_list_def)
  then have "wf_list L (h2(p := None)) fl2 (part @ full)"
    using h2 by simp
  moreover have "unlinked L (h2(p := None)) q = unlinked L h q" if "q \<notin> set (part @ full)" "q \<noteq> p" for q
    using that un [of q] by (intro unlinked_cong) simp
  ultimately show ?thesis
    using fl p unfolding freelist_ok_def by auto
qed

lemma collect_slabs_core:
  assumes "sized_core L sinv view cap al a part full" "n \<le> length full"
  shows "\<exists>a'. collect_slabs L S n a = Some a' \<and> sized_core L sinv view cap al a' part (take (length full - n) full)
    \<and> sized_live view a' = sized_live view a \<and> sa_refcnt a' = sa_refcnt a
    \<and> sa_working_set a' = sa_working_set a"
  using assms
proof (induction n arbitrary: a full)
  case 0
  then show ?case by simp
next
  case (Suc n)
  obtain full0 p where full: "full = full0 @ [p]"
    using Suc.prems(2) by (cases full rule: rev_cases) auto
  let ?h = "sa_heap a" and ?s = "sa_slab_system a"
  let ?v = "view ?h ?s"
  have inv: "sinv ?h ?s" and fl: "freelist_ok L (cap ?s) ?v ?h (sa_freelist a) part (full0 @ [p])"
    using Suc.prems(1) full by (simp_all add: sized_core_def)
  obtain h1 fl1 where rm: "remove_back L (sa_freelist a) ?h = Some (h1, fl1, p)"
    "wf_list L h1 fl1 (part @ full0)" "same_payload pay (set ((part @ full0) @ [p])) ?h h1"
    using remove_back_wf [of ?h "sa_freelist a" "part @ full0" p] freelist_ok_wf [OF fl] by auto
  have h1: "sinv h1 ?s" "view h1 ?s = ?v"
    using relink [OF inv rm(3)] by simp_all
  have "p \<in> dom ?v" "n_avail ?v p = cap ?s"
    using fl by (auto simp: freelist_ok_def)
  then obtain os av where vp: "?v p = Some (os, av)" "length av = cap ?s"
    by (auto simp: n_avail_def)
  obtain s2 where d: "ss_dealloc_slab S h1 ?s p =
      Some (h1(p := None), s2, concat (map (\<lambda>(x, st). is_drop I x st) (rev av)))"
    "sinv (h1(p := None)) s2" "cap s2 = cap ?s" "view (h1(p := None)) s2 = ?v(p := None)"
    using dealloc_slab [OF h1(1), of p os av] h1(2) vp by auto
  let ?a = "a\<lparr> sa_heap := h1(p := None), sa_freelist := fl1, sa_slab_system := s2,
      sa_total_slabs := sa_total_slabs a - 1, sa_num_full := sa_num_full a - 1,
      sa_events := sa_events a @ concat (map (\<lambda>(x, st). is_drop I x st) (rev av)) \<rparr>"
  have "freelist_ok L (cap s2) (?v(p := None)) (h1(p := None)) fl1 part full0"
    using freelist_drop_last [OF fl rm(2)] rm(3) d(3) by (simp add: same_payload_def)
  moreover have dom: "dom (h1(p := None)) = dom ?h - {p}" "p \<in> dom ?h"
    using same_payload_dom [OF rm(3)] domI [of ?v, OF vp(1)] view_dom [OF inv] by auto
  moreover have sub: "sub_usize (sa_total_slabs a) 1 = Some (sa_total_slabs a - 1)"
      "sub_usize (sa_num_full a) 1 = Some (sa_num_full a - 1)"
  proof -
    have "0 < card (dom ?h)" using dom(2) Suc.prems(1) by (auto simp: sized_core_def card_gt_0_iff)
    then show "sub_usize (sa_total_slabs a) 1 = Some (sa_total_slabs a - 1)"
      "sub_usize (sa_num_full a) 1 = Some (sa_num_full a - 1)"
      using Suc.prems(1) full by (simp_all add: sub_usize_def sized_core_def)
  qed
  ultimately have "sized_core L sinv view cap al ?a part full0"
    using Suc.prems(1) d full by (simp add: sized_core_def)
  moreover have "sized_live view ?a = sized_live view a"
    using live_full_slab [OF sinv_view [OF inv] vp] d(4) by (simp add: sized_live_def)
  ultimately show ?case
    using Suc.IH [of ?a full0] Suc.prems(2) rm(1) d(1) full sub by auto
qed

lemma gc_spec:
  assumes core: "sized_core L sinv view cap al a part full" and ws: "ws_data (sa_working_set a) \<le> sa_num_full a"
    and now: "ws_period_begin (sa_working_set a) \<le> now"
  shows "\<exists>a' full'. garbage_collect_slabs L S now a = Some a' \<and> sized_core L sinv view cap al a' part full'
    \<and> ws_data (sa_working_set a') \<le> sa_num_full a' \<and> ws_period_begin (sa_working_set a') \<le> now
    \<and> sized_live view a' = sized_live view a \<and> sa_refcnt a' = sa_refcnt a"
proof -
  obtain ws1 r where r: "refresh_now working_period_seconds now (sa_working_set a) = Some (ws1, r)"
    "ws_data ws1 = ws_data (sa_working_set a)" "ws_period_begin ws1 \<le> now"
    "r = None \<or> r = Some (ws_data (sa_working_set a))"
    using refresh_now_total [OF now] by blast
  let ?a = "a\<lparr> sa_working_set := ws1 \<rparr>"
  have core1: "sized_core L sinv view cap al ?a part full"
    using core by (simp add: sized_core_def)
  show ?thesis
  proof (cases r)
    case None
    then show ?thesis
      using r core1 ws
      by (intro exI [of _ ?a] exI [of _ full]) (simp add: garbage_collect_slabs_def sized_live_def Let_def)
  next
    case (Some m)
    then have "m \<le> length full"
      using r(4) ws core by (simp add: sized_core_def)
    then obtain a2 where a2: "collect_slabs L S m ?a = Some a2"
      "sized_core L sinv view cap al a2 part (take (length full - m) full)"
      "sized_live view a2 = sized_live view ?a" "sa_refcnt a2 = sa_refcnt ?a" "sa_working_set a2 = ws1"
      using collect_slabs_core [OF core1] by fastforce
    then show ?thesis
      using r Some
      by (intro exI [of _ "a2\<lparr> sa_working_set := working_set_set (sa_num_full a2) (sa_working_set a2) \<rparr>"]
          exI [of _ "take (length full - m) full"])
        (simp add: garbage_collect_slabs_def sized_live_def working_set_set_def sized_core_def Let_def)
  qed
qed

text \<open>Giving an object back: slab \<open>p\<close> had the free objects \<open>av\<close> and now has one more.
  The four cases of the \<open>match\<close>, on the list alone.\<close>

lemma give_frame:
  assumes "same_links L h h1" "same_payload pay X h1 h2" "q \<notin> X"
  shows "unlinked L h2 q = unlinked L h q"
  using assms same_links_unlinked [OF assms(1), of q] unlinked_cong [of h2 q h1 L]
  by (simp add: same_payload_def)

lemma give_outside:
  assumes fl: "freelist_ok L n v h fl part full" and v: "v p = Some (os, [])" "0 < n"
    and h1: "same_links L h h1"
  shows "p \<notin> set (part @ full)" "unlinked L h1 p" "wf_list L h1 fl (part @ full)"
proof -
  show out: "p \<notin> set (part @ full)"
    using fl v by (force simp: freelist_ok_def n_avail_def)
  then show "unlinked L h1 p" "wf_list L h1 fl (part @ full)"
    using fl domI [of v, OF v(1)] same_links_unlinked [OF h1] same_links_wf_list [OF h1]
    by (auto simp: freelist_ok_def)
qed

lemma give_to_back:
  assumes fl: "freelist_ok L n v h fl part full" and v: "v p = Some (os, [])" "n = 1"
    and h1: "same_links L h h1"
  shows "\<exists>h2 fl2. insert_back L fl p h1 = Some (h2, fl2) \<and> same_payload pay (set (part @ full @ [p])) h1 h2
    \<and> freelist_ok L n (v(p \<mapsto> (os, [y]))) h2 fl2 part (full @ [p])"
proof -
  note out = give_outside [OF fl v(1) _ h1]
  obtain h2 fl2 where h2: "insert_back L fl p h1 = Some (h2, fl2)" "wf_list L h2 fl2 ((part @ full) @ [p])"
    "same_payload pay (set ((part @ full) @ [p])) h1 h2"
    using insert_back_wf [OF out(3,2,1)] v(2) by auto
  have "part = []"
    using fl v(2) by (cases part) (auto simp: freelist_ok_def)
  then have "freelist_ok L n (v(p \<mapsto> (os, [y]))) h2 fl2 part (full @ [p])"
    using fl h2(2) out(1) v(2) give_frame [OF h1 h2(3)] unfolding freelist_ok_def by auto
  then show ?thesis using h2 by auto
qed

lemma give_to_front:
  assumes fl: "freelist_ok L n v h fl part full" and v: "v p = Some (os, [])" "1 < n"
    and h1: "same_links L h h1"
  shows "\<exists>h2 fl2. insert_front L fl p h1 = Some (h2, fl2) \<and> same_payload pay (set (p # part @ full)) h1 h2
    \<and> freelist_ok L n (v(p \<mapsto> (os, [y]))) h2 fl2 (p # part) full"
proof -
  note out = give_outside [OF fl v(1) _ h1]
  obtain h2 fl2 where h2: "insert_front L fl p h1 = Some (h2, fl2)" "wf_list L h2 fl2 (p # part @ full)"
    "same_payload pay (set (p # part @ full)) h1 h2"
    using insert_front_wf [OF out(3,2,1)] v(2) by auto
  have "freelist_ok L n (v(p \<mapsto> (os, [y]))) h2 fl2 (p # part) full"
    using fl h2(2) out(1) v(2) give_frame [OF h1 h2(3)] unfolding freelist_ok_def by auto
  then show ?thesis using h2 by auto
qed

lemma give_inside:
  assumes fl: "freelist_ok L n v h fl part full" and v: "v p = Some (os, av)" "av \<noteq> []" "length av < n"
  obtains as bs where "part = as @ p # bs" "p \<notin> set as" "p \<notin> set bs" "p \<notin> set full"
proof -
  have "n_avail v p \<noteq> 0" "n_avail v p \<noteq> n" "p \<in> dom v" using v by (auto simp: n_avail_def)
  then have "p \<in> set part"
    using fl unfolding freelist_ok_def by (metis Diff_iff Un_iff set_append)
  then obtain as bs where "part = as @ p # bs" by (meson split_list)
  then show thesis
    using that fl by (auto simp: freelist_ok_def wf_list_def)
qed

lemma give_move:
  assumes fl: "freelist_ok L n v h fl part full" and v: "v p = Some (os, av)" "av \<noteq> []" "Suc (length av) = n"
    and h1: "same_links L h h1"
  shows "\<exists>h2 fl2 part2 X. move_to_back L fl p h1 = Some (h2, fl2) \<and> same_payload pay X h1 h2
    \<and> freelist_ok L n (v(p \<mapsto> (os, av @ [y]))) h2 fl2 part2 (full @ [p])"
proof -
  obtain as bs where part: "part = as @ p # bs" and px: "p \<notin> set as" "p \<notin> set bs" "p \<notin> set full"
    using give_inside [OF fl v(1,2)] v(3) by auto
  obtain h2 fl2 where h2: "move_to_back L fl p h1 = Some (h2, fl2)"
    "wf_list L h2 fl2 (as @ (bs @ full) @ [p])" "same_payload pay (set (as @ p # bs @ full)) h1 h2"
    using move_to_back_wf [of h1 fl as p "bs @ full"] fl part same_links_wf_list [OF h1]
    by (auto simp: freelist_ok_def)
  have "freelist_ok L n (v(p \<mapsto> (os, av @ [y]))) h2 fl2 (as @ bs) (full @ [p])"
    using fl h2(2) px v(3) part give_frame [OF h1 h2(3)] unfolding freelist_ok_def by auto
  then show ?thesis using h2 by auto
qed

lemma give_stay:
  assumes fl: "freelist_ok L n v h fl part full" and v: "v p = Some (os, av)" "av \<noteq> []" "Suc (length av) < n"
    and h1: "same_links L h h1"
  shows "freelist_ok L n (v(p \<mapsto> (os, av @ [y]))) h1 fl part full"
proof -
  obtain as bs where part: "part = as @ p # bs" and px: "p \<notin> set as" "p \<notin> set bs" "p \<notin> set full"
    using give_inside [OF fl v(1,2)] v(3) by auto
  then show ?thesis
    using fl v(3) same_links_wf_list [OF h1] same_links_unlinked [OF h1] unfolding freelist_ok_def by auto
qed

lemma relist_freelist:
  assumes fl: "freelist_ok L n v (h :: 'n heap) (sa_freelist a) part full" and v: "v p = Some (os, av)" "length av < n"
    and h1: "same_links L h (sa_heap a)" and nf: "sa_num_full a = length full"
  shows "\<exists>h2 fl2 part2 full2 X. relist L (av = []) (Suc (length av) = n) p a
      = Some (a\<lparr> sa_heap := h2, sa_freelist := fl2, sa_num_full := length full2 \<rparr>)
    \<and> same_payload pay X (sa_heap a) h2 \<and> freelist_ok L n (v(p \<mapsto> (os, av @ [y]))) h2 fl2 part2 full2
    \<and> length full \<le> length full2"
proof (cases "av = []"; cases "Suc (length av) = n")
  assume c: "av = []" "Suc (length av) = n"
  then obtain h2 fl2 where "insert_back L (sa_freelist a) p (sa_heap a) = Some (h2, fl2)"
    "same_payload pay (set (part @ full @ [p])) (sa_heap a) h2"
    "freelist_ok L n (v(p \<mapsto> (os, [y]))) h2 fl2 part (full @ [p])"
    using give_to_back [OF fl _ _ h1, of p os y] v(1) by auto
  moreover from this(3) have "sum_usize (length full) 1 = Some (length full + 1)"
    using freelist_room by (fastforce simp: sum_usize_def)
  ultimately show ?thesis
    using c nf by (intro exI [of _ h2] exI [of _ fl2] exI [of _ part] exI [of _ "full @ [p]"]
        exI [of _ "set (part @ full @ [p])"]) (simp add: relist_def)
next
  assume c: "av = []" "Suc (length av) \<noteq> n"
  then obtain h2 fl2 where "insert_front L (sa_freelist a) p (sa_heap a) = Some (h2, fl2)"
    "same_payload pay (set (p # part @ full)) (sa_heap a) h2"
    "freelist_ok L n (v(p \<mapsto> (os, [y]))) h2 fl2 (p # part) full"
    using give_to_front [OF fl _ _ h1, of p os y] v by auto
  then show ?thesis
    using c nf by (intro exI [of _ h2] exI [of _ fl2] exI [of _ "p # part"] exI [of _ full]
        exI [of _ "set (p # part @ full)"]) (simp add: relist_def)
next
  assume c: "av \<noteq> []" "Suc (length av) = n"
  then obtain h2 fl2 part2 X where "move_to_back L (sa_freelist a) p (sa_heap a) = Some (h2, fl2)"
    "same_payload pay X (sa_heap a) h2"
    "freelist_ok L n (v(p \<mapsto> (os, av @ [y]))) h2 fl2 part2 (full @ [p])"
    using give_move [OF fl v(1) _ _ h1, of y] by blast
  moreover from this(3) have "sum_usize (length full) 1 = Some (length full + 1)"
    using freelist_room by (fastforce simp: sum_usize_def)
  ultimately show ?thesis
    using c nf by (intro exI [of _ h2] exI [of _ fl2] exI [of _ part2] exI [of _ "full @ [p]"]
        exI [of _ X]) (simp add: relist_def)
next
  assume c: "av \<noteq> []" "Suc (length av) \<noteq> n"
  then have "relist L (av = []) (Suc (length av) = n) p a
      = Some (a\<lparr> sa_heap := sa_heap a, sa_freelist := sa_freelist a, sa_num_full := length full \<rparr>)"
    using nf by (simp add: relist_def)
  then show ?thesis
    using give_stay [OF fl v(1) c(1) _ h1, of y] c v(2) same_payload_refl [of pay "{}" "sa_heap a"]
    by (metis Suc_leI le_neq_implies_less order_refl)
qed

lemma sized_dealloc_spec:
  assumes inv: "sized_inv L sinv view cap al a" and x: "x \<in> sized_live view a"
    and now: "ws_period_begin (sa_working_set a) \<le> now"
  shows "\<exists>a'. sized_dealloc L S I now a x = Some a' \<and> sized_inv L sinv view cap al a'
    \<and> sized_live view a' = sized_live view a - {x} \<and> ws_period_begin (sa_working_set a') \<le> now"
proof -
  let ?h = "sa_heap a" and ?s = "sa_slab_system a"
  let ?v = "view ?h ?s"
  obtain part full where core: "sized_core L sinv view cap al a part full"
    and ws: "ws_data (sa_working_set a) \<le> sa_num_full a" and rc: "sa_refcnt a = card (sized_live view a)"
    using inv by (auto simp: sized_inv_def)
  have si: "sinv ?h ?s" and fl: "freelist_ok L (cap ?s) ?v ?h (sa_freelist a) part full"
    and nf: "sa_num_full a = length full"
    using core by (simp_all add: sized_core_def)
  note vok = sinv_view [OF si]
  obtain p os av where p: "?v p = Some (os, av)" "x \<in> os" "x \<notin> fst ` set av"
    using x by (auto simp: sized_live_def elim: live_mem)
  let ?y = "(x, is_status_initialized I)"
  obtain h1 s1 where d: "ss_dealloc S ?h ?s x (is_status_initialized I) = Some (h1, s1, p, av = [])"
    "sinv h1 s1" "cap s1 = cap ?s" "same_links L ?h h1" "view h1 s1 = ?v(p \<mapsto> (os, av @ [?y]))"
    using dealloc [OF si p] by blast
  have fullflag: "ss_is_full S h1 s1 p = Some (Suc (length av) = cap ?s)"
    using is_full [OF d(2), of p os "av @ [?y]"] d(3,5) by simp
  let ?a1 = "a\<lparr> sa_heap := h1, sa_slab_system := s1 \<rparr>"
  obtain h2 fl2 part2 full2 X where r: "relist L (av = []) (Suc (length av) = cap ?s) p ?a1
      = Some (?a1\<lparr> sa_heap := h2, sa_freelist := fl2, sa_num_full := length full2 \<rparr>)"
    "same_payload pay X h1 h2" "freelist_ok L (cap ?s) (?v(p \<mapsto> (os, av @ [?y]))) h2 fl2 part2 full2"
    "length full \<le> length full2"
    using relist_freelist [of "cap ?s" ?v ?h ?a1 part full p os av ?y] fl p(1) view_ok_lt [OF vok p] d(4) nf
    by auto
  let ?a2 = "?a1\<lparr> sa_heap := h2, sa_freelist := fl2, sa_num_full := length full2 \<rparr>"
  have h2: "sinv h2 s1" "view h2 s1 = ?v(p \<mapsto> (os, av @ [?y]))" "dom h2 = dom ?h"
    using relink [OF d(2) r(2)] d(5) same_payload_dom [OF r(2)] same_links_dom [OF d(4)] by simp_all
  have core2: "sized_core L sinv view cap al ?a2 part2 full2" and ws2: "ws_data (sa_working_set ?a2) \<le> sa_num_full ?a2"
    using core h2 r(3,4) d(3) ws nf by (simp_all add: sized_core_def)
  have live2: "sized_live view ?a2 = sized_live view a - {x}"
    using live_give [OF vok p(1,2)] h2(2) by (simp add: sized_live_def)
  have "\<exists>a3 full3. (if Suc (length av) = cap ?s then garbage_collect_slabs L S now ?a2 else Some ?a2) = Some a3
      \<and> sized_core L sinv view cap al a3 part2 full3 \<and> ws_data (sa_working_set a3) \<le> sa_num_full a3
      \<and> ws_period_begin (sa_working_set a3) \<le> now
      \<and> sized_live view a3 = sized_live view ?a2 \<and> sa_refcnt a3 = sa_refcnt ?a2"
    using gc_spec [OF core2 ws2] core2 ws2 now by (cases "Suc (length av) = cap ?s") auto
  then obtain a3 full3 where a3: "(if Suc (length av) = cap ?s then garbage_collect_slabs L S now ?a2 else Some ?a2) = Some a3"
    and core3: "sized_core L sinv view cap al a3 part2 full3"
    and rest: "ws_data (sa_working_set a3) \<le> sa_num_full a3" "ws_period_begin (sa_working_set a3) \<le> now"
      "sized_live view a3 = sized_live view ?a2" "sa_refcnt a3 = sa_refcnt ?a2"
    by blast
  let ?a4 = "a3\<lparr> sa_refcnt := sa_refcnt a3 - 1 \<rparr>"
  have "0 < card (sized_live view a)" using x core_live_finite [OF core] by (auto simp: card_gt_0_iff)
  then have sub: "sub_usize (sa_refcnt a3) 1 = Some (sa_refcnt a3 - 1)" using rest(4) rc by (simp add: sub_usize_def)
  have al: "unat x mod lay_align (sa_layout a) = 0"
    using live_objD(2) [OF vok, of x] x core by (auto simp: sized_live_def sized_core_def intro: dvd_trans)
  have "sized_dealloc L S I now a x = Some ?a4"
    unfolding sized_dealloc_def using d(1) fullflag r(1) a3 sub al
    by (cases "Suc (length av) = cap ?s") auto
  moreover have "sized_live view ?a4 = sized_live view a - {x}"
    using rest(3) live2 by (simp add: sized_live_def)
  moreover have "sized_core L sinv view cap al ?a4 part2 full3"
    using core3 by (simp add: sized_core_def)
  moreover have "card (sized_live view a - {x}) = sa_refcnt a - 1"
    using card_Diff_singleton [OF x] rc by simp
  ultimately show ?thesis
    using rest by (auto simp: sized_inv_def)
qed

text \<open>Dropping an allocator without live objects: every slab is full, so the free list
  holds them all, and the loop returns every one.\<close>

lemma no_live_full:
  assumes core: "sized_core L sinv view cap al a part full" and none: "sized_live view a = {}"
  shows "part = []" "set full = dom (sa_heap a)"
proof -
  let ?v = "view (sa_heap a) (sa_slab_system a)" and ?n = "cap (sa_slab_system a)"
  have inv: "sinv (sa_heap a) (sa_slab_system a)"
    and fl: "freelist_ok L ?n ?v (sa_heap a) (sa_freelist a) part full"
    using core by (simp_all add: sized_core_def)
  note vok = sinv_view [OF inv]
  have all: "n_avail ?v p = ?n" if "p \<in> dom ?v" for p
  proof -
    obtain os av where p: "?v p = Some (os, av)" using \<open>p \<in> dom ?v\<close> by auto
    then have "os \<subseteq> fst ` set av"
      using none live_split [of ?v p, OF p] by (auto simp: sized_live_def)
    then have "fst ` set av = os" using view_okD(6) [OF vok p] by blast
    then have "length av = ?n"
      using distinct_card [OF view_okD(5) [OF vok p]] view_okD(4) [OF vok p] by simp
    then show ?thesis by (simp add: n_avail_def p)
  qed
  have n: "0 < ?n" using vok by (simp add: view_ok_def)
  show "part = []" "set full = dom (sa_heap a)"
    using freelist_all_full [OF fl _ n] all view_dom [OF inv] by simp_all
qed

lemma drop_loop_spec:
  assumes "sinv (sa_heap a) (sa_slab_system a)" "set full = dom (sa_heap a)"
    "freelist_ok L (cap (sa_slab_system a)) (view (sa_heap a) (sa_slab_system a)) (sa_heap a) (sa_freelist a) [] full"
  shows "\<exists>a'. drop_loop L S a = Some a' \<and> sa_heap a' = Map.empty \<and> ll_size (sa_freelist a') = 0
    \<and> sinv Map.empty (sa_slab_system a')"
  using assms
proof (induction full arbitrary: a)
  case Nil
  then have "sa_heap a = Map.empty" "ll_size (sa_freelist a) = 0"
    using freelist_ok_size [OF Nil.prems(3)] by auto
  then show ?case
    using Nil.prems(1) by (subst drop_loop.simps) simp
next
  case (Cons p full)
  let ?h = "sa_heap a" and ?s = "sa_slab_system a"
  let ?v = "view ?h ?s"
  note inv = Cons.prems(1) and fl = Cons.prems(3)
  obtain h1 fl1 where rm: "remove_front L (sa_freelist a) ?h = Some (h1, fl1, p)"
    "wf_list L h1 fl1 full" "same_payload pay (set (p # full)) ?h h1"
    using remove_front_wf [of ?h "sa_freelist a" p full] freelist_ok_wf [OF fl] by auto
  have h1: "sinv h1 ?s" "view h1 ?s = ?v"
    using relink [OF inv rm(3)] by simp_all
  have "p \<in> dom ?v" "n_avail ?v p = cap ?s"
    using fl by (auto simp: freelist_ok_def)
  then obtain os av where vp: "?v p = Some (os, av)" "length av = cap ?s"
    by (auto simp: n_avail_def)
  obtain s2 where d: "ss_dealloc_slab S h1 ?s p =
      Some (h1(p := None), s2, concat (map (\<lambda>(x, st). is_drop I x st) (rev av)))"
    "sinv (h1(p := None)) s2" "cap s2 = cap ?s" "view (h1(p := None)) s2 = ?v(p := None)"
    using dealloc_slab [OF h1(1), of p os av] h1(2) vp by auto
  let ?a = "a\<lparr> sa_heap := h1(p := None), sa_freelist := fl1, sa_slab_system := s2,
      sa_events := sa_events a @ concat (map (\<lambda>(x, st). is_drop I x st) (rev av)) \<rparr>"
  have p: "p \<notin> set full"
    using freelist_ok_wf [OF fl] by (auto simp: wf_list_def)
  then have dom: "dom (h1(p := None)) = set full"
    using same_payload_dom [OF rm(3)] Cons.prems(2) by auto
  have fl1: "freelist_ok L (cap s2) (?v(p := None)) (h1(p := None)) fl1 [] full"
    using fl rm(2) p d(3) view_dom [OF inv] Cons.prems(2) unfolding freelist_ok_def by auto
  have "drop_loop L S a = drop_loop L S ?a"
    using rm(1) d(1) freelist_ok_size [OF fl] by (subst drop_loop.simps) simp
  moreover have "\<exists>a'. drop_loop L S ?a = Some a' \<and> sa_heap a' = Map.empty \<and> ll_size (sa_freelist a') = 0
      \<and> sinv Map.empty (sa_slab_system a')"
    by (rule Cons.IH) (use d dom fl1 in \<open>simp_all del: fun_upd_apply\<close>)
  ultimately show ?case by simp
qed

lemma sized_drop_spec:
  assumes inv: "sized_inv L sinv view cap al a" and none: "sized_live view a = {}"
  shows "\<exists>a'. sized_drop L S panicking a = Some a' \<and> sa_heap a' = Map.empty
    \<and> sinv Map.empty (sa_slab_system a')"
proof -
  obtain part full where core: "sized_core L sinv view cap al a part full" and "sa_refcnt a = 0"
    using inv none by (auto simp: sized_inv_def)
  moreover note full = no_live_full [OF core none]
  ultimately show ?thesis
    using drop_loop_spec [of a full] by (auto simp: sized_core_def sized_drop_def)
qed

text \<open>With live objects \<open>drop\<close> panics.\<close>

lemma sized_drop_live:
  assumes inv: "sized_inv L sinv view cap al a" and live: "sized_live view a \<noteq> {}"
  shows "sized_drop L S False a = None"
proof -
  obtain part full where "sized_core L sinv view cap al a part full" "sa_refcnt a = card (sized_live view a)"
    using inv by (auto simp: sized_inv_def)
  then show ?thesis
    using core_live_finite live by (auto simp: sized_drop_def)
qed

end

end
