(* ===== verification/Slab_Config.thy ===== *)
theory Slab_Config
  imports Stack_System Ptr_Map Sized_Slab
begin

text \<open>
  The two implementations of \<open>stack::ConfigData\<close>: \<open>slab-alloc/src/aligned.rs\<close> finds the
  slab of an object by masking its address, \<open>slab-alloc/src/large.rs\<close> looks it up in a
  pointer map keyed by page or by object.  Both are interpreted in the locale
  \<open>config_data\<close>.  The theory also has the constructors of both systems and the choice of
  the slab size, and shows that this choice always ends with a usable size.  The page size
  is the parameter \<open>pg\<close>, which stands for \<open>sysconf::page::pagesize\<close>.
\<close>

subsection \<open>Aligned slabs\<close>

datatype aligned_data = AlignedData

definition aligned_ptr_to_slab :: "aligned_data \<Rightarrow> nat \<Rightarrow> ptr \<Rightarrow> ptr option" where
  "aligned_ptr_to_slab d slab_size p =
     (let slab = p AND NOT (of_nat slab_size - 1)
      in if unat slab mod slab_size = 0 then Some slab else None)"

text \<open>The default methods of the trait do nothing.\<close>

definition default_post_alloc :: "'c \<Rightarrow> slab_layout \<Rightarrow> nat \<Rightarrow> slab_header heap \<Rightarrow> ptr \<Rightarrow> 'c option" where
  "default_post_alloc d sl slab_size h slab = Some d"

definition default_pre_dealloc :: "'c \<Rightarrow> slab_layout \<Rightarrow> nat \<Rightarrow> slab_header heap \<Rightarrow> ptr \<Rightarrow> 'c option" where
  "default_pre_dealloc d sl slab_size h slab = Some d"

definition aligned_ops :: "aligned_data config_ops" where
  "aligned_ops =
     \<lparr> cd_post_alloc = default_post_alloc, cd_pre_dealloc = default_pre_dealloc,
       cd_ptr_to_slab = aligned_ptr_to_slab \<rparr>"

text \<open>The outer option is a panic, the inner one the result of \<open>System::new\<close>.\<close>

definition aligned_system_new ::
  "'b untyped_object_alloc \<Rightarrow> layout \<Rightarrow> 'b \<Rightarrow> word_mem \<Rightarrow> (aligned_data, 'b) system option option" where
  "aligned_system_new B l a mem = do {
     r \<leftarrow> for_slab_size l (lay_size (oa_layout B a));
     Some (case r of
        Some (sl, _) \<Rightarrow> Some (from_config_data AlignedData sl a mem)
      | None \<Rightarrow> None) }"

subsection \<open>Large slabs\<close>

text \<open>\<open>util::ptrmap::Map\<close>, in the two versions the feature \<open>use-stdlib-hashmap\<close> selects.\<close>

record 'm map_ops =
  mo_new :: "nat \<Rightarrow> nat \<Rightarrow> 'm option"
  mo_get :: "'m \<Rightarrow> ptr \<Rightarrow> ptr option"
  mo_insert :: "'m \<Rightarrow> ptr \<Rightarrow> ptr \<Rightarrow> 'm option"
  mo_delete :: "'m \<Rightarrow> ptr \<Rightarrow> 'm option"

definition optimized_map :: "ptr_hash_map map_ops" where
  "optimized_map = \<lparr> mo_new = ptr_hash_map_new, mo_get = pm_get, mo_insert = pm_insert, mo_delete = pm_delete \<rparr>"

definition stdlib_map :: "std_map map_ops" where
  "stdlib_map = \<lparr> mo_new = (\<lambda>_ _. Some Map.empty), mo_get = std_get, mo_insert = std_insert,
     mo_delete = std_delete \<rparr>"

record 'm large_data =
  lg_map :: 'm
  lg_map_by_page_addr :: bool

definition page_align_mask :: "nat \<Rightarrow> usize" where
  "page_align_mask pg = NOT (of_nat pg - 1)"

text \<open>The key of iteration \<open>i\<close>: the address of a page, with the assertion on it and the panic on
  overflow, or of an object, with the colour read from the header.\<close>

definition page_key :: "nat \<Rightarrow> ptr \<Rightarrow> nat \<Rightarrow> ptr option" where
  "page_key pg slab i =
     (let page_ptr = offset slab (i * pg)
      in if unat slab + i * pg < 2 ^ 64 \<and> unat page_ptr mod pg = 0 then Some page_ptr else None)"

definition obj_key :: "slab_layout \<Rightarrow> slab_header heap \<Rightarrow> ptr \<Rightarrow> nat \<Rightarrow> ptr option" where
  "obj_key sl h slab i = do { hdr \<leftarrow> h slab; checked_nth_obj sl slab (sh_color hdr) i }"

fun insert_keys ::
  "('m \<Rightarrow> ptr \<Rightarrow> ptr \<Rightarrow> 'm option) \<Rightarrow> (nat \<Rightarrow> ptr option) \<Rightarrow> ptr \<Rightarrow> nat list \<Rightarrow> 'm \<Rightarrow> 'm option" where
  "insert_keys ins key slab [] m = Some m"
| "insert_keys ins key slab (i # is) m =
     do { k \<leftarrow> key i; m' \<leftarrow> ins m k slab; insert_keys ins key slab is m' }"

fun delete_keys ::
  "('m \<Rightarrow> ptr \<Rightarrow> 'm option) \<Rightarrow> (nat \<Rightarrow> ptr option) \<Rightarrow> nat list \<Rightarrow> 'm \<Rightarrow> 'm option" where
  "delete_keys del key [] m = Some m"
| "delete_keys del key (i # is) m =
     do { k \<leftarrow> key i; m' \<leftarrow> del m k; delete_keys del key is m' }"

definition large_post_alloc ::
  "'m map_ops \<Rightarrow> nat \<Rightarrow> 'm large_data \<Rightarrow> slab_layout \<Rightarrow> nat \<Rightarrow> slab_header heap \<Rightarrow> ptr \<Rightarrow> 'm large_data option" where
  "large_post_alloc mo pg d sl slab_size h slab =
     map_option (\<lambda>m. d\<lparr> lg_map := m \<rparr>)
       (if lg_map_by_page_addr d
        then insert_keys (mo_insert mo) (page_key pg slab) slab [0 ..< slab_size div pg] (lg_map d)
        else insert_keys (mo_insert mo) (obj_key sl h slab) slab [0 ..< sl_num_obj sl] (lg_map d))"

definition large_pre_dealloc ::
  "'m map_ops \<Rightarrow> nat \<Rightarrow> 'm large_data \<Rightarrow> slab_layout \<Rightarrow> nat \<Rightarrow> slab_header heap \<Rightarrow> ptr \<Rightarrow> 'm large_data option" where
  "large_pre_dealloc mo pg d sl slab_size h slab =
     map_option (\<lambda>m. d\<lparr> lg_map := m \<rparr>)
       (if lg_map_by_page_addr d
        then delete_keys (mo_delete mo) (page_key pg slab) [0 ..< slab_size div pg] (lg_map d)
        else delete_keys (mo_delete mo) (obj_key sl h slab) [0 ..< sl_num_obj sl] (lg_map d))"

definition large_ptr_to_slab :: "'m map_ops \<Rightarrow> nat \<Rightarrow> 'm large_data \<Rightarrow> nat \<Rightarrow> ptr \<Rightarrow> ptr option" where
  "large_ptr_to_slab mo pg d slab_size p =
     (if lg_map_by_page_addr d then mo_get mo (lg_map d) (p AND page_align_mask pg)
      else mo_get mo (lg_map d) p)"

definition large_ops :: "'m map_ops \<Rightarrow> nat \<Rightarrow> 'm large_data config_ops" where
  "large_ops mo pg =
     \<lparr> cd_post_alloc = large_post_alloc mo pg, cd_pre_dealloc = large_pre_dealloc mo pg,
       cd_ptr_to_slab = large_ptr_to_slab mo pg \<rparr>"

definition default_map_size :: nat where
  "default_map_size = 256"

text \<open>As above; \<open>next_power_of_two\<close> panics where the power does not fit into a \<open>usize\<close>.\<close>

definition large_system_new ::
  "'m map_ops \<Rightarrow> nat \<Rightarrow> 'b untyped_object_alloc \<Rightarrow> layout \<Rightarrow> 'b \<Rightarrow> word_mem
    \<Rightarrow> ('m large_data, 'b) system option option" where
  "large_system_new mo pg B l a mem = do {
     r \<leftarrow> for_slab_size l (lay_size (oa_layout B a));
     (case r of
        Some (sl, _) \<Rightarrow> do {
          let by_page = lay_size l < pg;
          map_key_align \<leftarrow>
            (if by_page then Some pg
             else if lay_size l \<le> 2 ^ 63 then Some (next_power_of_two (lay_size l)) else None);
          m \<leftarrow> mo_new mo default_map_size map_key_align;
          Some (Some (from_config_data \<lparr> lg_map = m, lg_map_by_page_addr = by_page \<rparr> sl a mem)) }
      | None \<Rightarrow> Some None) }"

subsection \<open>The choice of the slab size\<close>

text \<open>\<open>PowerOfTwoIterator\<close> and \<open>PageIterator\<close>; a \<open>usize\<close> is a number below \<open>2^64\<close>.\<close>

definition power_of_two_next :: "nat \<Rightarrow> (nat \<times> nat) option" where
  "power_of_two_next s =
     (if 2 * s mod 2 ^ 64 = 0 then None else Some (2 * s mod 2 ^ 64, 2 * s mod 2 ^ 64))"

definition page_next :: "nat \<Rightarrow> nat \<Rightarrow> (nat \<times> nat) option" where
  "page_next pg s = (let nx = (s + pg) mod 2 ^ 64 in if nx > s then Some (nx, nx) else None)"

definition checked_unused :: "layout \<Rightarrow> nat \<Rightarrow> (nat \<times> nat) option option" where
  "checked_unused l slab_size =
     map_option (map_option (\<lambda>(sl, u). (sl_num_obj sl, u))) (for_slab_size l slab_size)"

definition aligned_backing_size_for :: "nat \<Rightarrow> layout \<Rightarrow> nat option option" where
  "aligned_backing_size_for pg l = choose_size power_of_two_next pg (checked_unused l) objects_per_slab"

definition large_backing_size_for :: "nat \<Rightarrow> layout \<Rightarrow> nat option option" where
  "large_backing_size_for pg l =
     (let init_size = (if lay_size l mod pg = 0 then lay_size l else (lay_size l div pg) * pg)
      in choose_size (page_next pg) init_size (checked_unused l) objects_per_slab)"

subsection \<open>Aligned slabs obey the laws of \<open>ConfigData\<close>\<close>

text \<open>An \<open>Aligned\<close> allocator gives blocks whose alignment is their size.\<close>

definition aligned_cinv :: "aligned_data \<Rightarrow> slab_layout \<Rightarrow> layout \<Rightarrow> slab_header heap \<Rightarrow> bool" where
  "aligned_cinv d sl bl h \<longleftrightarrow> layout_ok bl \<and> lay_align bl = lay_size bl"

lemma aligned_lookup:
  assumes "slabs_placed sl bl h" "h p = Some hdr" "aligned_cinv d sl bl h" "i < sl_num_obj sl"
  shows "aligned_ptr_to_slab d (lay_size bl) (nth_obj sl p (sh_color hdr) i) = Some p"
proof -
  note pl = slabs_placedD [of sl bl h p, OF assms(1,2)]
  obtain n where n: "lay_size bl = 2 ^ n" "lay_align bl = 2 ^ n"
    using assms(3) by (auto simp: aligned_cinv_def layout_ok_def is_power_of_two_iff)
  then have "(2 :: nat) ^ n \<le> 2 ^ 31"
    using assms(3) by (simp add: aligned_cinv_def layout_ok_def)
  then have "n \<le> 31" by (rule power_le_imp_le_exp [rotated]) simp
  moreover have "obj_offset sl (sh_color hdr) i < 2 ^ n"
    using obj_offset_end(2) [OF pl(1,5) assms(4)] n(1) by simp
  ultimately have "nth_obj sl p (sh_color hdr) i AND NOT (of_nat (lay_size bl) - 1) = p"
    using mask_in_block [of n p "lay_size bl" "obj_offset sl (sh_color hdr) i"] pl(3,4) n
    by (simp add: nth_obj_offset)
  then show ?thesis
    using pl(4) n by (simp add: aligned_ptr_to_slab_def Let_def mod_eq_0_iff_dvd)
qed

interpretation aligned: config_data aligned_ops aligned_cinv
  by unfold_locales
    (simp_all add: aligned_ops_def aligned_cinv_def default_post_alloc_def default_pre_dealloc_def,
     simp add: aligned_lookup aligned_cinv_def)

subsection \<open>Large slabs obey the laws of \<open>ConfigData\<close>\<close>

text \<open>The keys of a slab, and a map in which every key leads to its slab and nothing else
  leads anywhere.\<close>

definition large_keys :: "nat \<Rightarrow> bool \<Rightarrow> slab_layout \<Rightarrow> nat \<Rightarrow> ptr \<Rightarrow> color \<Rightarrow> ptr list" where
  "large_keys pg by_page sl S p c =
     (if by_page then map (\<lambda>i. offset p (i * pg)) [0 ..< S div pg]
      else map (nth_obj sl p c) [0 ..< sl_num_obj sl])"

definition maps_keys :: "(ptr \<Rightarrow> color \<Rightarrow> ptr list) \<Rightarrow> slab_header heap \<Rightarrow> (ptr \<Rightarrow> ptr option) \<Rightarrow> bool" where
  "maps_keys ks h M \<longleftrightarrow> (\<forall>k p. M k = Some p \<longleftrightarrow> (\<exists>hdr. h p = Some hdr \<and> k \<in> set (ks p (sh_color hdr))))"

definition large_cinv ::
  "('m \<Rightarrow> bool) \<Rightarrow> ('m \<Rightarrow> ptr \<Rightarrow> ptr option) \<Rightarrow> nat \<Rightarrow> 'm large_data \<Rightarrow> slab_layout \<Rightarrow> layout
    \<Rightarrow> slab_header heap \<Rightarrow> bool" where
  "large_cinv minv mabs pg d sl bl h \<longleftrightarrow>
     minv (lg_map d)
     \<and> (lg_map_by_page_addr d \<longrightarrow>
          is_power_of_two pg \<and> pg < 2 ^ 64 \<and> pg dvd lay_align bl \<and> pg dvd lay_size bl)
     \<and> maps_keys (large_keys pg (lg_map_by_page_addr d) sl (lay_size bl)) h (mabs (lg_map d))"

lemma maps_keys_colors: "same_colors h h' \<Longrightarrow> maps_keys ks h' M = maps_keys ks h M"
proof -
  assume "same_colors h h'"
  then have "(\<exists>hdr. h' p = Some hdr \<and> k \<in> set (ks p (sh_color hdr)))
      \<longleftrightarrow> (\<exists>hdr. h p = Some hdr \<and> k \<in> set (ks p (sh_color hdr)))" for p k
    unfolding same_colors_def by (drule_tac x = p in spec) (cases "h p"; cases "h' p"; simp)
  then show ?thesis
    by (simp add: maps_keys_def)
qed

text \<open>Adding and removing the keys of one slab.\<close>

lemma maps_keys_add:
  assumes "maps_keys ks (h(p := None)) M" "h p = Some hdr"
    "\<And>q hq. h q = Some hq \<Longrightarrow> q \<noteq> p \<Longrightarrow> set (ks q (sh_color hq)) \<inter> set (ks p (sh_color hdr)) = {}"
  shows "maps_keys ks h (\<lambda>k. if k \<in> set (ks p (sh_color hdr)) then Some p else M k)"
    "k \<in> set (ks p (sh_color hdr)) \<Longrightarrow> M k = None"
proof -
  have M: "M k = Some q \<longleftrightarrow> q \<noteq> p \<and> (\<exists>hq. h q = Some hq \<and> k \<in> set (ks q (sh_color hq)))" for k q
    using assms(1) by (auto simp: maps_keys_def)
  then show "k \<in> set (ks p (sh_color hdr)) \<Longrightarrow> M k = None"
    using assms(3) by (cases "M k") blast+
  show "maps_keys ks h (\<lambda>k. if k \<in> set (ks p (sh_color hdr)) then Some p else M k)"
    unfolding maps_keys_def using M assms(2,3) by (auto, blast+)
qed

lemma maps_keys_remove:
  assumes "maps_keys ks h M" "h p = Some hdr"
    "\<And>q hq. h q = Some hq \<Longrightarrow> q \<noteq> p \<Longrightarrow> set (ks q (sh_color hq)) \<inter> set (ks p (sh_color hdr)) = {}"
  shows "maps_keys ks (h(p := None)) (\<lambda>k. if k \<in> set (ks p (sh_color hdr)) then None else M k)"
  unfolding maps_keys_def
proof (intro allI)
  fix k q
  show "((if k \<in> set (ks p (sh_color hdr)) then None else M k) = Some q)
      = (\<exists>hq. (h(p := None)) q = Some hq \<and> k \<in> set (ks q (sh_color hq)))"
    using assms(1) [unfolded maps_keys_def, rule_format, of k q] assms(2) assms(3) [of q]
    by (cases "q = p") auto
qed

text \<open>The keys of a slab are distinct addresses inside it.\<close>

lemma large_keys_ok:
  assumes pl: "slabs_placed sl bl h" "h p = Some hdr" and pg: "by_page \<Longrightarrow> is_power_of_two pg"
  shows "distinct (large_keys pg by_page sl (lay_size bl) p (sh_color hdr))"
    "k \<in> set (large_keys pg by_page sl (lay_size bl) p (sh_color hdr)) \<Longrightarrow> unat k \<in> region p (lay_size bl)"
    "k \<in> set (large_keys pg by_page sl (lay_size bl) p (sh_color hdr)) \<Longrightarrow> k \<noteq> null"
proof -
  note D = slabs_placedD [of sl bl h p, OF pl]
  have lt: "i * pg < lay_size bl" if "by_page" "i < lay_size bl div pg" for i
    using that pg [OF that(1)] is_power_of_two_pos
    by (metis div_mult_self_is_m linorder_not_less mult.commute nat_mult_le_cancel_disj div_le_mono
        order_less_le_trans)
  have inj: "inj_on (\<lambda>i. offset p (i * pg)) {0 ..< lay_size bl div pg}" if "by_page"
  proof (rule inj_onI)
    fix i j assume "i \<in> {0 ..< lay_size bl div pg}" "j \<in> {0 ..< lay_size bl div pg}" "offset p (i * pg) = offset p (j * pg)"
    then show "i = j"
      using offset_inj [OF D(3) lt [OF that, of i] lt [OF that, of j]] is_power_of_two_pos [OF pg [OF that]] by simp
  qed
  show "distinct (large_keys pg by_page sl (lay_size bl) p (sh_color hdr))"
    using inj nth_obj_inj [OF D(1,3,5)] by (simp add: large_keys_def distinct_map atLeast0LessThan)
  show reg: "k \<in> set (large_keys pg by_page sl (lay_size bl) p (sh_color hdr)) \<Longrightarrow> unat k \<in> region p (lay_size bl)"
    using offset_in_region [OF D(3) lt] slab_objs_region(1) [OF D(1,3,5)]
    by (auto simp: large_keys_def slab_objs_def split: if_splits)
  show "k \<in> set (large_keys pg by_page sl (lay_size bl) p (sh_color hdr)) \<Longrightarrow> k \<noteq> null"
  proof
    assume "k \<in> set (large_keys pg by_page sl (lay_size bl) p (sh_color hdr))" "k = null"
    then have "unat p \<le> 0" using reg by (auto simp: region_def)
    then show False using D(2) by (simp add: unat_eq_zero)
  qed
qed

lemma large_keys_disjoint:
  assumes "slabs_placed sl bl h" "h p = Some hdr" "h q = Some hq" "q \<noteq> p" "by_page \<Longrightarrow> is_power_of_two pg"
  shows "set (large_keys pg by_page sl (lay_size bl) q (sh_color hq))
    \<inter> set (large_keys pg by_page sl (lay_size bl) p (sh_color hdr)) = {}"
proof -
  have "region q (lay_size bl) \<inter> region p (lay_size bl) = {}"
    using assms(1-4) by (auto simp: slabs_placed_def)
  then show ?thesis
    using large_keys_ok(2) [of sl bl h p hdr by_page pg, OF assms(1,2,5)]
      large_keys_ok(2) [of sl bl h q hq by_page pg, OF assms(1,3,5)] by blast
qed

lemma obj_key_ok:
  assumes "slabs_placed sl bl h" "h p = Some hdr" "i < sl_num_obj sl"
  shows "obj_key sl h p i = Some (nth_obj sl p (sh_color hdr) i)"
  using checked_nth_obj_ok [OF slabs_placedD(1,3,5) [OF assms(1,2)] assms(3)] assms(2) by (simp add: obj_key_def)

lemma page_key_ok:
  assumes "slabs_placed sl bl h" "h p = Some hdr" "pg dvd lay_align bl" "is_power_of_two pg" "i < lay_size bl div pg"
  shows "page_key pg p i = Some (offset p (i * pg))"
proof -
  note D = slabs_placedD [of sl bl h p, OF assms(1,2)]
  have "i * pg < lay_size bl"
    using assms(4,5) is_power_of_two_pos by (metis div_mult_self_is_m leI leD div_le_mono)
  then have "unat (offset p (i * pg)) = unat p + i * pg"
    by (rule unat_offset_fits [OF D(3)])
  then show ?thesis
    using dvd_trans [OF assms(3) D(4)] unat_lt_64 [of "offset p (i * pg)"] by (simp add: page_key_def Let_def mod_eq_0_iff_dvd)
qed

context ptr_map
begin

lemma insert_keys_ok:
  assumes "inv m" "distinct (map f is)" "\<And>i. i \<in> set is \<Longrightarrow> key i = Some (f i) \<and> f i \<noteq> null \<and> abs m (f i) = None"
  shows "\<exists>m'. insert_keys ins key v is m = Some m' \<and> inv m'
    \<and> abs m' = (\<lambda>k. if k \<in> f ` set is then Some v else abs m k)"
  using assms
proof (induction "is" arbitrary: m)
  case (Cons i "is")
  obtain m1 where m1: "ins m (f i) v = Some m1" "inv m1" "abs m1 = (abs m)(f i \<mapsto> v)"
    using ins_abs [of m "f i"] Cons.prems by force
  moreover have "distinct (map f is)" "\<And>j. j \<in> set is \<Longrightarrow> key j = Some (f j) \<and> f j \<noteq> null \<and> abs m1 (f j) = None"
    using Cons.prems m1(3) by (force simp: image_iff)+
  ultimately obtain m2 where "insert_keys ins key v is m1 = Some m2" "inv m2"
      "abs m2 = (\<lambda>k. if k \<in> f ` set is then Some v else abs m1 k)"
    using Cons.IH by blast
  then show ?case
    using m1 Cons.prems(3) [of i] by (auto simp: fun_eq_iff)
qed auto

lemma delete_keys_ok:
  assumes "inv m" "distinct (map f is)" "\<And>i. i \<in> set is \<Longrightarrow> key i = Some (f i) \<and> abs m (f i) = Some v"
  shows "\<exists>m'. delete_keys del key is m = Some m' \<and> inv m'
    \<and> abs m' = (\<lambda>k. if k \<in> f ` set is then None else abs m k)"
  using assms
proof (induction "is" arbitrary: m)
  case (Cons i "is")
  obtain m1 where m1: "del m (f i) = Some m1" "inv m1" "abs m1 = (abs m)(f i := None)"
    using del_abs [of m "f i" v] Cons.prems by force
  moreover have "distinct (map f is)" "\<And>j. j \<in> set is \<Longrightarrow> key j = Some (f j) \<and> abs m1 (f j) = Some v"
    using Cons.prems m1(3) by (force simp: image_iff)+
  ultimately obtain m2 where "delete_keys del key is m1 = Some m2" "inv m2"
      "abs m2 = (\<lambda>k. if k \<in> f ` set is then None else abs m1 k)"
    using Cons.IH by blast
  then show ?case
    using m1 Cons.prems(3) [of i] by (auto simp: fun_eq_iff)
qed auto

lemma large_post_ok:
  assumes mo: "mo_insert mo = ins" and pl: "slabs_placed sl bl h" "p \<in> dom h"
    and ci: "large_cinv inv abs pg d sl bl (h(p := None))"
  shows "\<exists>d'. large_post_alloc mo pg d sl (lay_size bl) h p = Some d' \<and> large_cinv inv abs pg d' sl bl h"
proof -
  obtain hdr where hdr: "h p = Some hdr" using pl(2) by blast
  let ?by = "lg_map_by_page_addr d" and ?c = "sh_color hdr"
  let ?ks = "large_keys pg ?by sl (lay_size bl)"
  let ?f = "if ?by then \<lambda>i. offset p (i * pg) else nth_obj sl p ?c"
  let ?is = "[0 ..< if ?by then lay_size bl div pg else sl_num_obj sl]"
  let ?key = "if ?by then page_key pg p else obj_key sl h p"
  have inv: "inv (lg_map d)" and byp: "?by \<Longrightarrow> is_power_of_two pg" "?by \<Longrightarrow> pg dvd lay_align bl"
    and mk: "maps_keys ?ks (h(p := None)) (abs (lg_map d))"
    using ci by (simp_all add: large_cinv_def)
  note add = maps_keys_add [of ?ks h p _ hdr, OF mk hdr large_keys_disjoint [OF pl(1) hdr _ _ byp(1)]]
  have ks: "?ks p ?c = map ?f ?is" by (simp add: large_keys_def)
  have dist: "distinct (map ?f ?is)"
    using large_keys_ok(1) [of sl bl h p hdr ?by pg, OF pl(1) hdr byp(1)] unfolding ks .
  have key: "?key i = Some (?f i) \<and> ?f i \<noteq> null \<and> abs (lg_map d) (?f i) = None" if "i \<in> set ?is" for i
  proof -
    have "?f i \<in> set (?ks p ?c)" using that unfolding ks by simp
    moreover have "?key i = Some (?f i)"
      using that page_key_ok [OF pl(1) hdr byp(2,1), of i] obj_key_ok [OF pl(1) hdr, of i] by (simp split: if_splits)
    ultimately show ?thesis
      using large_keys_ok(3) [of sl bl h p, OF pl(1) hdr byp(1)] add(2) by blast
  qed
  obtain m' where "insert_keys ins ?key p ?is (lg_map d) = Some m'" "inv m'"
      "abs m' = (\<lambda>k. if k \<in> set (?ks p ?c) then Some p else abs (lg_map d) k)"
    using insert_keys_ok [OF inv dist key] unfolding ks set_map by blast
  then show ?thesis
    using add(1) ci mo by (intro exI [of _ "d\<lparr> lg_map := m' \<rparr>"])
      (auto simp: large_post_alloc_def large_cinv_def split: if_splits)
qed

lemma large_pre_ok:
  assumes mo: "mo_delete mo = del" and pl: "slabs_placed sl bl h" "p \<in> dom h"
    and ci: "large_cinv inv abs pg d sl bl h"
  shows "\<exists>d'. large_pre_dealloc mo pg d sl (lay_size bl) h p = Some d' \<and> large_cinv inv abs pg d' sl bl (h(p := None))"
proof -
  obtain hdr where hdr: "h p = Some hdr" using pl(2) by blast
  let ?by = "lg_map_by_page_addr d" and ?c = "sh_color hdr"
  let ?ks = "large_keys pg ?by sl (lay_size bl)"
  let ?f = "if ?by then \<lambda>i. offset p (i * pg) else nth_obj sl p ?c"
  let ?is = "[0 ..< if ?by then lay_size bl div pg else sl_num_obj sl]"
  let ?key = "if ?by then page_key pg p else obj_key sl h p"
  have inv: "inv (lg_map d)" and byp: "?by \<Longrightarrow> is_power_of_two pg" "?by \<Longrightarrow> pg dvd lay_align bl"
    and mk: "maps_keys ?ks h (abs (lg_map d))"
    using ci by (simp_all add: large_cinv_def)
  note rem = maps_keys_remove [of ?ks h _ p hdr, OF mk hdr large_keys_disjoint [OF pl(1) hdr _ _ byp(1)]]
  have ks: "?ks p ?c = map ?f ?is" by (simp add: large_keys_def)
  have dist: "distinct (map ?f ?is)"
    using large_keys_ok(1) [of sl bl h p hdr ?by pg, OF pl(1) hdr byp(1)] unfolding ks .
  have key: "?key i = Some (?f i) \<and> abs (lg_map d) (?f i) = Some p" if "i \<in> set ?is" for i
  proof -
    have "?f i \<in> set (?ks p ?c)" using that unfolding ks by simp
    moreover have "?key i = Some (?f i)"
      using that page_key_ok [OF pl(1) hdr byp(2,1), of i] obj_key_ok [OF pl(1) hdr, of i] by (simp split: if_splits)
    ultimately show ?thesis
      using mk hdr unfolding maps_keys_def by blast
  qed
  obtain m' where "delete_keys del ?key ?is (lg_map d) = Some m'" "inv m'"
      "abs m' = (\<lambda>k. if k \<in> set (?ks p ?c) then None else abs (lg_map d) k)"
    using delete_keys_ok [OF inv dist key] unfolding ks set_map by blast
  then show ?thesis
    using rem ci mo by (intro exI [of _ "d\<lparr> lg_map := m' \<rparr>"])
      (auto simp: large_pre_dealloc_def large_cinv_def split: if_splits)
qed

lemma large_lookup_ok:
  assumes mo: "mo_get mo = get" and pl: "slabs_placed sl bl h" "h p = Some hdr"
    and ci: "large_cinv inv abs pg d sl bl h" and i: "i < sl_num_obj sl"
  shows "large_ptr_to_slab mo pg d (lay_size bl) (nth_obj sl p (sh_color hdr) i) = Some p"
proof -
  note D = slabs_placedD [of sl bl h p, OF pl]
  let ?o = "obj_offset sl (sh_color hdr) i"
  have o: "?o < lay_size bl" by (rule obj_offset_end(2) [OF D(1,5) i])
  show ?thesis
  proof (cases "lg_map_by_page_addr d")
    case True
    then have pg: "is_power_of_two pg" "pg < 2 ^ 64" "pg dvd lay_align bl" "pg dvd lay_size bl"
      using ci by (simp_all add: large_cinv_def)
    obtain n where n: "pg = 2 ^ n" using pg(1) by (auto simp: is_power_of_two_iff)
    have "n \<le> 64" using pg(2) power_less_imp_less_exp [of "2 :: nat" n 64] by (simp add: n)
    then have key: "nth_obj sl p (sh_color hdr) i AND page_align_mask pg = offset p (?o div pg * pg)"
      using mask_in_block [of n p "lay_size bl" ?o] D(3) o dvd_trans [OF pg(3) D(4)]
      by (simp add: nth_obj_offset page_align_mask_def n mult.commute)
    have "?o div pg < lay_size bl div pg"
      using o pg(4) less_mult_imp_div_less [of ?o "lay_size bl div pg" pg] by simp
    then have "offset p (?o div pg * pg) \<in> set (large_keys pg True sl (lay_size bl) p (sh_color hdr))"
      by (auto simp: large_keys_def)
    then have "abs (lg_map d) (offset p (?o div pg * pg)) = Some p"
      using ci True pl(2) unfolding large_cinv_def maps_keys_def by auto
    then show ?thesis
      using get_abs ci mo True key by (auto simp: large_ptr_to_slab_def large_cinv_def)
  next
    case False
    have "nth_obj sl p (sh_color hdr) i \<in> set (large_keys pg False sl (lay_size bl) p (sh_color hdr))"
      using i by (auto simp: large_keys_def)
    then have "abs (lg_map d) (nth_obj sl p (sh_color hdr) i) = Some p"
      using ci False pl(2) unfolding large_cinv_def maps_keys_def by auto
    then show ?thesis
      using get_abs ci mo False by (auto simp: large_ptr_to_slab_def large_cinv_def)
  qed
qed

lemma large_config:
  assumes "mo_get mo = get" "mo_insert mo = ins" "mo_delete mo = del"
  shows "config_data (large_ops mo pg) (large_cinv inv abs pg)"
proof (unfold_locales, goal_cases)
  case 1
  then show ?case by (simp add: large_cinv_def maps_keys_colors)
next
  case 2
  have "large_keys pg b (sl\<lparr> sl_color_settings := cs \<rparr>) = large_keys pg b sl" for b sl cs
    by (simp add: large_keys_def fun_eq_iff nth_obj_def array_begin_def)
  then show ?case by (simp add: large_cinv_def)
next
  case 3
  then show ?case using large_post_ok [OF assms(2)] by (simp add: large_ops_def)
next
  case 4
  then show ?case using large_pre_ok [OF assms(3)] by (simp add: large_ops_def)
next
  case 5
  then show ?case using large_lookup_ok [OF assms(1)] by (simp add: large_ops_def)
qed

end

interpretation large_opt: config_data "large_ops optimized_map pg" "large_cinv pm_inv pm_map pg" for pg
  by (rule pmap.large_config) (simp_all add: optimized_map_def)

interpretation large_std: config_data "large_ops stdlib_map pg" "large_cinv (\<lambda>m. True) (\<lambda>m. m) pg" for pg
  by (rule smap.large_config) (simp_all add: stdlib_map_def)

subsection \<open>The slab size is found\<close>

lemma power_of_two_enumerates:
  "k < 64 \<Longrightarrow> enumerates power_of_two_next (2 ^ k) (map ((^) 2) [Suc k ..< 64])"
proof (induction "63 - k" arbitrary: k)
  case 0
  then have "k = 63" by simp
  then show ?case by (simp add: power_of_two_next_def)
next
  case (Suc n)
  then have k: "Suc k < 64" "n = 63 - Suc k" by simp_all
  have lt: "(2 :: nat) ^ Suc k < 2 ^ 64"
    using k(1) by (intro power_strict_increasing) simp_all
  have "power_of_two_next (2 ^ k) = Some (2 ^ Suc k, 2 ^ Suc k)"
    using lt mod_less [OF lt] by (simp add: power_of_two_next_def)
  then show ?case
    using Suc.hyps(1) [OF k(2,1)] k(1) by (simp add: upt_rec [of "Suc k"])
qed

lemma page_enumerates:
  assumes "0 < pg" "pg < 2 ^ 64" "s + n * pg < 2 ^ 64" "2 ^ 64 \<le> s + Suc n * pg"
  shows "enumerates (page_next pg) s (map (\<lambda>i. s + Suc i * pg) [0 ..< n])"
  using assms(3,4)
proof (induction n arbitrary: s)
  case 0
  then have "(s + pg) mod 2 ^ 64 = s + pg - 2 ^ 64"
    using assms(2) by (simp add: mod_if)
  then show ?case
    using 0 assms(2) by (simp add: page_next_def Let_def)
next
  case (Suc n)
  have "page_next pg s = Some (s + pg, s + pg)"
    using Suc.prems assms(1) by (simp add: page_next_def Let_def)
  moreover have "enumerates (page_next pg) (s + pg) (map (\<lambda>i. s + pg + Suc i * pg) [0 ..< n])"
    by (rule Suc.IH) (use Suc.prems in \<open>simp_all add: algebra_simps\<close>)
  moreover have "map (\<lambda>i. s + Suc i * pg) [0 ..< Suc n] = (s + pg) # map (\<lambda>i. s + pg + Suc i * pg) [0 ..< n]"
    by (simp only: upt_conv_Cons map_Suc_upt [symmetric] zero_less_Suc) (simp add: comp_def algebra_simps)
  ultimately show ?case
    by (simp del: upt_Suc)
qed

text \<open>The number of objects and the unused space of a slab, where they can be computed.\<close>

definition unused_in :: "layout \<Rightarrow> nat \<Rightarrow> (nat \<times> nat) option" where
  "unused_in l = unpanic (checked_unused l)"

lemma unused_in_fits: "0 < lay_align l \<Longrightarrow> unused_in l S \<noteq> None \<Longrightarrow> slab_needs l 1 \<le> S"
  using for_slab_size_spec(1,2) [of l S]
  by (fastforce simp: unused_in_def unpanic_def checked_unused_def split: bind_splits)

lemma checked_unused_total: "0 < lay_align l \<Longrightarrow> S + slab_needs l 1 < 2 ^ 64 \<Longrightarrow> checked_unused l S \<noteq> None"
  using for_slab_size_total [of l S] by (auto simp: checked_unused_def split: if_splits)

lemma unused_in_reached: "0 < lay_align l \<Longrightarrow> checked_unused l S \<noteq> None \<Longrightarrow> slab_needs l 1 \<le> S \<Longrightarrow> unused_in l S \<noteq> None"
  using for_slab_size_too_small [of l S]
  by (cases "for_slab_size l S"; cases "the (for_slab_size l S)") (auto simp: unused_in_def unpanic_def checked_unused_def)

text \<open>The size of an aligned slab is a power of two above the page size that can hold an
  object, and it is the best one of those the search looked at, unless the search panics.\<close>

lemma aligned_size_or_panic:
  assumes "0 < lay_align l" "k < 63" "slab_needs l 1 \<le> 2 ^ 63" "aligned_backing_size_for (2 ^ k) l \<noteq> None"
  shows "\<exists>j. aligned_backing_size_for (2 ^ k) l = Some (Some (2 ^ j)) \<and> k < j \<and> j < 64 \<and> slab_needs l 1 \<le> 2 ^ j
    \<and> best_size (unused_in l) objects_per_slab (map ((^) 2) [Suc k ..< 64]) (Some (2 ^ j))"
proof -
  let ?xs = "map ((^) 2) [Suc k ..< 64] :: nat list"
  have "k < 64" using assms(2) by simp
  note c = choose_size_best [OF power_of_two_enumerates [OF this], of "checked_unused l" objects_per_slab,
      folded unused_in_def aligned_backing_size_for_def]
  have ask: "\<forall>x \<in> set (asked (unused_in l) objects_per_slab ?xs). checked_unused l x \<noteq> None"
    using c assms(4) by (auto split: if_splits)
  then obtain r where r: "aligned_backing_size_for (2 ^ k) l = Some r" "best_size (unused_in l) objects_per_slab ?xs r"
    using c by auto
  have mem: "2 ^ 63 \<in> set ?xs" using assms(2) by (auto intro!: image_eqI [of _ _ 63])
  have "r \<noteq> None"
  proof
    assume "r = None"
    then have "scanned (unused_in l) objects_per_slab ?xs = ?xs" using r(2) by (auto simp: best_size_def split: if_splits)
    then have "asked (unused_in l) objects_per_slab ?xs = ?xs" unfolding asked_def by simp
    then have "checked_unused l (2 ^ 63) \<noteq> None" using ask mem by metis
    then show False
      using \<open>r = None\<close> best_size_exists [OF r(2) mem unused_in_reached [OF assms(1) _ assms(3)]] by blast
  qed
  then obtain S where S: "r = Some S" by blast
  then obtain j where "S = 2 ^ j" "Suc k \<le> j" "j < 64" "slab_needs l 1 \<le> S"
    using best_size_mem r(2) unused_in_fits [OF assms(1), of S] by fastforce
  then show ?thesis
    using r S by auto
qed

lemma aligned_size_found:
  assumes "0 < lay_align l" "k < 63" "slab_needs l 1 < 2 ^ 63"
  shows "\<exists>j. aligned_backing_size_for (2 ^ k) l = Some (Some (2 ^ j)) \<and> k < j \<and> j < 64 \<and> slab_needs l 1 \<le> 2 ^ j
    \<and> best_size (unused_in l) objects_per_slab (map ((^) 2) [Suc k ..< 64]) (Some (2 ^ j))"
proof (rule aligned_size_or_panic [OF assms(1,2)])
  let ?xs = "map ((^) 2) [Suc k ..< 64] :: nat list"
  have "x \<le> 2 ^ 63" if "x \<in> set ?xs" for x
  proof -
    obtain i where "x = 2 ^ i" "i \<le> 63" using \<open>x \<in> set ?xs\<close> by auto
    then show ?thesis using power_increasing [of i 63 "2 :: nat"] by simp
  qed
  then have "checked_unused l x \<noteq> None" if "x \<in> set ?xs" for x
    using that assms(3) by (intro checked_unused_total [OF assms(1)]) fastforce
  moreover have "set (asked (unused_in l) objects_per_slab ?xs) \<subseteq> set ?xs"
    unfolding asked_def by (rule set_take_subset)
  ultimately have "\<forall>x \<in> set (asked (unused_in l) objects_per_slab ?xs). checked_unused l x \<noteq> None" by blast
  moreover have "k < 64" using assms(2) by simp
  ultimately show "aligned_backing_size_for (2 ^ k) l \<noteq> None"
    using choose_size_best [OF power_of_two_enumerates, of k "checked_unused l" objects_per_slab]
    unfolding aligned_backing_size_for_def unused_in_def by (auto split: if_splits)
qed (use assms(3) in simp)

lemma unused_in_Some:
  assumes "0 < lay_align l" "slab_needs l n \<le> S" "0 < n" "S + slab_needs l 1 < 2 ^ 64"
  shows "\<exists>m u. unused_in l S = Some (m, u) \<and> n \<le> m"
proof -
  have "slab_needs l 1 \<le> S" using assms slab_needs_mono [of l 1 n] by simp
  then obtain sl u where "for_slab_size l S = Some (Some (sl, u))"
    using for_slab_size_total [OF assms(1,4)] by (auto split: if_splits)
  then show ?thesis
    using for_slab_size_spec(2) [OF assms(1), of S sl u n] assms(2) by (simp add: unused_in_def unpanic_def checked_unused_def)
qed

text \<open>Where nine objects fit into \<open>2^b\<close> bytes, no larger aligned slab is chosen.\<close>

lemma aligned_size_bound:
  assumes "0 < lay_align l" "k < b" "b < 63" "slab_needs l (Suc objects_per_slab) \<le> 2 ^ b"
    "best_size (unused_in l) objects_per_slab (map ((^) 2) [Suc k ..< 64]) (Some (2 ^ j))"
  shows "j \<le> b"
proof -
  let ?xs = "map ((^) 2) [Suc k ..< 64] :: nat list"
  have nth: "b - Suc k < length ?xs" "?xs ! (b - Suc k) = 2 ^ b" using assms(2,3) by auto
  have "2 ^ b < (2 :: nat) ^ 63" using assms(3) by (rule power_strict_increasing) simp
  moreover have "slab_needs l 1 \<le> 2 ^ b" using assms(1,4) slab_needs_mono [of l 1 "Suc objects_per_slab"] by simp
  ultimately obtain m u where "unused_in l (?xs ! (b - Suc k)) = Some (m, u)" "objects_per_slab < m"
    using unused_in_Some [OF assms(1,4)] nth(2) by fastforce
  then have "2 ^ j \<in> set (take (Suc (b - Suc k)) ?xs)"
    using best_size_stop [OF assms(5) nth(1)] by blast
  moreover have "take (Suc (b - Suc k)) ?xs = map ((^) 2) [Suc k ..< Suc b]"
    using assms(2,3) by (simp add: take_map take_upt)
  ultimately show ?thesis by auto
qed

lemma large_init_size:
  "(if n mod pg = 0 then n else n div pg * pg) = n div pg * (pg :: nat)"
  by (auto simp: mod_eq_0_iff_dvd)

text \<open>The sizes the search for large slabs goes through, and the first that has \<open>m\<close> bytes.\<close>

lemma page_sizes:
  fixes z m pg :: nat
  assumes pg: "0 < pg" "pg < 2 ^ 64" and m: "z < m" "m + pg \<le> 2 ^ 64"
  defines "s \<equiv> z div pg * pg"
  obtains n i where "enumerates (page_next pg) s (map (\<lambda>i. s + Suc i * pg) [0 ..< n])" "s + n * pg < 2 ^ 64"
    "i < n" "m \<le> s + Suc i * pg" "s + Suc i * pg < m + pg"
proof -
  have s: "s \<le> z" by (simp add: s_def div_times_less_eq_dividend)
  define n where "n = (2 ^ 64 - 1 - s) div pg"
  have n: "s + n * pg < 2 ^ 64" "2 ^ 64 \<le> s + Suc n * pg"
  proof -
    have "n * pg \<le> 2 ^ 64 - 1 - s" by (simp add: n_def div_times_less_eq_dividend)
    then show "s + n * pg < 2 ^ 64" using s m by linarith
    have "2 ^ 64 - 1 - s < Suc n * pg"
      using pg(1) by (simp add: n_def dividend_less_times_div mult.commute [of _ pg] del: mult_Suc)
    then show "2 ^ 64 \<le> s + Suc n * pg" by linarith
  qed
  define i where "i = (m - 1) div pg - z div pg"
  have q: "z div pg \<le> (m - 1) div pg" using m(1) by (intro div_le_mono) simp
  have eq: "s + Suc i * pg = (m - 1) div pg * pg + pg"
  proof -
    have "z div pg + Suc i = Suc ((m - 1) div pg)" using q by (simp add: i_def)
    then have "(z div pg + Suc i) * pg = Suc ((m - 1) div pg) * pg" by (rule arg_cong)
    then show ?thesis by (simp add: add_mult_distrib s_def)
  qed
  have up: "m \<le> s + Suc i * pg" "s + Suc i * pg < m + pg"
    unfolding eq using pg(1) dividend_less_div_times [of pg "m - 1"] div_times_less_eq_dividend [of "m - 1" pg] m(1) by linarith+
  then have "Suc i * pg < Suc n * pg" using n(2) m(2) by linarith
  then have "i < n" by simp
  then show thesis using that [OF page_enumerates [OF pg n] n(1)] up by blast
qed

lemma large_size_found:
  assumes al: "0 < lay_align l" and pg: "0 < pg" "pg < 2 ^ 64"
    and fit: "slab_needs l (Suc objects_per_slab) + slab_needs l 1 + pg \<le> 2 ^ 64"
  shows "\<exists>S. large_backing_size_for pg l = Some (Some S) \<and> pg dvd S \<and> S + slab_needs l 1 < 2 ^ 64 \<and> slab_needs l 1 \<le> S"
proof -
  let ?s = "lay_size l div pg * pg" and ?m = "slab_needs l (Suc objects_per_slab)"
  have one: "slab_needs l 1 \<le> ?m" using slab_needs_mono [OF al, of 1] by simp
  have "lay_size l < slab_needs l 1"
    by (simp add: slab_needs_def array_offset_def Let_def stack_begin_offset_def slab_header_size_def)
  then have sz: "lay_size l < ?m" "?m + pg \<le> 2 ^ 64" using one fit by simp_all
  obtain n i where en: "enumerates (page_next pg) ?s (map (\<lambda>i. ?s + Suc i * pg) [0 ..< n])" "?s + n * pg < 2 ^ 64"
    and i: "i < n" "?m \<le> ?s + Suc i * pg" "?s + Suc i * pg < ?m + pg"
    using page_sizes [OF pg sz] by metis
  let ?xs = "map (\<lambda>i. ?s + Suc i * pg) [0 ..< n]"
  have nth: "i < length ?xs" "?xs ! i = ?s + Suc i * pg" using i(1) by simp_all
  obtain k u where k: "unused_in l (?xs ! i) = Some (k, u)" "objects_per_slab < k"
    using unused_in_Some [OF al i(2)] i(3) fit nth(2) by (auto simp: Suc_le_eq)
  have bound: "x + slab_needs l 1 < 2 ^ 64" if "x \<in> set (take (Suc i) ?xs)" for x
  proof -
    have "take (Suc i) ?xs = map (\<lambda>i. ?s + Suc i * pg) [0 ..< Suc i]" using i(1) by (simp add: take_map take_upt)
    then have "x \<in> (\<lambda>i. ?s + Suc i * pg) ` {0 ..< Suc i}" using that by (metis set_map set_upt)
    then obtain j where j: "j < Suc i" "x = ?s + Suc j * pg" unfolding image_iff by auto
    then have "Suc j * pg \<le> Suc i * pg" by (intro mult_le_mono1) simp
    then show ?thesis using j(2) i(3) fit by linarith
  qed
  have "checked_unused l x \<noteq> None" if "x \<in> set (asked (unused_in l) objects_per_slab ?xs)" for x
    using bound that asked_stop [of i ?xs "unused_in l", OF nth(1) k] by (intro checked_unused_total [OF al]) blast
  then obtain r where r: "large_backing_size_for pg l = Some r" "best_size (unused_in l) objects_per_slab ?xs r"
    using choose_size_best [OF en(1), of "checked_unused l" objects_per_slab]
    unfolding large_backing_size_for_def Let_def large_init_size unused_in_def by (auto split: if_splits)
  have "?xs ! i \<in> set ?xs" using nth(1) by (rule nth_mem)
  then obtain S where S: "r = Some S"
    using best_size_exists [OF r(2), of "?xs ! i"] k(1) by auto
  then obtain j where j: "S = ?s + Suc j * pg" "slab_needs l 1 \<le> S"
    using best_size_mem [of "unused_in l" objects_per_slab ?xs S] r(2) unused_in_fits [OF al, of S] by auto
  have "S + slab_needs l 1 < 2 ^ 64"
    using r(2) bound best_size_stop [of "unused_in l" objects_per_slab ?xs S i, OF _ nth(1) k] S by blast
  moreover have "pg dvd S" unfolding j(1) by (intro dvd_add) simp_all
  ultimately show ?thesis
    using r(1) S j(2) by blast
qed

end
