(* ===== verification/Slab_Alloc.thy ===== *)
theory Slab_Alloc
  imports Slab_Config
begin

text \<open>
  The front of \<open>slab-alloc\<close>: \<open>backing.rs\<close> wraps an allocator of the standard library's
  \<open>Alloc\<close> trait as an \<open>UntypedObjectAlloc\<close>, the builders of \<open>lib.rs\<close> choose between
  aligned and large slabs, and \<open>SlabAlloc\<close> dispatches to the \<open>SizedSlabAlloc\<close> they built.
  The allocator behind the slabs is code outside the repository (or of another crate): it is
  a record of functions, and \<open>alloc_contract\<close> states the documented behaviour the slab
  allocator relies on.  The theory interprets \<open>backing_alloc\<close> and \<open>stack_system\<close>, and
  shows that the allocator that a builder returns hands out aligned blocks that do not
  overlap, takes them back, and returns all memory when it is dropped.
\<close>

subsection \<open>\<open>backing.rs\<close>\<close>

text \<open>The trait \<open>Alloc\<close>.\<close>

datatype alloc_err = Exhausted | Unsupported

record 'a alloc_ops =
  al_alloc :: "'a \<Rightarrow> layout \<Rightarrow> 'a \<times> (alloc_err + ptr)"
  al_dealloc :: "'a \<Rightarrow> ptr \<Rightarrow> layout \<Rightarrow> 'a"

record 'a alloc_object_alloc =
  ao_alloc :: 'a
  ao_layout :: layout

definition alloc_object_alloc_new :: "'a \<Rightarrow> layout \<Rightarrow> 'a alloc_object_alloc" where
  "alloc_object_alloc_new a l = \<lparr> ao_alloc = a, ao_layout = l \<rparr>"

text \<open>An \<open>Unsupported\<close> error is the \<open>unreachable!\<close> of the code.\<close>

definition ao_alloc_obj :: "'a alloc_ops \<Rightarrow> 'a alloc_object_alloc \<Rightarrow> ('a alloc_object_alloc \<times> ptr option) option" where
  "ao_alloc_obj A b =
     (case al_alloc A (ao_alloc b) (ao_layout b) of
        (a, Inr p) \<Rightarrow> Some (b\<lparr> ao_alloc := a \<rparr>, Some p)
      | (a, Inl Exhausted) \<Rightarrow> Some (b\<lparr> ao_alloc := a \<rparr>, None)
      | (a, Inl Unsupported) \<Rightarrow> None)"

definition ao_dealloc_obj :: "'a alloc_ops \<Rightarrow> 'a alloc_object_alloc \<Rightarrow> ptr \<Rightarrow> 'a alloc_object_alloc" where
  "ao_dealloc_obj A b p = b\<lparr> ao_alloc := al_dealloc A (ao_alloc b) p (ao_layout b) \<rparr>"

definition alloc_object_ops :: "'a alloc_ops \<Rightarrow> 'a alloc_object_alloc untyped_object_alloc" where
  "alloc_object_ops A =
     \<lparr> oa_layout = ao_layout, oa_alloc = ao_alloc_obj A, oa_dealloc = ao_dealloc_obj A \<rparr>"

text \<open>\<open>heap::get_aligned\<close>, \<open>heap::get_large\<close> and their counterparts for mmap on Linux.  The
  outer \<open>None\<close> is a failed assertion; \<open>huge\<close> stands for \<open>sysconf::page::hugepage_supported\<close>,
  \<open>map_with\<close> and \<open>map_default\<close> for the two ways a \<open>MapAlloc\<close> is built.\<close>

definition heap_get_aligned :: "nat \<Rightarrow> 'a \<Rightarrow> layout \<Rightarrow> 'a alloc_object_alloc option option" where
  "heap_get_aligned pg the_heap l =
     Some (if lay_size l > pg then None else Some (alloc_object_alloc_new the_heap l))"

definition heap_get_large :: "'a \<Rightarrow> layout \<Rightarrow> 'a alloc_object_alloc option" where
  "heap_get_large the_heap l = Some (alloc_object_alloc_new the_heap l)"

definition mmap_get_aligned ::
  "nat \<Rightarrow> (nat \<Rightarrow> bool) \<Rightarrow> (nat \<Rightarrow> 'a) \<Rightarrow> 'a \<Rightarrow> layout \<Rightarrow> 'a alloc_object_alloc option option" where
  "mmap_get_aligned pg huge map_with map_default l =
     (if lay_size l = lay_align l
      then Some (if lay_size l \<noteq> pg
                 then if huge (lay_size l) then Some (alloc_object_alloc_new (map_with (lay_size l)) l) else None
                 else Some (alloc_object_alloc_new map_default l))
      else None)"

definition mmap_get_large :: "nat \<Rightarrow> 'a \<Rightarrow> layout \<Rightarrow> 'a alloc_object_alloc option" where
  "mmap_get_large pg map_default l =
     (if lay_align l \<le> pg then Some (alloc_object_alloc_new map_default l) else None)"

subsection \<open>The builders\<close>

datatype ('m, 'ba, 'bl) private_slab_alloc =
    Aligned "(slab_header, (aligned_data, 'ba) system) sized_slab_alloc"
  | Large "(slab_header, ('m large_data, 'bl) system) sized_slab_alloc"

text \<open>The alignment a client asks for; \<open>None\<close> is a failed assertion.\<close>

definition slab_builder_align :: "nat \<Rightarrow> nat \<Rightarrow> layout \<Rightarrow> nat \<Rightarrow> layout option" where
  "slab_builder_align pg size_of_t l al =
     (if is_power_of_two al \<and> al \<le> size_of_t \<and> size_of_t mod al = 0 \<and> al \<le> pg
      then layout_align_to l al else None)"

definition untyped_builder_align :: "nat \<Rightarrow> layout \<Rightarrow> nat \<Rightarrow> layout option" where
  "untyped_builder_align pg l al =
     (if is_power_of_two al \<and> al \<le> lay_size l \<and> lay_size l mod al = 0 \<and> al \<le> pg
      then layout_align_to l al else None)"

text \<open>The result of \<open>backing_size_for\<close>: neither a search that does not end nor a panic.\<close>

definition found_size :: "nat option option \<Rightarrow> nat option" where
  "found_size r = Option.bind r (\<lambda>x. x)"

definition build_large ::
  "'m map_ops \<Rightarrow> nat \<Rightarrow> 'bl untyped_object_alloc \<Rightarrow> (layout \<Rightarrow> 'bl option) \<Rightarrow> nat \<Rightarrow> word_mem
    \<Rightarrow> layout \<Rightarrow> layout \<Rightarrow> ('m, 'ba, 'bl) private_slab_alloc option" where
  "build_large mo pg BL get_large now mem self_layout layout = do {
     backing_size \<leftarrow> found_size (large_backing_size_for pg layout);
     slab_layout \<leftarrow> layout_from_size_align backing_size pg;
     alloc \<leftarrow> get_large slab_layout;
     r \<leftarrow> large_system_new mo pg BL layout alloc mem;
     data \<leftarrow> r;
     Some (Large (sized_new now self_layout data)) }"

definition build_aligned ::
  "'ba untyped_object_alloc \<Rightarrow> nat \<Rightarrow> word_mem \<Rightarrow> layout \<Rightarrow> layout \<Rightarrow> 'ba
    \<Rightarrow> ('m, 'ba, 'bl) private_slab_alloc option" where
  "build_aligned BA now mem self_layout layout alloc = do {
     r \<leftarrow> aligned_system_new BA layout alloc mem;
     data \<leftarrow> r;
     Some (Aligned (sized_new now self_layout data)) }"

definition build_backing ::
  "'s init_sys \<Rightarrow> 'm map_ops \<Rightarrow> nat \<Rightarrow> 'ba untyped_object_alloc \<Rightarrow> 'bl untyped_object_alloc
    \<Rightarrow> (layout \<Rightarrow> 'ba option option) \<Rightarrow> (layout \<Rightarrow> 'bl option) \<Rightarrow> nat \<Rightarrow> word_mem
    \<Rightarrow> layout \<Rightarrow> ('m, 'ba, 'bl) private_slab_alloc option" where
  "build_backing I mo pg BA BL get_aligned get_large now mem self_layout = do {
     layout \<leftarrow> satisfy_min_align self_layout (is_min_align I);
     aligned_backing_size \<leftarrow> found_size (aligned_backing_size_for pg layout);
     aligned_slab_layout \<leftarrow> layout_from_size_align aligned_backing_size aligned_backing_size;
     got \<leftarrow> get_aligned aligned_slab_layout;
     (case got of
        Some alloc \<Rightarrow> build_aligned BA now mem self_layout layout alloc
      | None \<Rightarrow> build_large mo pg BL get_large now mem self_layout layout) }"

subsection \<open>\<open>SlabAlloc\<close> and \<open>UntypedSlabAlloc\<close>\<close>

definition slab_layout_of :: "('m, 'ba, 'bl) private_slab_alloc \<Rightarrow> layout" where
  "slab_layout_of s = (case s of Aligned a \<Rightarrow> sa_layout a | Large a \<Rightarrow> sa_layout a)"

definition slab_alloc ::
  "'s init_sys \<Rightarrow> 'm map_ops \<Rightarrow> nat \<Rightarrow> 'ba untyped_object_alloc \<Rightarrow> 'bl untyped_object_alloc
    \<Rightarrow> ('m, 'ba, 'bl) private_slab_alloc \<Rightarrow> (('m, 'ba, 'bl) private_slab_alloc \<times> ptr option) option" where
  "slab_alloc I mo pg BA BL s =
     (case s of
        Aligned a \<Rightarrow> map_option (\<lambda>(a', r). (Aligned a', r))
          (sized_alloc slab_header_linkable (sys_ops I BA aligned_ops) I a)
      | Large a \<Rightarrow> map_option (\<lambda>(a', r). (Large a', r))
          (sized_alloc slab_header_linkable (sys_ops I BL (large_ops mo pg)) I a))"

definition slab_dealloc ::
  "'s init_sys \<Rightarrow> 'm map_ops \<Rightarrow> nat \<Rightarrow> 'ba untyped_object_alloc \<Rightarrow> 'bl untyped_object_alloc \<Rightarrow> nat
    \<Rightarrow> ('m, 'ba, 'bl) private_slab_alloc \<Rightarrow> ptr \<Rightarrow> ('m, 'ba, 'bl) private_slab_alloc option" where
  "slab_dealloc I mo pg BA BL now s x =
     (case s of
        Aligned a \<Rightarrow> map_option Aligned
          (sized_dealloc slab_header_linkable (sys_ops I BA aligned_ops) I now a x)
      | Large a \<Rightarrow> map_option Large
          (sized_dealloc slab_header_linkable (sys_ops I BL (large_ops mo pg)) I now a x))"

text \<open>Dropping the enum drops the \<open>SizedSlabAlloc\<close> in it.\<close>

definition slab_drop ::
  "'s init_sys \<Rightarrow> 'm map_ops \<Rightarrow> nat \<Rightarrow> 'ba untyped_object_alloc \<Rightarrow> 'bl untyped_object_alloc \<Rightarrow> bool
    \<Rightarrow> ('m, 'ba, 'bl) private_slab_alloc \<Rightarrow> ('m, 'ba, 'bl) private_slab_alloc option" where
  "slab_drop I mo pg BA BL panicking s =
     (case s of
        Aligned a \<Rightarrow> map_option Aligned (sized_drop slab_header_linkable (sys_ops I BA aligned_ops) panicking a)
      | Large a \<Rightarrow> map_option Large (sized_drop slab_header_linkable (sys_ops I BL (large_ops mo pg)) panicking a))"

subsection \<open>The allocator behind the slabs\<close>

text \<open>What the documentation of \<open>Alloc\<close> promises for blocks of layout \<open>l\<close>: \<open>aown a\<close> are the
  blocks handed out through \<open>a\<close> and not returned yet, \<open>ainv\<close> the states it can be in.  A
  block satisfies its layout and overlaps no other one, the layout is supported, and a block
  that is returned is free again.\<close>

definition alloc_contract :: "'a alloc_ops \<Rightarrow> ('a \<Rightarrow> ptr \<Rightarrow> layout option) \<Rightarrow> ('a \<Rightarrow> bool) \<Rightarrow> layout \<Rightarrow> bool" where
  "alloc_contract A aown ainv l \<longleftrightarrow>
     (\<forall>a a' p. ainv a \<longrightarrow> al_alloc A a l = (a', Inr p) \<longrightarrow>
        ainv a' \<and> aown a' = (aown a)(p \<mapsto> l)
        \<and> p \<noteq> null \<and> fits p (lay_size l) \<and> lay_align l dvd unat p
        \<and> (\<forall>q m. aown a q = Some m \<longrightarrow> q \<noteq> p \<and> region p (lay_size l) \<inter> region q (lay_size m) = {}))
     \<and> (\<forall>a a'. ainv a \<longrightarrow> al_alloc A a l = (a', Inl Exhausted) \<longrightarrow> ainv a' \<and> aown a' = aown a)
     \<and> (\<forall>a. ainv a \<longrightarrow> snd (al_alloc A a l) \<noteq> Inl Unsupported)
     \<and> (\<forall>a p. ainv a \<longrightarrow> aown a p = Some l \<longrightarrow>
          ainv (al_dealloc A a p l) \<and> aown (al_dealloc A a p l) = (aown a)(p := None))"

text \<open>The contract for all layouts.\<close>

definition alloc_ok :: "'a alloc_ops \<Rightarrow> ('a \<Rightarrow> ptr \<Rightarrow> layout option) \<Rightarrow> ('a \<Rightarrow> bool) \<Rightarrow> bool" where
  "alloc_ok A aown ainv \<longleftrightarrow>
     (\<forall>l. layout_ok l \<longrightarrow> 0 < lay_size l \<longrightarrow> alloc_contract A aown ainv l)"

lemma alloc_contractD:
  assumes "alloc_contract A aown ainv l" "ainv a"
  shows "al_alloc A a l = (a', Inl Exhausted) \<Longrightarrow> ainv a' \<and> aown a' = aown a"
    "snd (al_alloc A a l) \<noteq> Inl Unsupported"
    "aown a p = Some l \<Longrightarrow> ainv (al_dealloc A a p l) \<and> aown (al_dealloc A a p l) = (aown a)(p := None)"
  using assms unfolding alloc_contract_def by blast+

definition aoa_own :: "('a \<Rightarrow> ptr \<Rightarrow> layout option) \<Rightarrow> 'a alloc_object_alloc \<Rightarrow> ptr set" where
  "aoa_own aown b = dom (aown (ao_alloc b))"

definition aoa_inv ::
  "'a alloc_ops \<Rightarrow> ('a \<Rightarrow> ptr \<Rightarrow> layout option) \<Rightarrow> ('a \<Rightarrow> bool) \<Rightarrow> 'a alloc_object_alloc \<Rightarrow> bool" where
  "aoa_inv A aown ainv b \<longleftrightarrow>
     alloc_contract A aown ainv (ao_layout b) \<and> ainv (ao_alloc b)
     \<and> (\<forall>p m. aown (ao_alloc b) p = Some m \<longrightarrow> m = ao_layout b)"

lemma ao_alloc_obj_Some:
  assumes inv: "aoa_inv A aown ainv b" and al: "ao_alloc_obj A b = Some (b', Some p)"
  shows "aoa_inv A aown ainv b'" "aoa_own aown b' = insert p (aoa_own aown b)" "ao_layout b' = ao_layout b"
    "fresh_block (ao_layout b) (aoa_own aown b) p"
proof -
  obtain a where a: "al_alloc A (ao_alloc b) (ao_layout b) = (a, Inr p)" "b' = b\<lparr> ao_alloc := a \<rparr>"
    using al by (auto simp: ao_alloc_obj_def split: prod.splits sum.splits alloc_err.splits)
  have c: "alloc_contract A aown ainv (ao_layout b)" "ainv (ao_alloc b)"
    and only: "\<And>p m. aown (ao_alloc b) p = Some m \<Longrightarrow> m = ao_layout b"
    using inv by (auto simp: aoa_inv_def)
  have new: "ainv a" "aown a = (aown (ao_alloc b))(p \<mapsto> ao_layout b)" "p \<noteq> null" "fits p (lay_size (ao_layout b))"
      "lay_align (ao_layout b) dvd unat p"
      "\<And>q m. aown (ao_alloc b) q = Some m \<Longrightarrow> q \<noteq> p \<and> region p (lay_size (ao_layout b)) \<inter> region q (lay_size m) = {}"
    using c(1) [unfolded alloc_contract_def, THEN conjunct1, rule_format, OF c(2) a(1)] by blast+
  show "aoa_inv A aown ainv b'" "aoa_own aown b' = insert p (aoa_own aown b)" "ao_layout b' = ao_layout b"
    using c(1) new(1,2) only a(2) by (auto simp: aoa_inv_def aoa_own_def split: if_splits)
  show "fresh_block (ao_layout b) (aoa_own aown b) p"
    unfolding fresh_block_def aoa_own_def using new(3-6) only by blast
qed

lemma ao_alloc_obj_total:
  assumes "aoa_inv A aown ainv b"
  shows "ao_alloc_obj A b \<noteq> None"
proof -
  have "snd (al_alloc A (ao_alloc b) (ao_layout b)) \<noteq> Inl Unsupported"
    using alloc_contractD(2) [of A aown ainv "ao_layout b" "ao_alloc b"] assms by (simp add: aoa_inv_def)
  then show ?thesis
    by (auto simp: ao_alloc_obj_def split: prod.split sum.split alloc_err.split)
qed

lemma ao_alloc_obj_None:
  assumes inv: "aoa_inv A aown ainv b" and al: "ao_alloc_obj A b = Some (b', None)"
  shows "aoa_inv A aown ainv b' \<and> aoa_own aown b' = aoa_own aown b \<and> ao_layout b' = ao_layout b"
proof -
  obtain a where "al_alloc A (ao_alloc b) (ao_layout b) = (a, Inl Exhausted)" "b' = b\<lparr> ao_alloc := a \<rparr>"
    using al by (auto simp: ao_alloc_obj_def split: prod.splits sum.splits alloc_err.splits)
  then show ?thesis
    using inv alloc_contractD(1) [of A aown ainv "ao_layout b" "ao_alloc b" a]
    by (auto simp: aoa_inv_def aoa_own_def)
qed

lemma ao_dealloc_obj_ok:
  assumes inv: "aoa_inv A aown ainv b" and p: "p \<in> aoa_own aown b"
  shows "aoa_inv A aown ainv (ao_dealloc_obj A b p) \<and> aoa_own aown (ao_dealloc_obj A b p) = aoa_own aown b - {p}
    \<and> ao_layout (ao_dealloc_obj A b p) = ao_layout b"
proof -
  have c: "alloc_contract A aown ainv (ao_layout b)" "ainv (ao_alloc b)"
    and only: "\<And>p m. aown (ao_alloc b) p = Some m \<Longrightarrow> m = ao_layout b"
    using inv by (auto simp: aoa_inv_def)
  obtain m where m: "aown (ao_alloc b) p = Some m" using p by (auto simp: aoa_own_def)
  have "aown (ao_alloc b) p = Some (ao_layout b)" using m only [OF m] by simp
  from alloc_contractD(3) [OF c this]
  have "ainv (al_dealloc A (ao_alloc b) p (ao_layout b))"
      "aown (al_dealloc A (ao_alloc b) p (ao_layout b)) = (aown (ao_alloc b))(p := None)" by simp_all
  then show ?thesis
    using inv by (auto simp: ao_dealloc_obj_def aoa_inv_def aoa_own_def split: if_splits)
qed

interpretation aoa: backing_alloc "alloc_object_ops A" "aoa_own aown" "aoa_inv A aown ainv" for A aown ainv
  unfolding alloc_object_ops_def
  by (rule backing_alloc.intro; unfold untyped_object_alloc.simps)
    (erule ao_alloc_obj_total | (erule (1) ao_alloc_obj_None) | (erule (1) ao_dealloc_obj_ok)
      | (intro conjI; (erule (1) ao_alloc_obj_Some)))+

text \<open>The four slab systems of the default features, and the two with the map of the standard
  library.\<close>

interpretation nop_aligned: stack_system nop_init_system "alloc_object_ops A" "aoa_own aown" "aoa_inv A aown ainv"
    aligned_ops aligned_cinv l for A aown ainv l
  by unfold_locales

interpretation ini_aligned: stack_system init_init_system "alloc_object_ops A" "aoa_own aown" "aoa_inv A aown ainv"
    aligned_ops aligned_cinv l for A aown ainv l
  by unfold_locales

interpretation nop_large: stack_system nop_init_system "alloc_object_ops A" "aoa_own aown" "aoa_inv A aown ainv"
    "large_ops optimized_map pg" "large_cinv pm_inv pm_map pg" l for A aown ainv pg l
  by unfold_locales

interpretation ini_large: stack_system init_init_system "alloc_object_ops A" "aoa_own aown" "aoa_inv A aown ainv"
    "large_ops optimized_map pg" "large_cinv pm_inv pm_map pg" l for A aown ainv pg l
  by unfold_locales

subsection \<open>The front of the allocator\<close>

text \<open>The invariant, the live objects and the begin of the working period of the
  \<open>SizedSlabAlloc\<close> inside; \<open>l\<close> is the layout of the objects.\<close>

definition slab_inv ::
  "'s init_sys \<Rightarrow> 'ba untyped_object_alloc \<Rightarrow> ('ba \<Rightarrow> ptr set) \<Rightarrow> ('ba \<Rightarrow> bool)
    \<Rightarrow> 'bl untyped_object_alloc \<Rightarrow> ('bl \<Rightarrow> ptr set) \<Rightarrow> ('bl \<Rightarrow> bool)
    \<Rightarrow> ('m large_data \<Rightarrow> slab_layout \<Rightarrow> layout \<Rightarrow> slab_header heap \<Rightarrow> bool) \<Rightarrow> layout
    \<Rightarrow> ('m, 'ba, 'bl) private_slab_alloc \<Rightarrow> bool" where
  "slab_inv I BA ownA binvA BL ownL binvL lcinv l s =
     (case s of
        Aligned a \<Rightarrow> sized_inv slab_header_linkable (sys_inv I BA ownA binvA aligned_cinv l) (sys_view I) sys_cap (lay_align l) a
      | Large a \<Rightarrow> sized_inv slab_header_linkable (sys_inv I BL ownL binvL lcinv l) (sys_view I) sys_cap (lay_align l) a)"

definition slab_live :: "'s init_sys \<Rightarrow> ('m, 'ba, 'bl) private_slab_alloc \<Rightarrow> ptr set" where
  "slab_live I s =
     (case s of Aligned a \<Rightarrow> sized_live (sys_view I) a | Large a \<Rightarrow> sized_live (sys_view I) a)"

definition slab_period :: "('m, 'ba, 'bl) private_slab_alloc \<Rightarrow> nat" where
  "slab_period s =
     (case s of Aligned a \<Rightarrow> ws_period_begin (sa_working_set a) | Large a \<Rightarrow> ws_period_begin (sa_working_set a))"

text \<open>The slabs the allocator got and did not return.\<close>

definition slab_blocks ::
  "('ba \<Rightarrow> ptr set) \<Rightarrow> ('bl \<Rightarrow> ptr set) \<Rightarrow> ('m, 'ba, 'bl) private_slab_alloc \<Rightarrow> ptr set" where
  "slab_blocks ownA ownL s =
     (case s of Aligned a \<Rightarrow> ownA (sy_alloc (sa_slab_system a)) | Large a \<Rightarrow> ownL (sy_alloc (sa_slab_system a)))"

lemma sized_alloc_period:
  assumes "sized_alloc L S I a = Some (a', r)"
  shows "ws_period_begin (sa_working_set a') = ws_period_begin (sa_working_set a)"
  using assms
  by (auto simp: sized_alloc_def sized_alloc_slab_def sized_take_def Let_def update_min_data
      split: Option.bind_splits if_splits)

text \<open>Both variants of the front at once.\<close>

locale slab_front =
  sa: stack_system I BA ownA binvA aligned_ops aligned_cinv l +
  sl: stack_system I BL ownL binvL "large_ops mo pg" lcinv l
  for I :: "'s init_sys"
    and BA :: "'ba untyped_object_alloc" and ownA :: "'ba \<Rightarrow> ptr set" and binvA :: "'ba \<Rightarrow> bool"
    and BL :: "'bl untyped_object_alloc" and ownL :: "'bl \<Rightarrow> ptr set" and binvL :: "'bl \<Rightarrow> bool"
    and mo :: "'m map_ops" and pg :: nat
    and lcinv :: "'m large_data \<Rightarrow> slab_layout \<Rightarrow> layout \<Rightarrow> slab_header heap \<Rightarrow> bool"
    and l :: layout
begin

lemma slab_alloc_spec:
  assumes "slab_inv I BA ownA binvA BL ownL binvL lcinv l s"
  shows "\<exists>s' r. slab_alloc I mo pg BA BL s = Some (s', r) \<and> slab_inv I BA ownA binvA BL ownL binvL lcinv l s'
    \<and> slab_period s' = slab_period s
    \<and> (case r of None \<Rightarrow> slab_live I s' = slab_live I s
       | Some x \<Rightarrow> x \<notin> slab_live I s \<and> slab_live I s' = insert x (slab_live I s))"
proof (cases s)
  case (Aligned a)
  obtain a' r where "sized_alloc slab_header_linkable (sys_ops I BA aligned_ops) I a = Some (a', r)"
      "sized_inv slab_header_linkable (sys_inv I BA ownA binvA aligned_cinv l) (sys_view I) sys_cap (lay_align l) a'"
      "case r of None \<Rightarrow> sized_live (sys_view I) a' = sized_live (sys_view I) a
       | Some x \<Rightarrow> x \<notin> sized_live (sys_view I) a \<and> sized_live (sys_view I) a' = insert x (sized_live (sys_view I) a)"
    using sa.sized_alloc_spec [of a] assms Aligned by (fastforce simp: slab_inv_def split: option.splits)
  then show ?thesis
    using Aligned sized_alloc_period
    by (intro exI [of _ "Aligned a'"] exI [of _ r])
      (auto simp: slab_alloc_def slab_inv_def slab_live_def slab_period_def split: option.splits)
next
  case (Large a)
  obtain a' r where "sized_alloc slab_header_linkable (sys_ops I BL (large_ops mo pg)) I a = Some (a', r)"
      "sized_inv slab_header_linkable (sys_inv I BL ownL binvL lcinv l) (sys_view I) sys_cap (lay_align l) a'"
      "case r of None \<Rightarrow> sized_live (sys_view I) a' = sized_live (sys_view I) a
       | Some x \<Rightarrow> x \<notin> sized_live (sys_view I) a \<and> sized_live (sys_view I) a' = insert x (sized_live (sys_view I) a)"
    using sl.sized_alloc_spec [of a] assms Large by (fastforce simp: slab_inv_def split: option.splits)
  then show ?thesis
    using Large sized_alloc_period
    by (intro exI [of _ "Large a'"] exI [of _ r])
      (auto simp: slab_alloc_def slab_inv_def slab_live_def slab_period_def split: option.splits)
qed

lemma slab_dealloc_spec:
  assumes inv: "slab_inv I BA ownA binvA BL ownL binvL lcinv l s" and x: "x \<in> slab_live I s"
    and now: "slab_period s \<le> now"
  shows "\<exists>s'. slab_dealloc I mo pg BA BL now s x = Some s' \<and> slab_inv I BA ownA binvA BL ownL binvL lcinv l s'
    \<and> slab_live I s' = slab_live I s - {x} \<and> slab_period s' \<le> now"
proof (cases s)
  case (Aligned a)
  then show ?thesis
    using sa.sized_dealloc_spec [of a x now] assms
    by (auto simp: slab_dealloc_def slab_inv_def slab_live_def slab_period_def)
next
  case (Large a)
  then show ?thesis
    using sl.sized_dealloc_spec [of a x now] assms
    by (auto simp: slab_dealloc_def slab_inv_def slab_live_def slab_period_def)
qed

lemma slab_drop_spec:
  assumes inv: "slab_inv I BA ownA binvA BL ownL binvL lcinv l s" and none: "slab_live I s = {}"
  shows "\<exists>s'. slab_drop I mo pg BA BL panicking s = Some s' \<and> slab_blocks ownA ownL s' = {}"
proof (cases s)
  case (Aligned a)
  then show ?thesis
    using sa.sized_drop_spec [of a panicking] assms
    by (auto simp: slab_drop_def slab_inv_def slab_live_def slab_blocks_def sys_inv_def)
next
  case (Large a)
  then show ?thesis
    using sl.sized_drop_spec [of a panicking] assms
    by (auto simp: slab_drop_def slab_inv_def slab_live_def slab_blocks_def sys_inv_def)
qed

lemma slab_drop_leak:
  assumes inv: "slab_inv I BA ownA binvA BL ownL binvL lcinv l s" and live: "slab_live I s \<noteq> {}"
  shows "slab_drop I mo pg BA BL False s = None"
  using assms sa.sized_drop_live sl.sized_drop_live
  by (cases s) (simp_all add: slab_drop_def slab_inv_def slab_live_def)

lemma slab_live_blocks:
  assumes "slab_inv I BA ownA binvA BL ownL binvL lcinv l s"
  shows "blocks_ok l (slab_live I s)" "finite (slab_live I s)"
  using assms sa.sys_live_blocks sl.sys_live_blocks sa.core_live_finite sl.core_live_finite
  by (cases s; fastforce simp: slab_inv_def slab_live_def sized_inv_def sized_live_def sized_core_def)+

end

subsection \<open>What the builders return\<close>

text \<open>The state of a system that was just built.\<close>

context stack_system
begin

lemma from_config_inv:
  assumes "for_slab_size l (lay_size (oa_layout B a)) = Some (Some (sl, u))"
    and l: "0 < lay_align l" "0 < lay_size l" "lay_align l dvd lay_size l" "lay_align l dvd lay_align (oa_layout B a)"
      "is_min_align I dvd lay_align l"
    and a: "binv a" "own a = {}" and d: "cinv d sl (oa_layout B a) Map.empty"
  shows "sys_inv I B own binv cinv l Map.empty (from_config_data d sl a mem)"
  using for_slab_size_ok [OF l(1,2) assms(1)] for_slab_size_spec(3) [OF l(1) assms(1)] l(3-) a d
  by (simp add: sys_inv_def from_config_data_def slabs_placed_def)

end

definition fresh_backing :: "'b untyped_object_alloc \<Rightarrow> ('b \<Rightarrow> ptr set) \<Rightarrow> ('b \<Rightarrow> bool) \<Rightarrow> layout \<Rightarrow> 'b \<Rightarrow> bool" where
  "fresh_backing B own binv bl a \<longleftrightarrow> oa_layout B a = bl \<and> binv a \<and> own a = {}"

text \<open>The layouts for which the builders work: not empty, no stricter than a page, and small
  enough for nine objects to fit into the largest slab a layout can describe.\<close>

definition buildable :: "nat \<Rightarrow> layout \<Rightarrow> bool" where
  "buildable pg l \<longleftrightarrow>
     0 < lay_size l \<and> layout_ok l \<and> lay_align l dvd lay_size l \<and> lay_align l \<le> pg
     \<and> is_power_of_two pg \<and> pg \<le> 2 ^ 30 \<and> slab_needs l (Suc objects_per_slab) \<le> 2 ^ 31"

lemma buildableD:
  assumes "buildable pg l"
  shows "0 < lay_size l" "0 < lay_align l" "lay_align l dvd lay_size l" "lay_align l dvd pg" "is_power_of_two pg"
    "0 < pg" "pg < 2 ^ 64" "slab_needs l (Suc objects_per_slab) \<le> 2 ^ 31" "slab_needs l 1 \<le> 2 ^ 31"
proof -
  show base: "0 < lay_size l" "0 < lay_align l" "lay_align l dvd lay_size l" "lay_align l dvd pg" "is_power_of_two pg"
      "0 < pg" "pg < 2 ^ 64" "slab_needs l (Suc objects_per_slab) \<le> 2 ^ 31"
    using assms pow2_le_dvd [of "lay_align l" pg]
    by (auto simp: buildable_def layout_ok_def dest: is_power_of_two_pos)
  show "slab_needs l 1 \<le> 2 ^ 31"
    using base(8) slab_needs_mono [OF base(2), of 1 "Suc objects_per_slab"] by simp
qed

lemma aligned_size_buildable:
  assumes "buildable pg l"
  shows "\<exists>S. found_size (aligned_backing_size_for pg l) = Some S \<and> layout_from_size_align S S = Some \<lparr> lay_size = S, lay_align = S \<rparr>
    \<and> 2 * pg \<le> S \<and> pg dvd S \<and> slab_needs l 1 \<le> S \<and> S + slab_needs l 1 < 2 ^ 64"
proof -
  note D = buildableD [OF assms]
  obtain k where k: "pg = 2 ^ k" using D(5) by (auto simp: is_power_of_two_iff)
  have k30: "k \<le> 30"
    using assms power_le_imp_le_exp [of "2 :: nat" k 30] by (simp add: buildable_def k)
  have "slab_needs l 1 < 2 ^ 63" using D(9) by simp
  then obtain j where j: "aligned_backing_size_for pg l = Some (Some (2 ^ j))" "k < j" "slab_needs l 1 \<le> 2 ^ j"
      "best_size (unused_in l) objects_per_slab (map ((^) 2) [Suc k ..< 64]) (Some (2 ^ j))"
    using aligned_size_found [OF D(2), of k] k30 k by auto
  have "j \<le> 31"
    by (rule aligned_size_bound [OF D(2) _ _ D(8) j(4)]) (use k30 in simp_all)
  then have "(2 :: nat) ^ j \<le> 2 ^ 31" by (rule power_increasing) simp
  moreover have "(2 :: nat) ^ Suc k \<le> 2 ^ j" using j(2) by (intro power_increasing) simp_all
  ultimately show ?thesis
    using j(1-3) k D(9) by (intro exI [of _ "2 ^ j"])
      (auto simp: found_size_def layout_from_size_align_def le_imp_power_dvd)
qed

lemma large_size_buildable:
  assumes "buildable pg l"
  shows "\<exists>S. found_size (large_backing_size_for pg l) = Some S \<and> pg dvd S \<and> slab_needs l 1 \<le> S \<and> S + slab_needs l 1 < 2 ^ 64"
proof -
  note D = buildableD [OF assms]
  have "slab_needs l (Suc objects_per_slab) + slab_needs l 1 + pg \<le> 2 ^ 64" using D(8,9) assms by (simp add: buildable_def)
  from large_size_found [OF D(2,6,7) this] show ?thesis by (auto simp: found_size_def)
qed

lemma page_multiple_layout:
  assumes "is_power_of_two pg" "pg \<le> 2 ^ 30" "pg dvd S" "S < 2 ^ 64"
  shows "layout_from_size_align S pg = Some \<lparr> lay_size = S, lay_align = pg \<rparr>"
proof -
  have "pg dvd 2 ^ 64"
    using pow2_le_dvd [OF assms(1) is_power_of_two_power [of 64]] assms(2) by simp
  then have "pg dvd 2 ^ 64 - S" using assms(3) by (rule dvd_diff_nat)
  then have "pg \<le> 2 ^ 64 - S" using assms(4) by (intro dvd_imp_le) simp_all
  then show ?thesis
    using assms is_power_of_two_pos [OF assms(1)] by (simp add: layout_from_size_align_def)
qed

locale slab_build = slab_front I BA ownA binvA BL ownL binvL mo pg lcinv l
  for I :: "'s init_sys"
    and BA :: "'ba untyped_object_alloc" and ownA :: "'ba \<Rightarrow> ptr set" and binvA :: "'ba \<Rightarrow> bool"
    and BL :: "'bl untyped_object_alloc" and ownL :: "'bl \<Rightarrow> ptr set" and binvL :: "'bl \<Rightarrow> bool"
    and mo :: "'m map_ops" and pg :: nat
    and lcinv :: "'m large_data \<Rightarrow> slab_layout \<Rightarrow> layout \<Rightarrow> slab_header heap \<Rightarrow> bool"
    and l :: layout +
  assumes new_map: "1 \<le> al \<Longrightarrow> is_power_of_two pg \<Longrightarrow> pg < 2 ^ 64 \<Longrightarrow> pg dvd lay_align bl \<Longrightarrow> pg dvd lay_size bl
    \<Longrightarrow> \<exists>m. mo_new mo default_map_size al = Some m
        \<and> lcinv \<lparr> lg_map = m, lg_map_by_page_addr = by_page \<rparr> sl bl Map.empty"
begin

lemma build_aligned_ok:
  assumes b: "buildable pg l" and min: "is_min_align I dvd lay_align l"
    and S: "layout_from_size_align S S = Some \<lparr> lay_size = S, lay_align = S \<rparr>" "pg dvd S" "slab_needs l 1 \<le> S"
      "S + slab_needs l 1 < 2 ^ 64" and l0: "lay_align l0 dvd lay_align l"
    and a: "fresh_backing BA ownA binvA \<lparr> lay_size = S, lay_align = S \<rparr> a"
  shows "\<exists>s. build_aligned BA now mem l0 l a = Some s \<and> slab_inv I BA ownA binvA BL ownL binvL lcinv l s
    \<and> slab_live I s = {} \<and> slab_period s = now"
proof -
  note D = buildableD [OF b]
  obtain sl u where sl: "for_slab_size l (lay_size (oa_layout BA a)) = Some (Some (sl, u))"
    using for_slab_size_total [OF D(2) S(4)] S(3) a by (auto simp: fresh_backing_def split: if_splits)
  have "sys_inv I BA ownA binvA aligned_cinv l Map.empty (from_config_data AlignedData sl a mem)"
    by (rule sa.from_config_inv [OF sl D(2,1,3) _ min])
      (use a S dvd_trans [OF D(4) S(2)] layout_from_size_align_Some [OF S(1)] in
        \<open>simp_all add: fresh_backing_def aligned_cinv_def\<close>)
  from sa.sized_new_inv [OF this l0, of now] show ?thesis
    using sl by (auto simp: build_aligned_def aligned_system_new_def slab_inv_def slab_live_def slab_period_def
        sized_new_def working_set_new_def)
qed

lemma build_large_ok:
  assumes b: "buildable pg l" and min: "is_min_align I dvd lay_align l"
    and l0: "lay_align l0 dvd lay_align l"
    and get: "\<And>bl. layout_ok bl \<Longrightarrow> lay_align bl = pg \<Longrightarrow> 0 < lay_size bl \<Longrightarrow> \<exists>a. get_large bl = Some a \<and> fresh_backing BL ownL binvL bl a"
  shows "\<exists>s. build_large mo pg BL get_large now mem l0 l = Some s \<and> slab_inv I BA ownA binvA BL ownL binvL lcinv l s
    \<and> slab_live I s = {} \<and> slab_period s = now"
proof -
  note D = buildableD [OF b]
  obtain S where S: "found_size (large_backing_size_for pg l) = Some S" "pg dvd S" "slab_needs l 1 \<le> S"
      "S + slab_needs l 1 < 2 ^ 64"
    using large_size_buildable [OF b] by blast
  let ?bl = "\<lparr> lay_size = S, lay_align = pg \<rparr>" and ?by = "lay_size l < pg"
  let ?al = "if ?by then pg else next_power_of_two (lay_size l)"
  have bl: "layout_from_size_align S pg = Some ?bl"
    using b S(2,4) D(5) by (intro page_multiple_layout) (simp_all add: buildable_def)
  obtain a where a: "get_large ?bl = Some a" "fresh_backing BL ownL binvL ?bl a" using get [of ?bl] layout_from_size_align_Some [OF bl] slab_needs_ge [of 1 l] S(3) by auto
  obtain sl u where sl: "for_slab_size l (lay_size (oa_layout BL a)) = Some (Some (sl, u))"
    using for_slab_size_total [OF D(2) S(4)] S(3) a(2) by (auto simp: fresh_backing_def split: if_splits)
  have "lay_size l \<le> slab_needs l 1" by (simp add: slab_needs_def)
  then have sz: "lay_size l \<le> 2 ^ 63" using D(9) by simp
  have "1 \<le> ?al" using D(6) is_power_of_two_pos [OF next_power_of_two_pow2] by (simp add: Suc_le_eq)
  then obtain m where m: "mo_new mo default_map_size ?al = Some m"
      "lcinv \<lparr> lg_map = m, lg_map_by_page_addr = ?by \<rparr> sl ?bl Map.empty"
    using new_map [of ?al ?bl ?by sl] D(5,7) S(2) by auto
  let ?s = "from_config_data \<lparr> lg_map = m, lg_map_by_page_addr = ?by \<rparr> sl a mem"
  have inv: "sys_inv I BL ownL binvL lcinv l Map.empty ?s"
    by (rule sl.from_config_inv [OF sl D(2,1,3) _ min])
      (use a(2) D(4) m(2) in \<open>simp_all add: fresh_backing_def\<close>)
  have "build_large mo pg BL get_large now mem l0 l = Some (Large (sized_new now l0 ?s) :: ('m, 'ba, 'bl) private_slab_alloc)"
    using S(1) bl a(1) sl m(1) sz by (cases ?by) (simp_all add: build_large_def large_system_new_def Let_def)
  then show ?thesis
    using sl.sized_new_inv [OF inv l0, of now]
    by (simp add: slab_inv_def slab_live_def slab_period_def sized_new_def working_set_new_def)
qed

lemma build_backing_ok:
  assumes l: "satisfy_min_align l0 (is_min_align I) = Some l" and b: "buildable pg l"
    and min: "is_min_align I dvd lay_align l" and l0: "lay_align l0 dvd lay_align l"
    and getA: "\<And>bl. layout_ok bl \<Longrightarrow> lay_size bl = lay_align bl
      \<Longrightarrow> found_size (aligned_backing_size_for pg l) = Some (lay_size bl) \<Longrightarrow> \<exists>r. get_aligned bl = Some r
      \<and> (\<forall>a. r = Some a \<longrightarrow> fresh_backing BA ownA binvA bl a)"
    and getL: "\<And>bl. layout_ok bl \<Longrightarrow> lay_align bl = pg \<Longrightarrow> 0 < lay_size bl \<Longrightarrow> \<exists>a. get_large bl = Some a \<and> fresh_backing BL ownL binvL bl a"
  shows "\<exists>s. build_backing I mo pg BA BL get_aligned get_large now mem l0 = Some s
    \<and> slab_inv I BA ownA binvA BL ownL binvL lcinv l s \<and> slab_live I s = {} \<and> slab_period s = now"
proof -
  obtain S where S: "found_size (aligned_backing_size_for pg l) = Some S" "2 * pg \<le> S"
      "layout_from_size_align S S = Some \<lparr> lay_size = S, lay_align = S \<rparr>" "pg dvd S" "slab_needs l 1 \<le> S"
      "S + slab_needs l 1 < 2 ^ 64"
    using aligned_size_buildable [OF b] by blast
  obtain r where r: "get_aligned \<lparr> lay_size = S, lay_align = S \<rparr> = Some r"
      "\<And>a. r = Some a \<Longrightarrow> fresh_backing BA ownA binvA \<lparr> lay_size = S, lay_align = S \<rparr> a"
    using getA [of "\<lparr> lay_size = S, lay_align = S \<rparr>"] S(1) layout_from_size_align_Some [OF S(3)] by auto
  have eq: "build_backing I mo pg BA BL get_aligned get_large now mem l0 =
      (case r of Some a \<Rightarrow> build_aligned BA now mem l0 l a | None \<Rightarrow> build_large mo pg BL get_large now mem l0 l)"
    using l S(1,3) r(1) by (simp add: build_backing_def)
  show ?thesis
  proof (cases r)
    case None
    then show ?thesis unfolding eq using build_large_ok [OF b min l0 getL] by simp
  next
    case (Some a)
    then show ?thesis unfolding eq using build_aligned_ok [OF b min S(3-6) l0 r(2) [OF Some]] by simp
  qed
qed

end

text \<open>All variants the features and the initialisation give.\<close>

lemma opt_new_map:
  assumes "1 \<le> al" "is_power_of_two pg" "pg < 2 ^ 64" "pg dvd lay_align bl" "pg dvd lay_size bl"
  shows "\<exists>m. mo_new optimized_map default_map_size al = Some m
    \<and> large_cinv pm_inv pm_map pg \<lparr> lg_map = m, lg_map_by_page_addr = by_page \<rparr> sl bl Map.empty"
  using assms pm_new_inv [OF assms(1), of default_map_size]
  by (auto simp: optimized_map_def default_map_size_def large_cinv_def maps_keys_def)

lemma std_new_map:
  assumes "1 \<le> al" "is_power_of_two pg" "pg < 2 ^ 64" "pg dvd lay_align bl" "pg dvd lay_size bl"
  shows "\<exists>m. mo_new stdlib_map default_map_size al = Some m
    \<and> large_cinv (\<lambda>m. True) (\<lambda>m. m) pg \<lparr> lg_map = m, lg_map_by_page_addr = by_page \<rparr> sl bl Map.empty"
  using assms by (auto simp: stdlib_map_def large_cinv_def maps_keys_def)

lemma slab_build_opt:
  assumes "init_system I"
  shows "slab_build I (alloc_object_ops A) (aoa_own aown) (aoa_inv A aown ainv)
    (alloc_object_ops A') (aoa_own aown') (aoa_inv A' aown' ainv') optimized_map pg (large_cinv pm_inv pm_map pg)"
  by (intro slab_build.intro slab_front.intro stack_system.intro slab_build_axioms.intro assms opt_new_map
      aoa.backing_alloc_axioms aligned.config_data_axioms large_opt.config_data_axioms)

lemma slab_build_std:
  assumes "init_system I"
  shows "slab_build I (alloc_object_ops A) (aoa_own aown) (aoa_inv A aown ainv)
    (alloc_object_ops A') (aoa_own aown') (aoa_inv A' aown' ainv') stdlib_map pg (large_cinv (\<lambda>m. True) (\<lambda>m. m) pg)"
  by (intro slab_build.intro slab_front.intro stack_system.intro slab_build_axioms.intro assms std_new_map
      aoa.backing_alloc_axioms aligned.config_data_axioms large_std.config_data_axioms)

interpretation nop_build: slab_build nop_init_system "alloc_object_ops A" "aoa_own aown" "aoa_inv A aown ainv"
    "alloc_object_ops A'" "aoa_own aown'" "aoa_inv A' aown' ainv'" optimized_map pg "large_cinv pm_inv pm_map pg" l
  for A aown ainv A' aown' ainv' pg l
  by (rule slab_build_opt) (rule nop.init_system_axioms)

interpretation ini_build: slab_build init_init_system "alloc_object_ops A" "aoa_own aown" "aoa_inv A aown ainv"
    "alloc_object_ops A'" "aoa_own aown'" "aoa_inv A' aown' ainv'" optimized_map pg "large_cinv pm_inv pm_map pg" l
  for A aown ainv A' aown' ainv' pg l
  by (rule slab_build_opt) (rule ini.init_system_axioms)

interpretation nop_build_std: slab_build nop_init_system "alloc_object_ops A" "aoa_own aown" "aoa_inv A aown ainv"
    "alloc_object_ops A'" "aoa_own aown'" "aoa_inv A' aown' ainv'" stdlib_map pg "large_cinv (\<lambda>m. True) (\<lambda>m. m) pg" l
  for A aown ainv A' aown' ainv' pg l
  by (rule slab_build_std) (rule nop.init_system_axioms)

interpretation ini_build_std: slab_build init_init_system "alloc_object_ops A" "aoa_own aown" "aoa_inv A aown ainv"
    "alloc_object_ops A'" "aoa_own aown'" "aoa_inv A' aown' ainv'" stdlib_map pg "large_cinv (\<lambda>m. True) (\<lambda>m. m) pg" l
  for A aown ainv A' aown' ainv' pg l
  by (rule slab_build_std) (rule ini.init_system_axioms)

subsection \<open>Histories\<close>

text \<open>What a client can do: allocate, and return an object it holds at a time that is not
  earlier than the last one.  \<open>live\<close> are the objects it holds.\<close>

inductive slab_reach ::
  "('s \<Rightarrow> ('s \<times> ptr option) option) \<Rightarrow> (nat \<Rightarrow> 's \<Rightarrow> ptr \<Rightarrow> 's option) \<Rightarrow> 's \<Rightarrow> nat \<Rightarrow> 's \<Rightarrow> nat \<Rightarrow> ptr set \<Rightarrow> bool"
  for al :: "'s \<Rightarrow> ('s \<times> ptr option) option" and de :: "nat \<Rightarrow> 's \<Rightarrow> ptr \<Rightarrow> 's option" and s0 :: 's and t0 :: nat
where
  start: "slab_reach al de s0 t0 s0 t0 {}"
| got: "slab_reach al de s0 t0 s t live \<Longrightarrow> al s = Some (s', Some x) \<Longrightarrow> slab_reach al de s0 t0 s' t (insert x live)"
| exhausted: "slab_reach al de s0 t0 s t live \<Longrightarrow> al s = Some (s', None) \<Longrightarrow> slab_reach al de s0 t0 s' t live"
| returned: "slab_reach al de s0 t0 s t live \<Longrightarrow> x \<in> live \<Longrightarrow> t \<le> now \<Longrightarrow> de now s x = Some s'
    \<Longrightarrow> slab_reach al de s0 t0 s' now (live - {x})"

context slab_front
begin

lemma reach_inv:
  assumes "slab_reach (slab_alloc I mo pg BA BL) (slab_dealloc I mo pg BA BL) s0 t0 s t live"
    and "slab_inv I BA ownA binvA BL ownL binvL lcinv l s0" "slab_live I s0 = {}" "slab_period s0 \<le> t0"
  shows "slab_inv I BA ownA binvA BL ownL binvL lcinv l s \<and> slab_live I s = live \<and> slab_period s \<le> t"
  using assms(1)
proof induction
  case start
  then show ?case using assms(2-4) by simp
next
  case (got s t live s' x)
  then show ?case using slab_alloc_spec [of s] by auto
next
  case (exhausted s t live s')
  then show ?case using slab_alloc_spec [of s] by auto
next
  case (returned s t live x now s')
  then show ?case using slab_dealloc_spec [of s x now] by auto
qed

text \<open>In every state a client can reach the objects it holds are blocks of layout \<open>l\<close> that do
  not overlap, an allocation returns and gives no object it holds already, and every object it
  holds can be returned.\<close>

lemma reach_safe:
  assumes "slab_reach (slab_alloc I mo pg BA BL) (slab_dealloc I mo pg BA BL) s0 t0 s t live"
    and "slab_inv I BA ownA binvA BL ownL binvL lcinv l s0" "slab_live I s0 = {}" "slab_period s0 \<le> t0"
  shows "blocks_ok l live" "\<exists>s' r. slab_alloc I mo pg BA BL s = Some (s', r) \<and> r \<notin> Some ` live"
    "x \<in> live \<Longrightarrow> t \<le> now \<Longrightarrow> slab_dealloc I mo pg BA BL now s x \<noteq> None"
    "live = {} \<Longrightarrow> \<exists>s'. slab_drop I mo pg BA BL panicking s = Some s' \<and> slab_blocks ownA ownL s' = {}"
    "live \<noteq> {} \<Longrightarrow> slab_drop I mo pg BA BL False s = None"
proof -
  have inv: "slab_inv I BA ownA binvA BL ownL binvL lcinv l s" "slab_live I s = live" "slab_period s \<le> t"
    using reach_inv [OF assms] by auto
  show "blocks_ok l live" using slab_live_blocks(1) [OF inv(1)] inv(2) by simp
  show "\<exists>s' r. slab_alloc I mo pg BA BL s = Some (s', r) \<and> r \<notin> Some ` live"
    using slab_alloc_spec [OF inv(1)] inv(2) by (fastforce split: option.splits)
  show "x \<in> live \<Longrightarrow> t \<le> now \<Longrightarrow> slab_dealloc I mo pg BA BL now s x \<noteq> None"
    using slab_dealloc_spec [OF inv(1), of x now] inv(2,3) by auto
  show "live = {} \<Longrightarrow> \<exists>s'. slab_drop I mo pg BA BL panicking s = Some s' \<and> slab_blocks ownA ownL s' = {}"
    using slab_drop_spec [OF inv(1)] inv(2) by simp
  show "live \<noteq> {} \<Longrightarrow> slab_drop I mo pg BA BL False s = None"
    using slab_drop_leak [OF inv(1)] inv(2) by simp
qed

end

subsection \<open>Backing by the heap and by mmap\<close>

lemma satisfied_min_align:
  assumes "init_system I" "satisfy_min_align l0 (is_min_align I) = Some l" "layout_ok l0"
  shows "is_min_align I dvd lay_align l" "lay_align l0 dvd lay_align l"
  using satisfy_min_align_ok [OF assms(2,3) init_system.min_align_pow2 [OF assms(1)]] by simp_all

text \<open>An allocator that is still unused, wrapped by \<open>AllocObjectAlloc::new\<close>.\<close>

lemma fresh_aoa:
  assumes "alloc_contract A aown ainv bl" "ainv a" "aown a = Map.empty"
  shows "fresh_backing (alloc_object_ops A) (aoa_own aown) (aoa_inv A aown ainv) bl (alloc_object_alloc_new a bl)"
  using assms by (simp add: fresh_backing_def alloc_object_ops_def aoa_own_def aoa_inv_def alloc_object_alloc_new_def)

lemma build_heap_ok:
  assumes I: "init_system I" and l: "satisfy_min_align l0 (is_min_align I) = Some l" "layout_ok l0" and b: "buildable pg l"
    and A: "alloc_ok A aown ainv"
    and hp: "ainv hp" "aown hp = Map.empty"
  shows "\<exists>s. build_backing I optimized_map pg (alloc_object_ops A) (alloc_object_ops A)
        (heap_get_aligned pg hp) (heap_get_large hp) now mem l0 = Some s
    \<and> slab_inv I (alloc_object_ops A) (aoa_own aown) (aoa_inv A aown ainv)
        (alloc_object_ops A) (aoa_own aown) (aoa_inv A aown ainv) (large_cinv pm_inv pm_map pg) l s
    \<and> slab_live I s = {} \<and> slab_period s = now"
proof (rule slab_build.build_backing_ok [OF slab_build_opt [OF I] l(1) b satisfied_min_align(1,2) [OF I l]])
  fix bl :: layout
  assume "found_size (aligned_backing_size_for pg l) = Some (lay_size bl)"
  then have "2 * pg \<le> lay_size bl" using aligned_size_buildable [OF b] by auto
  then show "\<exists>r. heap_get_aligned pg hp bl = Some r
      \<and> (\<forall>a. r = Some a \<longrightarrow> fresh_backing (alloc_object_ops A) (aoa_own aown) (aoa_inv A aown ainv) bl a)"
    using buildableD(6) [OF b] by (simp add: heap_get_aligned_def)
next
  fix bl :: layout
  assume "layout_ok bl" "0 < lay_size bl"
  then show "\<exists>a. heap_get_large hp bl = Some a
      \<and> fresh_backing (alloc_object_ops A) (aoa_own aown) (aoa_inv A aown ainv) bl a"
    using fresh_aoa [of A aown ainv bl hp] A hp by (simp add: heap_get_large_def alloc_ok_def)
qed

lemma build_mmap_ok:
  assumes I: "init_system I" and l: "satisfy_min_align l0 (is_min_align I) = Some l" "layout_ok l0" and b: "buildable pg l"
    and A: "\<And>bl. layout_ok bl \<Longrightarrow> lay_align bl \<le> pg \<Longrightarrow> 0 < lay_size bl \<Longrightarrow> alloc_contract A aown ainv bl"
    and mp: "ainv mp" "aown mp = Map.empty"
    and H: "\<And>S. huge S \<Longrightarrow> alloc_contract A aown (hinv S) \<lparr> lay_size = S, lay_align = S \<rparr>
      \<and> hinv S (mh S) \<and> aown (mh S) = Map.empty"
  shows "\<exists>s hi. build_backing I optimized_map pg (alloc_object_ops A) (alloc_object_ops A)
        (mmap_get_aligned pg huge mh mp) (mmap_get_large pg mp) now mem l0 = Some s
    \<and> slab_inv I (alloc_object_ops A) (aoa_own aown) (aoa_inv A aown hi)
        (alloc_object_ops A) (aoa_own aown) (aoa_inv A aown ainv) (large_cinv pm_inv pm_map pg) l s
    \<and> slab_live I s = {} \<and> slab_period s = now"
proof -
  obtain S where S: "found_size (aligned_backing_size_for pg l) = Some S" "2 * pg \<le> S"
    using aligned_size_buildable [OF b] by blast
  have "\<exists>s. build_backing I optimized_map pg (alloc_object_ops A) (alloc_object_ops A)
        (mmap_get_aligned pg huge mh mp) (mmap_get_large pg mp) now mem l0 = Some s
    \<and> slab_inv I (alloc_object_ops A) (aoa_own aown) (aoa_inv A aown (hinv S))
        (alloc_object_ops A) (aoa_own aown) (aoa_inv A aown ainv) (large_cinv pm_inv pm_map pg) l s
    \<and> slab_live I s = {} \<and> slab_period s = now"
  proof (rule slab_build.build_backing_ok [OF slab_build_opt [OF I] l(1) b satisfied_min_align(1,2) [OF I l]])
    fix bl :: layout
    assume "lay_size bl = lay_align bl" "found_size (aligned_backing_size_for pg l) = Some (lay_size bl)"
    then have bl: "bl = \<lparr> lay_size = S, lay_align = S \<rparr>" using S(1) by simp
    show "\<exists>r. mmap_get_aligned pg huge mh mp bl = Some r
        \<and> (\<forall>a. r = Some a \<longrightarrow> fresh_backing (alloc_object_ops A) (aoa_own aown) (aoa_inv A aown (hinv S)) bl a)"
      using S(2) buildableD(6) [OF b] fresh_aoa [of A aown "hinv S" bl "mh S"] H [of S]
      by (simp add: bl mmap_get_aligned_def)
  next
    fix bl :: layout
    assume "layout_ok bl" "lay_align bl = pg" "0 < lay_size bl"
    then show "\<exists>a. mmap_get_large pg mp bl = Some a
        \<and> fresh_backing (alloc_object_ops A) (aoa_own aown) (aoa_inv A aown ainv) bl a"
      using fresh_aoa [OF A mp] by (simp add: mmap_get_large_def)
  qed
  then show ?thesis by blast
qed

subsection \<open>Where building fails\<close>

text \<open>The slab for aligned objects is chosen, and must have a layout, before the code asks
  whether aligned slabs are supported at all.\<close>

lemma build_too_big:
  assumes "satisfy_min_align l0 (is_min_align I) = Some l" "0 < lay_align l" "is_power_of_two pg" "pg < 2 ^ 63"
    "2 ^ 31 < slab_needs l 1" "slab_needs l 1 \<le> 2 ^ 63"
  shows "build_backing I mo pg BA BL get_aligned get_large now mem l0 = None"
proof -
  obtain k where k: "pg = 2 ^ k" using assms(3) by (auto simp: is_power_of_two_iff)
  then have k63: "k < 63" using assms(4) power_less_imp_less_exp [of "2 :: nat" k 63] by simp
  show ?thesis
  proof (cases "aligned_backing_size_for pg l = None")
    case False
    then obtain j where j: "aligned_backing_size_for pg l = Some (Some (2 ^ j))" "slab_needs l 1 \<le> 2 ^ j"
      using aligned_size_or_panic [OF assms(2) k63 assms(6)] k by blast
    then have "2 ^ 31 < (2 :: nat) ^ j" using assms(5) by linarith
    then have "layout_from_size_align (2 ^ j) (2 ^ j) = None" by (simp add: layout_from_size_align_def)
    then show ?thesis
      using j(1) assms(1) by (simp add: build_backing_def found_size_def)
  qed (use assms(1) in \<open>simp add: build_backing_def found_size_def\<close>)
qed

text \<open>A backing allocator that supports no aligned slabs never gives any.\<close>

lemma build_heap_large:
  assumes "build_backing I mo pg BA BL (heap_get_aligned pg hp) get_large now mem l0 = Some s"
    "satisfy_min_align l0 (is_min_align I) = Some l" "buildable pg l"
  shows "\<exists>a. s = Large a \<and> sa_layout a = l0"
proof -
  obtain S where S: "found_size (aligned_backing_size_for pg l) = Some S" "2 * pg \<le> S"
      "layout_from_size_align S S = Some \<lparr> lay_size = S, lay_align = S \<rparr>"
    using aligned_size_buildable [OF assms(3)] by blast
  then have "build_large mo pg BL get_large now mem l0 l = Some s"
    using assms(1,2) buildableD(6) [OF assms(3)] by (simp add: build_backing_def heap_get_aligned_def)
  then show ?thesis
    by (auto simp: build_large_def sized_new_def split: Option.bind_splits)
qed

end
