(* ===== verification/Bump_Alloc.thy ===== *)
theory Bump_Alloc
  imports Slab_Alloc
begin

text \<open>
  An allocator that moves a pointer upwards and meets \<open>alloc_contract\<close>.  It models no code of
  the repository; it shows that the hypotheses on allocators outside the repository can be
  met, and the witnesses of the properties are stated over it.
\<close>

record bump =
  bp_next :: nat
  bp_live :: "ptr \<Rightarrow> layout option"

definition bump_alloc :: "bump \<Rightarrow> layout \<Rightarrow> bump \<times> (alloc_err + ptr)" where
  "bump_alloc b l =
     (let a = bp_next b + padding_needed_for (bp_next b) (lay_align l)
      in if a + lay_size l < 2 ^ 64
         then (\<lparr> bp_next = a + lay_size l, bp_live = (bp_live b)(of_nat a \<mapsto> l) \<rparr>, Inr (of_nat a))
         else (b, Inl Exhausted))"

definition bump_dealloc :: "bump \<Rightarrow> ptr \<Rightarrow> layout \<Rightarrow> bump" where
  "bump_dealloc b p l = b\<lparr> bp_live := (bp_live b)(p := None) \<rparr>"

definition bump_ops :: "bump alloc_ops" where
  "bump_ops = \<lparr> al_alloc = bump_alloc, al_dealloc = bump_dealloc \<rparr>"

definition bump_inv :: "bump \<Rightarrow> bool" where
  "bump_inv b \<longleftrightarrow> 0 < bp_next b \<and> bp_next b < 2 ^ 64
     \<and> (\<forall>p l. bp_live b p = Some l \<longrightarrow> unat p < bp_next b \<and> unat p + lay_size l \<le> bp_next b)"

definition bump_start :: bump where
  "bump_start = \<lparr> bp_next = 4096, bp_live = Map.empty \<rparr>"

lemma bump_start_ok: "bump_inv bump_start" "bp_live bump_start = Map.empty"
  by (simp_all add: bump_inv_def bump_start_def)

lemma bump_alloc_ok:
  assumes inv: "bump_inv b" and l: "layout_ok l" "0 < lay_size l" and al: "bump_alloc b l = (b', Inr p)"
  shows "bump_inv b'" "bp_live b' = (bp_live b)(p \<mapsto> l)" "p \<noteq> null" "fits p (lay_size l)" "lay_align l dvd unat p"
    "bp_live b q = Some m \<Longrightarrow> q \<noteq> p \<and> region p (lay_size l) \<inter> region q (lay_size m) = {}"
proof -
  define a where "a = bp_next b + padding_needed_for (bp_next b) (lay_align l)"
  have la: "0 < lay_align l" using l(1) by (auto simp: layout_ok_def dest: is_power_of_two_pos)
  have lt: "a + lay_size l < 2 ^ 64" and b': "b' = \<lparr> bp_next = a + lay_size l, bp_live = (bp_live b)(p \<mapsto> l) \<rparr>"
    and p: "p = of_nat a"
    using al by (auto simp: bump_alloc_def Let_def a_def split: if_splits)
  have ua: "unat p = a" unfolding p using lt by (simp add: unat_of_nat)
  have pos: "0 < bp_next b" "bp_next b \<le> a" using inv by (simp_all add: bump_inv_def a_def)
  show "bp_live b' = (bp_live b)(p \<mapsto> l)" using b' by simp
  show "bump_inv b'"
    unfolding bump_inv_def b'
  proof (intro conjI allI impI)
    fix q m
    assume "bp_live \<lparr> bp_next = a + lay_size l, bp_live = (bp_live b)(p \<mapsto> l) \<rparr> q = Some m"
    then have "q = p \<and> m = l \<or> bp_live b q = Some m" by (auto split: if_splits)
    then have "unat q < a + lay_size l \<and> unat q + lay_size m \<le> a + lay_size l"
    proof
      assume "bp_live b q = Some m"
      then have "unat q < bp_next b \<and> unat q + lay_size m \<le> bp_next b" using inv by (simp add: bump_inv_def)
      then show ?thesis using pos(2) by linarith
    qed (use ua l(2) in simp)
    then show "unat q < bp_next \<lparr> bp_next = a + lay_size l, bp_live = (bp_live b)(p \<mapsto> l) \<rparr>"
      "unat q + lay_size m \<le> bp_next \<lparr> bp_next = a + lay_size l, bp_live = (bp_live b)(p \<mapsto> l) \<rparr>" by simp_all
  qed (use lt l(2) in simp_all)
  show "p \<noteq> null" using ua pos by (auto simp: unat_eq_zero)
  show "fits p (lay_size l)" using lt by (simp add: fits_def ua)
  show "lay_align l dvd unat p"
    unfolding ua a_def by (rule padding_needed_for_dvd [OF la])
  show "q \<noteq> p \<and> region p (lay_size l) \<inter> region q (lay_size m) = {}" if "bp_live b q = Some m"
    using that inv ua pos(2) by (fastforce simp: bump_inv_def region_def)
qed

lemma bump_contract: "layout_ok l \<Longrightarrow> 0 < lay_size l \<Longrightarrow> alloc_contract bump_ops bp_live bump_inv l"
proof -
  assume l: "layout_ok l" "0 < lay_size l"
  have exh: "b' = b" if "bump_alloc b l = (b', Inl e)" for b b' e
    using that by (auto simp: bump_alloc_def Let_def split: if_splits)
  have sup: "snd (bump_alloc b l) \<noteq> Inl Unsupported" for b
    by (auto simp: bump_alloc_def Let_def)
  have free: "bump_inv (bump_dealloc b p l)" if "bump_inv b" for b p
    using that by (auto simp: bump_inv_def bump_dealloc_def)
  show ?thesis
    unfolding alloc_contract_def bump_ops_def alloc_ops.simps
  proof (intro conjI allI impI)
    fix b b' p
    assume b: "bump_inv b" "bump_alloc b l = (b', Inr p)"
    note ok = bump_alloc_ok [OF b(1) l b(2)]
    show "bump_inv b'" "bp_live b' = (bp_live b)(p \<mapsto> l)" "p \<noteq> null" "fits p (lay_size l)" "lay_align l dvd unat p"
      by (rule ok)+
    fix q m
    assume "bp_live b q = Some m"
    from ok(6) [OF this] show "q \<noteq> p" "region p (lay_size l) \<inter> region q (lay_size m) = {}" by simp_all
  next
    fix b b'
    assume b: "bump_inv b" "bump_alloc b l = (b', Inl Exhausted)"
    show "bump_inv b'" "bp_live b' = bp_live b" using b(1) exh [OF b(2)] by simp_all
  qed (use sup free in \<open>simp_all add: bump_dealloc_def\<close>)
qed

lemma bump_ok: "alloc_ok bump_ops bp_live bump_inv"
  by (simp add: alloc_ok_def bump_contract)

end
