(* ===== verification/Sim_Malloc.thy ===== *)
theory Sim_Malloc
  imports Malloc_Bind Bump_Alloc
begin

text \<open>
  An allocator with a layout finder that meets \<open>malloc_contract\<close>: the bump allocator with a map of
  layouts and a memory.  It models no code of the repository; it shows that the hypotheses on the
  traits can be met, and the witnesses of the properties of \<open>malloc-bind\<close> are stated over it.
\<close>

record sm =
  sm_bump :: bump
  sm_find :: "ptr \<Rightarrow> layout option"
  sm_byte :: "nat \<Rightarrow> 8 word"

definition sm_alloc :: "sm \<Rightarrow> layout \<Rightarrow> sm \<times> (mb_err + ptr)" where
  "sm_alloc a l = (case bump_alloc (sm_bump a) l of
     (b, Inr p) \<Rightarrow> (a\<lparr> sm_bump := b, sm_byte := (\<lambda>x. if x \<in> region p (lay_size l) then 0 else sm_byte a x) \<rparr>, Inr p)
   | (b, Inl _) \<Rightarrow> (a, Inl MbExhausted))"

definition sm_dealloc :: "sm \<Rightarrow> ptr \<Rightarrow> layout \<Rightarrow> sm" where
  "sm_dealloc a p l = a\<lparr> sm_bump := bump_dealloc (sm_bump a) p l \<rparr>"

definition sm_realloc :: "sm \<Rightarrow> ptr \<Rightarrow> layout \<Rightarrow> layout \<Rightarrow> sm \<times> (mb_err + ptr)" where
  "sm_realloc a p l l' = (case bump_alloc (sm_bump a) l' of
     (b, Inr q) \<Rightarrow> (a\<lparr> sm_bump := bump_dealloc b p l,
         sm_byte := (\<lambda>x. if x \<in> region q (lay_size l') then sm_byte a (unat p + (x - unat q)) else sm_byte a x) \<rparr>, Inr q)
   | (b, Inl _) \<Rightarrow> (a, Inl MbExhausted))"

definition sm_ops :: "sm malloc_ops" where
  "sm_ops = \<lparr> mo_alloc = sm_alloc, mo_alloc_zeroed = sm_alloc, mo_dealloc = sm_dealloc, mo_realloc = sm_realloc,
     mo_get_layout = (\<lambda>a p. the (sm_find a p)),
     mo_insert_layout = (\<lambda>a p l. a\<lparr> sm_find := (sm_find a)(p \<mapsto> l) \<rparr>),
     mo_delete_layout = (\<lambda>a p. a\<lparr> sm_find := (sm_find a)(p := None) \<rparr>) \<rparr>"

definition sm_view :: "sm malloc_view" where
  "sm_view = \<lparr> mv_own = (\<lambda>a. bp_live (sm_bump a)), mv_find = sm_find,
     mv_insertable = (\<lambda>a p. sm_find a p = None), mv_deletable = (\<lambda>a p. sm_find a p \<noteq> None), mv_byte = sm_byte,
     mv_inv = (\<lambda>a. bump_inv (sm_bump a)), mv_sup = (\<lambda>_. True) \<rparr>"

definition sm_start :: "sm c_state" where
  "sm_start = \<lparr> cs_self = \<lparr> sm_bump = bump_start, sm_find = Map.empty, sm_byte = (\<lambda>_. 0) \<rparr>, cs_errno = None \<rparr>"

lemma bytes_outside:
  assumes "clear_of own l p" "\<And>x. x \<notin> region p (lay_size l) \<Longrightarrow> sm_byte a' x = sm_byte a x"
  shows "bytes_kept sm_view own a a'"
  unfolding bytes_kept_def
proof (intro allI impI)
  fix q m i assume q: "own q = Some m" "i < lay_size m"
  then have "unat q + i \<in> region q (lay_size m)" by (simp add: region_def)
  then have "unat q + i \<notin> region p (lay_size l)" using assms(1) q(1) by (auto simp: clear_of_def)
  then show "mv_byte sm_view a' (unat q + i) = mv_byte sm_view a (unat q + i)" by (simp add: sm_view_def assms(2))
qed

lemma bump_got:
  assumes "bump_inv b" "layout_ok l" "0 < lay_size l" "bump_alloc b l = (b', Inr p)"
  shows "bump_inv b'" "bp_live b' = (bp_live b)(p \<mapsto> l)" "block_at l p" "clear_of (bp_live b) l p"
  using bump_alloc_ok [OF assms] by (auto simp: block_at_def clear_of_def)

lemma clear_of_remove: "clear_of own l p \<Longrightarrow> clear_of (own(q := None)) l p"
  by (simp add: clear_of_def)

lemma sm_alloc_law: "alloc_law sm_view sm_alloc"
  unfolding alloc_law_def
proof (intro allI impI)
  fix a l assume a: "mv_inv sm_view a" "served sm_view l"
  obtain b r where br: "bump_alloc (sm_bump a) l = (b, r)" by fastforce
  show "case sm_alloc a l of
     (a', Inr p) \<Rightarrow> mv_own sm_view a' = (mv_own sm_view a)(p \<mapsto> l) \<and> blocks_kept sm_view (mv_own sm_view a) a a'
       \<and> block_at l p \<and> clear_of (mv_own sm_view a) l p
   | (a', Inl MbExhausted) \<Rightarrow> same_blocks sm_view a a'
   | (a', Inl MbUnsupported) \<Rightarrow> False"
  proof (cases r)
    case (Inl e)
    then show ?thesis using a(1) br by (simp add: sm_alloc_def same_blocks_def blocks_kept_def bytes_kept_def)
  next
    case (Inr p)
    have g: "bump_inv b" "bp_live b = (bp_live (sm_bump a))(p \<mapsto> l)" "block_at l p" "clear_of (bp_live (sm_bump a)) l p"
      using bump_got [of "sm_bump a" l b p] a br Inr by (simp_all add: sm_view_def served_def)
    let ?a = "a\<lparr> sm_bump := b, sm_byte := (\<lambda>x. if x \<in> region p (lay_size l) then 0 else sm_byte a x) \<rparr>"
    have "bytes_kept sm_view (bp_live (sm_bump a)) a ?a" by (rule bytes_outside [OF g(4)]) simp
    then show ?thesis using g br Inr by (simp add: sm_alloc_def blocks_kept_def, simp add: sm_view_def)
  qed
qed

lemma sm_zero_law: "zero_law sm_view sm_alloc"
  by (auto simp: zero_law_def sm_alloc_def sm_view_def region_def split: prod.splits sum.splits)

lemma sm_dealloc_law: "dealloc_law sm_view sm_dealloc"
  by (auto simp: dealloc_law_def sm_dealloc_def sm_view_def bump_dealloc_def bump_inv_def bytes_kept_def blocks_kept_def)

lemma sm_realloc_law: "realloc_law sm_view sm_realloc"
  unfolding realloc_law_def
proof (intro allI impI)
  fix a p l l' assume a: "mv_inv sm_view a" "mv_own sm_view a p = Some l" "served sm_view l'"
  obtain b r where br: "bump_alloc (sm_bump a) l' = (b, r)" by fastforce
  show "case sm_realloc a p l l' of
     (a', Inr q) \<Rightarrow> mv_own sm_view a' = (mv_own sm_view a)(p := None, q \<mapsto> l')
       \<and> blocks_kept sm_view ((mv_own sm_view a)(p := None)) a a' \<and> block_at l' q \<and> clear_of ((mv_own sm_view a)(p := None)) l' q
       \<and> (\<forall>i. i < lay_size l \<longrightarrow> i < lay_size l' \<longrightarrow> mv_byte sm_view a' (unat q + i) = mv_byte sm_view a (unat p + i))
   | (a', Inl MbExhausted) \<Rightarrow> same_blocks sm_view a a'
   | (a', Inl MbUnsupported) \<Rightarrow> False"
  proof (cases r)
    case (Inl e)
    then show ?thesis using a(1) br by (simp add: sm_realloc_def same_blocks_def blocks_kept_def bytes_kept_def)
  next
    case (Inr q)
    have g: "bump_inv b" "bp_live b = (bp_live (sm_bump a))(q \<mapsto> l')" "block_at l' q" "clear_of (bp_live (sm_bump a)) l' q"
      using bump_got [of "sm_bump a" l' b q] a(1,3) br Inr by (simp_all add: sm_view_def served_def)
    have pq: "p \<noteq> q" using g(4) a(2) by (auto simp: clear_of_def sm_view_def)
    let ?a = "a\<lparr> sm_bump := bump_dealloc b p l,
         sm_byte := (\<lambda>x. if x \<in> region q (lay_size l') then sm_byte a (unat p + (x - unat q)) else sm_byte a x) \<rparr>"
    have "bytes_kept sm_view ((bp_live (sm_bump a))(p := None)) a ?a"
      by (rule bytes_outside [OF clear_of_remove [OF g(4)]]) simp
    moreover have "bump_inv (bump_dealloc b p l)" using g(1) by (simp add: bump_dealloc_def bump_inv_def)
    moreover have "bp_live (bump_dealloc b p l) = (bp_live (sm_bump a))(p := None, q \<mapsto> l')"
      using pq by (simp add: bump_dealloc_def g(2) fun_upd_twist)
    ultimately show ?thesis
      using g(3) clear_of_remove [OF g(4), of p] br Inr
      by (simp add: sm_realloc_def blocks_kept_def del: fun_upd_apply, simp add: sm_view_def region_def del: fun_upd_apply)
  qed
qed

lemma sm_contract: "malloc_contract sm_ops sm_view"
  unfolding malloc_contract_def
  using sm_alloc_law sm_zero_law sm_dealloc_law sm_realloc_law
  by (simp add: sm_ops_def) (simp add: finder_law_def entries_kept_def sm_view_def)

lemma sm_map_finder: "map_finder sm_ops sm_view"
  by (auto simp: map_finder_def sm_ops_def sm_view_def sm_realloc_def split: prod.splits sum.splits)

text \<open>An allocator that keeps track of the layouts itself meets the same contract with the default
  methods, which do nothing.\<close>

definition sn_ops :: "sm malloc_ops" where
  "sn_ops = sm_ops\<lparr> mo_get_layout := (\<lambda>a p. the (bp_live (sm_bump a) p)), mo_insert_layout := (\<lambda>a p l. a),
     mo_delete_layout := (\<lambda>a p. a) \<rparr>"

definition sn_view :: "sm malloc_view" where
  "sn_view = sm_view\<lparr> mv_find := (\<lambda>a. bp_live (sm_bump a)), mv_insertable := (\<lambda>a p. True), mv_deletable := (\<lambda>a p. True) \<rparr>"

lemma sn_simps: "mv_own sn_view = mv_own sm_view" "mv_byte sn_view = mv_byte sm_view" "served sn_view = served sm_view"
    "mv_inv sn_view = mv_inv sm_view" "zero_law sn_view = zero_law sm_view"
  by (simp_all add: sn_view_def served_def zero_law_def fun_eq_iff)

lemma sn_kept:
  assumes "blocks_kept sm_view own a a'" "\<And>q. own q \<noteq> None \<Longrightarrow> mv_own sm_view a' q = mv_own sm_view a q"
  shows "blocks_kept sn_view own a a'"
  using assms by (simp add: blocks_kept_def bytes_kept_def sn_view_def sm_view_def)

lemma sn_contract: "malloc_contract sn_ops sn_view"
proof -
  have same: "same_blocks sm_view a a' \<Longrightarrow> same_blocks sn_view a a'" for a a'
    using sn_kept [of "mv_own sm_view a" a a'] by (simp add: same_blocks_def sn_simps)
  have alloc: "alloc_law sn_view sm_alloc"
    using sm_alloc_law unfolding alloc_law_def sn_simps
    by (fastforce split: prod.splits sum.splits mb_err.splits intro!: same sn_kept dest: clear_none)
  moreover have "dealloc_law sn_view sm_dealloc"
    using sm_dealloc_law unfolding dealloc_law_def sn_simps by (auto intro!: sn_kept split: if_splits)
  moreover have "realloc_law sn_view sm_realloc"
    using sm_realloc_law unfolding realloc_law_def sn_simps
    by (fastforce split: prod.splits sum.splits mb_err.splits if_splits intro!: same sn_kept dest: clear_none)
  moreover have "finder_law sn_ops sn_view"
    by (auto simp: finder_law_def entries_kept_def sn_ops_def sn_view_def sm_view_def)
  ultimately show ?thesis
    using sm_zero_law by (simp add: malloc_contract_def sn_simps sn_ops_def sm_ops_def)
qed

lemma sm_start_inv: "malloc_inv sm_view sm_start"
  by (simp add: malloc_inv_def sm_view_def sm_start_def bump_start_ok)

lemma sm_request: "request_ok sm_view 100 8" "request_ok sm_view 5000 8" "request_ok sm_view 100 64"
  using is_power_of_two_power [of 3] is_power_of_two_power [of 6] by (simp_all add: request_ok_def sm_view_def)

end
