(* ===== verification/Slag_Meta.thy ===== *)
theory Slag_Meta
  imports Slab_Util
begin

text \<open>
  The size-class metadata of \<open>elfmalloc\<close> (module \<open>metadata\<close> of
  \<open>src/elfmalloc/src/slag.rs\<close>, with \<open>src/elfmalloc/src/alloc_type.rs\<close>).
  \<open>compute_metadata\<close> searches, over every power of two a bit of the bit-set may stand for,
  the layout of a \<open>Slag\<close>: header, bit-set, padding, objects.  Sizes are natural
  numbers (all of them are bounded by the page size, so no operation wraps), the
  \<open>f64\<close> scores are the correctly rounded rationals of \<open>Slab_Util\<close>, and the two
  unbounded loops are partial functions, so that not returning is the value \<open>None\<close>, as
  is a failed debug assertion.  The lemmas show which layout the search returns, that it
  returns for every object size of at least two bytes, and that it does not below.
\<close>

subsection \<open>Data\<close>

datatype alloc_type = SmallSlag | BigSlag | LargeType

record metadata =
  md_object_size :: nat
  md_n_objects :: nat
  md_n_bitset_words :: nat
  md_total_bytes :: nat
  md_bitset_offset :: nat
  md_objects_offset :: nat
  md_object_mask :: usize
  md_bit_rep_shift :: nat
  md_local_index :: nat
  md_cutoff_objects :: nat
  md_usable_size :: nat
  md_ty :: alloc_type

definition word_bits :: nat where
  "word_bits = 8 * 8"

text \<open>\<open>size_of::<Slag>()\<close>: a one-byte tag padded to a word, the metadata pointer, the
  reference count and the revocation handle.\<close>

definition slag_size :: nat where
  "slag_size = max (4 * 8) 64"

lemma word_bits_eq [simp]: "word_bits = 64"
  by (simp add: word_bits_def)

lemma slag_size_eq [simp]: "slag_size = 64"
  by (simp add: slag_size_def)

subsection \<open>Layout arithmetic\<close>

definition bitset_bytes :: "nat \<Rightarrow> nat \<Rightarrow> nat" where
  "bitset_bytes n_objects gran =
     (let bits = n_objects * gran;
          words = (if bits mod word_bits = 0 then bits div word_bits else bits div word_bits + 1) in
      words * 8)"

definition align_padding :: "nat \<Rightarrow> nat \<Rightarrow> nat \<Rightarrow> nat" where
  "align_padding alignment n_objects gran =
     (let h_bitset_size = slag_size + bitset_bytes n_objects gran;
          rounded = nat (int (h_bitset_size + (alignment - 1)) AND NOT (int (alignment - 1))) in
      rounded - h_bitset_size)"

definition total_bytes :: "nat \<Rightarrow> nat \<Rightarrow> nat \<Rightarrow> nat" where
  "total_bytes sz gran n_objects =
     slag_size + bitset_bytes n_objects gran
       + (if is_power_of_two sz then align_padding sz n_objects gran else 0)
       + n_objects * sz"

text \<open>The loop that counts the objects that fit.\<close>

partial_function (option) fit_loop :: "nat \<Rightarrow> nat \<Rightarrow> nat \<Rightarrow> nat \<Rightarrow> nat option" where
  "fit_loop padded gran usable n =
     (if usable < total_bytes padded gran (n + 1) then Some n
      else fit_loop padded gran usable (n + 1))"

text \<open>Products and differences of \<open>f64\<close> values, rounded as \<open>f64_ratio\<close> does, and the
  cast \<open>as usize\<close>.\<close>

definition f64_round :: "rat \<Rightarrow> rat" where
  "f64_round x =
     (let q = quotient_of \<bar>x\<bar> in sgn x * f64_ratio (nat (fst q)) (nat (snd q)))"

definition f64_mul :: "rat \<Rightarrow> rat \<Rightarrow> rat" where
  "f64_mul x y = f64_round (x * y)"

definition f64_sub :: "rat \<Rightarrow> rat \<Rightarrow> rat" where
  "f64_sub x y = f64_round (x - y)"

definition f64_to_usize :: "rat \<Rightarrow> nat" where
  "f64_to_usize x = nat \<lfloor>x\<rfloor>"

definition meta_inner ::
  "nat \<Rightarrow> nat \<Rightarrow> nat \<Rightarrow> nat \<Rightarrow> rat \<Rightarrow> nat \<Rightarrow> (rat \<times> nat \<times> metadata) option" where
  "meta_inner sz page_size round_up_to_shift local_index cutoff_factor usable_size0 =
     (let usable_size = min usable_size0 page_size;
          round_up_to_bytes = 2 ^ round_up_to_shift;
          rem = sz mod round_up_to_bytes;
          padding_per_object = (if rem = 0 then 0 else round_up_to_bytes - rem);
          padded_size = sz + padding_per_object;
          gran = padded_size div round_up_to_bytes in
      if \<not> (0 < usable_size \<and> 0 < gran \<and> (gran = 1 \<longrightarrow> is_power_of_two padded_size)) then None
      else
        let bits_per_object = padded_size div 2 ^ round_up_to_shift;
            slush_size = bits_per_object - word_bits mod bits_per_object;
            mult = (if word_bits < slush_size then - 1 else 1 :: rat) in
        fit_loop padded_size gran usable_size 1 \<bind> (\<lambda>n_objects.
          let pad = (if is_power_of_two padded_size then align_padding padded_size n_objects gran else 0);
              bs = total_bytes padded_size gran n_objects - n_objects * padding_per_object
                     - bitset_bytes n_objects gran - slag_size - pad;
              score = (if f64_of_usize usable_size < f64_of_usize bs then - 1 else 1)
                        * f64_div bs usable_size;
              n_words = bitset_bytes n_objects gran div 8 in
          Some (score * mult, n_words,
            \<lparr> md_object_size = padded_size, md_n_objects = n_objects, md_n_bitset_words = n_words,
              md_total_bytes = page_size, md_bitset_offset = slag_size,
              md_objects_offset = slag_size + (pad + bitset_bytes n_objects gran),
              md_object_mask = 1, md_bit_rep_shift = trailing_zeros round_up_to_bytes,
              md_local_index = local_index,
              md_cutoff_objects = max 1 (f64_to_usize (f64_mul (f64_of_usize n_objects) cutoff_factor)),
              md_usable_size = usable_size, md_ty = SmallSlag \<rparr>)))"

definition test_meta :: metadata where
  "test_meta = \<lparr> md_object_size = 0, md_n_objects = 0, md_n_bitset_words = 0, md_total_bytes = 0,
     md_bitset_offset = 0, md_objects_offset = 0, md_object_mask = 0, md_bit_rep_shift = 0,
     md_local_index = 0, md_cutoff_objects = 0, md_usable_size = 0, md_ty = SmallSlag \<rparr>"

text \<open>The comparison of the fold, and the fold over the candidate shifts.\<close>

definition better_meta :: "rat \<times> nat \<times> metadata \<Rightarrow> rat \<times> nat \<times> metadata \<Rightarrow> rat \<times> nat \<times> metadata" where
  "better_meta o1 o2 =
     (if fst o1 < fst o2
         \<or> \<bar>f64_sub (fst o1) (fst o2)\<bar> < f64_ratio 1 100000 \<and> fst (snd o2) < fst (snd o1)
      then o2 else o1)"

fun search_meta :: "(nat \<Rightarrow> (rat \<times> nat \<times> metadata) option) \<Rightarrow> nat list
    \<Rightarrow> rat \<times> nat \<times> metadata \<Rightarrow> (rat \<times> nat \<times> metadata) option" where
  "search_meta f [] best = Some best"
| "search_meta f (shift # shifts) best =
     f shift \<bind> (\<lambda>cand. search_meta f shifts (better_meta best cand))"

text \<open>The loop that builds the mask of the first word of the bit-set.\<close>

partial_function (option) mask_loop :: "nat \<Rightarrow> nat \<Rightarrow> usize \<Rightarrow> usize option" where
  "mask_loop bits_per_object cur_bit m =
     (if cur_bit < word_bits
      then mask_loop bits_per_object (cur_bit + bits_per_object) (m OR push_bit cur_bit 1)
      else Some m)"

definition compute_metadata ::
  "nat \<Rightarrow> nat \<Rightarrow> nat \<Rightarrow> rat \<Rightarrow> nat \<Rightarrow> alloc_type \<Rightarrow> metadata option" where
  "compute_metadata obj_size page_size local_index cutoff_factor usable_size ty =
     search_meta
       (\<lambda>shift. meta_inner obj_size page_size shift local_index cutoff_factor usable_size)
       [1..<trailing_zeros (next_power_of_two obj_size) + 1] (- 10, 1000, test_meta)
     \<bind> (\<lambda>(frag, n, meta).
       mask_loop (md_object_size meta div 2 ^ md_bit_rep_shift meta) 0 0 \<bind> (\<lambda>m.
         Some (meta\<lparr> md_object_mask := m, md_ty := ty \<rparr>)))"

subsection \<open>The arithmetic of a layout\<close>

lemma ceil_64: "(m + 63) div 64 = (if m mod 64 = 0 then m div 64 else m div 64 + 1)" for m :: nat
proof -
  define q r where "q = m div 64" and "r = m mod 64"
  have m: "m + 63 = 64 * q + (r + 63)" and r: "r < 64"
    using div_mult_mod_eq [of m 64] by (simp_all add: q_def r_def)
  have "(m + 63) div 64 = q + (r + 63) div 64"
    unfolding m by (simp only: div_mult_self4 [of 64 "r + 63" q, simplified])
  moreover have "(r + 63) div 64 = (if r = 0 then 0 else 1)"
    using r by (auto intro: div_nat_eqI)
  ultimately show ?thesis by (simp add: q_def r_def)
qed

lemma bitset_bytes_eq: "bitset_bytes n g = 8 * ((n * g + 63) div 64)"
  by (simp only: bitset_bytes_def Let_def word_bits_eq mult.commute [of _ 8] ceil_64)

lemma int_and_not_mask: "x AND NOT (2 ^ k - 1) = x - x mod 2 ^ k" for x :: int
proof -
  have "x AND NOT (2 ^ k - 1) = push_bit k (drop_bit k x)"
    by (rule bit_eqI) (auto simp: bit_simps simp flip: mask_eq_exp_minus_1)
  then show ?thesis by (simp add: push_bit_eq_mult drop_bit_eq_div minus_mod_eq_div_mult)
qed

lemma round_up_padding:
  assumes "0 < al"
  shows "h + (al - 1) - (h + (al - 1)) mod al = h + padding_needed_for h al"
proof -
  let ?x = "h + (al - 1)"
  have d: "al dvd ?x - ?x mod al" by (rule dvd_minus_mod)
  have m: "?x mod al < al" using assms by simp
  have ge: "h \<le> ?x - ?x mod al" using m by linarith
  have l: "h + padding_needed_for h al \<le> ?x - ?x mod al"
    using padding_needed_for_least [OF assms d ge] .
  have "?x - ?x mod al - (h + padding_needed_for h al) < al" using assms by linarith
  moreover have "al dvd ?x - ?x mod al - (h + padding_needed_for h al)"
    using d padding_needed_for_dvd [OF assms] by (rule dvd_diff_nat)
  ultimately have "?x - ?x mod al - (h + padding_needed_for h al) = 0"
    by (meson nat_dvd_not_less not_gr_zero)
  then show ?thesis using l by linarith
qed

lemma nat_int_minus_mod: "nat (int x - int x mod int a) = x - x mod a"
  by (metis zmod_int of_nat_diff mod_less_eq_dividend nat_int)

lemma align_padding_eq:
  assumes "is_power_of_two al"
  shows "align_padding al n g = padding_needed_for (64 + bitset_bytes n g) al"
proof -
  obtain k where al: "al = 2 ^ k" using assms by (auto simp: align_simps)
  have i: "int (al - 1) = 2 ^ k - 1" by (simp add: al)
  have r: "nat (int (h + (al - 1)) AND NOT (int (al - 1))) = h + padding_needed_for h al" for h
  proof -
    have "nat (int (h + (al - 1)) AND NOT (int (al - 1))) = nat (int (h + (al - 1)) - int (h + (al - 1)) mod int al)"
      unfolding i int_and_not_mask by (simp add: al)
    also have "\<dots> = h + padding_needed_for h al"
      unfolding nat_int_minus_mod by (rule round_up_padding) (simp add: al)
    finally show ?thesis .
  qed
  show ?thesis
    unfolding align_padding_def Let_def slag_size_eq r by simp
qed

lemma total_bytes_eq:
  "total_bytes sz g n = 64 + bitset_bytes n g
     + (if is_power_of_two sz then padding_needed_for (64 + bitset_bytes n g) sz else 0) + n * sz"
  by (simp add: total_bytes_def align_padding_eq)

lemma total_bytes_ge: "n * sz \<le> total_bytes sz g n"
  by (simp add: total_bytes_def)

subsection \<open>The two loops\<close>

lemma fit_loop_ends:
  assumes "0 < sz"
  shows "\<exists>n. fit_loop sz g u m = Some n \<and> m \<le> n \<and> u < total_bytes sz g (n + 1)
           \<and> (n = m \<or> total_bytes sz g n \<le> u)"
proof (induction "u - m" arbitrary: m rule: less_induct)
  case less
  show ?case
  proof (cases "u < total_bytes sz g (m + 1)")
    case True
    then show ?thesis by (simp add: fit_loop.simps [of sz g u m])
  next
    case False
    have "m + 1 \<le> (m + 1) * sz" using assms mult_le_mono2 [of 1 sz "m + 1"] by simp
    then have "u - (m + 1) < u - m" using False total_bytes_ge [of "m + 1" sz g] by linarith
    from less [OF this] obtain n where "fit_loop sz g u (m + 1) = Some n" "m + 1 \<le> n"
      "u < total_bytes sz g (n + 1)" "n = m + 1 \<or> total_bytes sz g n \<le> u"
      by blast
    then show ?thesis using False by (auto simp: fit_loop.simps [of sz g u m])
  qed
qed

lemma mask_loop_ends:
  assumes "0 < b"
  shows "\<exists>r. mask_loop b c m = Some r
           \<and> (\<forall>j<64. bit r j \<longleftrightarrow> bit m j \<or> (c \<le> j \<and> b dvd j - c))"
proof (induction "64 - c" arbitrary: c m rule: less_induct)
  case less
  show ?case
  proof (cases "c < 64")
    case False
    then show ?thesis by (auto simp: mask_loop.simps [of b c m])
  next
    case True
    have "64 - (c + b) < 64 - c" using True assms by linarith
    from less [OF this] obtain r where r: "mask_loop b (c + b) (m OR push_bit c 1) = Some r"
      "\<forall>j<64. bit r j \<longleftrightarrow> bit (m OR push_bit c 1) j \<or> (c + b \<le> j \<and> b dvd j - (c + b))"
      by blast
    have "bit r j \<longleftrightarrow> bit m j \<or> (c \<le> j \<and> b dvd j - c)" if j: "j < 64" for j
    proof -
      have "(j = c \<or> (c + b \<le> j \<and> b dvd j - (c + b))) \<longleftrightarrow> (c \<le> j \<and> b dvd j - c)"
      proof (cases "c + b \<le> j")
        case True
        then have "j - c = (j - (c + b)) + b" by linarith
        then have "b dvd j - c \<longleftrightarrow> b dvd j - (c + b)" by (metis dvd_add_triv_right_iff)
        then show ?thesis using True assms by auto
      next
        case False
        then show ?thesis using assms by (auto dest: dvd_imp_le)
      qed
      then show ?thesis using r(2) j by (auto simp: bit_simps)
    qed
    then show ?thesis using r(1) True by (auto simp: mask_loop.simps [of b c m])
  qed
qed

lemma mask_loop_stuck: "mask_loop 0 0 m = None"
proof -
  have "\<not> (b = 0 \<and> c < 64)" if "mask_loop b c m = Some r" for b c r m
  proof (rule mask_loop.raw_induct [where P = "\<lambda>b c m r. \<not> (b = 0 \<and> c < 64)", OF _ that])
    fix f b c m r
    assume IH: "\<And>b c m r. f b c m = Some r \<Longrightarrow> \<not> (b = 0 \<and> c < 64)"
      and e: "(if c < word_bits then f b (c + b) (m OR push_bit c 1) else Some m) = Some r"
    show "\<not> (b = 0 \<and> c < 64)"
    proof
      assume bc: "b = 0 \<and> c < 64"
      then have "f b (c + b) (m OR push_bit c 1) = Some r" using e by (simp del: push_bit_of_1)
      from IH [OF this] show False using bc by simp
    qed
  qed
  from this [of 0 0] show ?thesis by (cases "mask_loop 0 0 m") auto
qed

subsection \<open>Exact conversions\<close>

lemma bit_length_bounds: "0 < a \<Longrightarrow> 2 ^ (bit_length a - 1) \<le> a \<and> a < 2 ^ bit_length a \<and> 0 < bit_length a"
proof (induction a rule: bit_length.induct)
  case (1 a)
  have l: "bit_length a = Suc (bit_length (a div 2))" using 1 by (simp add: bit_length.simps [of a])
  show ?case
  proof (cases "a div 2 = 0")
    case True
    then have "a = 1" using 1 by auto
    then show ?thesis using l True by (simp add: bit_length.simps [of 0])
  next
    case False
    define b where "b = bit_length (a div 2)"
    have "2 ^ (b - 1) \<le> a div 2" "a div 2 < 2 ^ b" "0 < b"
      using 1 False by (auto simp: b_def)
    moreover have "2 * 2 ^ (b - 1) = (2 :: nat) ^ b" using \<open>0 < b\<close> by (cases b) auto
    ultimately have "2 ^ b \<le> a" "a < 2 * 2 ^ b" by linarith+
    then show ?thesis using l by (simp add: b_def)
  qed
qed

lemma f64_of_usize_exact:
  assumes "a < 2 ^ 53"
  shows "f64_of_usize a = of_nat a"
proof (cases "a = 0")
  case True
  then show ?thesis by (simp add: f64_of_usize_def f64_ratio_def)
next
  case False
  define l where "l = bit_length a"
  have b: "2 ^ (l - 1) \<le> a" "a < 2 ^ l" "0 < l" using bit_length_bounds [of a] False by (auto simp: l_def)
  have "(2 :: nat) ^ (l - 1) < 2 ^ 53" using b(1) assms by (rule le_less_trans)
  then have l53: "l \<le> 53" using power_less_imp_less_exp [of "2 :: nat" "l - 1" 53] by linarith
  have one: "bit_length 1 = 1" by (simp add: bit_length.simps)
  have k: "int 53 + int (bit_length 1) - int (bit_length a) = int (54 - l)"
    using l53 one by (simp add: l_def)
  have "(2 :: nat) ^ 53 = 2 ^ (l - 1) * 2 ^ (54 - l)" using b(3) l53 by (simp flip: power_add)
  also have "\<dots> \<le> a * 2 ^ (54 - l)" using b(1) by simp
  finally have g: "2 ^ 53 \<le> a * 2 ^ (54 - l)" .
  have k': "int (54 - l) - 1 = int (53 - l)" using l53 by simp
  have r: "round_half_even x (Suc 0) = x" for x by (simp add: round_half_even_def)
  show ?thesis
    using False g unfolding f64_of_usize_def f64_ratio_def k
    by (simp add: Let_def k' r del: of_nat_diff)
qed

lemma f64_ratio_nonneg: "0 \<le> f64_ratio a b"
  by (simp add: f64_ratio_def Let_def)

lemma f64_div_nonneg: "0 \<le> f64_div a b"
  by (simp add: f64_div_def Let_def f64_ratio_nonneg)

subsection \<open>What a layout promises\<close>

text \<open>The number of bits of the bit-set an object takes; the properties of the header,
  the bit-set and the array of objects; and that the mask marks the first bit of every
  object of the first word.\<close>

definition md_bits :: "metadata \<Rightarrow> nat" where
  "md_bits m = md_object_size m div 2 ^ md_bit_rep_shift m"

definition layout_wf :: "metadata \<Rightarrow> bool" where
  "layout_wf m \<longleftrightarrow>
     0 < md_n_objects m \<and> 0 < md_bits m \<and> md_object_size m = md_bits m * 2 ^ md_bit_rep_shift m
     \<and> md_n_bitset_words m = (md_n_objects m * md_bits m + 63) div 64
     \<and> md_bitset_offset m = 64
     \<and> md_bitset_offset m + 8 * md_n_bitset_words m \<le> md_objects_offset m
     \<and> (is_power_of_two (md_object_size m) \<longrightarrow> md_object_size m dvd md_objects_offset m)
     \<and> 0 < md_cutoff_objects m"

definition mask_wf :: "metadata \<Rightarrow> bool" where
  "mask_wf m \<longleftrightarrow> (\<forall>j<64. bit (md_object_mask m) j \<longleftrightarrow> md_bits m dvd j)"

text \<open>The layout is for objects of \<open>obj\<close> bytes on pages of \<open>page\<close> bytes of which
  \<open>usable\<close> are used: its objects are at least that large and end inside the usable part,
  and one more object would not.\<close>

definition layout_for :: "nat \<Rightarrow> nat \<Rightarrow> nat \<Rightarrow> metadata \<Rightarrow> bool" where
  "layout_for obj page usable m \<longleftrightarrow>
     obj \<le> md_object_size m \<and> md_object_size m \<le> next_power_of_two obj
     \<and> md_total_bytes m = page \<and> md_usable_size m = min usable page
     \<and> md_objects_offset m + md_n_objects m * md_object_size m \<le> md_usable_size m
     \<and> md_usable_size m < total_bytes (md_object_size m) (md_bits m) (md_n_objects m + 1)"

text \<open>The padded size of a candidate, and that a candidate with one object is never larger
  than the last one, whose objects are a power of two.\<close>

lemma padded_eq:
  fixes sz k :: nat
  defines "p \<equiv> sz + (if sz mod 2 ^ k = 0 then 0 else 2 ^ k - sz mod 2 ^ k)"
  assumes "0 < sz" "k \<le> ceillog2 sz"
  shows "2 ^ k dvd p" "sz \<le> p" "p \<le> next_power_of_two sz" "0 < p div 2 ^ k"
proof -
  have p: "p = sz + padding_needed_for sz (2 ^ k)"
    by (auto simp: p_def padding_needed_for_def)
  show d: "2 ^ k dvd p" unfolding p by (rule padding_needed_for_dvd) simp
  show s: "sz \<le> p" by (simp add: p)
  show "p \<le> next_power_of_two sz"
    unfolding p by (rule padding_needed_for_least)
      (use assms(3) next_power_of_two_ge in \<open>auto simp: next_power_of_two_def le_imp_power_dvd\<close>)
  show "0 < p div 2 ^ k"
    using d s assms(2) by (metis dvd_div_eq_0_iff gr0I not_less_zero order.strict_trans2)
qed

lemma bitset_one_small: "g \<le> 64 \<Longrightarrow> 0 < g \<Longrightarrow> bitset_bytes 1 g = 8"
proof -
  assume "g \<le> 64" "0 < g"
  then have "(g + 63) div 64 = 1" by (intro div_nat_eqI) auto
  then show ?thesis by (simp add: bitset_bytes_eq)
qed

lemma bitset_one_le: "bitset_bytes 1 g \<le> g div 8 + 8"
proof -
  have "8 * ((g + 63) div 64) \<le> g div 8 + 8" by (simp add: div_le_dividend)
  then show ?thesis by (simp add: bitset_bytes_eq)
qed

lemma one_object_fits:
  assumes sz: "2 \<le> sz" and k: "0 < k" "k \<le> ceillog2 sz"
    and p: "2 ^ k dvd p" "sz \<le> p" "p \<le> next_power_of_two sz"
  shows "total_bytes p (p div 2 ^ k) 1 \<le> total_bytes (next_power_of_two sz) 1 1"
proof -
  define N g where "N = next_power_of_two sz" and "g = p div 2 ^ k"
  have N0: "0 < N" and Np: "is_power_of_two N" by (simp_all add: N_def next_power_of_two_def)
  have pN: "p = N" if "is_power_of_two p"
    using next_power_of_two_least [OF that p(2)] p(3) by (simp add: N_def)
  have "(2 :: nat) ^ 1 \<le> 2 ^ k" using k(1) by (intro power_increasing) auto
  then have "g \<le> p div 2" unfolding g_def using div_le_mono2 [of 2 "2 ^ k" p] by simp
  then have g: "g \<le> N div 2" using p(3) div_le_mono [of p N 2] by (simp add: N_def)
  have g0: "0 < g"
    using p(1,2) sz unfolding g_def by (metis dvd_div_eq_0_iff gr0I not_numeral_le_zero le_zero_eq)
  have tN: "total_bytes N 1 1 = 72 + padding_needed_for 72 N + N"
    using Np bitset_one_small [of 1] by (simp add: total_bytes_eq)
  show ?thesis
  proof (cases "N < 128")
    case True
    then have "bitset_bytes 1 g = 8" using g g0 by (intro bitset_one_small) linarith+
    then have "total_bytes p g 1 \<le> total_bytes N 1 1"
      using pN p(3) tN unfolding total_bytes_eq [of p] by (auto simp: N_def)
    then show ?thesis by (simp add: N_def g_def)
  next
    case False
    have "N \<le> 72 + padding_needed_for 72 N"
      using padding_needed_for_dvd [OF N0, of 72] by (rule dvd_imp_le) simp
    then have two: "2 * N \<le> total_bytes N 1 1" using tN by linarith
    have b: "64 + bitset_bytes 1 g \<le> N" using bitset_one_le [of g] g False by linarith
    have "total_bytes p g 1 \<le> 2 * N"
    proof (cases "is_power_of_two p")
      case True
      then show ?thesis
        using pN padding_needed_for_least [OF N0 dvd_refl b] unfolding total_bytes_eq by simp
    next
      case False
      then show ?thesis using b p(3) unfolding total_bytes_eq by (simp add: N_def)
    qed
    then show ?thesis using two by (simp add: N_def g_def)
  qed
qed

subsection \<open>A candidate of the search\<close>

lemma meta_inner_ok:
  assumes sz: "2 \<le> sz" and k: "0 < k" "k \<le> ceillog2 sz"
    and fit: "total_bytes (next_power_of_two sz) 1 1 \<le> min usable page"
  shows "\<exists>sc n m. meta_inner sz page k idx cf usable = Some (sc, n, m)
           \<and> layout_wf m \<and> layout_for sz page usable m \<and> md_local_index m = idx
           \<and> md_bit_rep_shift m = k
           \<and> (k = ceillog2 sz \<and> min usable page < 2 ^ 53 \<longrightarrow> 0 \<le> sc)"
proof -
  define p where "p = sz + (if sz mod 2 ^ k = 0 then 0 else 2 ^ k - sz mod 2 ^ k)"
  define g where "g = p div 2 ^ k"
  define u where "u = min usable page"
  have sz0: "0 < sz" using sz by simp
  have p: "2 ^ k dvd p" "sz \<le> p" "p \<le> next_power_of_two sz" "0 < g"
    unfolding p_def g_def using padded_eq [OF sz0 k(2)] by blast+
  have pg: "p = g * 2 ^ k" using p(1) by (simp add: g_def)
  have one: "total_bytes p g 1 \<le> u"
    using one_object_fits [OF sz k p(1-3)] fit by (simp add: g_def u_def)
  have u0: "0 < u" using one by (simp add: total_bytes_eq)
  have p0: "0 < p" using p(2) sz by linarith
  obtain n where n: "fit_loop p g u 1 = Some n" "1 \<le> n" "u < total_bytes p g (n + 1)"
    "n = 1 \<or> total_bytes p g n \<le> u"
    using fit_loop_ends [OF p0, of g u 1] by blast
  have fits: "total_bytes p g n \<le> u" using n(4) one by blast
  define pad where "pad = (if is_power_of_two p then align_padding p n g else 0)"
  have tot: "64 + (pad + bitset_bytes n g) + n * p = total_bytes p g n"
    by (simp add: pad_def total_bytes_def)
  have dv: "p dvd 64 + (pad + bitset_bytes n g)" if "is_power_of_two p"
    using that padding_needed_for_dvd [OF p0, of "64 + bitset_bytes n g"]
    by (simp add: pad_def align_padding_eq ac_simps)
  have w: "bitset_bytes n g div 8 = (n * g + 63) div 64" by (simp add: bitset_bytes_eq)
  have g1: "g = 1 \<longrightarrow> is_power_of_two p" using pg by simp
  have gl: "g = 1" if "k = ceillog2 sz"
    using pg p(3,4) p0 that by (simp add: next_power_of_two_def) 
  have le: "f64_of_usize b \<le> f64_of_usize u" if "b \<le> u" "u < 2 ^ 53" for b
    using that f64_of_usize_exact [of u] f64_of_usize_exact [of b] by (simp del: power_numeral)
  have sub: "total_bytes p g n - a - b - c - d \<le> u" for a b c d using fits by linarith
  define bs where "bs = total_bytes p g n - n * (if sz mod 2 ^ k = 0 then 0 else 2 ^ k - sz mod 2 ^ k)
      - bitset_bytes n g - slag_size - pad"
  define sc where "sc = (if f64_of_usize u < f64_of_usize bs then - 1 else 1) * f64_div bs u
      * (if word_bits < g - word_bits mod g then - 1 else 1 :: rat)"
  define m where "m = \<lparr> md_object_size = p, md_n_objects = n, md_n_bitset_words = bitset_bytes n g div 8,
      md_total_bytes = page, md_bitset_offset = slag_size,
      md_objects_offset = slag_size + (pad + bitset_bytes n g),
      md_object_mask = 1, md_bit_rep_shift = trailing_zeros (2 ^ k),
      md_local_index = idx,
      md_cutoff_objects = max 1 (f64_to_usize (f64_mul (f64_of_usize n) cf)),
      md_usable_size = u, md_ty = SmallSlag \<rparr>"
  have bits: "md_bits m = g" by (simp add: md_bits_def m_def g_def)
  have wf: "layout_wf m"
    unfolding layout_wf_def bits using n(2) p(4) pg dv by (simp add: m_def w bitset_bytes_eq)
  have for_sz: "layout_for sz page usable m"
    unfolding layout_for_def bits using p(2,3) fits n(3) tot by (simp add: m_def u_def [symmetric])
  have nonneg: "0 \<le> sc" if "k = ceillog2 sz" "u < 2 ^ 53"
    using gl [OF that(1)] le [OF sub that(2)] f64_div_nonneg [of bs u]
    unfolding sc_def bs_def by (simp add: not_less)
  have c: "\<not> \<not> (0 < u \<and> 0 < g \<and> (g = 1 \<longrightarrow> is_power_of_two p))" using u0 p(4) g1 by simp
  have "meta_inner sz page k idx cf usable = Some (sc, bitset_bytes n g div 8, m)"
    unfolding meta_inner_def Let_def p_def [symmetric] g_def [symmetric] u_def [symmetric] if_not_P [OF c] n(1)
    by (simp add: sc_def bs_def m_def pad_def)
  then show ?thesis using wf for_sz nonneg by (simp add: m_def u_def)
qed

subsection \<open>The search\<close>

lemma search_meta_ends:
  assumes "\<And>k. k \<in> set ks \<Longrightarrow> \<exists>c. f k = Some c \<and> P c"
  shows "\<exists>r. search_meta f ks best = Some r \<and> (r = best \<or> P r)"
  using assms
proof (induction ks arbitrary: best)
  case Nil
  then show ?case by simp
next
  case (Cons k ks)
  obtain c where c: "f k = Some c" "P c" using Cons.prems [of k] by auto
  obtain r where "search_meta f ks (better_meta best c) = Some r" "r = better_meta best c \<or> P r"
    using Cons.IH [of "better_meta best c"] Cons.prems by auto
  then show ?case using c by (auto simp: better_meta_def split: if_splits)
qed

lemma search_meta_append:
  "search_meta f (ks @ ks') best = search_meta f ks best \<bind> search_meta f ks'"
  by (induction ks arbitrary: best) (auto split: bind_splits)

lemma layout_update [simp]:
  "md_bits (m\<lparr> md_object_mask := k, md_ty := ty \<rparr>) = md_bits m"
  "layout_wf (m\<lparr> md_object_mask := k, md_ty := ty \<rparr>) = layout_wf m"
  "layout_for sz page usable (m\<lparr> md_object_mask := k, md_ty := ty \<rparr>) = layout_for sz page usable m"
  by (simp_all add: md_bits_def layout_wf_def layout_for_def)

lemma compute_metadata_ok:
  assumes sz: "2 \<le> sz" and fit: "total_bytes (next_power_of_two sz) 1 1 \<le> min usable page"
    and small: "min usable page < 2 ^ 53"
  shows "\<exists>m. compute_metadata sz page idx cf usable ty = Some m
           \<and> layout_wf m \<and> mask_wf m \<and> layout_for sz page usable m
           \<and> md_local_index m = idx \<and> md_ty m = ty"
proof -
  define f where "f = (\<lambda>shift. meta_inner sz page shift idx cf usable)"
  define P where "P = (\<lambda>(sc :: rat, n :: nat, m). layout_wf m \<and> layout_for sz page usable m
      \<and> md_local_index m = idx)"
  define L where "L = ceillog2 sz"
  have L: "0 < L" using sz next_power_of_two_ge [of sz] by (cases L) (auto simp: next_power_of_two_def L_def)
  have cand: "\<exists>c. f k = Some c \<and> P c" if "0 < k" "k \<le> L" for k
    using meta_inner_ok [OF sz that(1) that(2) [unfolded L_def] fit, of idx cf]
    by (auto simp: f_def P_def)
  obtain sc n m where last: "f L = Some (sc, n, m)" "P (sc, n, m)" "0 \<le> sc"
    using meta_inner_ok [OF sz L [unfolded L_def] order_refl fit, of idx cf] small
    by (auto simp: f_def P_def L_def)
  have "\<exists>r. search_meta f [1..<L] (- 10, 1000, test_meta) = Some r \<and> (r = (- 10, 1000, test_meta) \<or> P r)"
    by (rule search_meta_ends) (rule cand, auto)
  then obtain b where b: "search_meta f [1..<L] (- 10, 1000, test_meta) = Some b"
    "b = (- 10, 1000, test_meta) \<or> P b"
    by blast
  define r where "r = better_meta b (sc, n, m)"
  have Pr: "P r" using b(2) last(2,3) by (auto simp: r_def better_meta_def)
  have ks: "[1..<trailing_zeros (next_power_of_two sz) + 1] = [1..<L] @ [L]"
    using L by (simp add: next_power_of_two_def L_def [symmetric])
  have s: "search_meta f [1..<trailing_zeros (next_power_of_two sz) + 1] (- 10, 1000, test_meta) = Some r"
    unfolding ks search_meta_append using b(1) last(1) by (simp add: r_def)
  obtain rs rn rm where rr: "r = (rs, rn, rm)" by (cases r)
  have "0 < md_bits rm" using Pr by (simp add: P_def rr layout_wf_def)
  then obtain k where k: "mask_loop (md_bits rm) 0 0 = Some k" "\<forall>j<64. bit k j \<longleftrightarrow> md_bits rm dvd j"
    using mask_loop_ends [of "md_bits rm" 0 0] by auto
  have "compute_metadata sz page idx cf usable ty = Some (rm\<lparr> md_object_mask := k, md_ty := ty \<rparr>)"
    unfolding compute_metadata_def f_def [symmetric] s
    using k(1) by (simp add: rr md_bits_def)
  then show ?thesis
    using Pr k(2) by (simp add: P_def rr mask_wf_def)
qed

lemma compute_metadata_stuck:
  assumes "sz \<le> 1"
  shows "compute_metadata sz page idx cf usable ty = None"
proof -
  have c: "ceillog2 sz = 0" using assms by (cases sz) auto
  show ?thesis
    unfolding compute_metadata_def next_power_of_two_def c trailing_zeros_power
    by (simp add: test_meta_def mask_loop_stuck)
qed

end
