(* ===== verification/Slag.thy ===== *)
theory Slag
  imports Slag_Meta
begin

text \<open>
  A \<open>Slag\<close> of \<open>elfmalloc\<close> (\<open>src/elfmalloc/src/slag.rs\<close>): the atomic bit-set word, the
  reference count with its claim bit, the header with the bit-set behind it, the
  iterator that allocates from a claimed \<open>Slag\<close>, and the initialisation and free
  operations.  The bit-set is the list of its words, the metadata a pointer into a
  store of metadata records.  Each atomic operation is a function from the old
  contents of the cell to its new contents and the returned value; a failed
  debug assertion or a panic is \<open>None\<close>.  The lemmas show that the reference count behaves
  as a pair of a flag and a number, that initialisation marks exactly the first bit of
  every object, and that the iterator hands out the marked objects in order.
\<close>

subsection \<open>The reference count\<close>

definition rc_mask :: usize where
  "rc_mask = push_bit 63 1"

definition rc_init :: "usize \<Rightarrow> usize" where
  "rc_init start = start"

definition rc_default :: usize where
  "rc_default = 0"

definition rc_claim :: "usize \<Rightarrow> usize \<times> bool" where
  "rc_claim was = (was OR rc_mask, was AND rc_mask = 0)"

definition rc_unclaim :: "usize \<Rightarrow> usize \<times> (bool \<times> usize)" where
  "rc_unclaim was = (was AND NOT rc_mask, (was AND rc_mask = rc_mask, was AND NOT rc_mask))"

definition rc_inc_n :: "usize \<Rightarrow> usize \<Rightarrow> usize \<times> (bool \<times> usize)" where
  "rc_inc_n n was = (was + n, (was AND rc_mask = rc_mask, was AND NOT rc_mask))"

definition rc_dec_n :: "usize \<Rightarrow> usize \<Rightarrow> (usize \<times> (bool \<times> usize)) option" where
  "rc_dec_n n was =
     (let claimed = (was AND rc_mask = rc_mask); result = was AND NOT rc_mask in
      if n \<le> result then Some (was - n, (claimed, result)) else None)"

definition rc_load :: "usize \<Rightarrow> bool \<times> usize" where
  "rc_load was = (was AND rc_mask = rc_mask, was AND NOT rc_mask)"

subsection \<open>The header, the bit-set and the iterator\<close>

record slag =
  sl_ty :: alloc_type
  sl_meta :: ptr
  sl_rc :: usize
  sl_handle :: usize
  sl_words :: "usize list"

type_synonym metas = "ptr \<Rightarrow> metadata option"

record alloc_iter =
  it_cur_word :: usize
  it_next_word :: nat
  it_object_base :: ptr
  it_object_size :: nat
  it_remaining_words :: nat
  it_cur_word_index :: nat

definition split_index :: "usize \<Rightarrow> nat \<times> nat" where
  "split_index item_index = (unat (drop_bit 6 item_index), unat (item_index AND 63))"

definition count_ones :: "usize \<Rightarrow> nat" where
  "count_ones w = length (filter (bit w) [0..<64])"

text \<open>The atomic \<open>swap(0)\<close> of a word of the bit-set followed by the decrement of the
  reference count; \<open>None\<close> when the word does not exist.\<close>

definition take_word :: "nat \<Rightarrow> slag \<Rightarrow> (slag \<times> usize) option" where
  "take_word i s =
     (if i < length (sl_words s) then
        let w = sl_words s ! i in
        rc_dec_n (of_nat (count_ones w)) (sl_rc s) \<bind> (\<lambda>(rc, _).
          Some (s\<lparr> sl_words := (sl_words s)[i := 0], sl_rc := rc \<rparr>, w))
      else None)"

definition iter_new :: "slag \<Rightarrow> nat \<Rightarrow> ptr \<Rightarrow> nat \<Rightarrow> (slag \<times> alloc_iter) option" where
  "iter_new s bitset_words object_base object_size =
     take_word 0 s \<bind> (\<lambda>(s', cur_word).
       if bitset_words = 0 then None
       else Some (s', \<lparr> it_cur_word = cur_word, it_next_word = 1, it_object_base = object_base,
         it_object_size = object_size, it_remaining_words = bitset_words - 1,
         it_cur_word_index = 0 \<rparr>))"

definition refresh_word :: "slag \<Rightarrow> alloc_iter \<Rightarrow> (slag \<times> alloc_iter) option" where
  "refresh_word s it =
     take_word (it_next_word it) s \<bind> (\<lambda>(s', w).
       if it_remaining_words it = 0 then None
       else Some (s', it\<lparr> it_next_word := it_next_word it + 1, it_cur_word := w,
         it_remaining_words := it_remaining_words it - 1,
         it_cur_word_index := it_cur_word_index it + 1 \<rparr>))"

lemma refresh_word_remaining:
  "refresh_word s it = Some (s', it') \<Longrightarrow> it_remaining_words it' < it_remaining_words it"
  by (auto simp: refresh_word_def split: bind_splits if_splits prod.splits)

function iter_next :: "slag \<Rightarrow> alloc_iter \<Rightarrow> (slag \<times> alloc_iter \<times> ptr option) option" where
  "iter_next s it =
     (let next_bit = trailing_zeros (unat (it_cur_word it)) in
      if next_bit = word_bits then
        if it_remaining_words it = 0 then Some (s, it, None)
        else (case refresh_word s it of None \<Rightarrow> None | Some (s', it') \<Rightarrow> iter_next s' it')
      else Some (s, it\<lparr> it_cur_word := it_cur_word it XOR push_bit next_bit 1 \<rparr>,
        Some (offset (it_object_base it)
          (it_object_size it * (it_cur_word_index it * word_bits + next_bit)))))"
  by pat_completeness auto
termination
  by (relation "measure (\<lambda>(s, it). it_remaining_words it)") (auto dest: refresh_word_remaining)

declare iter_next.simps [simp del]

subsection \<open>Initialisation\<close>

text \<open>The rotation that fills \<open>n\<close> words of the bit-set: the words, and the mask that would
  come next.  \<open>shl\<close> is the left shift of the branch.\<close>

fun rotate_words :: "(nat \<Rightarrow> usize \<Rightarrow> usize option) \<Rightarrow> nat \<Rightarrow> nat \<Rightarrow> usize \<Rightarrow> usize
    \<Rightarrow> (usize list \<times> usize) option" where
  "rotate_words shl slush 0 m cur_slush = Some ([], m)"
| "rotate_words shl slush (Suc n) m cur_slush =
     shl slush m \<bind> (\<lambda>m'.
       rotate_words shl slush n (m' OR cur_slush) (drop_bit (word_bits - slush) m)
       \<bind> (\<lambda>(ws, l). Some (m # ws, l)))"

text \<open>\<open>wrapping_shl\<close>, and the checked \<open><<\<close>.\<close>

definition wrapping_shl :: "nat \<Rightarrow> usize \<Rightarrow> usize option" where
  "wrapping_shl k m = Some (push_bit (k mod word_bits) m)"

definition checked_shl :: "nat \<Rightarrow> usize \<Rightarrow> usize option" where
  "checked_shl k m = (if k < word_bits then Some (push_bit k m) else None)"

definition init_words :: "metadata \<Rightarrow> usize list option" where
  "init_words meta =
     (let bits_per_object = md_object_size meta div 2 ^ md_bit_rep_shift meta in
      if bits_per_object = 0 then None
      else
        let slush_size = bits_per_object - word_bits mod bits_per_object;
            rem = (md_n_objects meta * bits_per_object) mod word_bits;
            rem_mask = NOT (push_bit rem (NOT 0)) :: usize;
            m = md_object_mask meta in
        if word_bits < slush_size then None
        else if m = NOT 0 then
          if md_n_bitset_words meta = 0 then None
          else Some (replicate (md_n_bitset_words meta - 1) (NOT 0)
                 @ [if rem_mask = 0 then NOT 0 else NOT 0 AND rem_mask])
        else if rem = 0 then
          rotate_words wrapping_shl slush_size (md_n_bitset_words meta) m 0 \<bind> (\<lambda>(ws, _). Some ws)
        else if md_n_bitset_words meta = 0 then None
        else rotate_words checked_shl slush_size (md_n_bitset_words meta - 1) m 0
               \<bind> (\<lambda>(ws, l). Some (ws @ [l AND rem_mask])))"

definition slag_init :: "ptr \<Rightarrow> metadata \<Rightarrow> slag option" where
  "slag_init mp meta =
     init_words meta \<bind> (\<lambda>ws.
       Some \<lparr> sl_ty = md_ty meta, sl_meta = mp, sl_rc = rc_init (of_nat (md_n_objects meta)),
              sl_handle = 0, sl_words = ws \<rparr>)"

subsection \<open>Looking up and freeing an object\<close>

datatype transition = TNull | TAvailable | TFull

definition get_metadata :: "metas \<Rightarrow> slag \<Rightarrow> metadata option" where
  "get_metadata M s = (if sl_meta s = null then None else M (sl_meta s))"

definition slag_find :: "ptr \<Rightarrow> nat \<Rightarrow> ptr" where
  "slag_find item alignment = item AND NOT (of_nat alignment - 1)"

definition get_word :: "ptr \<Rightarrow> ptr \<Rightarrow> metadata \<Rightarrow> nat \<times> nat" where
  "get_word raw_self item m =
     split_index (drop_bit (md_bit_rep_shift m) (item - (of_nat (md_objects_offset m) + raw_self)))"

definition slag_free :: "metas \<Rightarrow> ptr \<Rightarrow> slag \<Rightarrow> ptr \<Rightarrow> (slag \<times> transition) option" where
  "slag_free M self s item =
     get_metadata M s \<bind> (\<lambda>m.
       if \<not> unat item < unat self + md_total_bytes m then None
       else
         let (word, word_ix) = get_word self item m;
             (rc, claimed, was) = rc_inc_n 1 (sl_rc s) in
         if length (sl_words s) \<le> word then None
         else Some (s\<lparr> sl_rc := rc,
                       sl_words := (sl_words s)[word := sl_words s ! word OR push_bit word_ix 1] \<rparr>,
           if \<not> claimed \<and> unat was = md_cutoff_objects m - 1 then TAvailable
           else if \<not> claimed \<and> unat was = md_n_objects m - 1 then TFull
           else TNull))"

definition slag_refresh :: "ptr \<Rightarrow> slag \<Rightarrow> metadata \<Rightarrow> (slag \<times> alloc_iter) option" where
  "slag_refresh self s meta =
     iter_new s (md_n_bitset_words meta) (offset self (md_objects_offset meta))
       (2 ^ md_bit_rep_shift meta)"

subsection \<open>The reference count is a flag and a number\<close>

definition rc_pack :: "bool \<Rightarrow> nat \<Rightarrow> usize" where
  "rc_pack c n = (if c then rc_mask else 0) OR of_nat n"

lemma bit_rc_mask [bit_simps]: "bit rc_mask j \<longleftrightarrow> j = 63"
  unfolding rc_mask_def bit_push_bit_iff by (auto simp: bit_1_iff)

lemma bit_small: "n < 2 ^ k \<Longrightarrow> k \<le> j \<Longrightarrow> \<not> bit (of_nat n :: usize) j"
proof -
  assume "n < 2 ^ k" "k \<le> j"
  then have "n < 2 ^ j" by (meson order.strict_trans2 one_le_numeral power_increasing)
  then show ?thesis by (simp add: bit_simps bit_nat_def)
qed

lemma rc_pack_and [simp]:
  assumes "n < 2 ^ 63"
  shows "rc_pack c n AND rc_mask = (if c then rc_mask else 0)"
    "rc_pack c n AND NOT rc_mask = of_nat n"
  using bit_small [OF assms, of 63]
  by (auto simp: rc_pack_def bit_simps intro!: bit_word_eqI)

lemma rc_mask_neq [simp]: "rc_mask \<noteq> 0"
  by (metis bit_rc_mask bit_0_eq bot_apply bot_bool_def)

lemma rc_pack_add: "n < 2 ^ 63 \<Longrightarrow> rc_pack c n = (if c then rc_mask else 0) + of_nat n"
  unfolding rc_pack_def
  by (rule disjunctive_add_eq_or [symmetric]) (use bit_small [of n 63 63] in \<open>auto simp: bit_simps intro!: bit_word_eqI\<close>)

lemma rc_claim_pack: "n < 2 ^ 63 \<Longrightarrow> rc_claim (rc_pack c n) = (rc_pack True n, \<not> c)"
  by (auto simp: rc_claim_def) (auto simp: rc_pack_def bit_simps intro!: bit_word_eqI)

lemma rc_unclaim_pack: "n < 2 ^ 63 \<Longrightarrow> rc_unclaim (rc_pack c n) = (rc_pack False n, (c, of_nat n))"
  by (simp add: rc_unclaim_def) (simp add: rc_pack_def)

lemma rc_load_pack: "n < 2 ^ 63 \<Longrightarrow> rc_load (rc_pack c n) = (c, of_nat n)"
  by (simp add: rc_load_def)

lemma rc_inc_pack:
  "n + k < 2 ^ 63 \<Longrightarrow> rc_inc_n (of_nat k) (rc_pack c n) = (rc_pack c (n + k), (c, of_nat n))"
  by (simp add: rc_inc_n_def) (simp add: rc_pack_add)

lemma rc_dec_pack:
  assumes "n < 2 ^ 63" "k \<le> n"
  shows "rc_dec_n (of_nat k) (rc_pack c n) = Some (rc_pack c (n - k), (c, of_nat n))"
proof -
  have "of_nat k \<le> (of_nat n :: usize)"
    using assms by (simp add: word_le_nat_alt unat_of_nat take_bit_nat_eq_self)
  moreover have "rc_pack c n - of_nat k = rc_pack c (n - k)"
    using assms by (simp add: rc_pack_add of_nat_diff)
  ultimately show ?thesis using assms(1) by (simp add: rc_dec_n_def)
qed

lemma rc_dec_pack_under:
  assumes "n < k" "k < 2 ^ 63"
  shows "rc_dec_n (of_nat k) (rc_pack c n) = None"
proof -
  have "\<not> of_nat k \<le> (of_nat n :: usize)"
    using assms by (simp add: word_le_nat_alt unat_of_nat take_bit_nat_eq_self)
  then show ?thesis using assms by (simp add: rc_dec_n_def)
qed

subsection \<open>Initialisation marks the first bit of every object\<close>

lemma dvd_64_slush: "0 < b \<Longrightarrow> b dvd 64 + (b - 64 mod b)" for b :: nat
proof -
  assume "0 < b"
  then have "64 mod b < b" by simp
  then have "64 + (b - 64 mod b) = b * (64 div b) + b"
    using mult_div_mod_eq [of b 64] by linarith
  then show ?thesis by simp
qed

text \<open>The rotation, from the word at index \<open>w\<close>: the mask marks the multiples of \<open>b\<close> of
  that word, and the slush those of the last bits two words before.\<close>

lemma rotate_words_bits:
  fixes b slush :: nat
  assumes shl: "\<And>m. shl slush m = Some (push_bit slush m)"
    and sl: "slush \<le> 64" and dv: "b dvd 64 + slush"
    and m: "\<And>j. j < 64 \<Longrightarrow> bit m j \<longleftrightarrow> b dvd 64 * w + j"
    and cs: "\<And>j. bit cs j \<longleftrightarrow> j < slush \<and> int b dvd int (64 * w + j) - int slush"
  shows "\<exists>ws l. rotate_words shl slush n m cs = Some (ws, l) \<and> length ws = n
           \<and> (\<forall>i<n. \<forall>j<64. bit (ws ! i) j \<longleftrightarrow> b dvd 64 * (w + i) + j)
           \<and> (\<forall>j<64. bit l j \<longleftrightarrow> b dvd 64 * (w + n) + j)"
  using m cs
proof (induction n arbitrary: w m cs)
  case 0
  then show ?case by simp
next
  case (Suc n)
  let ?m = "push_bit slush m OR cs" and ?cs = "drop_bit (64 - slush) m"
  have sh: "int b dvd int (64 * w + j) - int slush \<longleftrightarrow> b dvd 64 * Suc w + j" for j
  proof -
    have "int (64 * Suc w + j) = (int (64 * w + j) - int slush) + int (64 + slush)" by simp
    moreover have "int b dvd int (64 + slush)" using dv by (simp only: int_dvd_int_iff)
    ultimately have "int b dvd int (64 * Suc w + j) \<longleftrightarrow> int b dvd int (64 * w + j) - int slush"
      by (simp only: dvd_add_left_iff)
    then show ?thesis by (simp only: int_dvd_int_iff)
  qed
  have m': "bit ?m j \<longleftrightarrow> b dvd 64 * Suc w + j" if j: "j < 64" for j
  proof (cases "j < slush")
    case True
    then show ?thesis using Suc.prems(2) sh by (simp add: bit_or_iff bit_push_bit_iff)
  next
    case False
    then have e: "int (64 * w + j) - int slush = int (64 * w + (j - slush))" by (simp add: of_nat_diff)
    have "bit ?m j \<longleftrightarrow> bit m (j - slush)"
      using False j Suc.prems(2) by (simp add: bit_or_iff bit_push_bit_iff)
    also have "\<dots> \<longleftrightarrow> b dvd 64 * w + (j - slush)" using Suc.prems(1) j by simp
    also have "\<dots> \<longleftrightarrow> b dvd 64 * Suc w + j" using sh [of j] unfolding e int_dvd_int_iff .
    finally show ?thesis .
  qed
  have cs': "bit ?cs j \<longleftrightarrow> j < slush \<and> int b dvd int (64 * Suc w + j) - int slush" for j
  proof (cases "j < slush")
    case True
    then have e: "int (64 * Suc w + j) - int slush = int (64 * w + (64 - slush + j))"
      using sl by (simp add: of_nat_diff)
    show ?thesis using True sl Suc.prems(1) [of "64 - slush + j"] unfolding e int_dvd_int_iff
      by (simp add: bit_drop_bit_eq)
  next
    case False
    then have "\<not> bit m (64 - slush + j)" using sl by (auto dest!: bit_imp_le_length)
    then show ?thesis using False by (simp add: bit_drop_bit_eq)
  qed
  obtain ws l where r: "rotate_words shl slush n ?m ?cs = Some (ws, l)" "length ws = n"
    "\<forall>i<n. \<forall>j<64. bit (ws ! i) j \<longleftrightarrow> b dvd 64 * (Suc w + i) + j"
    "\<forall>j<64. bit l j \<longleftrightarrow> b dvd 64 * (Suc w + n) + j"
    using Suc.IH [of ?m "Suc w" ?cs, OF m' cs'] by blast
  have "bit ((m # ws) ! i) j \<longleftrightarrow> b dvd 64 * (w + i) + j" if "i < Suc n" "j < 64" for i j
    using that r(3) Suc.prems(1) by (cases i) auto
  then show ?case using r by (simp add: shl)
qed

text \<open>The layouts the rotation is right for: there is only one word, or an object takes
  one bit, or the number of its bits does not divide a word and the slush is shorter than a
  word.\<close>

definition rotation_ok :: "metadata \<Rightarrow> bool" where
  "rotation_ok m \<longleftrightarrow>
     (let b = md_bits m; slush = b - 64 mod b in
      slush \<le> 64 \<and> (md_n_bitset_words m = 1 \<or> b = 1 \<or> \<not> b dvd 64 \<and> slush < 64))"

lemma multiple_below: "0 < b \<Longrightarrow> (\<exists>i<n. i * b = p) \<longleftrightarrow> b dvd p \<and> p < n * b" for b n p :: nat
  by (auto simp: mult.commute)

lemma last_mask_bit: "r < 64 \<Longrightarrow> bit (NOT (push_bit r (NOT 0)) :: usize) j \<longleftrightarrow> j < r"
  by (auto simp: bit_simps)

lemma below_total:
  fixes i j T :: nat
  assumes "i < (T + 63) div 64" "j < 64"
  shows "64 * i + j < T \<longleftrightarrow> (T mod 64 \<noteq> 0 \<and> i = (T + 63) div 64 - 1 \<longrightarrow> j < T mod 64)"
proof -
  define q r where "q = T div 64" and "r = T mod 64"
  have T: "T = 64 * q + r" "r < 64" using div_mult_mod_eq [of T 64] by (simp_all add: q_def r_def)
  show ?thesis
  proof (cases "r = 0")
    case True
    then have "i < q" using assms(1) by (simp add: ceil_64 q_def r_def)
    then have "64 * i + j < T" using T(1) assms(2) by linarith
    then show ?thesis using True by (simp add: r_def [symmetric])
  next
    case False
    then have n: "(T + 63) div 64 = q + 1" by (simp add: ceil_64 q_def r_def)
    show ?thesis
    proof (cases "i = q")
      case True
      then have "64 * i + j < T \<longleftrightarrow> j < r" using T(1) by linarith
      then show ?thesis using True False n unfolding r_def [symmetric] by simp
    next
      case i: False
      then have "i < q" using assms(1) n by simp
      then have "64 * i + j < T" using T(1) assms(2) by linarith
      then show ?thesis using i n by simp
    qed
  qed
qed

text \<open>The bits of the initial bit-set, and the fact on each branch of \<open>Slag::init\<close>.\<close>

definition marks :: "metadata \<Rightarrow> usize list \<Rightarrow> bool" where
  "marks m ws \<longleftrightarrow> length ws = md_n_bitset_words m
     \<and> (\<forall>i<length ws. \<forall>j<64. bit (ws ! i) j \<longleftrightarrow> (\<exists>k<md_n_objects m. k * md_bits m = 64 * i + j))"

lemma marksI:
  assumes "layout_wf m" "length ws = md_n_bitset_words m"
    and "\<And>i j. i < md_n_bitset_words m \<Longrightarrow> j < 64 \<Longrightarrow> bit (ws ! i) j \<longleftrightarrow>
      md_bits m dvd 64 * i + j
      \<and> ((md_n_objects m * md_bits m) mod 64 \<noteq> 0 \<and> i = md_n_bitset_words m - 1
           \<longrightarrow> j < (md_n_objects m * md_bits m) mod 64)"
  shows "marks m ws"
proof -
  have b: "0 < md_bits m" and n: "md_n_bitset_words m = (md_n_objects m * md_bits m + 63) div 64"
    using assms(1) by (simp_all add: layout_wf_def)
  show ?thesis
    unfolding marks_def multiple_below [OF b] using assms(2,3) below_total n by auto
qed

lemma init_words_one_bit:
  assumes wf: "layout_wf m" "mask_wf m" and b: "md_bits m = 1"
  shows "\<exists>ws. init_words m = Some ws \<and> marks m ws"
proof -
  define r where "r = (md_n_objects m * md_bits m) mod 64"
  have mask: "md_object_mask m = NOT 0" using wf(2) b by (intro bit_word_eqI) (auto simp: mask_wf_def bit_simps)
  have n: "0 < md_n_bitset_words m" using wf(1) b by (auto simp: layout_wf_def ceil_64)
  have rm: "(NOT (push_bit r (NOT 0)) :: usize) = 0 \<longleftrightarrow> r = 0"
  proof
    assume "(NOT (push_bit r (NOT 0)) :: usize) = 0"
    then have "\<not> bit (NOT (push_bit r (NOT 0)) :: usize) 0" by simp
    then show "r = 0" using last_mask_bit [of r 0] by (simp add: r_def)
  qed simp
  define ws :: "usize list" where "ws = replicate (md_n_bitset_words m - 1) (NOT 0)
    @ [if r = 0 then NOT 0 else NOT 0 AND NOT (push_bit r (NOT 0))]"
  have "init_words m = Some ws"
    using b mask n rm by (simp add: init_words_def Let_def md_bits_def [symmetric] ws_def r_def)
  moreover have "marks m ws"
  proof (rule marksI [OF wf(1)])
    show "length ws = md_n_bitset_words m" using n by (simp add: ws_def)
    fix i j assume "i < md_n_bitset_words m" "(j :: nat) < 64"
    then show "bit (ws ! i) j \<longleftrightarrow> md_bits m dvd 64 * i + j
      \<and> ((md_n_objects m * md_bits m) mod 64 \<noteq> 0 \<and> i = md_n_bitset_words m - 1
           \<longrightarrow> j < (md_n_objects m * md_bits m) mod 64)"
      unfolding r_def [symmetric] using b last_mask_bit [of r j]
      by (cases "i < md_n_bitset_words m - 1") (auto simp: ws_def nth_append bit_and_iff bit_not_iff r_def)
  qed
  ultimately show ?thesis by blast
qed

text \<open>What the rotation gives on a layout it is right for, whichever shift is used.\<close>

lemma rotate_words_layout:
  assumes wf: "layout_wf m" "mask_wf m" and b: "\<not> md_bits m dvd 64"
    and sl: "slush = md_bits m - 64 mod md_bits m" "slush < 64"
    and shl: "shl = wrapping_shl \<or> shl = checked_shl"
  shows "\<exists>ws l. rotate_words shl slush n (md_object_mask m) 0 = Some (ws, l) \<and> length ws = n
           \<and> (\<forall>i<n. \<forall>j<64. bit (ws ! i) j \<longleftrightarrow> md_bits m dvd 64 * i + j)
           \<and> (\<forall>j<64. bit l j \<longleftrightarrow> md_bits m dvd 64 * n + j)"
proof -
  have b0: "0 < md_bits m" using wf(1) by (simp add: layout_wf_def)
  have "\<And>m. shl slush m = Some (push_bit slush m)"
    using shl sl(2) by (auto simp: wrapping_shl_def checked_shl_def)
  moreover have "slush \<le> 64" "md_bits m dvd 64 + slush" using sl dvd_64_slush [OF b0] by auto
  moreover have "bit (md_object_mask m) j \<longleftrightarrow> md_bits m dvd 64 * 0 + j" if "j < 64" for j
    using wf(2) that by (simp add: mask_wf_def)
  moreover have "bit 0 j \<longleftrightarrow> j < slush \<and> int (md_bits m) dvd int (64 * 0 + j) - int slush" for j
  proof -
    have "0 < 64 mod md_bits m" using b by (simp add: dvd_eq_mod_eq_0)
    then have lt: "slush < md_bits m" using sl(1) b0 by linarith
    have "\<not> int (md_bits m) dvd int j - int slush" if "j < slush"
    proof
      assume "int (md_bits m) dvd int j - int slush"
      then have "int (md_bits m) dvd int (slush - j)"
        using that by (simp add: of_nat_diff dvd_diff_commute)
      then have "md_bits m dvd slush - j" by (simp only: int_dvd_int_iff)
      then show False using that lt by (auto dest: dvd_imp_le)
    qed
    then show ?thesis by auto
  qed
  ultimately show ?thesis
    using rotate_words_bits [of shl slush "md_bits m" "md_object_mask m" 0 0 n] by simp
qed

lemma rotate_words_one:
  "rotate_words wrapping_shl slush 1 m 0 = Some ([m], push_bit (slush mod 64) m)"
  unfolding One_nat_def by (simp add: wrapping_shl_def)

lemma init_words_rotation:
  assumes wf: "layout_wf m" "mask_wf m" and b: "md_bits m \<noteq> 1" and rot: "rotation_ok m"
  shows "\<exists>ws. init_words m = Some ws \<and> marks m ws"
proof -
  define r where "r = (md_n_objects m * md_bits m) mod 64"
  define sl where "sl = md_bits m - 64 mod md_bits m"
  define nw where "nw = md_n_bitset_words m"
  have b0: "0 < md_bits m" and n: "nw = (md_n_objects m * md_bits m + 63) div 64"
    using wf(1) by (simp_all add: layout_wf_def nw_def)
  have "0 < md_n_objects m * md_bits m" using wf(1) b0 by (simp add: layout_wf_def)
  then have n0: "0 < nw" unfolding n div_greater_zero_iff by linarith
  have r64: "r < 64" by (simp add: r_def)
  have mask: "md_object_mask m \<noteq> NOT 0"
  proof
    assume "md_object_mask m = NOT 0"
    then have "md_bits m dvd 1" using wf(2) unfolding mask_wf_def by (auto dest: spec [of _ 1])
    then show False using b by simp
  qed
  have sl: "sl \<le> 64" and good: "nw = 1 \<or> \<not> md_bits m dvd 64 \<and> sl < 64"
    using rot b by (simp_all add: rotation_ok_def Let_def sl_def nw_def)
  have init: "init_words m = (if r = 0 then rotate_words wrapping_shl sl nw (md_object_mask m) 0 \<bind> (\<lambda>(ws, _). Some ws)
     else rotate_words checked_shl sl (nw - 1) (md_object_mask m) 0
       \<bind> (\<lambda>(ws, l). Some (ws @ [l AND NOT (push_bit r (NOT 0))])))"
    using b0 mask n0 sl unfolding init_words_def Let_def md_bits_def [symmetric]
    by (simp add: r_def sl_def nw_def)
  have mask0: "bit (md_object_mask m) j \<longleftrightarrow> md_bits m dvd j" if "j < 64" for j
    using wf(2) that by (simp add: mask_wf_def)
  show ?thesis
  proof (cases "r = 0")
    case True
    obtain ws l where ws: "rotate_words wrapping_shl sl nw (md_object_mask m) 0 = Some (ws, l)" "length ws = nw"
      "\<forall>i<nw. \<forall>j<64. bit (ws ! i) j \<longleftrightarrow> md_bits m dvd 64 * i + j"
      using good rotate_words_layout [OF wf, of sl wrapping_shl nw] rotate_words_one [of sl "md_object_mask m"] mask0
      by (auto simp: sl_def)
    have "marks m ws" using ws True by (intro marksI [OF wf(1)]) (auto simp: nw_def r_def)
    then show ?thesis using True ws(1) init by simp
  next
    case False
    obtain ws l where ws: "rotate_words checked_shl sl (nw - 1) (md_object_mask m) 0 = Some (ws, l)" "length ws = nw - 1"
      "\<forall>i<nw - 1. \<forall>j<64. bit (ws ! i) j \<longleftrightarrow> md_bits m dvd 64 * i + j"
      "\<forall>j<64. bit l j \<longleftrightarrow> md_bits m dvd 64 * (nw - 1) + j"
      using good rotate_words_layout [OF wf, of sl checked_shl "nw - 1"] mask0 by (auto simp: sl_def)
    define ws' where "ws' = ws @ [l AND NOT (push_bit r (NOT 0))]"
    have "marks m ws'"
    proof (rule marksI [OF wf(1)])
      show "length ws' = md_n_bitset_words m" using ws(2) n0 by (simp add: ws'_def nw_def)
      fix i j assume ij: "i < md_n_bitset_words m" "(j :: nat) < 64"
      show "bit (ws' ! i) j \<longleftrightarrow> md_bits m dvd 64 * i + j
        \<and> ((md_n_objects m * md_bits m) mod 64 \<noteq> 0 \<and> i = md_n_bitset_words m - 1
             \<longrightarrow> j < (md_n_objects m * md_bits m) mod 64)"
      proof (cases "i < nw - 1")
        case True
        then show ?thesis using ws(2,3) ij by (simp add: ws'_def nth_append nw_def)
      next
        case last: False
        then have "i = nw - 1" using ij by (simp add: nw_def)
        then show ?thesis
          using ws(2,4) ij False last_mask_bit [OF r64, of j]
          by (simp add: ws'_def nth_append nw_def bit_and_iff r_def)
      qed
    qed
    then show ?thesis using False ws(1) init by (simp add: ws'_def)
  qed
qed

lemma init_words_marks:
  assumes "layout_wf m" "mask_wf m" "rotation_ok m"
  shows "\<exists>ws. init_words m = Some ws \<and> marks m ws"
  using init_words_one_bit [OF assms(1,2)] init_words_rotation [OF assms(1,2) _ assms(3)] by blast

subsection \<open>The marked positions of a bit-set, in order\<close>

definition word_positions :: "nat \<Rightarrow> usize \<Rightarrow> nat list" where
  "word_positions i w = map ((+) (64 * i)) (filter (bit w) [0..<64])"

definition positions :: "usize list \<Rightarrow> nat list" where
  "positions ws = concat (map (\<lambda>i. word_positions i (ws ! i)) [0..<length ws])"

definition total_free :: "usize list \<Rightarrow> nat" where
  "total_free ws = sum_list (map count_ones ws)"

lemma length_word_positions: "length (word_positions i w) = count_ones w"
  by (simp add: word_positions_def count_ones_def)

lemma count_ones_0 [simp]: "count_ones 0 = 0"
  by (simp add: count_ones_def)

lemma word_positions_0 [simp]: "word_positions i 0 = []"
  by (simp add: word_positions_def)

lemma trailing_zeros_bit:
  "0 < n \<Longrightarrow> bit n (trailing_zeros n) \<and> (\<forall>j<trailing_zeros n. \<not> bit n j)"
proof (induction n rule: trailing_zeros.induct)
  case (1 n)
  show ?case
  proof (cases "even n")
    case True
    then have h: "0 < n div 2" using 1 by auto
    have t: "trailing_zeros n = Suc (trailing_zeros (n div 2))"
      using True 1 by (simp add: trailing_zeros.simps [of n])
    have "\<not> bit n j" if "j < trailing_zeros n" for j
      using that 1(1) [OF _ True h] 1(2) True t by (cases j) (auto simp: bit_0 bit_Suc)
    then show ?thesis using 1(1) [OF _ True h] 1(2) t by (simp add: bit_Suc)
  next
    case False
    then show ?thesis using 1(2) by (simp add: trailing_zeros.simps [of n] bit_0)
  qed
qed

text \<open>The lowest marked bit is the head of the positions, and clearing it leaves the
  tail.\<close>

lemma trailing_zeros_word:
  fixes w :: usize
  assumes "w \<noteq> 0"
  defines "j \<equiv> trailing_zeros (unat w)"
  shows "j < 64" "word_positions i w = (64 * i + j) # word_positions i (w XOR push_bit j 1)"
proof -
  have "0 < unat w" using assms(1) by (simp add: unat_gt_0)
  from trailing_zeros_bit [OF this] have b: "bit w j" "\<And>k. k < j \<Longrightarrow> \<not> bit w k"
    by (auto simp: j_def bit_unsigned_iff dest: bit_imp_le_length)
  show j: "j < 64" using b(1) by (auto dest: bit_imp_le_length)
  then have split: "[0..<64] = [0..<j] @ j # [Suc j..<64]"
    by (metis less_imp_le_nat upt_add_eq_append upt_conv_Cons zero_le le_add_diff_inverse add_0)
  have "filter (bit w) [0..<64] = j # filter (bit w) [Suc j..<64]"
    unfolding split using b by (auto simp: filter_empty_conv)
  moreover define v where "v = w XOR push_bit j 1"
  have v: "bit v k \<longleftrightarrow> k \<noteq> j \<and> bit w k" for k
    unfolding v_def bit_xor_iff bit_push_bit_iff using b(1) j by (auto simp: bit_1_iff)
  have "filter (bit v) [0..<64] = filter (bit w) [Suc j..<64]"
    unfolding split using b j by (auto simp: filter_empty_conv v intro!: filter_cong)
  ultimately show "word_positions i w = (64 * i + j) # word_positions i (w XOR push_bit j 1)"
    unfolding v_def by (simp add: word_positions_def)
qed

lemma word_positions_filter:
  "word_positions i w = filter (\<lambda>p. bit w (p mod 64)) [64 * i..<64 * Suc i]"
proof -
  have "[64 * i..<64 * Suc i] = map ((+) (64 * i)) [0..<64]"
    by (rule nth_equalityI) (auto simp del: upt_Suc)
  then show ?thesis
    by (auto simp: word_positions_def filter_map comp_def intro!: filter_cong)
qed

lemma positions_filter:
  "positions ws = filter (\<lambda>p. bit (ws ! (p div 64)) (p mod 64)) [0..<64 * length ws]"
proof -
  have "concat (map (\<lambda>i. word_positions i (ws ! i)) [0..<n])
      = filter (\<lambda>p. bit (ws ! (p div 64)) (p mod 64)) [0..<64 * n]" for n
  proof (induction n)
    case (Suc n)
    have "[0..<64 * Suc n] = [0..<64 * n] @ [64 * n..<64 * Suc n]"
      by (metis le_add1 mult_Suc_right add.commute upt_add_eq_append zero_le)
    moreover have "filter (\<lambda>p. bit (ws ! (p div 64)) (p mod 64)) [64 * n..<64 * Suc n]
        = word_positions n (ws ! n)"
      unfolding word_positions_filter by (rule filter_cong) (auto simp: div_nat_eqI)
    ultimately show ?case using Suc by simp
  qed simp
  then show ?thesis by (simp add: positions_def)
qed

lemma positions_marks:
  assumes "marks m ws" "layout_wf m"
  shows "positions ws = map (\<lambda>k. k * md_bits m) [0..<md_n_objects m]"
proof (rule sorted_distinct_set_unique)
  have b: "0 < md_bits m" and n: "length ws = (md_n_objects m * md_bits m + 63) div 64"
    using assms by (simp_all add: layout_wf_def marks_def)
  show "sorted (positions ws)" "distinct (positions ws)"
    by (simp_all add: positions_filter sorted_wrt_filter)
  show "sorted (map (\<lambda>k. k * md_bits m) [0..<md_n_objects m])"
    by (simp add: sorted_iff_nth_mono)
  show "distinct (map (\<lambda>k. k * md_bits m) [0..<md_n_objects m])"
    using b by (simp add: distinct_map inj_on_def)
  have bit: "bit (ws ! (p div 64)) (p mod 64) \<longleftrightarrow> (\<exists>k<md_n_objects m. k * md_bits m = p)"
    if "p < 64 * length ws" for p
    using assms(1) that by (simp add: marks_def less_mult_imp_div_less mult.commute)
  have le: "md_n_objects m * md_bits m \<le> 64 * length ws"
    unfolding n by linarith
  have lt: "k * md_bits m < 64 * length ws" if "k < md_n_objects m" for k
    using that b le by (meson mult_less_mono1 order.strict_trans2)
  show "set (positions ws) = set (map (\<lambda>k. k * md_bits m) [0..<md_n_objects m])"
    unfolding positions_filter using bit lt by (auto simp: image_iff Bex_def)
qed

subsection \<open>The iterator hands out the marked positions in order\<close>

definition iter_wf :: "slag \<Rightarrow> alloc_iter \<Rightarrow> bool" where
  "iter_wf s it \<longleftrightarrow> it_next_word it = it_cur_word_index it + 1
     \<and> it_next_word it + it_remaining_words it = length (sl_words s)"

definition iter_positions :: "slag \<Rightarrow> alloc_iter \<Rightarrow> nat list" where
  "iter_positions s it = word_positions (it_cur_word_index it) (it_cur_word it)
     @ concat (map (\<lambda>i. word_positions i (sl_words s ! i)) [it_next_word it..<length (sl_words s)])"

definition iter_object :: "alloc_iter \<Rightarrow> nat \<Rightarrow> ptr" where
  "iter_object it p = offset (it_object_base it) (it_object_size it * p)"

text \<open>The count and the bit-set agree: the count is the number of marked bits.\<close>

definition rc_agrees :: "slag \<Rightarrow> bool \<Rightarrow> bool" where
  "rc_agrees s c \<longleftrightarrow> total_free (sl_words s) < 2 ^ 63 \<and> sl_rc s = rc_pack c (total_free (sl_words s))"

lemma total_free_update:
  assumes "i < length ws"
  shows "total_free (ws[i := 0]) = total_free ws - count_ones (ws ! i)" "count_ones (ws ! i) \<le> total_free ws"
proof -
  have l: "i < length (map count_ones ws)" using assms by simp
  show "total_free (ws[i := 0]) = total_free ws - count_ones (ws ! i)"
    using assms sum_list_update [OF l, of 0] by (simp add: total_free_def map_update)
  show "count_ones (ws ! i) \<le> total_free ws"
    using assms unfolding total_free_def by (intro member_le_sum_list) auto
qed

lemma take_word_agrees:
  assumes "rc_agrees s c" "i < length (sl_words s)"
  shows "\<exists>s'. take_word i s = Some (s', sl_words s ! i) \<and> sl_words s' = (sl_words s)[i := 0] \<and> rc_agrees s' c
           \<and> sl_meta s' = sl_meta s"
  using assms total_free_update [OF assms(2)]
  by (simp add: take_word_def rc_agrees_def rc_dec_pack Let_def less_imp_diff_less)

lemma refresh_word_step:
  assumes "rc_agrees s c" "iter_wf s it" "it_remaining_words it \<noteq> 0" "it_cur_word it = 0"
  shows "\<exists>s' it'. refresh_word s it = Some (s', it') \<and> rc_agrees s' c \<and> iter_wf s' it'
           \<and> iter_positions s' it' = iter_positions s it \<and> iter_object it' = iter_object it
           \<and> it_remaining_words it' < it_remaining_words it \<and> sl_meta s' = sl_meta s
           \<and> (\<forall>i<it_next_word it'. i < it_next_word it \<longrightarrow> sl_words s' ! i = sl_words s ! i)
           \<and> sl_words s' ! it_next_word it = 0 \<and> it_next_word it' = Suc (it_next_word it)"
proof -
  have i: "it_next_word it < length (sl_words s)" using assms(2,3) by (simp add: iter_wf_def)
  obtain s' where s': "take_word (it_next_word it) s = Some (s', sl_words s ! it_next_word it)"
    "sl_words s' = (sl_words s)[it_next_word it := 0]" "rc_agrees s' c" "sl_meta s' = sl_meta s"
    using take_word_agrees [OF assms(1) i] by blast
  have "[it_next_word it..<length (sl_words s)] = it_next_word it # [Suc (it_next_word it)..<length (sl_words s)]"
    using i by (rule upt_conv_Cons)
  then show ?thesis
    using assms(2-4) s' i
    by (simp add: refresh_word_def iter_wf_def iter_positions_def iter_object_def fun_eq_iff)
      (rule arg_cong [where f = concat], rule map_cong, auto)
qed

text \<open>The words before the iterator are empty.\<close>

definition iter_clear :: "slag \<Rightarrow> alloc_iter \<Rightarrow> bool" where
  "iter_clear s it \<longleftrightarrow> (\<forall>i<it_next_word it. sl_words s ! i = 0)"

lemma iter_next_step:
  assumes "rc_agrees s c" "iter_wf s it" "iter_clear s it"
  shows "\<exists>s' it'. iter_next s it = Some (s', it', case iter_positions s it of [] \<Rightarrow> None | p # _ \<Rightarrow> Some (iter_object it p))
           \<and> rc_agrees s' c \<and> iter_wf s' it' \<and> iter_clear s' it' \<and> iter_positions s' it' = tl (iter_positions s it)
           \<and> iter_object it' = iter_object it \<and> sl_meta s' = sl_meta s
           \<and> (iter_positions s it = [] \<longrightarrow> it_next_word it' = length (sl_words s') \<and> it_cur_word it' = 0)"
  using assms
proof (induction s it rule: iter_next.induct)
  case (1 s it)
  show ?case
  proof (cases "it_cur_word it = 0")
    case False
    let ?j = "trailing_zeros (unat (it_cur_word it))"
    have j: "?j < 64" "word_positions (it_cur_word_index it) (it_cur_word it) = (64 * it_cur_word_index it + ?j)
        # word_positions (it_cur_word_index it) (it_cur_word it XOR push_bit ?j 1)"
      using trailing_zeros_word [OF False] by blast+
    then show ?thesis using "1.prems"
      by (simp add: iter_next.simps [of s it] iter_positions_def iter_object_def iter_wf_def iter_clear_def
          fun_eq_iff mult.commute Let_def)
  next
    case zero: True
    then have tz: "trailing_zeros (unat (it_cur_word it)) = word_bits" by (simp add: trailing_zeros.simps)
    show ?thesis
    proof (cases "it_remaining_words it = 0")
      case True
      then show ?thesis using "1.prems" zero tz
        by (simp add: iter_next.simps [of s it] iter_positions_def iter_wf_def Let_def)
    next
      case False
      obtain s' it' where r: "refresh_word s it = Some (s', it')" "rc_agrees s' c" "iter_wf s' it'"
        "iter_positions s' it' = iter_positions s it" "iter_object it' = iter_object it" "sl_meta s' = sl_meta s"
        "\<forall>i<it_next_word it'. i < it_next_word it \<longrightarrow> sl_words s' ! i = sl_words s ! i"
        "sl_words s' ! it_next_word it = 0" "it_next_word it' = Suc (it_next_word it)"
        using refresh_word_step [OF "1.prems"(1,2) False zero] by blast
      have cl: "iter_clear s' it'"
        using r(7,8,9) "1.prems"(3) by (auto simp: iter_clear_def less_Suc_eq)
      have e: "iter_next s it = iter_next s' it'"
        using tz False r(1) by (simp add: iter_next.simps [of s it])
      show ?thesis
        using "1.IH" [OF refl tz False r(1) refl r(2,3) cl] unfolding e r(4,5,6) .
    qed
  qed
qed

text \<open>A client that takes objects until the iterator is exhausted, at most \<open>n\<close>.\<close>

fun iter_collect :: "nat \<Rightarrow> slag \<Rightarrow> alloc_iter \<Rightarrow> (slag \<times> alloc_iter \<times> ptr list) option" where
  "iter_collect 0 s it = Some (s, it, [])"
| "iter_collect (Suc n) s it =
     iter_next s it \<bind> (\<lambda>(s', it', r).
       case r of None \<Rightarrow> Some (s', it', [])
       | Some p \<Rightarrow> iter_collect n s' it' \<bind> (\<lambda>(s'', it'', ps). Some (s'', it'', p # ps)))"

lemma iter_collect_all:
  assumes "rc_agrees s c" "iter_wf s it" "iter_clear s it" "length (iter_positions s it) < n"
  shows "\<exists>s' it'. iter_collect n s it = Some (s', it', map (iter_object it) (iter_positions s it))
           \<and> rc_agrees s' c \<and> sl_meta s' = sl_meta s \<and> (\<forall>w\<in>set (sl_words s'). w = 0)"
  using assms
proof (induction n arbitrary: s it)
  case (Suc n)
  obtain s' it' where st: "iter_next s it = Some (s', it', case iter_positions s it of [] \<Rightarrow> None
      | p # _ \<Rightarrow> Some (iter_object it p))" "rc_agrees s' c" "iter_wf s' it'" "iter_clear s' it'"
      "iter_positions s' it' = tl (iter_positions s it)" "iter_object it' = iter_object it" "sl_meta s' = sl_meta s"
      "iter_positions s it = [] \<longrightarrow> it_next_word it' = length (sl_words s')"
    using iter_next_step [OF Suc.prems(1-3)] by blast
  show ?case
  proof (cases "iter_positions s it")
    case Nil
    then have "\<forall>w\<in>set (sl_words s'). w = 0"
      using st(4,8) by (auto simp: iter_clear_def in_set_conv_nth)
    then show ?thesis using st Nil by simp
  next
    case (Cons p ps)
    have "length (iter_positions s' it') < n" using Suc.prems(4) st(5) Cons by simp
    from Suc.IH [OF st(2-4) this] show ?thesis using st Cons by auto
  qed
qed simp

text \<open>The position of an object in the bit-set, and back.\<close>

definition slag_object :: "ptr \<Rightarrow> metadata \<Rightarrow> nat \<Rightarrow> ptr" where
  "slag_object self m k = offset self (md_objects_offset m + k * md_object_size m)"

lemma total_free_positions: "total_free ws = length (positions ws)"
proof -
  have "map count_ones ws = map (\<lambda>i. count_ones (ws ! i)) [0..<length ws]"
    by (rule nth_equalityI) auto
  then show ?thesis
    by (simp add: total_free_def positions_def length_concat comp_def length_word_positions)
qed

lemma slag_init_ok:
  assumes "layout_wf m" "mask_wf m" "rotation_ok m" "md_n_objects m < 2 ^ 63"
  shows "\<exists>s. slag_init mp m = Some s \<and> marks m (sl_words s) \<and> rc_agrees s False
           \<and> sl_meta s = mp \<and> sl_ty s = md_ty m \<and> sl_handle s = 0"
proof -
  obtain ws where ws: "init_words m = Some ws" "marks m ws"
    using init_words_marks [OF assms(1-3)] by blast
  have "total_free ws = md_n_objects m"
    using positions_marks [OF ws(2) assms(1)] by (simp add: total_free_positions)
  then show ?thesis
    using ws assms(4) by (simp add: slag_init_def rc_agrees_def rc_init_def rc_pack_def)
qed

lemma rc_agrees_claim:
  "rc_agrees s c \<Longrightarrow> rc_agrees (s\<lparr> sl_rc := fst (rc_claim (sl_rc s)) \<rparr>) True"
  by (simp add: rc_agrees_def rc_claim_pack)

text \<open>Refreshing a claimed \<open>Slag\<close> gives an iterator over all its marked objects.\<close>

lemma slag_refresh_ok:
  assumes wf: "layout_wf m" and s: "rc_agrees s c" "length (sl_words s) = md_n_bitset_words m"
  shows "\<exists>s' it. slag_refresh self s m = Some (s', it) \<and> rc_agrees s' c \<and> iter_wf s' it \<and> iter_clear s' it
           \<and> iter_positions s' it = positions (sl_words s) \<and> sl_meta s' = sl_meta s
           \<and> iter_object it = (\<lambda>p. offset self (md_objects_offset m + 2 ^ md_bit_rep_shift m * p))"
proof -
  have "0 < md_n_objects m * md_bits m" using wf by (simp add: layout_wf_def)
  then have n: "0 < md_n_bitset_words m"
    using wf unfolding layout_wf_def by (simp only: div_greater_zero_iff) linarith
  then have i: "0 < length (sl_words s)" using s(2) by simp
  obtain s' where s': "take_word 0 s = Some (s', sl_words s ! 0)"
    "sl_words s' = (sl_words s)[0 := 0]" "rc_agrees s' c" "sl_meta s' = sl_meta s"
    using take_word_agrees [OF s(1) i] by blast
  have "[0..<length (sl_words s)] = 0 # [1..<length (sl_words s)]"
    using i by (simp add: upt_conv_Cons)
  then have "positions (sl_words s) = word_positions 0 (sl_words s ! 0)
      @ concat (map (\<lambda>i. word_positions i (sl_words s ! i)) [1..<length (sl_words s)])"
    by (simp add: positions_def)
  moreover have "map (\<lambda>i. word_positions i ((sl_words s)[0 := 0] ! i)) [1..<length (sl_words s)]
      = map (\<lambda>i. word_positions i (sl_words s ! i)) [1..<length (sl_words s)]"
    by (rule map_cong) auto
  ultimately show ?thesis
    using n s(2) s' i
    by (simp add: slag_refresh_def iter_new_def iter_wf_def iter_clear_def iter_positions_def
        iter_object_def fun_eq_iff addr_simps del: map_eq_conv)
qed

subsection \<open>Finding and freeing an object\<close>

lemma split_index_of_nat:
  assumes "p < 2 ^ 64"
  shows "split_index (of_nat p) = (p div 64, p mod 64)"
proof -
  have u: "unat (of_nat p :: usize) = p" using assms by (simp add: unat_of_nat take_bit_nat_eq_self)
  have "unat (drop_bit 6 (of_nat p :: usize)) = p div 64"
    unfolding unat_drop_bit_eq u by (simp add: drop_bit_eq_div)
  moreover have "(of_nat p :: usize) AND 63 = take_bit 6 (of_nat p)"
    by (simp add: take_bit_eq_mask mask_numeral)
  moreover have "unat (take_bit 6 (of_nat p :: usize)) = p mod 64"
    by (simp only: unsigned_take_bit_eq u) (simp add: take_bit_eq_mod)
  ultimately show ?thesis by (simp only: split_index_def prod.inject)
qed

lemma drop_bit_of_nat_mult:
  assumes "x * 2 ^ k < 2 ^ 64"
  shows "drop_bit k (of_nat (x * 2 ^ k)) = (of_nat x :: usize)"
proof -
  have "x \<le> x * 2 ^ k" by simp
  then have "x < 2 ^ 64" using assms by (rule le_less_trans)
  then show ?thesis
    using assms by (simp only: word_unat_eq_iff unat_drop_bit_eq unat_of_nat take_bit_nat_eq_self)
      (simp add: drop_bit_eq_div)
qed

text \<open>A placed \<open>Slag\<close>: aligned to its page size, and its objects end inside the page.\<close>

definition slag_placed :: "ptr \<Rightarrow> metadata \<Rightarrow> bool" where
  "slag_placed self m \<longleftrightarrow> is_power_of_two (md_total_bytes m) \<and> md_total_bytes m dvd unat self
     \<and> unat self + md_total_bytes m \<le> 2 ^ 64
     \<and> md_objects_offset m + md_n_objects m * md_object_size m \<le> md_total_bytes m"

lemma slag_object_bound:
  assumes "slag_placed self m" "k < md_n_objects m" "0 < md_object_size m"
  shows "md_objects_offset m + k * md_object_size m < md_total_bytes m"
    "unat (slag_object self m k) = unat self + (md_objects_offset m + k * md_object_size m)"
proof -
  have "k * md_object_size m < md_n_objects m * md_object_size m" using assms(2,3) by simp
  then show b: "md_objects_offset m + k * md_object_size m < md_total_bytes m"
    using assms(1) unfolding slag_placed_def by linarith
  then show "unat (slag_object self m k) = unat self + (md_objects_offset m + k * md_object_size m)"
    unfolding slag_object_def using assms(1) by (intro unat_offset) (simp add: slag_placed_def)
qed

lemma layout_pos: "layout_wf m \<Longrightarrow> 0 < md_object_size m"
  by (simp add: layout_wf_def)

lemma slag_find_object:
  assumes "slag_placed self m" "layout_wf m" "k < md_n_objects m"
  shows "slag_find (slag_object self m k) (md_total_bytes m) = self"
proof -
  obtain t where t: "md_total_bytes m = 2 ^ t" using assms(1) by (auto simp: slag_placed_def align_simps)
  define j where "j = md_objects_offset m + k * md_object_size m"
  have j: "j < 2 ^ t" using slag_object_bound(1) [OF assms(1,3) layout_pos [OF assms(2)]] by (simp add: j_def t)
  have p: "2 ^ t dvd unat self" "unat self + 2 ^ t \<le> 2 ^ 64"
    using assms(1) by (simp_all add: slag_placed_def t)
  have "(2 :: nat) ^ t \<le> 2 ^ 64" using p(2) by linarith
  then have "t \<le> 64" by (rule power_le_imp_le_exp [rotated]) simp
  moreover have "fits self (2 ^ t)" using p(2) by (simp add: fits_def)
  ultimately have "offset self j AND NOT (of_nat (2 ^ t) - 1) = offset self (2 ^ t * (j div 2 ^ t))"
    using p(1) j by (rule mask_in_block)
  then show ?thesis using j by (simp add: slag_find_def slag_object_def j_def t)
qed

lemma get_word_object:
  assumes "slag_placed self m" "layout_wf m" "k < md_n_objects m"
  shows "get_word self (slag_object self m k) m = ((k * md_bits m) div 64, (k * md_bits m) mod 64)"
proof -
  have sz: "md_object_size m = md_bits m * 2 ^ md_bit_rep_shift m" using assms(2) by (simp add: layout_wf_def)
  define p where "p = k * md_bits m"
  have b: "p * 2 ^ md_bit_rep_shift m < 2 ^ 64"
    using slag_object_bound(1) [OF assms(1,3) layout_pos [OF assms(2)]] assms(1)
    unfolding slag_placed_def sz p_def by (simp only: mult.assoc) linarith
  have "slag_object self m k - (of_nat (md_objects_offset m) + self) = of_nat (p * 2 ^ md_bit_rep_shift m)"
    by (simp add: slag_object_def offset_def p_def sz mult.assoc)
  moreover have "p < 2 ^ 64" using b by (rule le_less_trans [rotated]) simp
  ultimately show ?thesis
    unfolding get_word_def p_def [symmetric] using split_index_of_nat drop_bit_of_nat_mult [OF b] by simp
qed

lemma count_ones_or:
  assumes "\<not> bit w j" "j < 64"
  shows "count_ones (w OR push_bit j 1) = Suc (count_ones w)"
proof -
  define v where "v = w OR push_bit j 1"
  have v: "bit v k \<longleftrightarrow> k = j \<or> bit w k" if "k < 64" for k
    unfolding v_def bit_or_iff bit_push_bit_iff using that by (auto simp: bit_1_iff)
  have split: "[0..<64] = [0..<j] @ j # [Suc j..<64]"
    using assms(2) by (metis less_imp_le_nat upt_add_eq_append upt_conv_Cons zero_le le_add_diff_inverse add_0)
  have "filter (bit v) [0..<j] = filter (bit w) [0..<j]" "filter (bit v) [Suc j..<64] = filter (bit w) [Suc j..<64]"
    using assms(2) by (auto simp: v intro!: filter_cong)
  then show ?thesis
    unfolding count_ones_def v_def [symmetric] split using v [of j] assms by simp
qed

lemma total_free_or:
  assumes "i < length ws" "\<not> bit (ws ! i) j" "j < 64"
  shows "total_free (ws[i := ws ! i OR push_bit j 1]) = Suc (total_free ws)"
proof -
  have l: "i < length (map count_ones ws)" using assms(1) by simp
  have le: "count_ones (ws ! i) \<le> sum_list (map count_ones ws)"
    using assms(1) by (intro member_le_sum_list) auto
  show ?thesis
    using assms(1) le sum_list_update [OF l, of "Suc (count_ones (ws ! i))"] count_ones_or [OF assms(2,3)]
    by (simp add: total_free_def map_update)
qed

lemma object_word_lt:
  assumes "layout_wf m" "k < md_n_objects m"
  shows "(k * md_bits m) div 64 < md_n_bitset_words m"
proof -
  have "k * md_bits m < md_n_objects m * md_bits m" using assms by (simp add: layout_wf_def)
  moreover have "md_n_objects m * md_bits m \<le> 64 * ((md_n_objects m * md_bits m + 63) div 64)" by linarith
  ultimately show ?thesis
    using assms(1) unfolding layout_wf_def by (metis less_mult_imp_div_less mult.commute order.strict_trans2)
qed

lemma mark_bit:
  fixes ws :: "usize list"
  assumes "q div 64 < length ws"
  shows "bit ((ws[q div 64 := ws ! (q div 64) OR push_bit (q mod 64) 1]) ! (p div 64)) (p mod 64)
    \<longleftrightarrow> p = q \<or> bit (ws ! (p div 64)) (p mod 64)"
proof (cases "p div 64 = q div 64")
  case True
  then have "p = q \<longleftrightarrow> p mod 64 = q mod 64" by (metis div_mult_mod_eq)
  moreover have "bit (push_bit (q mod 64) 1 :: usize) (p mod 64) \<longleftrightarrow> p mod 64 = q mod 64"
    unfolding bit_push_bit_iff by (auto simp: bit_1_iff)
  ultimately show ?thesis using True assms by (auto simp: bit_or_iff simp del: push_bit_of_1)
qed auto

text \<open>Freeing an object that is not marked marks its bit and no other, keeps the count and
  the bit-set in agreement, and reports the transition the new count makes.\<close>

lemma slag_free_ok:
  assumes placed: "slag_placed self m" and wf: "layout_wf m" and k: "k < md_n_objects m"
    and M: "sl_meta s \<noteq> null" "M (sl_meta s) = Some m"
    and len: "length (sl_words s) = md_n_bitset_words m"
    and agree: "rc_agrees s c" and room: "total_free (sl_words s) + 1 < 2 ^ 63"
    and free: "\<not> bit (sl_words s ! ((k * md_bits m) div 64)) ((k * md_bits m) mod 64)"
  defines "i \<equiv> (k * md_bits m) div 64" and "j \<equiv> (k * md_bits m) mod 64" and "was \<equiv> total_free (sl_words s)"
  shows "\<exists>s'. slag_free M self s (slag_object self m k) = Some (s',
             if \<not> c \<and> was = md_cutoff_objects m - 1 then TAvailable
             else if \<not> c \<and> was = md_n_objects m - 1 then TFull else TNull)
           \<and> rc_agrees s' c \<and> sl_meta s' = sl_meta s
           \<and> sl_words s' = (sl_words s)[i := sl_words s ! i OR push_bit j 1]"
proof -
  have i: "i < length (sl_words s)" using object_word_lt [OF wf k] len by (simp add: i_def)
  have j: "j < 64" by (simp add: j_def)
  have inb: "unat (slag_object self m k) < unat self + md_total_bytes m"
    using slag_object_bound [OF placed k layout_pos [OF wf]] by simp
  have rc: "rc_inc_n 1 (sl_rc s) = (rc_pack c (was + 1), (c, of_nat was))"
    using rc_inc_pack [of was 1 c] agree room by (simp add: rc_agrees_def was_def)
  have u: "unat (of_nat was :: usize) = was"
    using room by (simp add: was_def unat_of_nat take_bit_nat_eq_self)
  have tf: "total_free ((sl_words s)[i := sl_words s ! i OR push_bit j 1]) = was + 1"
    using total_free_or [OF i _ j] free by (simp add: i_def j_def was_def)
  have gw: "get_word self (slag_object self m k) m = (i, j)"
    unfolding get_word_object [OF placed wf k] i_def j_def ..
  define s' where "s' = s\<lparr> sl_rc := rc_pack c (was + 1),
      sl_words := (sl_words s)[i := sl_words s ! i OR push_bit j 1] \<rparr>"
  have "slag_free M self s (slag_object self m k) = Some (s',
      if \<not> c \<and> was = md_cutoff_objects m - 1 then TAvailable
      else if \<not> c \<and> was = md_n_objects m - 1 then TFull else TNull)"
    using M inb i by (simp add: slag_free_def get_metadata_def gw rc u s'_def del: push_bit_of_1)
  moreover have "rc_agrees s' c" using room tf by (simp add: rc_agrees_def s'_def was_def)
  ultimately show ?thesis by (intro exI [of _ s']) (simp add: s'_def)
qed

end
