(* ===== verification/Slag_Threads.thy ===== *)
theory Slag_Threads
  imports Slag "HOL-Library.Multiset"
begin

text \<open>
  A \<open>Slag\<close> shared by threads (\<open>src/elfmalloc/src/slag.rs\<close>): the thread that claimed it
  allocates from its bit-set with an \<open>AllocIter\<close> while any number of other threads free
  objects into it.  Every atomic operation of \<open>RefCount::claim\<close>, \<open>RefCount::unclaim\<close>,
  \<open>AllocIter::new\<close>, \<open>AllocIter::refresh_word\<close> and \<open>Slag::free\<close> is one step, so that the two
  steps of a free (count, then bit) and of a refill (bit, then count) interleave in every
  order.  The invariant accounts for every object, and says that the count is the number
  of marked bits plus the frees and refills caught between their two steps; it follows
  that the decrement never goes below zero and that no object is handed out twice.
\<close>

subsection \<open>States and steps\<close>

text \<open>The owner: none, one that has just claimed the slag, one that has swapped out word \<open>i\<close> and
  not yet decremented the count, one that allocates from word \<open>i\<close>.\<close>

datatype owner = Unowned | Claimed | Refilling nat usize | Serving nat usize

text \<open>\<open>tc_live\<close> holds the positions of the objects clients hold, \<open>tc_pend\<close> those of the
  frees between the increment of the count and the marking of the bit.\<close>

record slag_conc =
  tc_words :: "usize list"
  tc_rc :: usize
  tc_owner :: owner
  tc_live :: "nat multiset"
  tc_pend :: "nat multiset"

text \<open>The claim and its end: \<open>RefCount::claim\<close>, and \<open>RefCount::unclaim\<close> once the iterator is
  exhausted.\<close>

inductive claim_step :: "slag_conc \<Rightarrow> slag_conc \<Rightarrow> bool" where
  claim: "tc_owner s = Unowned \<Longrightarrow> rc_claim (tc_rc s) = (rc, True) \<Longrightarrow>
    claim_step s (s\<lparr> tc_rc := rc, tc_owner := Claimed \<rparr>)"
| unclaim: "tc_owner s = Serving i 0 \<Longrightarrow> Suc i = length (tc_words s) \<Longrightarrow>
    rc_unclaim (tc_rc s) = (rc, r) \<Longrightarrow>
    claim_step s (s\<lparr> tc_rc := rc, tc_owner := Unowned \<rparr>)"

text \<open>The owner's iterator: \<open>AllocIter::new\<close> swaps out the first word, \<open>refresh_word\<close> the next one, both
  then lower the count, and \<open>next\<close> takes an object.\<close>

inductive iter_step :: "slag_conc \<Rightarrow> slag_conc \<Rightarrow> bool" where
  first_word: "tc_owner s = Claimed \<Longrightarrow> 0 < length (tc_words s) \<Longrightarrow>
    iter_step s (s\<lparr> tc_words := (tc_words s)[0 := 0], tc_owner := Refilling 0 (tc_words s ! 0) \<rparr>)"
| count_word: "tc_owner s = Refilling i w \<Longrightarrow> rc_dec_n (of_nat (count_ones w)) (tc_rc s) = Some (rc, r) \<Longrightarrow>
    iter_step s (s\<lparr> tc_rc := rc, tc_owner := Serving i w \<rparr>)"
| take_object: "tc_owner s = Serving i w \<Longrightarrow> w \<noteq> 0 \<Longrightarrow> j = trailing_zeros (unat w) \<Longrightarrow>
    iter_step s (s\<lparr> tc_owner := Serving i (w XOR push_bit j 1),
      tc_live := add_mset (64 * i + j) (tc_live s) \<rparr>)"
| next_word: "tc_owner s = Serving i 0 \<Longrightarrow> Suc i < length (tc_words s) \<Longrightarrow>
    iter_step s (s\<lparr> tc_words := (tc_words s)[Suc i := 0],
      tc_owner := Refilling (Suc i) (tc_words s ! Suc i) \<rparr>)"

text \<open>The two atomic operations of \<open>Slag::free\<close>.\<close>

inductive free_step :: "slag_conc \<Rightarrow> slag_conc \<Rightarrow> bool" where
  free_count: "p \<in># tc_live s \<Longrightarrow> rc_inc_n 1 (tc_rc s) = (rc, r) \<Longrightarrow>
    free_step s (s\<lparr> tc_rc := rc, tc_live := tc_live s - {#p#}, tc_pend := add_mset p (tc_pend s) \<rparr>)"
| free_mark: "p \<in># tc_pend s \<Longrightarrow> p div 64 < length (tc_words s) \<Longrightarrow>
    free_step s (s\<lparr> tc_words := (tc_words s)[p div 64 := tc_words s ! (p div 64) OR push_bit (p mod 64) 1],
      tc_pend := tc_pend s - {#p#} \<rparr>)"

text \<open>Any thread may take the next step.\<close>

definition slag_step :: "slag_conc \<Rightarrow> slag_conc \<Rightarrow> bool" where
  "slag_step s t \<longleftrightarrow> claim_step s t \<or> iter_step s t \<or> free_step s t"

inductive slag_reach :: "slag_conc \<Rightarrow> slag_conc \<Rightarrow> bool" where
  start: "slag_reach s s"
| step: "slag_reach s t \<Longrightarrow> slag_step t u \<Longrightarrow> slag_reach s u"

text \<open>A freshly initialised slag that nobody owns.\<close>

definition slag_fresh :: "metadata \<Rightarrow> usize list \<Rightarrow> slag_conc" where
  "slag_fresh m ws = \<lparr> tc_words = ws, tc_rc = rc_init (of_nat (md_n_objects m)), tc_owner = Unowned,
     tc_live = {#}, tc_pend = {#} \<rparr>"

subsection \<open>Accounting\<close>

fun owner_positions :: "owner \<Rightarrow> nat multiset" where
  "owner_positions (Refilling i w) = mset (word_positions i w)"
| "owner_positions (Serving i w) = mset (word_positions i w)"
| "owner_positions _ = {#}"

fun owner_owes :: "owner \<Rightarrow> nat" where
  "owner_owes (Refilling i w) = count_ones w"
| "owner_owes _ = 0"

fun owner_in :: "nat \<Rightarrow> owner \<Rightarrow> bool" where
  "owner_in n (Refilling i w) \<longleftrightarrow> i < n"
| "owner_in n (Serving i w) \<longleftrightarrow> i < n"
| "owner_in n _ \<longleftrightarrow> True"

definition object_positions :: "metadata \<Rightarrow> nat list" where
  "object_positions m = map (\<lambda>k. k * md_bits m) [0..<md_n_objects m]"

definition conc_inv :: "metadata \<Rightarrow> slag_conc \<Rightarrow> bool" where
  "conc_inv m s \<longleftrightarrow>
     length (tc_words s) = md_n_bitset_words m
     \<and> owner_in (length (tc_words s)) (tc_owner s)
     \<and> mset (positions (tc_words s)) + owner_positions (tc_owner s) + tc_live s + tc_pend s
         = mset (object_positions m)
     \<and> tc_rc s = rc_pack (tc_owner s \<noteq> Unowned)
         (total_free (tc_words s) + size (tc_pend s) + owner_owes (tc_owner s))"

lemma mset_positions: "mset (positions ws) = (\<Sum>i<length ws. mset (word_positions i (ws ! i)))"
proof -
  have "mset (concat (map f [0..<n])) = (\<Sum>i<n. mset (f i))" for f :: "nat \<Rightarrow> nat list" and n
    by (induction n) (auto simp: lessThan_Suc)
  then show ?thesis by (simp add: positions_def)
qed

lemma mset_positions_update:
  assumes "i < length ws"
  shows "mset (positions (ws[i := v])) + mset (word_positions i (ws ! i))
       = mset (positions ws) + mset (word_positions i v)"
proof -
  have i: "i \<in> {..<length ws}" using assms by simp
  have "(\<Sum>k\<in>{..<length ws} - {i}. mset (word_positions k (ws[i := v] ! k)))
      = (\<Sum>k\<in>{..<length ws} - {i}. mset (word_positions k (ws ! k)))"
    by (rule sum.cong) auto
  then show ?thesis
    using sum.remove [OF finite_lessThan i, of "\<lambda>k. mset (word_positions k (ws ! k))"]
      sum.remove [OF finite_lessThan i, of "\<lambda>k. mset (word_positions k (ws[i := v] ! k))"] assms
    by (simp add: mset_positions ac_simps)
qed

lemma mset_word_positions_or:
  assumes "\<not> bit w j" "j < 64"
  shows "mset (word_positions i (w OR push_bit j 1)) = add_mset (64 * i + j) (mset (word_positions i w))"
proof -
  define v where "v = w OR push_bit j 1"
  have v: "bit v k \<longleftrightarrow> k = j \<or> bit w k" if "k < 64" for k
    unfolding v_def bit_or_iff bit_push_bit_iff using that by (auto simp: bit_1_iff)
  have split: "[0..<64] = [0..<j] @ j # [Suc j..<64]"
    using assms(2) by (metis less_imp_le_nat upt_add_eq_append upt_conv_Cons zero_le le_add_diff_inverse add_0)
  have "filter (bit v) [0..<j] = filter (bit w) [0..<j]" "filter (bit v) [Suc j..<64] = filter (bit w) [Suc j..<64]"
    using assms(2) by (auto simp: v intro!: filter_cong)
  then show ?thesis
    unfolding word_positions_def v_def [symmetric] split using v [of j] assms by simp
qed

lemma position_in_word:
  assumes "p div 64 < length ws" "bit (ws ! (p div 64)) (p mod 64)"
  shows "p \<in># mset (positions ws)"
proof -
  have "p < 64 * length ws" using assms(1) by (simp add: div_less_iff_less_mult mult.commute)
  then show ?thesis using assms(2) by (simp add: positions_filter)
qed

lemma distinct_object_positions: "layout_wf m \<Longrightarrow> distinct (object_positions m)"
  by (auto simp: object_positions_def distinct_map inj_on_def layout_wf_def)

lemma size_positions: "size (mset (positions ws)) = total_free ws"
  by (simp add: total_free_positions)

text \<open>The count never exceeds the number of objects.\<close>

lemma conc_inv_count:
  assumes "conc_inv m s"
  shows "total_free (tc_words s) + size (tc_pend s) + size (owner_positions (tc_owner s)) + size (tc_live s)
       = md_n_objects m"
proof -
  have "size (mset (positions (tc_words s)) + owner_positions (tc_owner s) + tc_live s + tc_pend s)
      = size (mset (object_positions m))"
    using assms by (simp only: conc_inv_def)
  then show ?thesis by (simp add: size_positions object_positions_def total_free_positions)
qed

lemma owes_le: "owner_owes q \<le> size (owner_positions q)"
  by (cases q) (auto simp: length_word_positions)

lemma conc_inv_distinct:
  assumes "conc_inv m s" "layout_wf m"
  shows "count (mset (positions (tc_words s)) + owner_positions (tc_owner s) + tc_live s + tc_pend s) p \<le> 1"
  using assms distinct_object_positions [OF assms(2)]
  by (simp only: conc_inv_def distinct_count_atmost_1) auto

subsection \<open>Every step keeps the accounts\<close>

lemma inv_count_lt:
  assumes "conc_inv m s" "md_n_objects m < 2 ^ 63"
  shows "total_free (tc_words s) + size (tc_pend s) + owner_owes (tc_owner s) < 2 ^ 63"
  using conc_inv_count [OF assms(1)] owes_le [of "tc_owner s"] assms(2) by linarith

text \<open>Swapping out word \<open>i\<close> moves its positions to the owner.\<close>

lemma swap_inv:
  assumes inv: "conc_inv m s" and i: "i < length (tc_words s)"
    and o: "owner_positions (tc_owner s) = {#}" "owner_owes (tc_owner s) = 0" "tc_owner s \<noteq> Unowned"
  shows "conc_inv m (s\<lparr> tc_words := (tc_words s)[i := 0], tc_owner := Refilling i (tc_words s ! i) \<rparr>)"
proof -
  have "mset (positions ((tc_words s)[i := 0])) + mset (word_positions i (tc_words s ! i)) = mset (positions (tc_words s))"
    using mset_positions_update [OF i, of 0] by simp
  moreover have "total_free ((tc_words s)[i := 0]) + count_ones (tc_words s ! i) = total_free (tc_words s)"
    using total_free_update [OF i] by simp
  ultimately show ?thesis
    using inv i o by (simp add: conc_inv_def ac_simps)
qed

lemma free_mark_inv:
  assumes inv: "conc_inv m s" and wf: "layout_wf m" and p: "p \<in># tc_pend s" "p div 64 < length (tc_words s)"
  shows "conc_inv m (s\<lparr> tc_words := (tc_words s)[p div 64 := tc_words s ! (p div 64) OR push_bit (p mod 64) 1],
      tc_pend := tc_pend s - {#p#} \<rparr>)"
proof -
  let ?i = "p div 64" and ?j = "p mod 64"
  let ?ws = "(tc_words s)[?i := tc_words s ! ?i OR push_bit ?j 1]"
  have nb: "\<not> bit (tc_words s ! ?i) ?j"
  proof
    assume "bit (tc_words s ! ?i) ?j"
    then have "p \<in># mset (positions (tc_words s))" using p(2) position_in_word by blast
    then have "Suc 0 \<le> count (mset (positions (tc_words s))) p" "Suc 0 \<le> count (tc_pend s) p"
      using p(1) by (simp_all only: Suc_le_eq count_greater_zero_iff)
    then show False using conc_inv_distinct [OF inv wf, of p] unfolding count_union by linarith
  qed
  have j: "?j < 64" by simp
  have "mset (positions ?ws) + mset (word_positions ?i (tc_words s ! ?i))
      = add_mset p (mset (positions (tc_words s))) + mset (word_positions ?i (tc_words s ! ?i))"
    using mset_positions_update [OF p(2)] mset_word_positions_or [OF nb j, of ?i] by simp
  then have ps: "mset (positions ?ws) = add_mset p (mset (positions (tc_words s)))" by simp
  obtain pend where pend: "tc_pend s = add_mset p pend" using p(1) by (metis insert_DiffM)
  show ?thesis
    using inv ps pend total_free_or [OF p(2) nb j] by (auto simp: conc_inv_def)
qed

lemma claim_step_inv:
  assumes step: "claim_step s t" and inv: "conc_inv m s" and wf: "md_n_objects m < 2 ^ 63"
  shows "conc_inv m t"
  using step inv inv_count_lt [OF inv wf] by cases (auto simp: conc_inv_def rc_claim_pack rc_unclaim_pack)

lemma iter_step_inv:
  assumes step: "iter_step s t" and inv: "conc_inv m s" and wf: "md_n_objects m < 2 ^ 63"
  shows "conc_inv m t"
  using step
proof cases
  case (count_word i w rc r)
  then show ?thesis
    using inv inv_count_lt [OF inv wf] by (auto simp: conc_inv_def rc_dec_pack)
next
  case (take_object i w j)
  have "word_positions i w = (64 * i + j) # word_positions i (w XOR push_bit j 1)"
    using trailing_zeros_word(2) [OF take_object(3)] unfolding take_object(4) .
  then show ?thesis using inv take_object(1,2) by (auto simp: conc_inv_def)
qed (use swap_inv [OF inv] in simp_all)

lemma free_step_inv:
  assumes step: "free_step s t" and inv: "conc_inv m s" and wf: "layout_wf m" "md_n_objects m < 2 ^ 63"
  shows "conc_inv m t"
  using step
proof cases
  case (free_count p rc r)
  obtain live where live: "tc_live s = add_mset p live" using free_count(2) by (metis insert_DiffM)
  let ?n = "total_free (tc_words s) + size (tc_pend s) + owner_owes (tc_owner s)"
  have "?n + 1 \<le> md_n_objects m"
    using conc_inv_count [OF inv] owes_le [of "tc_owner s"] live by simp
  then have "?n + 1 < 2 ^ 63" using wf(2) by linarith
  then have "rc = rc_pack (tc_owner s \<noteq> Unowned) (?n + 1)"
    using rc_inc_pack [of ?n 1 "tc_owner s \<noteq> Unowned"] free_count(3) inv by (auto simp: conc_inv_def)
  then show ?thesis using inv free_count(1) live by (auto simp: conc_inv_def)
next
  case (free_mark p)
  then show ?thesis using free_mark_inv [OF inv wf(1)] by simp
qed

lemma slag_step_inv:
  "slag_step s t \<Longrightarrow> conc_inv m s \<Longrightarrow> layout_wf m \<Longrightarrow> md_n_objects m < 2 ^ 63 \<Longrightarrow> conc_inv m t"
  unfolding slag_step_def using claim_step_inv iter_step_inv free_step_inv by blast

lemma slag_reach_inv:
  "slag_reach s t \<Longrightarrow> conc_inv m s \<Longrightarrow> layout_wf m \<Longrightarrow> md_n_objects m < 2 ^ 63 \<Longrightarrow> conc_inv m t"
  by (induction rule: slag_reach.induct) (auto dest: slag_step_inv)

lemma slag_fresh_inv:
  assumes "marks m ws" "layout_wf m" "md_n_objects m < 2 ^ 63"
  shows "conc_inv m (slag_fresh m ws)"
proof -
  have "total_free ws = md_n_objects m"
    using positions_marks [OF assms(1,2)] by (simp add: total_free_positions)
  then show ?thesis
    using assms positions_marks [OF assms(1,2)]
    by (simp add: conc_inv_def slag_fresh_def marks_def rc_init_def rc_pack_def object_positions_def)
qed

subsection \<open>What the invariant gives\<close>

text \<open>The debug assertion of \<open>RefCount::dec_n\<close> holds whenever the owner decrements.\<close>

lemma dec_never_fails:
  assumes "conc_inv m s" "md_n_objects m < 2 ^ 63" "tc_owner s = Refilling i w"
  shows "\<exists>rc r. rc_dec_n (of_nat (count_ones w)) (tc_rc s) = Some (rc, r)"
proof -
  let ?n = "total_free (tc_words s) + size (tc_pend s) + count_ones w"
  have "?n < 2 ^ 63" using inv_count_lt [OF assms(1,2)] assms(3) by simp
  moreover have "tc_rc s = rc_pack True ?n" using assms(1,3) by (simp add: conc_inv_def)
  ultimately show ?thesis using rc_dec_pack [of ?n "count_ones w" True] by (metis le_add2)
qed

text \<open>An object that is handed out, or being freed, is held by nobody else.\<close>

lemma live_once:
  assumes "conc_inv m s" "layout_wf m"
  shows "count (tc_live s) p + count (tc_pend s) p \<le> 1"
  using conc_inv_distinct [OF assms, of p] by simp

lemma live_objects:
  assumes "conc_inv m s" "p \<in># tc_live s"
  shows "\<exists>k<md_n_objects m. p = k * md_bits m"
proof -
  have "p \<in># mset (object_positions m)"
    using assms unfolding conc_inv_def by (metis union_iff)
  then show ?thesis by (auto simp: object_positions_def)
qed

text \<open>With no free and no refill under way, the count is the number of marked bits.\<close>

lemma quiet_count:
  assumes "conc_inv m s" "md_n_objects m < 2 ^ 63" "tc_pend s = {#}" "owner_owes (tc_owner s) = 0"
  shows "rc_load (tc_rc s) = (tc_owner s \<noteq> Unowned, of_nat (total_free (tc_words s)))"
proof -
  have "total_free (tc_words s) < 2 ^ 63" using inv_count_lt [OF assms(1,2)] assms(3,4) by simp
  then show ?thesis using assms(1,3,4) by (simp add: conc_inv_def rc_load_pack)
qed

end
