(* ===== verification/Bag_Queue.thy ===== *)
theory Bag_Queue
  imports Prelude "HOL-Library.Multiset"
begin

text \<open>
  The weak bags of \<open>bagpipe\<close>: the trait \<open>SharedWeakBag\<close> (\<open>src/bagpipe/src/bag.rs\<close>) as a
  record of operations with its contract as a locale, and the two fetch-and-add queues
  that implement it (\<open>src/bagpipe/src/queue.rs\<close>), \<open>FAAQueueLowLevel\<close> with revocation and
  \<open>YangCrummeyQueue\<close>, as operations of one caller on the linked segments.  \<open>None\<close> is a failed
  assertion.  Each queue is shown to be a first-in first-out queue, to keep its
  invariant, and to meet the contract.
\<close>

subsection \<open>The trait\<close>

datatype 'a pop_result = Popped 'a | PopEmpty | PopTransient

text \<open>\<open>try_push\<close> returns the item on failure; \<open>None\<close> in its result is \<open>Ok\<close>.\<close>

record ('q, 'a) weak_bag =
  wb_new :: 'q
  wb_try_push :: "'q \<Rightarrow> 'a \<Rightarrow> ('q \<times> 'a option) option"
  wb_try_pop :: "'q \<Rightarrow> ('q \<times> 'a pop_result) option"

text \<open>The default methods \<open>push\<close> and \<open>pop\<close>, which retry until they succeed.\<close>

partial_function (option) wb_push :: "('q, 'a) weak_bag \<Rightarrow> 'q \<Rightarrow> 'a \<Rightarrow> 'q option" where
  "wb_push B q it =
     wb_try_push B q it \<bind> (\<lambda>(q', r).
       case r of None \<Rightarrow> Some q' | Some old_item \<Rightarrow> wb_push B q' old_item)"

partial_function (option) wb_pop :: "('q, 'a) weak_bag \<Rightarrow> 'q \<Rightarrow> ('q \<times> 'a option) option" where
  "wb_pop B q =
     wb_try_pop B q \<bind> (\<lambda>(q', r).
       case r of Popped it \<Rightarrow> Some (q', Some it) | PopEmpty \<Rightarrow> Some (q', None)
       | PopTransient \<Rightarrow> wb_pop B q')"

text \<open>\<open>BagCleanup::cleanup_all\<close>: every item left in the bags, in the order of the calls of
  \<open>cleanup\<close>.\<close>

partial_function (option) drain_bag :: "('q, 'a) weak_bag \<Rightarrow> 'q \<Rightarrow> 'a list \<Rightarrow> ('q \<times> 'a list) option" where
  "drain_bag B q acc =
     wb_pop B q \<bind> (\<lambda>(q', r).
       case r of None \<Rightarrow> Some (q', rev acc) | Some p \<Rightarrow> drain_bag B q' (p # acc))"

fun cleanup_all :: "('q, 'a) weak_bag \<Rightarrow> 'q list \<Rightarrow> ('q list \<times> 'a list) option" where
  "cleanup_all B [] = Some ([], [])"
| "cleanup_all B (q # qs) =
     drain_bag B q [] \<bind> (\<lambda>(q', its). cleanup_all B qs \<bind> (\<lambda>(qs', its'). Some (q' # qs', its @ its')))"

subsection \<open>The contract\<close>

text \<open>A bag, in a state that satisfies \<open>ok\<close>, holds the multiset \<open>contents\<close>; items must satisfy
  \<open>item\<close>.  A push adds the item or returns it, a pop takes an item out, fails for a
  transient reason, or finds the bag empty.  \<open>rank\<close> bounds how often a push or a pop can
  fail for a transient reason.\<close>

locale bag_contract =
  fixes B :: "('q, 'a) weak_bag" and ok :: "'q \<Rightarrow> bool" and item :: "'a \<Rightarrow> bool"
    and contents :: "'q \<Rightarrow> 'a multiset" and rank :: "'q \<Rightarrow> nat"
  assumes new_ok: "ok (wb_new B)" "contents (wb_new B) = {#}"
    and push_ok: "ok q \<Longrightarrow> item it \<Longrightarrow> \<exists>q' r. wb_try_push B q it = Some (q', r) \<and> ok q'
      \<and> (r = None \<and> contents q' = add_mset it (contents q)
         \<or> r = Some it \<and> contents q' = contents q \<and> rank q' < rank q)"
    and pop_ok: "ok q \<Longrightarrow> \<exists>q' r. wb_try_pop B q = Some (q', r) \<and> ok q'
      \<and> (case r of Popped it \<Rightarrow> item it \<and> contents q = add_mset it (contents q')
         | PopEmpty \<Rightarrow> contents q = {#} \<and> contents q' = {#}
         | PopTransient \<Rightarrow> contents q' = contents q \<and> rank q' < rank q)"
begin

lemma push_adds:
  "ok q \<Longrightarrow> item it \<Longrightarrow> \<exists>q'. wb_push B q it = Some q' \<and> ok q' \<and> contents q' = add_mset it (contents q)"
proof (induction "rank q" arbitrary: q rule: less_induct)
  case less
  obtain q' r where p: "wb_try_push B q it = Some (q', r)" "ok q'"
    "r = None \<and> contents q' = add_mset it (contents q) \<or> r = Some it \<and> contents q' = contents q \<and> rank q' < rank q"
    using push_ok [OF less.prems] by blast
  show ?case
  proof (cases r)
    case None
    then show ?thesis using p by (simp add: wb_push.simps [of B q it])
  next
    case (Some old)
    then have e: "wb_push B q it = wb_push B q' it" "contents q' = contents q" "rank q' < rank q"
      using p by (simp_all add: wb_push.simps [of B q it])
    then show ?thesis using less.hyps [OF e(3) p(2) less.prems(2)] by simp
  qed
qed

lemma pop_takes:
  "ok q \<Longrightarrow> \<exists>q' r. wb_pop B q = Some (q', r) \<and> ok q'
     \<and> (case r of None \<Rightarrow> contents q = {#} \<and> contents q' = {#}
        | Some it \<Rightarrow> item it \<and> contents q = add_mset it (contents q'))"
proof (induction "rank q" arbitrary: q rule: less_induct)
  case less
  obtain q' r where p: "wb_try_pop B q = Some (q', r)" "ok q'"
    "case r of Popped it \<Rightarrow> item it \<and> contents q = add_mset it (contents q')
         | PopEmpty \<Rightarrow> contents q = {#} \<and> contents q' = {#}
         | PopTransient \<Rightarrow> contents q' = contents q \<and> rank q' < rank q"
    using pop_ok [OF less.prems] by blast
  show ?case
  proof (cases r)
    case PopTransient
    then have e: "wb_pop B q = wb_pop B q'" "contents q' = contents q" "rank q' < rank q"
      using p by (simp_all add: wb_pop.simps [of B q])
    show ?thesis using less.hyps [OF e(3) p(2)] unfolding e(1,2) .
  qed (use p in \<open>simp_all add: wb_pop.simps [of B q]\<close>)
qed

lemma drain_takes_all:
  "ok q \<Longrightarrow> \<exists>q' its. drain_bag B q acc = Some (q', rev acc @ its) \<and> ok q' \<and> contents q' = {#} \<and> mset its = contents q"
proof (induction "size (contents q)" arbitrary: q acc rule: less_induct)
  case less
  obtain q' r where p: "wb_pop B q = Some (q', r)" "ok q'"
    "case r of None \<Rightarrow> contents q = {#} \<and> contents q' = {#} | Some it \<Rightarrow> item it \<and> contents q = add_mset it (contents q')"
    using pop_takes [OF less.prems] by blast
  show ?case
  proof (cases r)
    case None
    then show ?thesis using p by (simp add: drain_bag.simps [of B q])
  next
    case (Some it)
    then have lt: "size (contents q') < size (contents q)" using p(3) by simp
    obtain q'' its where d: "drain_bag B q' (it # acc) = Some (q'', rev (it # acc) @ its)" "ok q''"
      "contents q'' = {#}" "mset its = contents q'"
      using less.hyps [OF lt p(2), of "it # acc"] by blast
    have "drain_bag B q acc = Some (q'', rev acc @ it # its)"
      using p(1) Some d(1) by (simp add: drain_bag.simps [of B q])
    then show ?thesis using d(2-4) p(3) Some by (intro exI [of _ q''] exI [of _ "it # its"]) simp
  qed
qed

lemma cleanup_takes_all:
  "list_all ok qs \<Longrightarrow> \<exists>qs' its. cleanup_all B qs = Some (qs', its) \<and> list_all ok qs'
     \<and> (\<forall>q\<in>set qs'. contents q = {#}) \<and> mset its = sum_list (map contents qs)"
proof (induction qs)
  case (Cons q qs)
  obtain q' its where d: "drain_bag B q [] = Some (q', its)" "ok q'" "contents q' = {#}" "mset its = contents q"
    using drain_takes_all [of q "[]"] Cons.prems by auto
  then show ?case using Cons by auto
qed simp

end

subsection \<open>The fetch-and-add array queue\<close>

definition sentinel :: usize where
  "sentinel = NOT 0"

definition small_seg_size :: nat where
  "small_seg_size = 2 ^ 8"

record faa_node =
  fn_head_index :: nat
  fn_tail_index :: nat
  fn_data :: "usize list"

definition faa_node_empty :: faa_node where
  "faa_node_empty = \<lparr> fn_head_index = 0, fn_tail_index = 0, fn_data = replicate small_seg_size 0 \<rparr>"

definition faa_node_new :: "usize \<Rightarrow> faa_node" where
  "faa_node_new it = faa_node_empty\<lparr> fn_tail_index := 1, fn_data := (fn_data faa_node_empty)[0 := it] \<rparr>"

text \<open>The nodes from the head on, the number of nodes before the head, the place of the tail
  pointer among the nodes, and the revocation handles of the items: the cell (node number and
  index) an item was stored in, or none.\<close>

record faa_queue =
  fq_base :: nat
  fq_nodes :: "faa_node list"
  fq_tail :: nat
  fq_handle :: "usize \<Rightarrow> (nat \<times> nat) option"

definition faa_new :: faa_queue where
  "faa_new = \<lparr> fq_base = 0, fq_nodes = [faa_node_empty], fq_tail = 0, fq_handle = (\<lambda>_. None) \<rparr>"

text \<open>\<open>Node::as_usize\<close> of a pointer.\<close>

definition as_usize :: "usize \<Rightarrow> usize option" where
  "as_usize it = (if it = sentinel \<or> it = 0 then None else Some it)"

text \<open>\<open>F::store\<close>: the handle is kept by revocable queues only.\<close>

definition handle_store :: "bool \<Rightarrow> usize \<Rightarrow> (nat \<times> nat) option \<Rightarrow> faa_queue \<Rightarrow> faa_queue" where
  "handle_store rvk it v q = (if rvk then q\<lparr> fq_handle := (fq_handle q)(it := v) \<rparr> else q)"

function faa_push_loop :: "bool \<Rightarrow> faa_queue \<Rightarrow> usize \<Rightarrow> (faa_queue \<times> usize option) option" where
  "faa_push_loop rvk q it =
     (if fq_tail q < length (fq_nodes q) then
        let t = fq_nodes q ! fq_tail q; ix = fn_tail_index t;
            t1 = t\<lparr> fn_tail_index := ix + 1 \<rparr>; nodes1 = (fq_nodes q)[fq_tail q := t1] in
        if small_seg_size \<le> ix then
          if fq_tail q + 1 < length (fq_nodes q)
          then faa_push_loop rvk (q\<lparr> fq_nodes := nodes1, fq_tail := fq_tail q + 1 \<rparr>) it
          else Some (q\<lparr> fq_nodes := nodes1 @ [faa_node_new it], fq_tail := fq_tail q + 1 \<rparr>, None)
        else
          let q1 = handle_store rvk it (Some (fq_base q + fq_tail q, ix)) (q\<lparr> fq_nodes := nodes1 \<rparr>) in
          if fn_data t ! ix = 0
          then Some (q1\<lparr> fq_nodes := nodes1[fq_tail q := t1\<lparr> fn_data := (fn_data t)[ix := it] \<rparr>] \<rparr>, None)
          else Some (q1, Some it)
      else None)"
  by pat_completeness auto
termination
  by (relation "measure (\<lambda>(rvk, q, it). length (fq_nodes q) - fq_tail q)") auto

declare faa_push_loop.simps [simp del]

definition faa_try_push :: "bool \<Rightarrow> faa_queue \<Rightarrow> usize \<Rightarrow> (faa_queue \<times> usize option) option" where
  "faa_try_push rvk q item = as_usize item \<bind> faa_push_loop rvk q"

function faa_try_pop :: "bool \<Rightarrow> faa_queue \<Rightarrow> (faa_queue \<times> usize pop_result) option" where
  "faa_try_pop rvk q =
     (case fq_nodes q of
        [] \<Rightarrow> None
      | h # rest \<Rightarrow>
          if fn_tail_index h \<le> fn_head_index h \<and> rest = [] then Some (q, PopEmpty)
          else
            let my_ix = fn_head_index h; h1 = h\<lparr> fn_head_index := my_ix + 1 \<rparr> in
            if small_seg_size \<le> my_ix then
              if rest = [] then Some (q\<lparr> fq_nodes := [h1] \<rparr>, PopEmpty)
              else faa_try_pop rvk (q\<lparr> fq_base := fq_base q + 1, fq_nodes := rest, fq_tail := fq_tail q - 1 \<rparr>)
            else
              let res = fn_data h ! my_ix;
                  q1 = q\<lparr> fq_nodes := h1\<lparr> fn_data := (fn_data h)[my_ix := sentinel] \<rparr> # rest \<rparr> in
              if res = 0 \<or> res = sentinel then Some (q1, PopTransient)
              else Some (handle_store rvk res None q1, Popped res))"
  by pat_completeness auto
termination
  by (relation "measure (\<lambda>(rvk, q). length (fq_nodes q))") auto

declare faa_try_pop.simps [simp del]

text \<open>\<open>RevocableWeakBag::revoke\<close>: a compare-and-swap of the cell of the handle; \<open>None\<close> when the
  cell belongs to a node that was reclaimed.\<close>

definition faa_revoke :: "faa_queue \<Rightarrow> usize \<Rightarrow> (faa_queue \<times> bool) option" where
  "faa_revoke q item =
     as_usize item \<bind> (\<lambda>from.
       case fq_handle q item of
         None \<Rightarrow> Some (q, False)
       | Some (n, ix) \<Rightarrow>
           if fq_base q \<le> n \<and> n < fq_base q + length (fq_nodes q) then
             let nd = fq_nodes q ! (n - fq_base q) in
             if fn_data nd ! ix = from
             then Some (q\<lparr> fq_nodes := (fq_nodes q)[n - fq_base q := nd\<lparr> fn_data := (fn_data nd)[ix := sentinel] \<rparr>] \<rparr>, True)
             else Some (q, False)
           else None)"

definition faa_bag :: "bool \<Rightarrow> (faa_queue, usize) weak_bag" where
  "faa_bag rvk = \<lparr> wb_new = faa_new, wb_try_push = faa_try_push rvk, wb_try_pop = faa_try_pop rvk \<rparr>"

subsubsection \<open>It is a queue\<close>

definition valid_item :: "usize \<Rightarrow> bool" where
  "valid_item v \<longleftrightarrow> v \<noteq> 0 \<and> v \<noteq> sentinel"

definition node_items :: "faa_node \<Rightarrow> usize list" where
  "node_items n = filter valid_item (drop (fn_head_index n) (fn_data n))"

definition faa_items :: "faa_queue \<Rightarrow> usize list" where
  "faa_items q = concat (map node_items (fq_nodes q))"

definition node_ok :: "faa_node \<Rightarrow> bool" where
  "node_ok n \<longleftrightarrow> length (fn_data n) = small_seg_size \<and> fn_head_index n \<le> small_seg_size
     \<and> fn_head_index n \<le> fn_tail_index n
     \<and> (\<forall>i < small_seg_size. fn_head_index n \<le> i \<longrightarrow> (fn_data n ! i = 0 \<longleftrightarrow> fn_tail_index n \<le> i))"

definition faa_inv :: "faa_queue \<Rightarrow> bool" where
  "faa_inv q \<longleftrightarrow> (\<exists>ns l. fq_nodes q = ns @ [l] \<and> fq_tail q = length ns \<and> list_all node_ok ns \<and> node_ok l
     \<and> list_all (\<lambda>n. small_seg_size \<le> fn_tail_index n) ns \<and> fn_tail_index l \<le> small_seg_size)"

text \<open>The cells poisoned by revocations that pops have still to skip.\<close>

definition node_poison :: "faa_node \<Rightarrow> nat" where
  "node_poison n = length (filter ((=) sentinel) (drop (fn_head_index n) (fn_data n)))"

definition faa_poison :: "faa_queue \<Rightarrow> nat" where
  "faa_poison q = sum_list (map node_poison (fq_nodes q))"

lemma seg_pos: "0 < small_seg_size"
  by (simp add: small_seg_size_def)

lemma node_empty_ok: "node_ok faa_node_empty" "node_items faa_node_empty = []"
  by (simp_all add: node_ok_def faa_node_empty_def node_items_def valid_item_def)

lemma filter_update_last:
  assumes "k < length xs" "\<And>i. k \<le> i \<Longrightarrow> i < length xs \<Longrightarrow> xs ! i = 0" "P v" "\<not> P 0"
  shows "filter P (xs[k := v]) = filter P xs @ [v]"
proof -
  have z: "filter P (drop (Suc k) xs) = []"
    using assms(2,4) by (auto simp: filter_empty_conv in_set_conv_nth)
  have "xs = take k xs @ xs ! k # drop (Suc k) xs" using assms(1) by (rule id_take_nth_drop)
  moreover have "xs ! k = 0" using assms(1,2) by simp
  ultimately have x: "filter P xs = filter P (take k xs)"
    using z assms(4) by (metis append_Nil2 filter.simps(2) filter_append)
  show ?thesis
    unfolding x upd_conv_take_nth_drop [OF assms(1)] using z assms(3) by simp
qed

lemma filter_update_other:
  assumes "k < length xs" "\<not> P (xs ! k)" "\<not> P v"
  shows "filter P (xs[k := v]) = filter P xs"
proof -
  have "filter P xs = filter P (take k xs @ xs ! k # drop (Suc k) xs)"
    using id_take_nth_drop [OF assms(1)] by (rule arg_cong)
  then show ?thesis
    unfolding upd_conv_take_nth_drop [OF assms(1)] using assms(2,3) by simp
qed

lemma node_push:
  assumes "node_ok n" "fn_tail_index n < small_seg_size" "valid_item it"
  defines "n' \<equiv> n\<lparr> fn_tail_index := fn_tail_index n + 1, fn_data := (fn_data n)[fn_tail_index n := it] \<rparr>"
  shows "fn_data n ! fn_tail_index n = 0" "node_ok n'" "node_items n' = node_items n @ [it]"
    "node_poison n' = node_poison n"
proof -
  let ?h = "fn_head_index n" and ?t = "fn_tail_index n"
  have len: "length (fn_data n) = small_seg_size" and ht: "?h \<le> ?t" using assms(1) by (simp_all add: node_ok_def)
  have z: "fn_data n ! i = 0 \<longleftrightarrow> ?t \<le> i" if "?h \<le> i" "i < small_seg_size" for i
    using assms(1) that by (simp add: node_ok_def)
  show "fn_data n ! ?t = 0" using z ht assms(2) by simp
  show "node_ok n'"
    using assms(1-3) z by (auto simp: node_ok_def n'_def nth_list_update valid_item_def)
  have d: "drop ?h ((fn_data n)[?t := it]) = (drop ?h (fn_data n))[?t - ?h := it]"
    using ht by (simp add: drop_update_swap)
  have z': "drop ?h (fn_data n) ! i = 0" if "?t - ?h \<le> i" "i < length (drop ?h (fn_data n))" for i
    using that z [of "?h + i"] len ht by simp
  have k: "?t - ?h < length (drop ?h (fn_data n))" using assms(2) len ht by simp
  show "node_items n' = node_items n @ [it]"
    using filter_update_last [where P = valid_item, OF k z' assms(3)] by (simp add: node_items_def n'_def d valid_item_def)
  have s0: "drop ?h (fn_data n) ! (?t - ?h) \<noteq> sentinel" using z' [OF order_refl k] by (simp add: sentinel_def)
  define xs where "xs = drop ?h (fn_data n)"
  have "filter ((=) sentinel) (xs[?t - ?h := it]) = filter ((=) sentinel) xs"
    using k s0 assms(3) unfolding xs_def [symmetric] valid_item_def by (intro filter_update_other) auto
  then show "node_poison n' = node_poison n" by (simp add: node_poison_def n'_def d xs_def)
qed

lemma node_pop:
  assumes "node_ok n" "fn_head_index n < small_seg_size" "fn_head_index n < fn_tail_index n"
  defines "v \<equiv> fn_data n ! fn_head_index n"
    and "n' \<equiv> n\<lparr> fn_head_index := fn_head_index n + 1, fn_data := (fn_data n)[fn_head_index n := sentinel] \<rparr>"
  shows "v \<noteq> 0" "node_ok n'" "node_items n = (if valid_item v then [v] else []) @ node_items n'"
    "node_poison n = (if v = sentinel then 1 else 0) + node_poison n'"
proof -
  let ?h = "fn_head_index n"
  have len: "length (fn_data n) = small_seg_size" using assms(1) by (simp add: node_ok_def)
  show "v \<noteq> 0" using assms(1-3) unfolding node_ok_def v_def by (metis le_refl linorder_not_le)
  show "node_ok n'" using assms(1-3) by (auto simp: node_ok_def n'_def nth_list_update)
  have d: "drop ?h (fn_data n) = v # drop (Suc ?h) (fn_data n)"
    using assms(2) len by (simp add: v_def Cons_nth_drop_Suc)
  show "node_items n = (if valid_item v then [v] else []) @ node_items n'"
    by (simp add: node_items_def n'_def d)
  show "node_poison n = (if v = sentinel then 1 else 0) + node_poison n'"
    by (simp add: node_poison_def n'_def d)
qed

lemma faa_invD:
  assumes "faa_inv q"
  obtains ns l where "fq_nodes q = ns @ [l]" "fq_tail q = length ns" "list_all node_ok ns" "node_ok l"
    "list_all (\<lambda>n. small_seg_size \<le> fn_tail_index n) ns" "fn_tail_index l \<le> small_seg_size"
  using assms unfolding faa_inv_def by blast

lemma handle_store_simps [simp]:
  "fq_nodes (handle_store r it v q) = fq_nodes q" "fq_tail (handle_store r it v q) = fq_tail q"
  "fq_base (handle_store r it v q) = fq_base q" "faa_inv (handle_store r it v q) = faa_inv q"
  "faa_items (handle_store r it v q) = faa_items q" "faa_poison (handle_store r it v q) = faa_poison q"
  by (simp_all add: handle_store_def faa_inv_def faa_items_def faa_poison_def)

lemma faa_push_ok:
  assumes inv: "faa_inv q" and it: "valid_item it"
  shows "\<exists>q'. faa_try_push rvk q it = Some (q', None) \<and> faa_inv q' \<and> faa_items q' = faa_items q @ [it]
           \<and> faa_poison q' = faa_poison q"
proof -
  obtain ns l where n: "fq_nodes q = ns @ [l]" "fq_tail q = length ns" "list_all node_ok ns" "node_ok l"
    "list_all (\<lambda>n. small_seg_size \<le> fn_tail_index n) ns" "fn_tail_index l \<le> small_seg_size"
    using faa_invD [OF inv] by blast
  have u: "as_usize it = Some it" using it by (simp add: as_usize_def valid_item_def)
  show ?thesis
  proof (cases "small_seg_size \<le> fn_tail_index l")
    case True
    let ?l = "l\<lparr> fn_tail_index := fn_tail_index l + 1 \<rparr>"
    let ?q = "q\<lparr> fq_nodes := (ns @ [?l]) @ [faa_node_new it], fq_tail := length ns + 1 \<rparr>"
    have e: "faa_try_push rvk q it = Some (?q, None)"
      using True n(1,2) by (simp add: faa_try_push_def u faa_push_loop.simps [of rvk q] Let_def)
    have new: "faa_node_new it = faa_node_empty\<lparr> fn_tail_index := fn_tail_index faa_node_empty + 1,
        fn_data := (fn_data faa_node_empty)[fn_tail_index faa_node_empty := it] \<rparr>"
      by (simp add: faa_node_new_def faa_node_empty_def)
    have f: "node_ok (faa_node_new it)" "node_items (faa_node_new it) = [it]" "node_poison (faa_node_new it) = 0"
      using node_push [OF node_empty_ok(1) _ it] node_empty_ok(2) seg_pos unfolding new
      by (auto simp: faa_node_empty_def node_poison_def sentinel_def)
    have l: "node_ok ?l" "node_items ?l = node_items l" "node_poison ?l = node_poison l"
      using n(4) True by (auto simp: node_ok_def node_items_def node_poison_def)
    have "fn_tail_index (faa_node_new it) \<le> small_seg_size" using seg_pos by (simp add: faa_node_new_def)
    then have "faa_inv ?q"
      unfolding faa_inv_def using n(3,5) l(1) f(1) True by (intro exI [of _ "ns @ [?l]"] exI [of _ "faa_node_new it"]) simp
    then show ?thesis using e f l n(1) by (simp add: faa_items_def faa_poison_def)
  next
    case False
    let ?l = "l\<lparr> fn_tail_index := fn_tail_index l + 1, fn_data := (fn_data l)[fn_tail_index l := it] \<rparr>"
    let ?q = "(handle_store rvk it (Some (fq_base q + length ns, fn_tail_index l))
        (q\<lparr> fq_nodes := ns @ [l\<lparr> fn_tail_index := fn_tail_index l + 1 \<rparr>] \<rparr>))\<lparr> fq_nodes := ns @ [?l] \<rparr>"
    have p: "fn_data l ! fn_tail_index l = 0" "node_ok ?l" "node_items ?l = node_items l @ [it]" "node_poison ?l = node_poison l"
      using node_push [OF n(4) _ it] False by simp_all
    have e: "faa_try_push rvk q it = Some (?q, None)"
      using False n(1,2) p(1) by (simp add: faa_try_push_def u faa_push_loop.simps [of rvk q] Let_def)
    have "faa_inv ?q"
      unfolding faa_inv_def using n(2,3,5) p(2) False by (intro exI [of _ ns] exI [of _ ?l]) simp
    then show ?thesis using e p n(1) by (simp add: faa_items_def faa_poison_def)
  qed
qed

lemma faa_items_Cons: "fq_nodes q = n # ns \<Longrightarrow> faa_items q = node_items n @ concat (map node_items ns)"
  by (simp add: faa_items_def)

text \<open>The state after a pop took cell \<open>fn_head_index n\<close> of the head node.\<close>

lemma faa_inv_head:
  assumes "faa_inv q" "fq_nodes q = n # ns" "node_ok n'" "fn_tail_index n' = fn_tail_index n"
  shows "faa_inv (q\<lparr> fq_nodes := n' # ns \<rparr>)"
proof -
  obtain ms l where m: "fq_nodes q = ms @ [l]" "fq_tail q = length ms" "list_all node_ok ms" "node_ok l"
    "list_all (\<lambda>n. small_seg_size \<le> fn_tail_index n) ms" "fn_tail_index l \<le> small_seg_size"
    using faa_invD [OF assms(1)] by blast
  show ?thesis
  proof (cases ms)
    case Nil
    then have "l = n" "ns = []" using m(1) assms(2) by simp_all
    then show ?thesis unfolding faa_inv_def using assms(3,4) m(2,6) Nil
      by (intro exI [of _ "[]"] exI [of _ n']) simp
  next
    case (Cons a as)
    then have "a = n" "ns = as @ [l]" using m(1) assms(2) by simp_all
    then show ?thesis unfolding faa_inv_def using assms(3,4) m Cons
      by (intro exI [of _ "n' # as"] exI [of _ l]) simp
  qed
qed

lemma faa_inv_next:
  assumes "faa_inv q" "fq_nodes q = n # ns" "ns \<noteq> []"
  shows "faa_inv (q\<lparr> fq_base := fq_base q + 1, fq_nodes := ns, fq_tail := fq_tail q - 1 \<rparr>)"
    "small_seg_size \<le> fn_tail_index n"
proof -
  obtain ms l where m: "fq_nodes q = ms @ [l]" "fq_tail q = length ms" "list_all node_ok ms" "node_ok l"
    "list_all (\<lambda>n. small_seg_size \<le> fn_tail_index n) ms" "fn_tail_index l \<le> small_seg_size"
    using faa_invD [OF assms(1)] by blast
  obtain as where as: "ms = n # as" "ns = as @ [l]" using m(1) assms(2,3) by (cases ms) auto
  show "small_seg_size \<le> fn_tail_index n" using m(5) as(1) by simp
  show "faa_inv (q\<lparr> fq_base := fq_base q + 1, fq_nodes := ns, fq_tail := fq_tail q - 1 \<rparr>)"
    unfolding faa_inv_def using m as by (intro exI [of _ as] exI [of _ l]) simp
qed

lemma faa_inv_first: "faa_inv q \<Longrightarrow> fq_nodes q = n # ns \<Longrightarrow> node_ok n"
  by (auto simp: faa_inv_def Cons_eq_append_conv)

lemma faa_pop_ok:
  "faa_inv q \<Longrightarrow> \<exists>q' r. faa_try_pop rvk q = Some (q', r) \<and> faa_inv q'
     \<and> (case r of Popped it \<Rightarrow> valid_item it \<and> faa_items q = it # faa_items q' \<and> faa_poison q' = faa_poison q
        | PopEmpty \<Rightarrow> faa_items q = [] \<and> faa_items q' = []
        | PopTransient \<Rightarrow> faa_items q' = faa_items q \<and> faa_poison q = Suc (faa_poison q'))"
proof (induction rvk q rule: faa_try_pop.induct)
  case (1 rvk q)
  note inv = "1.prems"
  obtain n ns where q: "fq_nodes q = n # ns" using faa_invD [OF inv] by (metis append_is_Nil_conv neq_Nil_conv)
  have ok: "node_ok n" using faa_inv_first [OF inv q] .
  let ?h = "fn_head_index n" and ?t = "fn_tail_index n"
  show ?case
  proof (cases "?t \<le> ?h \<and> ns = []")
    case True
    have "\<not> valid_item v" if v: "v \<in> set (drop ?h (fn_data n))" for v
    proof -
      obtain i where i: "i < length (fn_data n) - ?h" "v = fn_data n ! (?h + i)"
        using v by (auto simp: in_set_conv_nth)
      then have "?h + i < small_seg_size" "?t \<le> ?h + i" using ok True by (auto simp: node_ok_def)
      then have "v = 0" using ok i(2) by (simp add: node_ok_def)
      then show ?thesis by (simp add: valid_item_def)
    qed
    then have "faa_items q = []" using True q by (simp add: faa_items_def node_items_def filter_empty_conv)
    then show ?thesis using inv True q by (simp add: faa_try_pop.simps [of rvk q])
  next
    case ne: False
    show ?thesis
    proof (cases "small_seg_size \<le> ?h")
      case True
      have ns: "ns \<noteq> []"
      proof
        assume "ns = []"
        then have "?t \<le> small_seg_size" using inv q by (auto simp: faa_inv_def)
        then show False using True ne \<open>ns = []\<close> by simp
      qed
      let ?q = "q\<lparr> fq_base := fq_base q + 1, fq_nodes := ns, fq_tail := fq_tail q - 1 \<rparr>"
      have e: "faa_try_pop rvk q = faa_try_pop rvk ?q" using q ns ne True by (simp add: faa_try_pop.simps [of rvk q] Let_def)
      have "drop ?h (fn_data n) = []" using True ok by (simp add: node_ok_def)
      then have it: "faa_items q = faa_items ?q" "faa_poison q = faa_poison ?q"
        using q by (simp_all add: faa_items_def node_items_def faa_poison_def node_poison_def)
      show ?thesis
        unfolding e it using "1.IH" [OF q ne refl refl True ns faa_inv_next(1) [OF inv q ns]] .
    next
      case False
      have ht: "?h < ?t" using ne False faa_inv_next(2) [OF inv q] by (cases "ns = []") auto
      let ?v = "fn_data n ! ?h"
      let ?n = "n\<lparr> fn_head_index := ?h + 1, fn_data := (fn_data n)[?h := sentinel] \<rparr>"
      have p: "?v \<noteq> 0" "node_ok ?n" "node_items n = (if valid_item ?v then [?v] else []) @ node_items ?n"
        "node_poison n = (if ?v = sentinel then 1 else 0) + node_poison ?n"
        using node_pop [OF ok _ ht] False by simp_all
      let ?q = "q\<lparr> fq_nodes := ?n # ns \<rparr>"
      have inv': "faa_inv ?q" using faa_inv_head [OF inv q p(2)] by simp
      have e: "faa_try_pop rvk q = (if ?v = sentinel then Some (?q, PopTransient)
          else Some (handle_store rvk ?v None ?q, Popped ?v))"
        using q ne False p(1) by (simp add: faa_try_pop.simps [of rvk q] Let_def)
      have it: "faa_items ?q = node_items ?n @ concat (map node_items ns)" "faa_items q = node_items n @ concat (map node_items ns)"
        "faa_poison ?q = node_poison ?n + sum_list (map node_poison ns)" "faa_poison q = node_poison n + sum_list (map node_poison ns)"
        using q by (simp_all add: faa_items_def faa_poison_def)
      show ?thesis using e inv' p(1,3,4) it by (cases "?v = sentinel") (simp_all add: valid_item_def)
    qed
  qed
qed

lemma faa_new_ok: "faa_inv faa_new" "faa_items faa_new = []"
  using node_empty_ok
  by (auto simp: faa_inv_def faa_new_def faa_items_def faa_node_empty_def intro!: exI [of _ "[]"])

interpretation faa: bag_contract "faa_bag rvk" faa_inv valid_item "\<lambda>q. mset (faa_items q)" faa_poison
proof unfold_locales
  show "faa_inv (wb_new (faa_bag rvk))" "mset (faa_items (wb_new (faa_bag rvk))) = {#}"
    using faa_new_ok by (simp_all add: faa_bag_def)
next
  fix q it assume "faa_inv q" "valid_item it"
  then show "\<exists>q' r. wb_try_push (faa_bag rvk) q it = Some (q', r) \<and> faa_inv q'
      \<and> (r = None \<and> mset (faa_items q') = add_mset it (mset (faa_items q))
         \<or> r = Some it \<and> mset (faa_items q') = mset (faa_items q) \<and> faa_poison q' < faa_poison q)"
    using faa_push_ok [of q it rvk] by (auto simp: faa_bag_def)
next
  fix q assume "faa_inv q"
  then show "\<exists>q' r. wb_try_pop (faa_bag rvk) q = Some (q', r) \<and> faa_inv q'
      \<and> (case r of Popped it \<Rightarrow> valid_item it \<and> mset (faa_items q) = add_mset it (mset (faa_items q'))
         | PopEmpty \<Rightarrow> mset (faa_items q) = {#} \<and> mset (faa_items q') = {#}
         | PopTransient \<Rightarrow> mset (faa_items q') = mset (faa_items q) \<and> faa_poison q' < faa_poison q)"
    using faa_pop_ok [of q rvk] by (fastforce simp: faa_bag_def split: pop_result.splits)
qed

subsubsection \<open>Revocation\<close>

text \<open>The handle of the item points to a cell that still holds it.\<close>

definition handle_points :: "faa_queue \<Rightarrow> usize \<Rightarrow> bool" where
  "handle_points q it \<longleftrightarrow> (\<exists>i ix. fq_handle q it = Some (fq_base q + i, ix) \<and> i < length (fq_nodes q)
     \<and> fn_head_index (fq_nodes q ! i) \<le> ix \<and> ix < small_seg_size \<and> fn_data (fq_nodes q ! i) ! ix = it)"

lemma mset_filter_clear:
  assumes "k < length xs" "P (xs ! k)" "\<not> P v"
  shows "mset (filter P xs) = add_mset (xs ! k) (mset (filter P (xs[k := v])))"
proof -
  have "filter P xs = filter P (take k xs @ xs ! k # drop (Suc k) xs)"
    using id_take_nth_drop [OF assms(1)] by (rule arg_cong)
  then show ?thesis
    unfolding upd_conv_take_nth_drop [OF assms(1)] using assms(2,3) by simp
qed

lemma node_revoke:
  assumes "node_ok n" "fn_head_index n \<le> ix" "ix < small_seg_size" "valid_item (fn_data n ! ix)"
  defines "n' \<equiv> n\<lparr> fn_data := (fn_data n)[ix := sentinel] \<rparr>"
  shows "node_ok n'" "mset (node_items n) = add_mset (fn_data n ! ix) (mset (node_items n'))"
proof -
  let ?h = "fn_head_index n"
  have len: "length (fn_data n) = small_seg_size" using assms(1) by (simp add: node_ok_def)
  have "fn_data n ! ix = 0 \<longleftrightarrow> fn_tail_index n \<le> ix" using assms(1-3) by (simp add: node_ok_def)
  then show "node_ok n'"
    using assms(1,3,4) by (auto simp: node_ok_def n'_def nth_list_update valid_item_def sentinel_def)
  have d: "drop ?h ((fn_data n)[ix := sentinel]) = (drop ?h (fn_data n))[ix - ?h := sentinel]"
    using assms(2) by (simp add: drop_update_swap)
  have x: "drop ?h (fn_data n) ! (ix - ?h) = fn_data n ! ix" using assms(2,3) len by simp
  have "ix - ?h < length (drop ?h (fn_data n))" using assms(2,3) len by simp
  from mset_filter_clear [where P = valid_item, OF this, of sentinel]
  show "mset (node_items n) = add_mset (fn_data n ! ix) (mset (node_items n'))"
    unfolding x using assms(4) by (simp add: node_items_def n'_def d valid_item_def)
qed

lemma faa_inv_update:
  assumes "faa_inv q" "i < length (fq_nodes q)" "node_ok n'" "fn_tail_index n' = fn_tail_index (fq_nodes q ! i)"
  shows "faa_inv (q\<lparr> fq_nodes := (fq_nodes q)[i := n'] \<rparr>)"
proof -
  obtain ns l where n: "fq_nodes q = ns @ [l]" "fq_tail q = length ns" "list_all node_ok ns" "node_ok l"
    "list_all (\<lambda>n. small_seg_size \<le> fn_tail_index n) ns" "fn_tail_index l \<le> small_seg_size"
    using faa_invD [OF assms(1)] by blast
  show ?thesis
  proof (cases "i < length ns")
    case True
    then have "list_all node_ok (ns[i := n'])" "list_all (\<lambda>n. small_seg_size \<le> fn_tail_index n) (ns[i := n'])"
      using n assms(3,4) by (auto simp: list_all_length nth_list_update nth_append)
    then show ?thesis unfolding faa_inv_def
      using n True by (intro exI [of _ "ns[i := n']"] exI [of _ l]) (simp add: list_update_append)
  next
    case False
    then have "i = length ns" using assms(2) n(1) by simp
    then show ?thesis unfolding faa_inv_def
      using n assms(3,4) by (intro exI [of _ ns] exI [of _ n']) simp
  qed
qed

lemma mset_concat_update:
  assumes "i < length xs"
  shows "mset (concat (map f (xs[i := y]))) + mset (f (xs ! i)) = mset (concat (map f xs)) + mset (f y)"
proof -
  have "concat (map f xs) = concat (map f (take i xs @ xs ! i # drop (Suc i) xs))"
    using id_take_nth_drop [OF assms] by (rule arg_cong)
  then show ?thesis unfolding upd_conv_take_nth_drop [OF assms] by (simp add: ac_simps)
qed

lemma faa_revoke_ok:
  assumes inv: "faa_inv q" and it: "valid_item it" and pt: "handle_points q it"
  shows "\<exists>q'. faa_revoke q it = Some (q', True) \<and> faa_inv q'
           \<and> mset (faa_items q) = add_mset it (mset (faa_items q'))"
proof -
  obtain i ix where h: "fq_handle q it = Some (fq_base q + i, ix)" "i < length (fq_nodes q)"
    "fn_head_index (fq_nodes q ! i) \<le> ix" "ix < small_seg_size" "fn_data (fq_nodes q ! i) ! ix = it"
    using pt unfolding handle_points_def by blast
  let ?n = "fq_nodes q ! i"
  let ?n' = "?n\<lparr> fn_data := (fn_data ?n)[ix := sentinel] \<rparr>"
  let ?q = "q\<lparr> fq_nodes := (fq_nodes q)[i := ?n'] \<rparr>"
  have "list_all node_ok (fq_nodes q)" using inv by (auto simp: faa_inv_def)
  then have ok: "node_ok ?n" using h(2) by (simp add: list_all_length)
  have r: "node_ok ?n'" "mset (node_items ?n) = add_mset it (mset (node_items ?n'))"
    using node_revoke [OF ok h(3,4)] it h(5) by simp_all
  have "mset (faa_items ?q) + add_mset it (mset (node_items ?n')) = mset (faa_items q) + mset (node_items ?n')"
    using mset_concat_update [OF h(2), of node_items ?n'] r(2) by (simp add: faa_items_def)
  then have m: "mset (faa_items q) = add_mset it (mset (faa_items ?q))" by simp
  have "as_usize it = Some it" using it by (simp add: as_usize_def valid_item_def)
  then have "faa_revoke q it = Some (?q, True)"
    using h by (simp add: faa_revoke_def Let_def)
  then show ?thesis using faa_inv_update [OF inv h(2) r(1)] m by simp
qed

text \<open>A push into the tail node leaves a handle that points to the cell; a push that starts
  a new node leaves the handle as it was.\<close>

lemma faa_push_handle:
  assumes "faa_inv q" "valid_item it" "fn_tail_index (last (fq_nodes q)) < small_seg_size"
  shows "\<exists>q'. faa_try_push True q it = Some (q', None) \<and> handle_points q' it"
proof -
  obtain ns l where n: "fq_nodes q = ns @ [l]" "fq_tail q = length ns" "node_ok l"
    using faa_invD [OF assms(1)] by blast
  let ?l = "l\<lparr> fn_tail_index := fn_tail_index l + 1, fn_data := (fn_data l)[fn_tail_index l := it] \<rparr>"
  have lt: "fn_tail_index l < small_seg_size" using assms(3) n(1) by simp
  have u: "as_usize it = Some it" using assms(2) by (simp add: as_usize_def valid_item_def)
  have p: "fn_data l ! fn_tail_index l = 0" using node_push(1) [OF n(3) lt assms(2)] .
  have len: "length (fn_data l) = small_seg_size" "fn_head_index l \<le> fn_tail_index l"
    using n(3) by (simp_all add: node_ok_def)
  show ?thesis
    using n(1,2) lt p u len
    by (auto simp: faa_try_push_def faa_push_loop.simps [of True q] Let_def handle_store_def handle_points_def)
qed

lemma faa_push_new_node:
  assumes "faa_inv q" "valid_item it" "fn_tail_index (last (fq_nodes q)) = small_seg_size"
  shows "\<exists>q'. faa_try_push True q it = Some (q', None) \<and> fq_handle q' = fq_handle q"
proof -
  obtain ns l where n: "fq_nodes q = ns @ [l]" "fq_tail q = length ns"
    using faa_invD [OF assms(1)] by blast
  have u: "as_usize it = Some it" using assms(2) by (simp add: as_usize_def valid_item_def)
  show ?thesis
    using n assms(3) u by (auto simp: faa_try_push_def faa_push_loop.simps [of True q] Let_def)
qed

subsection \<open>The queue of Yang and Crummey\<close>

text \<open>The infinite array of cells, which the source lays out in linked segments, and the two
  indices.  The emptiness check is the feature \<open>check_empty_yq\<close>, on by default.\<close>

record yc_queue =
  yq_head_index :: nat
  yq_tail_index :: nat
  yq_cells :: "nat \<Rightarrow> usize"

definition yc_new :: yc_queue where
  "yc_new = \<lparr> yq_head_index = 0, yq_tail_index = 0, yq_cells = (\<lambda>_. 0) \<rparr>"

definition yc_is_empty :: "yc_queue \<Rightarrow> bool" where
  "yc_is_empty q \<longleftrightarrow> yq_tail_index q \<le> yq_head_index q"

definition yc_try_push :: "yc_queue \<Rightarrow> usize \<Rightarrow> (yc_queue \<times> usize option) option" where
  "yc_try_push q t =
     as_usize t \<bind> (\<lambda>u.
       let ix = yq_tail_index q; res = yq_cells q ix;
           q' = q\<lparr> yq_tail_index := ix + 1, yq_cells := (yq_cells q)(ix := u) \<rparr> in
       if \<not> (res = 0 \<or> res = sentinel) then None
       else Some (q', if res = 0 then None else Some t))"

definition yc_try_pop :: "bool \<Rightarrow> yc_queue \<Rightarrow> (yc_queue \<times> usize pop_result) option" where
  "yc_try_pop check q =
     (if check \<and> yc_is_empty q then Some (q, PopEmpty)
      else
        let ix = yq_head_index q; res = yq_cells q ix;
            q' = q\<lparr> yq_head_index := ix + 1, yq_cells := (yq_cells q)(ix := sentinel) \<rparr> in
        if res = sentinel then None
        else if res = 0 then Some (q', if yq_tail_index q' < ix then PopEmpty else PopTransient)
        else Some (q', Popped res))"

definition yc_bag :: "(yc_queue, usize) weak_bag" where
  "yc_bag = \<lparr> wb_new = yc_new, wb_try_push = yc_try_push, wb_try_pop = yc_try_pop True \<rparr>"

definition yc_inv :: "yc_queue \<Rightarrow> bool" where
  "yc_inv q \<longleftrightarrow> yq_head_index q \<le> yq_tail_index q \<and> (\<forall>i\<ge>yq_tail_index q. yq_cells q i = 0)
     \<and> (\<forall>i. yq_head_index q \<le> i \<and> i < yq_tail_index q \<longrightarrow> valid_item (yq_cells q i))"

definition yc_items :: "yc_queue \<Rightarrow> usize list" where
  "yc_items q = map (yq_cells q) [yq_head_index q..<yq_tail_index q]"

lemma yc_push_ok:
  assumes "yc_inv q" "valid_item t"
  shows "\<exists>q'. yc_try_push q t = Some (q', None) \<and> yc_inv q' \<and> yc_items q' = yc_items q @ [t]"
proof -
  have "as_usize t = Some t" using assms(2) by (simp add: as_usize_def valid_item_def)
  then show ?thesis using assms by (auto simp: yc_try_push_def yc_inv_def yc_items_def Let_def)
qed

lemma yc_pop_ok:
  assumes "yc_inv q"
  shows "\<exists>q'. yc_inv q' \<and> (case yc_items q of
      [] \<Rightarrow> yc_try_pop True q = Some (q', PopEmpty) \<and> yc_items q' = []
    | it # its \<Rightarrow> valid_item it \<and> yc_try_pop True q = Some (q', Popped it) \<and> yc_items q' = its)"
proof (cases "yq_head_index q < yq_tail_index q")
  case True
  then have "yc_items q = yq_cells q (yq_head_index q) # map (yq_cells q) [Suc (yq_head_index q)..<yq_tail_index q]"
    by (simp add: yc_items_def upt_conv_Cons)
  moreover have "valid_item (yq_cells q (yq_head_index q))" using assms True by (simp add: yc_inv_def)
  ultimately show ?thesis
    using assms True by (auto simp: yc_try_pop_def yc_is_empty_def yc_inv_def yc_items_def valid_item_def Let_def)
next
  case False
  then show ?thesis using assms by (auto simp: yc_try_pop_def yc_is_empty_def yc_items_def)
qed

interpretation yc: bag_contract yc_bag yc_inv valid_item "\<lambda>q. mset (yc_items q)" "\<lambda>_. 0"
proof unfold_locales
  show "yc_inv (wb_new yc_bag)" "mset (yc_items (wb_new yc_bag)) = {#}"
    by (simp_all add: yc_bag_def yc_new_def yc_inv_def yc_items_def)
next
  fix q it assume "yc_inv q" "valid_item it"
  then show "\<exists>q' r. wb_try_push yc_bag q it = Some (q', r) \<and> yc_inv q'
      \<and> (r = None \<and> mset (yc_items q') = add_mset it (mset (yc_items q))
         \<or> r = Some it \<and> mset (yc_items q') = mset (yc_items q) \<and> (0 :: nat) < 0)"
    using yc_push_ok [of q it] by (auto simp: yc_bag_def)
next
  fix q assume "yc_inv q"
  then show "\<exists>q' r. wb_try_pop yc_bag q = Some (q', r) \<and> yc_inv q'
      \<and> (case r of Popped it \<Rightarrow> valid_item it \<and> mset (yc_items q) = add_mset it (mset (yc_items q'))
         | PopEmpty \<Rightarrow> mset (yc_items q) = {#} \<and> mset (yc_items q') = {#}
         | PopTransient \<Rightarrow> mset (yc_items q') = mset (yc_items q) \<and> (0 :: nat) < 0)"
    using yc_pop_ok [of q] by (cases "yc_items q") (fastforce simp: yc_bag_def)+
qed

end
