(* ===== verification/Bag_Pipe.thy ===== *)
theory Bag_Pipe
  imports Bag_Queue
begin

text \<open>
  The \<open>BagPipe\<close> of \<open>src/bagpipe/src/lib.rs\<close>: a bag that spreads its items over a power of
  two of other bags.  A handle visits them in a schedule given by an offset and an odd
  stride, and keeps the difference it made to the size until it is worth adding to one
  of four shared counters.  The underlying bags are a parameter, the record of
  \<open>Bag_Queue\<close>; the lemmas are proved once from its contract, in the locale
  \<open>bag_contract\<close>, and hold for both queues.
\<close>

subsection \<open>State\<close>

definition threshold_diff :: int where
  "threshold_diff = 4"

definition n_counters :: nat where
  "n_counters = 4"

text \<open>The shared \<open>BagPipeState\<close>, and the part of \<open>BagPipe\<close> each handle owns.  The offset and the two
  counts of failures grow by one stride or by one with each failed attempt; they are natural
  numbers, so that what happens after \<open>2^64\<close> failures is not modelled.\<close>

record 'q pipe_state =
  ps_all_refs :: nat
  ps_counters :: "int list"
  ps_pipes :: "'q list"

record pipe_handle =
  ph_offset :: nat
  ph_stride :: nat
  ph_push_failures :: nat
  ph_pop_failures :: nat
  ph_cur_diff :: int

definition ps_new_size :: "('q, 'a) weak_bag \<Rightarrow> nat \<Rightarrow> 'q pipe_state" where
  "ps_new_size B sz = \<lparr> ps_all_refs = 1, ps_counters = replicate n_counters 0,
     ps_pipes = replicate (next_power_of_two sz) (wb_new B) \<rparr>"

definition pipe_new_size :: "('q, 'a) weak_bag \<Rightarrow> nat \<Rightarrow> ('q pipe_state \<times> pipe_handle) option" where
  "pipe_new_size B sz =
     (if 0 < sz then Some (ps_new_size B sz, \<lparr> ph_offset = 1, ph_stride = 1, ph_push_failures = 0,
        ph_pop_failures = 0, ph_cur_diff = 0 \<rparr>) else None)"

text \<open>\<open>clone\<close>: a new handle with a stride of its own.\<close>

definition pipe_clone :: "'q pipe_state \<Rightarrow> 'q pipe_state \<times> pipe_handle" where
  "pipe_clone st =
     (let seed = ps_all_refs st + 1; offset = seed * 2 + 1 in
      (st\<lparr> ps_all_refs := ps_all_refs st + 1 \<rparr>,
       \<lparr> ph_offset = offset AND (length (ps_pipes st) - 1), ph_stride = offset,
         ph_push_failures = 0, ph_pop_failures = 0, ph_cur_diff = 0 \<rparr>))"

subsection \<open>The size estimate\<close>

definition push_diff :: "'q pipe_state \<Rightarrow> pipe_handle \<Rightarrow> 'q pipe_state" where
  "push_diff st h =
     (let i = ph_offset h mod n_counters in
      st\<lparr> ps_counters := (ps_counters st)[i := ps_counters st ! i + ph_cur_diff h] \<rparr>)"

definition propagate_diff :: "'q pipe_state \<Rightarrow> pipe_handle \<Rightarrow> int \<Rightarrow> 'q pipe_state \<times> pipe_handle" where
  "propagate_diff st h d =
     (let h1 = h\<lparr> ph_cur_diff := ph_cur_diff h + d \<rparr> in
      if threshold_diff \<le> ph_cur_diff h1 \<or> ph_cur_diff h1 \<le> - threshold_diff
      then (push_diff st h1, h1\<lparr> ph_cur_diff := 0 \<rparr>) else (st, h1))"

definition size_guess :: "'q pipe_state \<Rightarrow> int" where
  "size_guess st = max 0 (sum_list (ps_counters st))"

definition pipe_drop :: "'q pipe_state \<Rightarrow> pipe_handle \<Rightarrow> 'q pipe_state" where
  "pipe_drop st h = (if ph_cur_diff h \<noteq> 0 then push_diff st h else st)"

subsection \<open>The schedules\<close>

text \<open>\<open>try_push_internal\<close>, from index \<open>ix\<close> with \<open>remaining\<close> attempts: \<open>Inl\<close> tells whether an
  attempt succeeded before the last, \<open>Inr\<close> returns the item.\<close>

fun push_sched :: "('q, 'a) weak_bag \<Rightarrow> 'q list \<Rightarrow> 'a \<Rightarrow> nat \<Rightarrow> nat \<Rightarrow> nat \<Rightarrow> bool
    \<Rightarrow> ('q list \<times> (bool + 'a)) option" where
  "push_sched B ps it ix stride 0 fin = Some (ps, Inr it)"
| "push_sched B ps it ix stride (Suc remaining) fin =
     (let i = ix AND (length ps - 1) in
      if fin \<and> remaining = 0
      then wb_push B (ps ! i) it \<bind> (\<lambda>q. Some (ps[i := q], Inl False))
      else wb_try_push B (ps ! i) it \<bind> (\<lambda>(q, r).
        case r of None \<Rightarrow> Some (ps[i := q], Inl True)
        | Some item \<Rightarrow> push_sched B (ps[i := q]) item (i + stride) stride remaining fin))"

definition try_push_internal :: "('q, 'a) weak_bag \<Rightarrow> 'q pipe_state \<Rightarrow> 'a \<Rightarrow> nat \<Rightarrow> nat \<Rightarrow> nat \<Rightarrow> bool
    \<Rightarrow> ('q pipe_state \<times> (bool + 'a)) option" where
  "try_push_internal B st it off stride max_failures succeed_final =
     (if is_power_of_two (length (ps_pipes st)) then
        push_sched B (ps_pipes st) it off stride max_failures succeed_final
        \<bind> (\<lambda>(ps, r). Some (st\<lparr> ps_pipes := ps \<rparr>, r))
      else None)"

text \<open>\<open>try_pop_internal\<close>: \<open>seen\<close> holds the indices of the bags found empty, for the debug
  assertion that an empty result has visited them all.\<close>

fun pop_sched :: "('q, 'a) weak_bag \<Rightarrow> 'q list \<Rightarrow> nat \<Rightarrow> nat \<Rightarrow> nat \<Rightarrow> nat \<Rightarrow> nat list
    \<Rightarrow> ('q list \<times> 'a pop_result) option" where
  "pop_sched B ps ix stride 0 empties seen = None"
| "pop_sched B ps ix stride (Suc remaining) empties seen =
     (let i = ix AND (length ps - 1) in
      wb_try_pop B (ps ! i) \<bind> (\<lambda>(q, r).
        let ps' = ps[i := q];
            empties' = (case r of PopEmpty \<Rightarrow> empties + 1 | _ \<Rightarrow> 0);
            seen' = (case r of PopEmpty \<Rightarrow> seen @ [i] | _ \<Rightarrow> seen) in
        case r of Popped it \<Rightarrow> Some (ps', Popped it)
        | _ \<Rightarrow>
          if remaining = 0 then Some (ps', PopTransient)
          else if empties' = length ps then
            if sort (remdups seen') = [0..<length ps] then Some (ps', PopEmpty) else None
          else pop_sched B ps' (i + stride) stride remaining empties' seen'))"

definition try_pop_internal :: "('q, 'a) weak_bag \<Rightarrow> 'q pipe_state \<Rightarrow> nat \<Rightarrow> nat \<Rightarrow> nat
    \<Rightarrow> ('q pipe_state \<times> 'a pop_result) option" where
  "try_pop_internal B st off stride max_failures =
     (if is_power_of_two (length (ps_pipes st)) then
        pop_sched B (ps_pipes st) off stride max_failures 0 []
        \<bind> (\<lambda>(ps, r). Some (st\<lparr> ps_pipes := ps \<rparr>, r))
      else None)"

subsection \<open>The operations of a handle\<close>

definition try_push_mut :: "('q, 'a) weak_bag \<Rightarrow> 'q pipe_state \<Rightarrow> pipe_handle \<Rightarrow> 'a
    \<Rightarrow> ('q pipe_state \<times> pipe_handle \<times> 'a option) option" where
  "try_push_mut B st h it =
     try_push_internal B st it (ph_offset h) (ph_stride h) (ph_push_failures h + 1) False
     \<bind> (\<lambda>(st', r). case r of
         Inl _ \<Rightarrow> let (st'', h') = propagate_diff st' (h\<lparr> ph_push_failures := ph_push_failures h div 2 \<rparr>) 1
                  in Some (st'', h', None)
       | Inr item \<Rightarrow> Some (st', h\<lparr> ph_offset := ph_offset h + ph_stride h,
                                ph_push_failures := ph_push_failures h + 1 \<rparr>, Some item))"

definition try_pop_mut :: "('q, 'a) weak_bag \<Rightarrow> 'q pipe_state \<Rightarrow> pipe_handle
    \<Rightarrow> ('q pipe_state \<times> pipe_handle \<times> 'a pop_result) option" where
  "try_pop_mut B st h =
     try_pop_internal B st (ph_offset h) (ph_stride h) (ph_pop_failures h * 2 + 1)
     \<bind> (\<lambda>(st', r). case r of
         PopTransient \<Rightarrow> Some (st', h\<lparr> ph_offset := ph_offset h + ph_stride h,
                                    ph_pop_failures := ph_pop_failures h + 1 \<rparr>, PopTransient)
       | PopEmpty \<Rightarrow> Some (st', h\<lparr> ph_pop_failures := ph_pop_failures h div 2 \<rparr>, PopEmpty)
       | Popped item \<Rightarrow> let (st'', h') = propagate_diff st' (h\<lparr> ph_pop_failures := ph_pop_failures h div 2 \<rparr>) (- 1)
                        in Some (st'', h', Popped item))"

text \<open>\<open>None\<close> is the \<open>unreachable!()\<close> of a push that must succeed.\<close>

definition push_mut :: "('q, 'a) weak_bag \<Rightarrow> 'q pipe_state \<Rightarrow> pipe_handle \<Rightarrow> 'a
    \<Rightarrow> ('q pipe_state \<times> pipe_handle) option" where
  "push_mut B st h it =
     try_push_mut B st h it \<bind> (\<lambda>(st1, h1, r). case r of
         None \<Rightarrow> Some (st1, h1)
       | Some item \<Rightarrow>
           try_push_internal B st1 item (ph_offset h1) (ph_stride h1) (ph_push_failures h1 + 1) True
           \<bind> (\<lambda>(st2, r2). case r2 of
               Inl True \<Rightarrow> Some (propagate_diff st2 (h1\<lparr> ph_push_failures := ph_push_failures h1 div 2 \<rparr>) 1)
             | Inl False \<Rightarrow> Some (propagate_diff st2 (h1\<lparr> ph_offset := ph_offset h1 + ph_stride h1,
                              ph_push_failures := ph_push_failures h1 + 1 \<rparr>) 1)
             | Inr _ \<Rightarrow> None))"

text \<open>\<open>bulk_add\<close>: each item is offered to the bags of the schedule until one takes it.\<close>

partial_function (option) bulk_one :: "('q, 'a) weak_bag \<Rightarrow> nat \<Rightarrow> 'q list \<Rightarrow> nat \<Rightarrow> 'a \<Rightarrow> ('q list \<times> nat) option" where
  "bulk_one B stride ps cur_index it =
     wb_try_push B (ps ! (cur_index AND (length ps - 1))) it \<bind> (\<lambda>(q, r).
       case r of
         None \<Rightarrow> Some (ps[cur_index AND (length ps - 1) := q], (cur_index AND (length ps - 1)) + stride)
       | Some old_item \<Rightarrow>
           bulk_one B stride (ps[cur_index AND (length ps - 1) := q]) ((cur_index AND (length ps - 1)) + stride) old_item)"

fun bulk_loop :: "('q, 'a) weak_bag \<Rightarrow> nat \<Rightarrow> 'q list \<Rightarrow> nat \<Rightarrow> 'a list \<Rightarrow> 'q list option" where
  "bulk_loop B stride ps cur_index [] = Some ps"
| "bulk_loop B stride ps cur_index (it # its) =
     bulk_one B stride ps cur_index it \<bind> (\<lambda>(ps', cur'). bulk_loop B stride ps' cur' its)"

definition bulk_add :: "('q, 'a) weak_bag \<Rightarrow> 'q pipe_state \<Rightarrow> pipe_handle \<Rightarrow> 'a list
    \<Rightarrow> ('q pipe_state \<times> pipe_handle) option" where
  "bulk_add B st h its =
     bulk_loop B (ph_stride h) (ps_pipes st) (ph_offset h) its \<bind> (\<lambda>ps.
       Some (propagate_diff (st\<lparr> ps_pipes := ps \<rparr>) h (int (length its))))"

subsection \<open>The schedule visits every bag\<close>

lemma nat_and_pow2: "is_power_of_two len \<Longrightarrow> ix AND (len - 1) = ix mod len" for ix :: nat
proof -
  assume "is_power_of_two len"
  then obtain k where "len = 2 ^ k" by (auto simp: align_simps)
  then have "ix AND (len - 1) = take_bit k ix" by (simp add: take_bit_eq_mask mask_eq_exp_minus_1)
  then show ?thesis using \<open>len = 2 ^ k\<close> by (simp add: take_bit_eq_mod)
qed

lemma schedule_inj:
  fixes len stride s :: nat
  assumes "is_power_of_two len" "odd stride" "c < len" "d < len" "(s + c * stride) mod len = (s + d * stride) mod len"
  shows "c = d"
proof -
  obtain k where k: "len = 2 ^ k" using assms(1) by (auto simp: align_simps)
  have co: "coprime (int len) (int stride)" using assms(2) by (simp add: k)
  have "int (s + c * stride) mod int len = int (s + d * stride) mod int len"
    using assms(5) by (metis zmod_int)
  then have "int len dvd int (s + c * stride) - int (s + d * stride)" by (simp only: mod_eq_dvd_iff)
  moreover have "int (s + c * stride) - int (s + d * stride) = (int c - int d) * int stride" by (simp add: algebra_simps)
  ultimately have "int len dvd int c - int d" using co by (simp add: coprime_dvd_mult_left_iff)
  then have "int c mod int len = int d mod int len" by (simp only: mod_eq_dvd_iff)
  then show ?thesis using assms(3,4) by simp
qed

lemma schedule_covers:
  fixes len stride s :: nat
  assumes "is_power_of_two len" "odd stride"
  shows "(\<lambda>c. (s + c * stride) mod len) ` {..<len} = {..<len}"
proof (rule card_subset_eq)
  have "0 < len" using assms(1) by (rule is_power_of_two_pos)
  then show "(\<lambda>c. (s + c * stride) mod len) ` {..<len} \<subseteq> {..<len}" by auto
  have "inj_on (\<lambda>c. (s + c * stride) mod len) {..<len}"
    using schedule_inj [OF assms] by (auto intro: inj_onI)
  then show "card ((\<lambda>c. (s + c * stride) mod len) ` {..<len}) = card {..<len}" by (rule card_image)
qed simp

lemma seen_all:
  assumes "set xs = {..<n}"
  shows "sort (remdups xs) = [0..<n]"
  by (rule sorted_distinct_set_unique) (simp_all add: assms lessThan_atLeast0)

lemma sum_list_update_add:
  fixes f :: "'x \<Rightarrow> 'm :: comm_monoid_add"
  assumes "i < length xs"
  shows "sum_list (map f (xs[i := y])) + f (xs ! i) = sum_list (map f xs) + f y"
proof -
  have "sum_list (map f xs) = sum_list (map f (take i xs @ xs ! i # drop (Suc i) xs))"
    using id_take_nth_drop [OF assms] by (rule arg_cong)
  then show ?thesis unfolding upd_conv_take_nth_drop [OF assms] by (simp add: ac_simps)
qed

subsection \<open>From the contract of the bags\<close>

definition pipe_contents :: "('q \<Rightarrow> 'a multiset) \<Rightarrow> 'q list \<Rightarrow> 'a multiset" where
  "pipe_contents contents ps = sum_list (map contents ps)"

definition pipes_ok :: "('q \<Rightarrow> bool) \<Rightarrow> 'q list \<Rightarrow> bool" where
  "pipes_ok ok ps \<longleftrightarrow> list_all ok ps \<and> is_power_of_two (length ps)"

lemma pipe_contents_empty: "\<forall>q\<in>set ps. contents q = {#} \<Longrightarrow> pipe_contents contents ps = {#}"
  unfolding pipe_contents_def by (induction ps) auto

context bag_contract
begin

lemma pipes_index:
  assumes "pipes_ok ok ps"
  shows "ix AND (length ps - Suc 0) = ix mod length ps" "ix mod length ps < length ps" "ok (ps ! (ix mod length ps))"
proof -
  show "ix AND (length ps - Suc 0) = ix mod length ps"
    using nat_and_pow2 [of "length ps" ix] assms by (simp add: pipes_ok_def)
  show l: "ix mod length ps < length ps" 
    by (intro mod_less_divisor is_power_of_two_pos) (use assms in \<open>simp add: pipes_ok_def\<close>)
  show "ok (ps ! (ix mod length ps))" using assms l by (simp add: pipes_ok_def list_all_length)
qed

lemma pipes_update: "pipes_ok ok ps \<Longrightarrow> ok q \<Longrightarrow> pipes_ok ok (ps[i := q])"
  by (auto simp: pipes_ok_def list_all_iff dest!: set_update_subset_insert [THEN subsetD])

lemma contents_update:
  "i < length ps \<Longrightarrow> pipe_contents contents (ps[i := q]) + contents (ps ! i) = pipe_contents contents ps + contents q"
  unfolding pipe_contents_def by (rule sum_list_update_add)

lemma contents_add:
  assumes "i < length ps" "contents q = add_mset it (contents (ps ! i))"
  shows "pipe_contents contents (ps[i := q]) = add_mset it (pipe_contents contents ps)"
  using contents_update [OF assms(1), of q] assms(2) by simp

lemma contents_same:
  assumes "i < length ps" "contents q = contents (ps ! i)"
  shows "pipe_contents contents (ps[i := q]) = pipe_contents contents ps"
  using contents_update [OF assms(1), of q] assms(2) by simp

lemma contents_take:
  assumes "i < length ps" "contents (ps ! i) = add_mset it (contents q)"
  shows "pipe_contents contents ps = add_mset it (pipe_contents contents (ps[i := q]))"
  using contents_update [OF assms(1), of q] assms(2) by simp

lemma push_sched_ok:
  "pipes_ok ok ps \<Longrightarrow> item it \<Longrightarrow> \<exists>ps' r. push_sched B ps it ix stride n fin = Some (ps', r) \<and> pipes_ok ok ps'
     \<and> length ps' = length ps
     \<and> (case r of Inl _ \<Rightarrow> pipe_contents contents ps' = add_mset it (pipe_contents contents ps)
        | Inr it' \<Rightarrow> it' = it \<and> pipe_contents contents ps' = pipe_contents contents ps \<and> \<not> (fin \<and> 0 < n))"
proof (induction n arbitrary: ps ix)
  case 0
  then show ?case by simp
next
  case (Suc n)
  let ?i = "ix mod length ps"
  have i: "ix AND (length ps - Suc 0) = ?i" "?i < length ps" "ok (ps ! ?i)" using pipes_index [OF Suc.prems(1)] by blast+
  show ?case
  proof (cases "fin \<and> n = 0")
    case True
    obtain q where q: "wb_push B (ps ! ?i) it = Some q" "ok q" "contents q = add_mset it (contents (ps ! ?i))"
      using push_adds [OF i(3) Suc.prems(2)] by blast
    then show ?thesis
      using True pipes_update [OF Suc.prems(1) q(2)] contents_add [OF i(2) q(3)] by (simp add: i(1) Let_def)
  next
    case False
    obtain q r where q: "wb_try_push B (ps ! ?i) it = Some (q, r)" "ok q"
      "r = None \<and> contents q = add_mset it (contents (ps ! ?i)) \<or> r = Some it \<and> contents q = contents (ps ! ?i)"
      using push_ok [OF i(3) Suc.prems(2)] by blast
    have ok': "pipes_ok ok (ps[?i := q])" using pipes_update [OF Suc.prems(1) q(2)] .
    show ?thesis
    proof (cases r)
      case None
      then show ?thesis using False q ok' contents_add [OF i(2)] by (auto simp: i(1) Let_def)
    next
      case (Some it')
      then have s: "it' = it" "pipe_contents contents (ps[?i := q]) = pipe_contents contents ps" using q(3) contents_same [OF i(2)] by auto
      have e: "push_sched B ps it ix stride (Suc n) fin = push_sched B (ps[?i := q]) it (?i + stride) stride n fin"
        using False q(1) Some s(1) by (auto simp: i(1) Let_def)
      obtain ps' r' where p: "push_sched B (ps[?i := q]) it (?i + stride) stride n fin = Some (ps', r')" "pipes_ok ok ps'"
        "length ps' = length (ps[?i := q])" "case r' of Inl _ \<Rightarrow> pipe_contents contents ps' = add_mset it (pipe_contents contents (ps[?i := q]))
          | Inr it' \<Rightarrow> it' = it \<and> pipe_contents contents ps' = pipe_contents contents (ps[?i := q]) \<and> \<not> (fin \<and> 0 < n)"
        using Suc.IH [OF ok' Suc.prems(2)] by blast
      show ?thesis unfolding e p(1) using p(2-4) s(2) False by (auto split: sum.splits)
    qed
  qed
qed

text \<open>The bags the schedule found empty since the last transient failure: the \<open>empties\<close>
  places before \<open>ix\<close>, each empty and recorded.\<close>

lemma pop_sched_ok:
  fixes s empties :: nat
  assumes "pipes_ok ok ps" "odd stride" "0 < n" "empties < length ps"
    and "ix mod length ps = (s + empties * stride) mod length ps" "set seen \<subseteq> {..<length ps}"
    and "\<And>c. c < empties \<Longrightarrow> (s + c * stride) mod length ps \<in> set seen
          \<and> contents (ps ! ((s + c * stride) mod length ps)) = {#}"
  shows "\<exists>ps' r. pop_sched B ps ix stride n empties seen = Some (ps', r) \<and> pipes_ok ok ps' \<and> length ps' = length ps
     \<and> (case r of Popped it \<Rightarrow> item it \<and> pipe_contents contents ps = add_mset it (pipe_contents contents ps')
        | PopEmpty \<Rightarrow> pipe_contents contents ps = {#} \<and> pipe_contents contents ps' = {#}
        | PopTransient \<Rightarrow> pipe_contents contents ps' = pipe_contents contents ps)"
  using assms
proof (induction n arbitrary: ps ix s empties seen)
  case 0
  then show ?case by simp
next
  case (Suc n)
  let ?i = "ix mod length ps" and ?len = "length ps"
  have i: "ix AND (?len - Suc 0) = ?i" "?i < ?len" "ok (ps ! ?i)" using pipes_index [OF Suc.prems(1)] by blast+
  obtain q r where q: "wb_try_pop B (ps ! ?i) = Some (q, r)" "ok q"
    "case r of Popped it \<Rightarrow> item it \<and> contents (ps ! ?i) = add_mset it (contents q)
         | PopEmpty \<Rightarrow> contents (ps ! ?i) = {#} \<and> contents q = {#}
         | PopTransient \<Rightarrow> contents q = contents (ps ! ?i) \<and> rank q < rank (ps ! ?i)"
    using pop_ok [OF i(3)] by blast
  have ok': "pipes_ok ok (ps[?i := q])" using pipes_update [OF Suc.prems(1) q(2)] .
  have pow: "is_power_of_two ?len" using Suc.prems(1) by (simp add: pipes_ok_def)
  show ?case
  proof (cases r)
    case (Popped it)
    then show ?thesis using q ok' contents_take [OF i(2)] by (simp add: i(1) Let_def)
  next
    case PopTransient
    have same: "pipe_contents contents (ps[?i := q]) = pipe_contents contents ps"
      using q(3) PopTransient contents_same [OF i(2)] by simp
    show ?thesis
    proof (cases "n = 0")
      case True
      then show ?thesis using q(1) PopTransient ok' same by (simp add: i(1) Let_def)
    next
      case False
      have e: "pop_sched B ps ix stride (Suc n) empties seen = pop_sched B (ps[?i := q]) (?i + stride) stride n 0 seen"
        using q(1) PopTransient False i(2) by (auto simp: i(1) Let_def)
      have "\<exists>ps' r. pop_sched B (ps[?i := q]) (?i + stride) stride n 0 seen = Some (ps', r) \<and> pipes_ok ok ps'
         \<and> length ps' = length (ps[?i := q])
         \<and> (case r of Popped it \<Rightarrow> item it \<and> pipe_contents contents (ps[?i := q]) = add_mset it (pipe_contents contents ps')
            | PopEmpty \<Rightarrow> pipe_contents contents (ps[?i := q]) = {#} \<and> pipe_contents contents ps' = {#}
            | PopTransient \<Rightarrow> pipe_contents contents ps' = pipe_contents contents (ps[?i := q]))"
        by (rule Suc.IH [OF ok' Suc.prems(2), where s = "?i + stride"]) (use False i(2) Suc.prems(6) in auto)
      then show ?thesis unfolding e same by simp
    qed
  next
    case PopEmpty
    have same: "pipe_contents contents (ps[?i := q]) = pipe_contents contents ps"
      using q(3) PopEmpty contents_same [OF i(2)] by simp
    let ?seen = "seen @ [?i]"
    have si: "?i = (s + empties * stride) mod ?len" using Suc.prems(5) .
    have seen: "(s + c * stride) mod ?len \<in> set ?seen \<and> contents (ps[?i := q] ! ((s + c * stride) mod ?len)) = {#}"
      if "c < Suc empties" for c
    proof (cases "c < empties")
      case True
      then show ?thesis using Suc.prems(7) [OF True] q(3) PopEmpty i(2) by (auto simp: nth_list_update)
    next
      case False
      then have "c = empties" using that by simp
      then show ?thesis using si q(3) PopEmpty i(2) by simp
    qed
    show ?thesis
    proof (cases "n = 0")
      case True
      then show ?thesis using q(1) PopEmpty ok' same by (simp add: i(1) Let_def)
    next
      case n: False
      show ?thesis
      proof (cases "Suc empties = ?len")
        case True
        have cov: "(\<lambda>c. (s + c * stride) mod ?len) ` {..<?len} = {..<?len}"
          using schedule_covers [OF pow Suc.prems(2)] .
        have k: "k \<in> set ?seen \<and> contents (ps[?i := q] ! k) = {#}" if "k < ?len" for k
        proof -
          have "k \<in> (\<lambda>c. (s + c * stride) mod ?len) ` {..<?len}" unfolding cov using that by simp
          then obtain c where "k = (s + c * stride) mod ?len" "c < Suc empties" using True by auto
          then show ?thesis using seen by blast
        qed
        then have "set ?seen = {..<?len}" using Suc.prems(6) i(2) by auto
        then have as: "sort (remdups ?seen) = [0..<?len]" by (rule seen_all)
        have "contents (ps[?i := q] ! k) = {#}" if "k < ?len" for k using k [OF that] ..
        then have "\<forall>q'\<in>set (ps[?i := q]). contents q' = {#}" by (auto simp: in_set_conv_nth)
        then have "pipe_contents contents (ps[?i := q]) = {#}"
          by (rule pipe_contents_empty)
        then show ?thesis using q(1) PopEmpty ok' same n True as by (simp add: i(1) Let_def)
      next
        case False
        have e: "pop_sched B ps ix stride (Suc n) empties seen
            = pop_sched B (ps[?i := q]) (?i + stride) stride n (Suc empties) ?seen"
          using q(1) PopEmpty False n by (auto simp: i(1) Let_def)
        have "\<exists>ps' r. pop_sched B (ps[?i := q]) (?i + stride) stride n (Suc empties) ?seen = Some (ps', r) \<and> pipes_ok ok ps'
           \<and> length ps' = length (ps[?i := q])
           \<and> (case r of Popped it \<Rightarrow> item it \<and> pipe_contents contents (ps[?i := q]) = add_mset it (pipe_contents contents ps')
              | PopEmpty \<Rightarrow> pipe_contents contents (ps[?i := q]) = {#} \<and> pipe_contents contents ps' = {#}
              | PopTransient \<Rightarrow> pipe_contents contents ps' = pipe_contents contents (ps[?i := q]))"
        proof (rule Suc.IH [OF ok' Suc.prems(2), where s = s])
          show "0 < n" using n by simp
          show "Suc empties < length (ps[?i := q])" using Suc.prems(4) False by simp
          show "(?i + stride) mod length (ps[?i := q]) = (s + Suc empties * stride) mod length (ps[?i := q])"
            unfolding si by (simp add: mod_simps algebra_simps)
          show "set ?seen \<subseteq> {..<length (ps[?i := q])}" using Suc.prems(6) i(2) by auto
        qed (use seen in simp)
        then show ?thesis unfolding e same by simp
      qed
    qed
  qed
qed

lemma bulk_one_ok:
  "pipes_ok ok ps \<Longrightarrow> item it \<Longrightarrow> \<exists>ps' cur'. bulk_one B stride ps cur it = Some (ps', cur') \<and> pipes_ok ok ps'
     \<and> length ps' = length ps \<and> pipe_contents contents ps' = add_mset it (pipe_contents contents ps)"
proof (induction "sum_list (map rank ps)" arbitrary: ps cur rule: less_induct)
  case less
  let ?i = "cur mod length ps"
  have i: "cur AND (length ps - Suc 0) = ?i" "?i < length ps" "ok (ps ! ?i)"
    using pipes_index [OF less.prems(1)] by blast+
  obtain q r where q: "wb_try_push B (ps ! ?i) it = Some (q, r)" "ok q"
    "r = None \<and> contents q = add_mset it (contents (ps ! ?i))
     \<or> r = Some it \<and> contents q = contents (ps ! ?i) \<and> rank q < rank (ps ! ?i)"
    using push_ok [OF i(3) less.prems(2)] by blast
  have ok': "pipes_ok ok (ps[?i := q])" using pipes_update [OF less.prems(1) q(2)] .
  show ?case
  proof (cases r)
    case None
    then show ?thesis
      using q ok' contents_add [OF i(2)] by (auto simp: bulk_one.simps [of B stride ps cur] i(1))
  next
    case (Some it')
    then have it': "it' = it" and lt: "rank q < rank (ps ! ?i)" and same: "pipe_contents contents (ps[?i := q]) = pipe_contents contents ps"
      using q(3) contents_same [OF i(2)] by auto
    have dec: "sum_list (map rank (ps[?i := q])) < sum_list (map rank ps)"
      using sum_list_update_add [OF i(2), of rank q] lt by linarith
    have e: "bulk_one B stride ps cur it = bulk_one B stride (ps[?i := q]) (?i + stride) it"
      using q(1) Some it' by (simp add: bulk_one.simps [of B stride ps cur] i(1))
    show ?thesis
      using less.hyps [OF dec ok' less.prems(2), of "?i + stride"] unfolding e same by simp
  qed
qed

lemma bulk_loop_ok:
  "pipes_ok ok ps \<Longrightarrow> list_all item its \<Longrightarrow> \<exists>ps'. bulk_loop B stride ps cur its = Some ps' \<and> pipes_ok ok ps'
     \<and> length ps' = length ps \<and> pipe_contents contents ps' = mset its + pipe_contents contents ps"
proof (induction its arbitrary: ps cur)
  case (Cons it its)
  obtain ps' cur' where p: "bulk_one B stride ps cur it = Some (ps', cur')" "pipes_ok ok ps'"
    "length ps' = length ps" "pipe_contents contents ps' = add_mset it (pipe_contents contents ps)"
    using bulk_one_ok [OF Cons.prems(1)] Cons.prems(2) by fastforce
  from Cons.IH [OF p(2)] Cons.prems(2) p show ?case by fastforce
qed simp

end

subsection \<open>The size estimate follows the contents\<close>

text \<open>A pipe with one handle: its bags are sound, the stride is odd, and what the handle has
  not yet added to the counters is less than the threshold and makes up for the rest.\<close>

definition pipe_inv :: "('q \<Rightarrow> bool) \<Rightarrow> ('q \<Rightarrow> 'a multiset) \<Rightarrow> 'q pipe_state \<Rightarrow> pipe_handle \<Rightarrow> bool" where
  "pipe_inv ok contents st h \<longleftrightarrow>
     pipes_ok ok (ps_pipes st) \<and> length (ps_counters st) = n_counters \<and> odd (ph_stride h)
     \<and> \<bar>ph_cur_diff h\<bar> < threshold_diff
     \<and> sum_list (ps_counters st) + ph_cur_diff h = int (size (pipe_contents contents (ps_pipes st)))"

lemma push_diff_sum:
  assumes "length (ps_counters st) = n_counters"
  shows "sum_list (ps_counters (push_diff st h)) = sum_list (ps_counters st) + ph_cur_diff h"
    "length (ps_counters (push_diff st h)) = n_counters" "ps_pipes (push_diff st h) = ps_pipes st"
proof -
  have i: "ph_offset h mod n_counters < length (ps_counters st)" using assms by (simp add: n_counters_def)
  show "sum_list (ps_counters (push_diff st h)) = sum_list (ps_counters st) + ph_cur_diff h"
    using sum_list_update_add [OF i, of "\<lambda>x. x" "ps_counters st ! (ph_offset h mod n_counters) + ph_cur_diff h"]
    by (simp add: push_diff_def Let_def)
qed (simp_all add: push_diff_def Let_def assms)

lemma propagate_diff_inv:
  assumes "pipes_ok ok (ps_pipes st)" "length (ps_counters st) = n_counters" "odd (ph_stride h)"
    and "sum_list (ps_counters st) + ph_cur_diff h + d = int (size (pipe_contents contents (ps_pipes st)))"
    and "propagate_diff st h d = (st', h')"
  shows "pipe_inv ok contents st' h'" "ps_pipes st' = ps_pipes st"
proof -
  let ?h = "h\<lparr> ph_cur_diff := ph_cur_diff h + d \<rparr>"
  note p = push_diff_sum [OF assms(2), of ?h]
  have th: "threshold_diff = 4" by (simp add: threshold_diff_def)
  have "pipe_inv ok contents st' h' \<and> ps_pipes st' = ps_pipes st"
  proof (cases "threshold_diff \<le> ph_cur_diff ?h \<or> ph_cur_diff ?h \<le> - threshold_diff")
    case True
    then have "st' = push_diff st ?h" "h' = ?h\<lparr> ph_cur_diff := 0 \<rparr>"
      using assms(5) by (simp_all add: propagate_diff_def Let_def)
    then show ?thesis using p assms by (simp add: pipe_inv_def th)
  next
    case False
    then have "st' = st" "h' = ?h" using assms(5) by (auto simp: propagate_diff_def Let_def split: if_splits)
    then show ?thesis using False assms by (simp add: pipe_inv_def th abs_less_iff)
  qed
  then show "pipe_inv ok contents st' h'" "ps_pipes st' = ps_pipes st" by blast+
qed

lemma size_guess_near:
  assumes "pipe_inv ok contents st h"
  shows "\<bar>size_guess st - int (size (pipe_contents contents (ps_pipes st)))\<bar> < threshold_diff"
  using assms unfolding pipe_inv_def size_guess_def threshold_diff_def by (auto simp: max_def abs_less_iff)

lemma pipe_drop_exact:
  assumes "pipe_inv ok contents st h"
  shows "size_guess (pipe_drop st h) = int (size (pipe_contents contents (ps_pipes st)))"
  using assms push_diff_sum(1) [of st h]
  by (auto simp: pipe_inv_def pipe_drop_def size_guess_def)

subsection \<open>The operations of a handle are operations of a bag\<close>

context bag_contract
begin

lemma push_internal_ok:
  assumes "pipes_ok ok (ps_pipes st)" "item it"
  shows "\<exists>st' r. try_push_internal B st it off stride n fin = Some (st', r) \<and> pipes_ok ok (ps_pipes st')
     \<and> ps_counters st' = ps_counters st
     \<and> ((\<exists>b. r = Inl b) \<and> pipe_contents contents (ps_pipes st') = add_mset it (pipe_contents contents (ps_pipes st))
        \<or> r = Inr it \<and> pipe_contents contents (ps_pipes st') = pipe_contents contents (ps_pipes st)
            \<and> \<not> (fin \<and> 0 < n))"
proof -
  obtain ps r where p: "push_sched B (ps_pipes st) it off stride n fin = Some (ps, r)" "pipes_ok ok ps"
    "case r of Inl _ \<Rightarrow> pipe_contents contents ps = add_mset it (pipe_contents contents (ps_pipes st))
     | Inr it' \<Rightarrow> it' = it \<and> pipe_contents contents ps = pipe_contents contents (ps_pipes st) \<and> \<not> (fin \<and> 0 < n)"
    using push_sched_ok [OF assms, of off stride n fin] by blast
  have "try_push_internal B st it off stride n fin = Some (st\<lparr> ps_pipes := ps \<rparr>, r)"
    using assms(1) p(1) by (simp add: try_push_internal_def pipes_ok_def)
  then show ?thesis using p(2,3) by (cases r) simp_all
qed

lemma try_push_mut_ok:
  assumes "pipe_inv ok contents st h" "item it"
  shows "\<exists>st' h' r. try_push_mut B st h it = Some (st', h', r) \<and> pipe_inv ok contents st' h'
     \<and> (r = None \<and> pipe_contents contents (ps_pipes st') = add_mset it (pipe_contents contents (ps_pipes st))
        \<or> r = Some it \<and> pipe_contents contents (ps_pipes st') = pipe_contents contents (ps_pipes st))"
proof -
  have inv: "pipes_ok ok (ps_pipes st)" "length (ps_counters st) = n_counters" "odd (ph_stride h)"
    "sum_list (ps_counters st) + ph_cur_diff h = int (size (pipe_contents contents (ps_pipes st)))"
    using assms(1) by (simp_all add: pipe_inv_def)
  obtain st1 r where p: "try_push_internal B st it (ph_offset h) (ph_stride h) (ph_push_failures h + 1) False = Some (st1, r)"
    "pipes_ok ok (ps_pipes st1)" "ps_counters st1 = ps_counters st"
    "(\<exists>b. r = Inl b) \<and> pipe_contents contents (ps_pipes st1) = add_mset it (pipe_contents contents (ps_pipes st))
      \<or> r = Inr it \<and> pipe_contents contents (ps_pipes st1) = pipe_contents contents (ps_pipes st)"
    using push_internal_ok [OF inv(1) assms(2), of "ph_offset h" "ph_stride h" "ph_push_failures h + 1" False]
    by blast
  show ?thesis
  proof (cases r)
    case (Inl b)
    obtain st2 h2 where d: "propagate_diff st1 (h\<lparr> ph_push_failures := ph_push_failures h div 2 \<rparr>) 1 = (st2, h2)" by fastforce
    have "pipe_inv ok contents st2 h2" "ps_pipes st2 = ps_pipes st1"
      by (rule propagate_diff_inv [where ok = ok and contents = contents, OF _ _ _ _ d]; use p inv Inl in simp)+
    then show ?thesis using p Inl d by (simp add: try_push_mut_def)
  next
    case (Inr it')
    then show ?thesis using p inv assms(1) by (simp add: try_push_mut_def pipe_inv_def)
  qed
qed

lemma push_mut_ok:
  assumes "pipe_inv ok contents st h" "item it"
  shows "\<exists>st' h'. push_mut B st h it = Some (st', h') \<and> pipe_inv ok contents st' h'
     \<and> pipe_contents contents (ps_pipes st') = add_mset it (pipe_contents contents (ps_pipes st))"
proof -
  obtain st1 h1 r where t: "try_push_mut B st h it = Some (st1, h1, r)" "pipe_inv ok contents st1 h1"
    "r = None \<and> pipe_contents contents (ps_pipes st1) = add_mset it (pipe_contents contents (ps_pipes st))
     \<or> r = Some it \<and> pipe_contents contents (ps_pipes st1) = pipe_contents contents (ps_pipes st)"
    using try_push_mut_ok [OF assms] by blast
  show ?thesis
  proof (cases r)
    case None
    then show ?thesis using t by (simp add: push_mut_def)
  next
    case (Some it')
    have inv: "pipes_ok ok (ps_pipes st1)" "length (ps_counters st1) = n_counters" "odd (ph_stride h1)"
      "sum_list (ps_counters st1) + ph_cur_diff h1 = int (size (pipe_contents contents (ps_pipes st1)))"
      using t(2) by (simp_all add: pipe_inv_def)
    obtain st2 b where p: "try_push_internal B st1 it (ph_offset h1) (ph_stride h1) (ph_push_failures h1 + 1) True = Some (st2, Inl b)"
      "pipes_ok ok (ps_pipes st2)" "ps_counters st2 = ps_counters st1"
      "pipe_contents contents (ps_pipes st2) = add_mset it (pipe_contents contents (ps_pipes st1))"
      using push_internal_ok [OF inv(1) assms(2), of "ph_offset h1" "ph_stride h1" "ph_push_failures h1 + 1" True]
      by auto
    define h2 where "h2 = (if b then h1\<lparr> ph_push_failures := ph_push_failures h1 div 2 \<rparr>
      else h1\<lparr> ph_offset := ph_offset h1 + ph_stride h1, ph_push_failures := ph_push_failures h1 + 1 \<rparr>)"
    obtain st3 h3 where d: "propagate_diff st2 h2 1 = (st3, h3)" by fastforce
    have "pipe_inv ok contents st3 h3" "ps_pipes st3 = ps_pipes st2"
      by (rule propagate_diff_inv [where ok = ok and contents = contents, OF _ _ _ _ d]; use p inv in \<open>simp add: h2_def\<close>)+
    moreover have "push_mut B st h it = Some (st3, h3)"
      using t Some p(1) d by (cases b) (auto simp: push_mut_def h2_def)
    ultimately show ?thesis using t(3) Some p(4) by simp
  qed
qed

lemma try_pop_mut_ok:
  assumes "pipe_inv ok contents st h"
  shows "\<exists>st' h' r. try_pop_mut B st h = Some (st', h', r) \<and> pipe_inv ok contents st' h'
     \<and> (case r of Popped it \<Rightarrow> item it \<and> pipe_contents contents (ps_pipes st) = add_mset it (pipe_contents contents (ps_pipes st'))
        | PopEmpty \<Rightarrow> pipe_contents contents (ps_pipes st) = {#} \<and> pipe_contents contents (ps_pipes st') = {#}
        | PopTransient \<Rightarrow> pipe_contents contents (ps_pipes st') = pipe_contents contents (ps_pipes st))"
proof -
  have inv: "pipes_ok ok (ps_pipes st)" "length (ps_counters st) = n_counters" "odd (ph_stride h)"
    "sum_list (ps_counters st) + ph_cur_diff h = int (size (pipe_contents contents (ps_pipes st)))"
    "\<bar>ph_cur_diff h\<bar> < threshold_diff"
    using assms(1) by (simp_all add: pipe_inv_def)
  have l: "0 < length (ps_pipes st)" using inv(1) is_power_of_two_pos unfolding pipes_ok_def by blast
  obtain ps r where p: "pop_sched B (ps_pipes st) (ph_offset h) (ph_stride h) (ph_pop_failures h * 2 + 1) 0 [] = Some (ps, r)"
    "pipes_ok ok ps" "case r of Popped it \<Rightarrow> item it \<and> pipe_contents contents (ps_pipes st) = add_mset it (pipe_contents contents ps)
        | PopEmpty \<Rightarrow> pipe_contents contents (ps_pipes st) = {#} \<and> pipe_contents contents ps = {#}
        | PopTransient \<Rightarrow> pipe_contents contents ps = pipe_contents contents (ps_pipes st)"
    using pop_sched_ok [OF inv(1,3), where n = "ph_pop_failures h * 2 + 1" and empties = 0 and s = "ph_offset h"
        and ix = "ph_offset h" and seen = "[]"] l by auto
  have i: "try_pop_internal B st (ph_offset h) (ph_stride h) (ph_pop_failures h * 2 + 1) = Some (st\<lparr> ps_pipes := ps \<rparr>, r)"
    using inv(1) p(1) by (simp add: try_pop_internal_def pipes_ok_def)
  show ?thesis
  proof (cases r)
    case (Popped it)
    obtain st2 h2 where d: "propagate_diff (st\<lparr> ps_pipes := ps \<rparr>) (h\<lparr> ph_pop_failures := ph_pop_failures h div 2 \<rparr>) (- 1) = (st2, h2)"
      by fastforce
    have "pipe_inv ok contents st2 h2" "ps_pipes st2 = ps_pipes (st\<lparr> ps_pipes := ps \<rparr>)"
      by (rule propagate_diff_inv [where ok = ok and contents = contents, OF _ _ _ _ d]; use p inv Popped in simp)+
    then show ?thesis using p(3) i Popped d by (simp add: try_pop_mut_def)
  next
    case PopEmpty
    then show ?thesis using p inv i by (simp add: try_pop_mut_def pipe_inv_def)
  next
    case PopTransient
    then show ?thesis using p inv i by (simp add: try_pop_mut_def pipe_inv_def)
  qed
qed

lemma bulk_add_ok:
  assumes "pipe_inv ok contents st h" "list_all item its"
  shows "\<exists>st' h'. bulk_add B st h its = Some (st', h') \<and> pipe_inv ok contents st' h'
     \<and> pipe_contents contents (ps_pipes st') = mset its + pipe_contents contents (ps_pipes st)"
proof -
  have inv: "pipes_ok ok (ps_pipes st)" "length (ps_counters st) = n_counters" "odd (ph_stride h)"
    "sum_list (ps_counters st) + ph_cur_diff h = int (size (pipe_contents contents (ps_pipes st)))"
    using assms(1) by (simp_all add: pipe_inv_def)
  obtain ps where p: "bulk_loop B (ph_stride h) (ps_pipes st) (ph_offset h) its = Some ps" "pipes_ok ok ps"
    "pipe_contents contents ps = mset its + pipe_contents contents (ps_pipes st)"
    using bulk_loop_ok [OF inv(1) assms(2)] by blast
  obtain st2 h2 where d: "propagate_diff (st\<lparr> ps_pipes := ps \<rparr>) h (int (length its)) = (st2, h2)" by fastforce
  have "pipe_inv ok contents st2 h2" "ps_pipes st2 = ps_pipes (st\<lparr> ps_pipes := ps \<rparr>)"
    by (rule propagate_diff_inv [where ok = ok and contents = contents, OF _ _ _ _ d]; use p inv in simp)+
  then show ?thesis using p d by (simp add: bulk_add_def)
qed

lemma pipe_new_ok:
  assumes "0 < sz"
  shows "\<exists>st h. pipe_new_size B sz = Some (st, h) \<and> pipe_inv ok contents st h
     \<and> pipe_contents contents (ps_pipes st) = {#}"
proof -
  have z: "pipe_contents contents (replicate n (wb_new B)) = {#}" for n
    by (rule pipe_contents_empty) (simp add: new_ok)
  show ?thesis
    using assms new_ok(1)
    by (simp add: pipe_new_size_def ps_new_size_def pipe_inv_def pipes_ok_def z list_all_iff
        threshold_diff_def sum_list_replicate)
qed

end

subsection \<open>Histories\<close>

text \<open>The calls of one handle, the items they add, and the items they take.\<close>

datatype 'a pipe_call = CPush 'a | CTryPush 'a | CTryPop | CBulkAdd "'a list"

fun pipe_exec :: "('q, 'a) weak_bag \<Rightarrow> 'q pipe_state \<times> pipe_handle \<Rightarrow> 'a pipe_call
    \<Rightarrow> (('q pipe_state \<times> pipe_handle) \<times> 'a multiset \<times> 'a multiset) option" where
  "pipe_exec B (st, h) (CPush it) = push_mut B st h it \<bind> (\<lambda>s. Some (s, {#it#}, {#}))"
| "pipe_exec B (st, h) (CTryPush it) = try_push_mut B st h it \<bind> (\<lambda>(st', h', r).
     Some ((st', h'), case r of None \<Rightarrow> {#it#} | Some _ \<Rightarrow> {#}, {#}))"
| "pipe_exec B (st, h) CTryPop = try_pop_mut B st h \<bind> (\<lambda>(st', h', r).
     Some ((st', h'), {#}, case r of Popped it \<Rightarrow> {#it#} | _ \<Rightarrow> {#}))"
| "pipe_exec B (st, h) (CBulkAdd its) = bulk_add B st h its \<bind> (\<lambda>s. Some (s, mset its, {#}))"

fun pipe_run :: "('q, 'a) weak_bag \<Rightarrow> 'q pipe_state \<times> pipe_handle \<Rightarrow> 'a pipe_call list
    \<Rightarrow> (('q pipe_state \<times> pipe_handle) \<times> 'a multiset \<times> 'a multiset) option" where
  "pipe_run B s [] = Some (s, {#}, {#})"
| "pipe_run B s (c # cs) =
     pipe_exec B s c \<bind> (\<lambda>(s', a, t). pipe_run B s' cs \<bind> (\<lambda>(s'', a', t'). Some (s'', a + a', t + t')))"

fun call_items :: "'a pipe_call \<Rightarrow> 'a list" where
  "call_items (CPush it) = [it]"
| "call_items (CTryPush it) = [it]"
| "call_items CTryPop = []"
| "call_items (CBulkAdd its) = its"

context bag_contract
begin

lemma pipe_exec_ok:
  assumes "pipe_inv ok contents st h" "list_all item (call_items c)"
  shows "\<exists>st' h' a t. pipe_exec B (st, h) c = Some ((st', h'), a, t) \<and> pipe_inv ok contents st' h'
     \<and> pipe_contents contents (ps_pipes st') + t = pipe_contents contents (ps_pipes st) + a"
proof (cases c)
  case (CPush it)
  then show ?thesis using push_mut_ok [OF assms(1)] assms(2) by fastforce
next
  case (CTryPush it)
  then show ?thesis using try_push_mut_ok [OF assms(1), of it] assms(2) by fastforce
next
  case CTryPop
  obtain st' h' r where p: "try_pop_mut B st h = Some (st', h', r)" "pipe_inv ok contents st' h'"
    "case r of Popped it \<Rightarrow> item it \<and> pipe_contents contents (ps_pipes st) = add_mset it (pipe_contents contents (ps_pipes st'))
        | PopEmpty \<Rightarrow> pipe_contents contents (ps_pipes st) = {#} \<and> pipe_contents contents (ps_pipes st') = {#}
        | PopTransient \<Rightarrow> pipe_contents contents (ps_pipes st') = pipe_contents contents (ps_pipes st)"
    using try_pop_mut_ok [OF assms(1)] by blast
  then show ?thesis using CTryPop by (cases r) simp_all
next
  case (CBulkAdd its)
  then show ?thesis using bulk_add_ok [OF assms(1)] assms(2) by fastforce
qed

lemma pipe_run_ok:
  "pipe_inv ok contents st h \<Longrightarrow> list_all (\<lambda>c. list_all item (call_items c)) cs \<Longrightarrow>
     \<exists>st' h' a t. pipe_run B (st, h) cs = Some ((st', h'), a, t) \<and> pipe_inv ok contents st' h'
       \<and> pipe_contents contents (ps_pipes st') + t = pipe_contents contents (ps_pipes st) + a"
proof (induction cs arbitrary: st h)
  case (Cons c cs)
  obtain st1 h1 a t where e: "pipe_exec B (st, h) c = Some ((st1, h1), a, t)" "pipe_inv ok contents st1 h1"
    "pipe_contents contents (ps_pipes st1) + t = pipe_contents contents (ps_pipes st) + a"
    using pipe_exec_ok [OF Cons.prems(1)] Cons.prems(2) by fastforce
  obtain st2 h2 a' t' where r: "pipe_run B (st1, h1) cs = Some ((st2, h2), a', t')" "pipe_inv ok contents st2 h2"
    "pipe_contents contents (ps_pipes st2) + t' = pipe_contents contents (ps_pipes st1) + a'"
    using Cons.IH [OF e(2)] Cons.prems(2) by auto
  have "pipe_contents contents (ps_pipes st2) + (t + t') = pipe_contents contents (ps_pipes st) + (a + a')"
    using e(3) r(3) by (metis (no_types) add.assoc add.commute)
  then show ?case using e(1) r(1,2) by simp
qed simp

end

end
