(* ===== verification/Elf_Claims.thy ===== *)
theory Elf_Claims
  imports Slag_Threads Bag_Pipe
begin

text \<open>
  The properties of the components of \<open>elfmalloc\<close> and \<open>bagpipe\<close>, with their witnesses: the
  layout search, the \<open>Slag\<close> on its own and under threads, and the queues and the pipe.
\<close>

section \<open>Slags\<close>

text \<open>A layout for the witnesses: forty objects of 24 bytes, three bits each, so that the
  bit-set has two words and the second starts inside an object.\<close>

definition wit_meta :: metadata where
  "wit_meta = \<lparr> md_object_size = 24, md_n_objects = 40, md_n_bitset_words = 2, md_total_bytes = 4096,
     md_bitset_offset = 64, md_objects_offset = 96, md_object_mask = 0x9249249249249249,
     md_bit_rep_shift = 3, md_local_index = 0, md_cutoff_objects = 32, md_usable_size = 4096,
     md_ty = SmallSlag \<rparr>"

lemma wit_meta_ok:
  "md_bits wit_meta = 3" "layout_wf wit_meta" "mask_wf wit_meta" "rotation_ok wit_meta"
  "md_n_objects wit_meta < 2 ^ 63" "slag_placed 0x10000 wit_meta"
proof -
  show b: "md_bits wit_meta = 3" by (simp add: md_bits_def wit_meta_def)
  show "layout_wf wit_meta" unfolding layout_wf_def b by (simp add: wit_meta_def)
  have "mask_loop 3 0 0 = Some 0x9249249249249249"
    by (simp add: mask_loop.simps)
  then show "mask_wf wit_meta"
    using mask_loop_ends [of 3 0 0] unfolding mask_wf_def b by (simp add: wit_meta_def)
  show "rotation_ok wit_meta" unfolding rotation_ok_def Let_def b by simp
  show "md_n_objects wit_meta < 2 ^ 63" by (simp add: wit_meta_def)
  show "slag_placed 0x10000 wit_meta"
    using is_power_of_two_power [of 12] by (simp add: slag_placed_def wit_meta_def)
qed

text \<open>C22.  However the owner of a slag and the threads that free into it interleave, from a
  freshly initialised slag on: every object is marked, with the owner, held by one client, or being freed, and
  exactly one of these; and the owner's decrement of the count never fails its assertion.\<close>

theorem slag_threads_safe:
  assumes "layout_wf m" "mask_wf m" "rotation_ok m" "md_n_objects m < 2 ^ 63"
    and "init_words m = Some ws" "slag_reach (slag_fresh m ws) s"
  shows "mset (positions (tc_words s)) + owner_positions (tc_owner s) + tc_live s + tc_pend s
           = mset (map (\<lambda>k. k * md_bits m) [0..<md_n_objects m])
         \<and> (\<forall>p. count (tc_live s) p + count (tc_pend s) p \<le> 1)
         \<and> (\<forall>i w. tc_owner s = Refilling i w \<longrightarrow> rc_dec_n (of_nat (count_ones w)) (tc_rc s) \<noteq> None)"
proof -
  have "marks m ws" using init_words_marks [OF assms(1-3)] assms(5) by auto
  then have inv: "conc_inv m s"
    using slag_reach_inv [OF assms(6)] slag_fresh_inv assms(1,4) by blast
  then show ?thesis
    using live_once [OF inv assms(1)] dec_never_fails [OF inv assms(4)]
    by (fastforce simp: conc_inv_def object_positions_def)
qed

theorem slag_threads_safe_witness:
  "\<exists>ws. init_words wit_meta = Some ws \<and> (\<forall>p. count (tc_live (slag_fresh wit_meta ws)) p
      + count (tc_pend (slag_fresh wit_meta ws)) p \<le> 1)"
proof -
  obtain ws where "init_words wit_meta = Some ws" using init_words_marks [OF wit_meta_ok(2-4)] by blast
  then show ?thesis using slag_threads_safe [OF wit_meta_ok(2-5) _ slag_reach.start] by blast
qed

text \<open>C23.  A fresh slag, claimed and refreshed, hands out each of its objects exactly once,
  in the order of their addresses, and then nothing; afterwards no bit is marked and the
  count is zero.\<close>

theorem slag_allocates_all:
  assumes "layout_wf m" "mask_wf m" "rotation_ok m" "md_n_objects m < 2 ^ 63"
  shows "\<exists>s s' it s'' it'. slag_init mp m = Some s
           \<and> slag_refresh self (s\<lparr> sl_rc := fst (rc_claim (sl_rc s)) \<rparr>) m = Some (s', it)
           \<and> iter_collect (Suc (md_n_objects m)) s' it
               = Some (s'', it', map (slag_object self m) [0..<md_n_objects m])
           \<and> (\<forall>w\<in>set (sl_words s''). w = 0) \<and> rc_load (sl_rc s'') = (True, 0)"
proof -
  obtain s where s: "slag_init mp m = Some s" "marks m (sl_words s)" "rc_agrees s False"
    using slag_init_ok [OF assms] by blast
  let ?s = "s\<lparr> sl_rc := fst (rc_claim (sl_rc s)) \<rparr>"
  obtain s' it where r: "slag_refresh self ?s m = Some (s', it)" "rc_agrees s' True" "iter_wf s' it" "iter_clear s' it"
    "iter_positions s' it = positions (sl_words s)"
    "iter_object it = (\<lambda>p. offset self (md_objects_offset m + 2 ^ md_bit_rep_shift m * p))"
    using slag_refresh_ok [OF assms(1) rc_agrees_claim [OF s(3)], of self] s(2) by (auto simp: marks_def)
  have pos: "iter_positions s' it = map (\<lambda>k. k * md_bits m) [0..<md_n_objects m]"
    using r(5) positions_marks [OF s(2) assms(1)] by simp
  have sz: "md_object_size m = md_bits m * 2 ^ md_bit_rep_shift m" using assms(1) by (simp add: layout_wf_def)
  have obj: "map (iter_object it) (iter_positions s' it) = map (slag_object self m) [0..<md_n_objects m]"
    unfolding pos r(6) by (simp add: slag_object_def sz ac_simps)
  obtain s'' it' where c: "iter_collect (Suc (md_n_objects m)) s' it
      = Some (s'', it', map (iter_object it) (iter_positions s' it))" "rc_agrees s'' True" "\<forall>w\<in>set (sl_words s''). w = 0"
    using iter_collect_all [OF r(2-4), of "Suc (md_n_objects m)"] pos by auto
  have "total_free (sl_words s'') = 0" using c(3) by (auto simp: total_free_def intro!: sum_list_0 [THEN subst])
  then have "rc_load (sl_rc s'') = (True, 0)" using c(2) by (simp add: rc_agrees_def rc_load_pack)
  then show ?thesis using s(1) r(1) c obj by auto
qed

theorem slag_allocates_all_witness:
  "\<exists>s s' it s'' it'. slag_init 0x8000 wit_meta = Some s
     \<and> slag_refresh 0x10000 (s\<lparr> sl_rc := fst (rc_claim (sl_rc s)) \<rparr>) wit_meta = Some (s', it)
     \<and> iter_collect 41 s' it = Some (s'', it', map (slag_object 0x10000 wit_meta) [0..<40])
     \<and> (\<forall>w\<in>set (sl_words s''). w = 0) \<and> rc_load (sl_rc s'') = (True, 0)"
  using slag_allocates_all [OF wit_meta_ok(2-5), of "0x8000" "0x10000"] by (simp add: wit_meta_def)

text \<open>C24.  An object of a placed slag is found from its address alone, and freeing it, when
  it is not marked, marks its bit and no other, keeps the count equal to the number of
  marked bits, and reports \<open>Available\<close> exactly when the unclaimed slag reaches its
  cutoff and \<open>Full\<close> when it becomes full otherwise.\<close>

theorem slag_free_marks:
  assumes "slag_placed self m" "layout_wf m" "k < md_n_objects m"
    and "sl_meta s \<noteq> null" "M (sl_meta s) = Some m" "length (sl_words s) = md_n_bitset_words m"
    and "rc_agrees s c" "total_free (sl_words s) + 1 < 2 ^ 63"
    and "\<not> bit (sl_words s ! ((k * md_bits m) div 64)) ((k * md_bits m) mod 64)"
  shows "slag_find (slag_object self m k) (md_total_bytes m) = self
    \<and> (\<exists>s'. slag_free M self s (slag_object self m k) = Some (s',
             if \<not> c \<and> total_free (sl_words s') = md_cutoff_objects m then TAvailable
             else if \<not> c \<and> total_free (sl_words s') = md_n_objects m then TFull else TNull)
         \<and> rc_agrees s' c \<and> total_free (sl_words s') = total_free (sl_words s) + 1
         \<and> (\<forall>p<64 * length (sl_words s). bit (sl_words s' ! (p div 64)) (p mod 64)
              \<longleftrightarrow> p = k * md_bits m \<or> bit (sl_words s ! (p div 64)) (p mod 64)))"
proof
  show "slag_find (slag_object self m k) (md_total_bytes m) = self"
    using slag_find_object assms(1-3) .
  let ?i = "(k * md_bits m) div 64" and ?j = "(k * md_bits m) mod 64"
  obtain s' where s': "slag_free M self s (slag_object self m k) = Some (s',
      if \<not> c \<and> total_free (sl_words s) = md_cutoff_objects m - 1 then TAvailable
      else if \<not> c \<and> total_free (sl_words s) = md_n_objects m - 1 then TFull else TNull)"
    "rc_agrees s' c" "sl_words s' = (sl_words s)[?i := sl_words s ! ?i OR push_bit ?j 1]"
    using slag_free_ok [of self m k s M c, OF assms] by blast
  have i: "?i < length (sl_words s)"
    using object_word_lt [OF assms(2,3)] assms(6) by simp
  have t: "total_free (sl_words s') = total_free (sl_words s) + 1"
    using total_free_or [OF i assms(9)] s'(3) by simp
  have c: "0 < md_cutoff_objects m" "0 < md_n_objects m" using assms(2) by (simp_all add: layout_wf_def)
  have tr: "(total_free (sl_words s) = md_cutoff_objects m - 1) = (total_free (sl_words s') = md_cutoff_objects m)"
    "(total_free (sl_words s) = md_n_objects m - 1) = (total_free (sl_words s') = md_n_objects m)"
    using t c by auto
  have b: "bit (sl_words s' ! (p div 64)) (p mod 64) \<longleftrightarrow> p = k * md_bits m \<or> bit (sl_words s ! (p div 64)) (p mod 64)" for p
    using mark_bit [OF i] s'(3) by simp
  show "\<exists>s'. slag_free M self s (slag_object self m k) = Some (s',
             if \<not> c \<and> total_free (sl_words s') = md_cutoff_objects m then TAvailable
             else if \<not> c \<and> total_free (sl_words s') = md_n_objects m then TFull else TNull)
         \<and> rc_agrees s' c \<and> total_free (sl_words s') = total_free (sl_words s) + 1
         \<and> (\<forall>p<64 * length (sl_words s). bit (sl_words s' ! (p div 64)) (p mod 64)
              \<longleftrightarrow> p = k * md_bits m \<or> bit (sl_words s ! (p div 64)) (p mod 64))"
    by (intro exI [of _ s'] conjI allI impI) (use s'(1,2) t b in \<open>simp_all only: tr\<close>)
qed

theorem slag_free_marks_witness:
  "slag_find (slag_object 0x10000 wit_meta 22) 4096 = 0x10000
   \<and> (\<exists>s'. slag_free [0x8000 \<mapsto> wit_meta] 0x10000
        \<lparr> sl_ty = SmallSlag, sl_meta = 0x8000, sl_rc = 0, sl_handle = 0, sl_words = [0, 0] \<rparr>
        (slag_object 0x10000 wit_meta 22) = Some (s', TNull))"
proof -
  let ?s = "\<lparr> sl_ty = SmallSlag, sl_meta = 0x8000, sl_rc = 0, sl_handle = 0, sl_words = [0, 0] \<rparr> :: slag"
  have t: "total_free (sl_words ?s) = 0" by (simp add: total_free_def)
  have a: "rc_agrees ?s False" unfolding rc_agrees_def t by (simp add: rc_pack_def)
  have k: "22 < md_n_objects wit_meta" "length (sl_words ?s) = md_n_bitset_words wit_meta"
    "sl_meta ?s \<noteq> null" "[0x8000 \<mapsto> wit_meta] (sl_meta ?s) = Some wit_meta"
    "total_free (sl_words ?s) + 1 < 2 ^ 63"
    unfolding t by (simp_all add: wit_meta_def)
  have b: "\<not> bit (sl_words ?s ! ((22 * md_bits wit_meta) div 64)) ((22 * md_bits wit_meta) mod 64)"
    unfolding wit_meta_ok(1) by simp
  show ?thesis
    using slag_free_marks [of "0x10000" wit_meta 22 ?s "[0x8000 \<mapsto> wit_meta]" False,
        OF wit_meta_ok(6,2) k(1,3,4,2) a k(5) b] unfolding t
    by (auto simp: wit_meta_def)
qed

text \<open>C25.  For every object size of at least two bytes for which one power-of-two object fits
  the usable part of a page, the search returns a layout: objects of at least the size, at
  most twice as large, in an array that starts behind the bit-set and ends inside the
  usable part, as many as fit, with a mask that marks the first bit of each object.\<close>

theorem layout_search_finds:
  assumes "2 \<le> obj_size" "total_bytes (next_power_of_two obj_size) 1 1 \<le> min usable page"
    and "min usable page < 2 ^ 53"
  shows "\<exists>m. compute_metadata obj_size page idx cutoff usable ty = Some m
    \<and> obj_size \<le> md_object_size m \<and> md_object_size m \<le> next_power_of_two obj_size
    \<and> 64 + 8 * md_n_bitset_words m \<le> md_objects_offset m
    \<and> md_n_objects m * md_bits m \<le> 64 * md_n_bitset_words m
    \<and> 0 < md_n_objects m
    \<and> md_objects_offset m + md_n_objects m * md_object_size m \<le> min usable page
    \<and> min usable page < total_bytes (md_object_size m) (md_bits m) (md_n_objects m + 1)
    \<and> (\<forall>j<64. bit (md_object_mask m) j \<longleftrightarrow> md_bits m dvd j)
    \<and> (is_power_of_two (md_object_size m) \<longrightarrow> md_object_size m dvd md_objects_offset m)"
proof -
  obtain m where m: "compute_metadata obj_size page idx cutoff usable ty = Some m" "layout_wf m" "mask_wf m"
    "layout_for obj_size page usable m"
    using compute_metadata_ok [OF assms] by blast
  have "md_n_objects m * md_bits m \<le> 64 * ((md_n_objects m * md_bits m + 63) div 64)" by linarith
  then show ?thesis
    using m unfolding layout_wf_def layout_for_def mask_wf_def
    by (intro exI [of _ m] conjI) (auto simp del: min.bounded_iff)
qed

theorem layout_search_finds_witness:
  "\<exists>m. compute_metadata 24 4096 0 (4 / 5) 1024 SmallSlag = Some m \<and> 24 \<le> md_object_size m"
proof -
  have n: "next_power_of_two 24 = 32" by (simp add: next_power_of_two_def) code_simp
  have p: "is_power_of_two 32" using is_power_of_two_power [of 5] by simp
  have "total_bytes 32 1 1 \<le> min 1024 4096"
    unfolding total_bytes_eq using p by (simp add: bitset_bytes_def Let_def padding_needed_for_def)
  then show ?thesis
    using layout_search_finds [of 24 1024 4096 0 "4 / 5" SmallSlag] unfolding n by auto
qed

text \<open>C26.  For objects of one byte (or none) the search never returns.\<close>

theorem tiny_layout_search_diverges:
  assumes "obj_size \<le> 1"
  shows "compute_metadata obj_size page idx cutoff usable ty = None"
  using compute_metadata_stuck [OF assms] .

theorem tiny_layout_search_diverges_witness: "compute_metadata 1 4096 0 (4 / 5) 4096 SmallSlag = None"
  using tiny_layout_search_diverges [of 1] by simp

text \<open>C27.  The reference count, one word with a claim bit, behaves as a flag and a number
  below \<open>2^63\<close>: no operation on the one disturbs the other, and a decrement below zero is
  caught.\<close>

theorem refcount_refines_pair:
  assumes "n < 2 ^ 63" "k < 2 ^ 63"
  shows "rc_load (rc_pack c n) = (c, of_nat n)
    \<and> rc_claim (rc_pack c n) = (rc_pack True n, \<not> c)
    \<and> rc_unclaim (rc_pack c n) = (rc_pack False n, (c, of_nat n))
    \<and> (n + k < 2 ^ 63 \<longrightarrow> rc_inc_n (of_nat k) (rc_pack c n) = (rc_pack c (n + k), (c, of_nat n)))
    \<and> rc_dec_n (of_nat k) (rc_pack c n)
        = (if k \<le> n then Some (rc_pack c (n - k), (c, of_nat n)) else None)"
  using assms rc_load_pack rc_claim_pack rc_unclaim_pack rc_inc_pack rc_dec_pack rc_dec_pack_under [of n k c]
  by (simp del: power_numeral)

theorem refcount_refines_pair_witness:
  "rc_dec_n 3 (rc_pack True 2) = None \<and> rc_dec_n 3 (rc_pack True 5) = Some (rc_pack True 2, (True, 5))"
  using refcount_refines_pair [of 2 3 True] refcount_refines_pair [of 5 3 True] by simp

section \<open>Bags\<close>

text \<open>C28.  The fetch-and-add array queue, used by one caller, is a first-in first-out queue
  whatever its segments: a push succeeds and appends, a pop takes the oldest item, or skips one cell
  poisoned by a revocation, or finds the queue empty; and revoking an item whose handle points to its cell
  removes that item.\<close>

theorem faa_refines_fifo:
  assumes "faa_inv q" "valid_item it"
  shows "(\<exists>q'. faa_try_push rvk q it = Some (q', None) \<and> faa_inv q' \<and> faa_items q' = faa_items q @ [it])
    \<and> (\<exists>q' r. faa_try_pop rvk q = Some (q', r) \<and> faa_inv q'
        \<and> (case r of Popped x \<Rightarrow> faa_items q = x # faa_items q'
           | PopEmpty \<Rightarrow> faa_items q = [] \<and> faa_items q' = []
           | PopTransient \<Rightarrow> faa_items q' = faa_items q \<and> faa_poison q = Suc (faa_poison q')))
    \<and> (handle_points q it \<longrightarrow> (\<exists>q'. faa_revoke q it = Some (q', True) \<and> faa_inv q'
        \<and> mset (faa_items q) = add_mset it (mset (faa_items q'))))"
proof (intro conjI impI)
  show "\<exists>q'. faa_try_push rvk q it = Some (q', None) \<and> faa_inv q' \<and> faa_items q' = faa_items q @ [it]"
    using faa_push_ok [OF assms] by blast
  show "\<exists>q' r. faa_try_pop rvk q = Some (q', r) \<and> faa_inv q'
      \<and> (case r of Popped x \<Rightarrow> faa_items q = x # faa_items q'
         | PopEmpty \<Rightarrow> faa_items q = [] \<and> faa_items q' = []
         | PopTransient \<Rightarrow> faa_items q' = faa_items q \<and> faa_poison q = Suc (faa_poison q'))"
    using faa_pop_ok [OF assms(1), of rvk] by (fastforce split: pop_result.splits)
  show "\<exists>q'. faa_revoke q it = Some (q', True) \<and> faa_inv q' \<and> mset (faa_items q) = add_mset it (mset (faa_items q'))"
    if "handle_points q it"
    using faa_revoke_ok [OF assms that] .
qed

theorem faa_refines_fifo_witness:
  "\<exists>q'. faa_try_push True faa_new 8 = Some (q', None) \<and> faa_items q' = [8]"
  using faa_refines_fifo [OF faa_new_ok(1), of 8 True] faa_new_ok(2) by (auto simp: valid_item_def sentinel_def)

text \<open>C30.  An item that starts a new segment of a revocable queue cannot be revoked: its handle is
  not set, so \<open>revoke\<close> reports failure although the item is in the queue.\<close>

theorem revoke_misses_new_segment:
  assumes "faa_inv q" "valid_item it" "fn_tail_index (last (fq_nodes q)) = small_seg_size" "fq_handle q it = None"
  shows "\<exists>q'. faa_try_push True q it = Some (q', None) \<and> it \<in> set (faa_items q') \<and> faa_revoke q' it = Some (q', False)"
proof -
  obtain q' where "faa_try_push True q it = Some (q', None)" "fq_handle q' = fq_handle q"
    using faa_push_new_node [OF assms(1-3)] by blast
  moreover have "as_usize it = Some it" using assms(2) by (simp add: as_usize_def valid_item_def)
  ultimately show ?thesis
    using faa_push_ok [OF assms(1,2), of True] assms(4) by (auto simp: faa_revoke_def)
qed

theorem revoke_misses_new_segment_witness:
  "\<exists>q'. faa_try_push True \<lparr> fq_base = 0, fq_nodes = [\<lparr> fn_head_index = 0, fn_tail_index = small_seg_size,
      fn_data = replicate small_seg_size 8 \<rparr>], fq_tail = 0, fq_handle = (\<lambda>_. None) \<rparr> 16 = Some (q', None)
    \<and> faa_revoke q' 16 = Some (q', False)"
proof -
  let ?n = "\<lparr> fn_head_index = 0, fn_tail_index = small_seg_size, fn_data = replicate small_seg_size 8 \<rparr>"
  let ?q = "\<lparr> fq_base = 0, fq_nodes = [?n], fq_tail = 0, fq_handle = (\<lambda>_. None) \<rparr>"
  have "node_ok ?n" by (simp add: node_ok_def)
  then have "faa_inv ?q" by (simp add: faa_inv_def exI [of _ "[]"])
  then show ?thesis using revoke_misses_new_segment [of ?q 16] by (auto simp: valid_item_def sentinel_def)
qed

text \<open>C29.  A pipe over such queues, used through one handle, is a bag: any sequence of pushes, pops and bulk
  additions of proper items runs without panic, items taken and items held are together the items added, and the
  size estimate stays within the threshold of the true size.\<close>

theorem bag_pipe_history:
  assumes "0 < sz" "list_all (\<lambda>c. list_all valid_item (call_items c)) calls"
  shows "\<exists>st h st' h' added taken. pipe_new_size (faa_bag rvk) sz = Some (st, h)
    \<and> pipe_run (faa_bag rvk) (st, h) calls = Some ((st', h'), added, taken)
    \<and> pipe_contents (\<lambda>q. mset (faa_items q)) (ps_pipes st') + taken = added
    \<and> \<bar>size_guess st' - int (size (pipe_contents (\<lambda>q. mset (faa_items q)) (ps_pipes st')))\<bar> < threshold_diff
    \<and> size_guess (pipe_drop st' h') = int (size (pipe_contents (\<lambda>q. mset (faa_items q)) (ps_pipes st')))"
proof -
  obtain st h where n: "pipe_new_size (faa_bag rvk) sz = Some (st, h)"
    "pipe_inv faa_inv (\<lambda>q. mset (faa_items q)) st h" "pipe_contents (\<lambda>q. mset (faa_items q)) (ps_pipes st) = {#}"
    using faa.pipe_new_ok [OF assms(1), of rvk] by blast
  obtain st' h' a t where r: "pipe_run (faa_bag rvk) (st, h) calls = Some ((st', h'), a, t)"
    "pipe_inv faa_inv (\<lambda>q. mset (faa_items q)) st' h'"
    "pipe_contents (\<lambda>q. mset (faa_items q)) (ps_pipes st') + t = pipe_contents (\<lambda>q. mset (faa_items q)) (ps_pipes st) + a"
    using faa.pipe_run_ok [OF n(2) assms(2), of rvk] by blast
  then show ?thesis
    using n(1,3) size_guess_near [OF r(2)] pipe_drop_exact [OF r(2)] by simp
qed

theorem bag_pipe_history_witness:
  "\<exists>st h st' h' added taken. pipe_new_size (faa_bag False) 3 = Some (st, h)
    \<and> pipe_run (faa_bag False) (st, h) [CPush 8, CBulkAdd [16, 24], CTryPop, CTryPush 32, CTryPop] = Some ((st', h'), added, taken)
    \<and> pipe_contents (\<lambda>q. mset (faa_items q)) (ps_pipes st') + taken = added"
  using bag_pipe_history [of 3 "[CPush 8, CBulkAdd [16, 24], CTryPop, CTryPush 32, CTryPop]" False]
  by (force simp: valid_item_def sentinel_def)

end
