(* ===== verification/Elf_Sources.thy ===== *)
theory Elf_Sources
  imports Mmap_Alloc
begin

text \<open>
  Where \<open>elfmalloc\<close> gets memory from: the module \<open>mmap\<close> and the \<open>TypedArray\<close> of
  \<open>src/elfmalloc/src/utils.rs\<close>, and the memory sources of
  \<open>src/elfmalloc/src/sources.rs\<close>, \<open>MmapSource\<close>, which maps aligned pages one request at a
  time, and \<open>Creek\<close>, which carves them from one large mapping.  They call the allocator of
  the crate \<open>mmap-alloc\<close> as modelled in \<open>Mmap_Alloc\<close>, so the operating system and its
  contract are those of that theory.  \<open>None\<close> is a panic; a product or sum that overflows
  panics.
\<close>

subsection \<open>The module \<open>mmap\<close>\<close>

definition elf_map_alloc :: "'s os_ops \<Rightarrow> map_alloc option" where
  "elf_map_alloc OS = builder_build OS (builder_exec (builder_default OS) True)"

definition fallible_map :: "'s os_ops \<Rightarrow> 's \<Rightarrow> nat \<Rightarrow> ('s \<times> ptr option) option" where
  "fallible_map OS s sz = do {
     m \<leftarrow> elf_map_alloc OS;
     l \<leftarrow> layout_from_size_align sz 1;
     (s', r) \<leftarrow> ma_alloc OS m s l;
     Some (s', case r of Inr p \<Rightarrow> Some p | Inl _ \<Rightarrow> None) }"

definition elf_map :: "'s os_ops \<Rightarrow> 's \<Rightarrow> nat \<Rightarrow> ('s \<times> ptr) option" where
  "elf_map OS s sz = do {
     (s', r) \<leftarrow> fallible_map OS s sz;
     p \<leftarrow> r;
     Some (s', p) }"

definition elf_unmap :: "'s os_ops \<Rightarrow> 's \<Rightarrow> ptr \<Rightarrow> nat \<Rightarrow> 's option" where
  "elf_unmap OS s p len = do {
     m \<leftarrow> elf_map_alloc OS;
     l \<leftarrow> layout_from_size_align len 1;
     ma_dealloc OS m s p l }"

definition elf_uncommit :: "'s os_ops \<Rightarrow> 's \<Rightarrow> ptr \<Rightarrow> nat \<Rightarrow> 's option" where
  "elf_uncommit OS s p len = do {
     m \<leftarrow> elf_map_alloc OS;
     l \<leftarrow> layout_from_size_align len 1;
     ma_uncommit OS m s p l }"

subsection \<open>\<open>Lazy\<close>\<close>

text \<open>\<open>init\<close> is \<open>LazyInitializable::init\<close> of the type; \<open>deref\<close> and \<open>deref_mut\<close> have the same
  body.\<close>

record ('p, 't) lazy_val =
  lz_params :: 'p
  lz_val :: "'t option"

definition lazy_new :: "'p \<Rightarrow> ('p, 't) lazy_val" where
  "lazy_new params = \<lparr> lz_params = params, lz_val = None \<rparr>"

definition lazy_clone :: "('p, 't) lazy_val \<Rightarrow> ('p, 't) lazy_val" where
  "lazy_clone z = \<lparr> lz_params = lz_params z, lz_val = None \<rparr>"

definition lazy_deref :: "('p \<Rightarrow> 't) \<Rightarrow> ('p, 't) lazy_val \<Rightarrow> ('p, 't) lazy_val \<times> 't" where
  "lazy_deref init z =
     (case lz_val z of
        None \<Rightarrow> let v = init (lz_params z) in (z\<lparr> lz_val := Some v \<rparr>, v)
      | Some v \<Rightarrow> (z, v))"

subsection \<open>\<open>TypedArray\<close>\<close>

record typed_array =
  ta_data :: ptr
  ta_len :: nat
  ta_mapped :: nat

text \<open>\<open>elem\<close> is \<open>size_of::<T>()\<close>.\<close>

definition typed_array_new :: "'s os_ops \<Rightarrow> 's \<Rightarrow> nat \<Rightarrow> nat \<Rightarrow> ('s \<times> typed_array) option" where
  "typed_array_new OS s elem sz = do {
     bytes \<leftarrow> mul_usize elem sz;
     let rem = bytes mod os_pagesize OS;
     let n_pages = bytes div os_pagesize OS + min 1 rem;
     region_size \<leftarrow> mul_usize n_pages (os_pagesize OS);
     (s', mem) \<leftarrow> elf_map OS s region_size;
     Some (s', \<lparr> ta_data = mem, ta_len = sz, ta_mapped = region_size \<rparr>) }"

definition typed_array_get :: "nat \<Rightarrow> typed_array \<Rightarrow> nat \<Rightarrow> ptr" where
  "typed_array_get elem a n = offset (ta_data a) (elem * n)"

text \<open>The iterator: the array and \<open>cur\<close>.\<close>

definition typed_array_next :: "nat \<Rightarrow> typed_array \<Rightarrow> nat \<Rightarrow> nat \<times> ptr option" where
  "typed_array_next elem a cur =
     (if cur = ta_len a then (cur, None) else (cur + 1, Some (offset (ta_data a) (elem * cur))))"

definition typed_array_destroy :: "'s os_ops \<Rightarrow> 's \<Rightarrow> typed_array \<Rightarrow> 's option" where
  "typed_array_destroy OS s a = elf_unmap OS s (ta_data a) (ta_mapped a)"

subsection \<open>\<open>MmapSource\<close>\<close>

definition mmap_source_new :: "nat \<Rightarrow> nat" where
  "mmap_source_new page_size = next_power_of_two page_size"

definition mod_size :: "usize \<Rightarrow> nat \<Rightarrow> nat" where
  "mod_size x n = unat (x AND (of_nat n - 1))"

text \<open>\<open>unmap_some\<close> is \<open>if len > 0 { unmap(p, len) }\<close>.\<close>

definition unmap_some :: "'s os_ops \<Rightarrow> 's \<Rightarrow> ptr \<Rightarrow> nat \<Rightarrow> 's option" where
  "unmap_some OS s p len = (if 0 < len then elf_unmap OS s p len else Some s)"

definition mmap_carve :: "'s os_ops \<Rightarrow> nat \<Rightarrow> 's \<Rightarrow> nat \<Rightarrow> ('s \<times> ptr option) option" where
  "mmap_carve OS page_size s npages =
     (if page_size \<le> os_pagesize OS
      then mul_usize npages page_size \<bind> fallible_map OS s
      else do {
        target_size \<leftarrow> mul_usize npages page_size;
        req_size \<leftarrow> sum_usize target_size page_size;
        (s1, r) \<leftarrow> fallible_map OS s req_size;
        case r of
          None \<Rightarrow> Some (s1, None)
        | Some mem \<Rightarrow>
            let rem1 = mod_size mem page_size;
                rem2 = page_size - rem1;
                res = offset mem rem2 in
            if mod_size mem (os_pagesize OS) \<noteq> 0 \<or> mod_size res page_size \<noteq> 0 then None
            else do {
              s2 \<leftarrow> unmap_some OS s1 (offset res target_size) rem1;
              s3 \<leftarrow> unmap_some OS s2 mem rem2;
              Some (s3, Some res) } })"

subsection \<open>\<open>Creek\<close>\<close>

text \<open>The bump counter lives in the first page of the mapping, which is zero when the mapping
  is new, and is shared by all clones.\<close>

record creek =
  ck_page_size :: nat
  ck_map_addr :: ptr
  ck_map_size :: nat
  ck_base :: ptr
  ck_bump :: usize

function get_heap :: "'s os_ops \<Rightarrow> 's \<Rightarrow> nat \<Rightarrow> ('s \<times> ptr \<times> nat) option" where
  "get_heap OS s heap_size =
     (if 2 ^ 30 < heap_size then
        case fallible_map OS s heap_size of
          None \<Rightarrow> None
        | Some (s', Some heap) \<Rightarrow> Some (s', heap, heap_size)
        | Some (s', None) \<Rightarrow> get_heap OS s' (heap_size div 2)
      else None)"
  by pat_completeness auto
termination
  by (relation "measure (\<lambda>(OS, s, n). n)") auto

declare get_heap.simps [simp del]

definition creek_new :: "'s os_ops \<Rightarrow> 's \<Rightarrow> nat \<Rightarrow> ('s \<times> creek) option" where
  "creek_new OS s page_size =
     (if is_power_of_two page_size \<and> 8 < page_size then do {
        (s', orig_base, heap_size) \<leftarrow> get_heap OS s (2 * 2 ^ 40);
        let orig_addr = unat orig_base;
        base \<leftarrow> (if orig_addr = 0 then sum_usize orig_addr page_size
                  else if orig_addr mod page_size \<noteq> 0
                       then sum_usize orig_addr (page_size - orig_addr mod page_size)
                       else Some orig_addr);
        real_addr \<leftarrow> sum_usize base page_size;
        Some (s', \<lparr> ck_page_size = page_size, ck_map_addr = orig_base, ck_map_size = heap_size,
                    ck_base = of_nat real_addr, ck_bump = 0 \<rparr>) }
      else None)"

definition creek_carve :: "creek \<Rightarrow> nat \<Rightarrow> (creek \<times> ptr option) option" where
  "creek_carve c npages =
     (let new_bump = ck_bump c; c' = c\<lparr> ck_bump := new_bump + of_nat npages \<rparr> in do {
        n \<leftarrow> sum_usize (unat new_bump) npages;
        total \<leftarrow> mul_usize n (ck_page_size c);
        Some (c', if total < ck_map_size c then Some (offset (ck_base c) (unat new_bump * ck_page_size c))
                  else None) })"

definition creek_contains :: "creek \<Rightarrow> ptr \<Rightarrow> bool option" where
  "creek_contains c it =
     (if unat (ck_base c) \<le> unat it
      then map_option (\<lambda>limit. unat it < limit) (sum_usize (unat (ck_base c)) (ck_map_size c))
      else Some False)"

definition map_addr_drop :: "'s os_ops \<Rightarrow> 's \<Rightarrow> creek \<Rightarrow> 's option" where
  "map_addr_drop OS s c = elf_unmap OS s (ck_map_addr c) (ck_map_size c)"

subsection \<open>Mapping and unmapping pages\<close>

lemma elf_map_alloc_ok: "\<exists>m. elf_map_alloc OS = Some m \<and> ma_pagesize m = os_pagesize OS"
  by (simp add: elf_map_alloc_def builder_build_def builder_exec_def builder_default_def)

lemma layout_bytes: "sz < 2 ^ 64 \<Longrightarrow> layout_from_size_align sz 1 = Some \<lparr> lay_size = sz, lay_align = 1 \<rparr>"
  using is_power_of_two_power [of 0] by (simp add: layout_from_size_align_def)

lemma os_page: "os_contract OS mapped byte \<Longrightarrow> is_power_of_two (os_pagesize OS) \<and> 0 < os_pagesize OS"
  by (auto simp: os_contract_def dest: is_power_of_two_pos)

text \<open>What a successful mapping of \<open>sz\<close> bytes at \<open>p\<close> is.\<close>

definition fresh_map ::
  "nat \<Rightarrow> ('s \<Rightarrow> nat set) \<Rightarrow> ('s \<Rightarrow> nat \<Rightarrow> 8 word) \<Rightarrow> 's \<Rightarrow> 's \<Rightarrow> ptr \<Rightarrow> nat \<Rightarrow> bool" where
  "fresh_map pg mapped byte s s' p sz \<longleftrightarrow>
     page_block pg p sz \<and> pages pg p sz \<inter> mapped s = {} \<and> mapped s' = mapped s \<union> pages pg p sz
     \<and> kept byte s s' (mapped s) \<and> (\<forall>a \<in> pages pg p sz. byte s' a = 0)"

lemma held_one: "held pg [p \<mapsto> l] = pages pg p (lay_size l)"
  by (auto simp: held_def)

lemma fallible_map_cases:
  assumes os: "os_contract OS mapped byte" and sz: "0 < sz" "sz + os_pagesize OS \<le> 2 ^ 64"
  shows "(\<exists>s' p. fallible_map OS s sz = Some (s', Some p) \<and> fresh_map (os_pagesize OS) mapped byte s s' p sz)
    \<or> (\<exists>s'. fallible_map OS s sz = Some (s', None) \<and> mapped s' = mapped s \<and> kept byte s s' (mapped s))"
proof -
  obtain m where m: "elf_map_alloc OS = Some m" "ma_pagesize m = os_pagesize OS" using elf_map_alloc_ok by blast
  have mo: "mmap_os OS mapped byte m" using os m(2) by (simp add: mmap_os_def)
  let ?l = "\<lparr> lay_size = sz, lay_align = 1 \<rparr>"
  have pg: "0 < os_pagesize OS" using os_page [OF os] by blast
  have l: "layout_from_size_align sz 1 = Some ?l" using sz pg by (intro layout_bytes) linarith
  have mp: "mappable (os_pagesize OS) ?l"
    using sz pg is_power_of_two_power [of 0] by (simp add: mappable_def)
  consider s' p where "ma_alloc OS m s ?l = Some (s', Inr p)"
      "blocks_at (os_pagesize OS) (mapped s) [p \<mapsto> ?l] (mapped s')" "kept byte s s' (mapped s)"
      "\<forall>a \<in> pages (os_pagesize OS) p sz. byte s' a = 0"
    | s' where "ma_alloc OS m s ?l = Some (s', Inl (MapExhausted ?l))" "mapped s' = mapped s" "kept byte s s' (mapped s)"
    using alloc_cases [OF mo mp blocks_at_start] by fastforce
  then show ?thesis
  proof cases
    case (1 s' p)
    then have "page_block (os_pagesize OS) p sz"
      using blocks_at_block [OF 1(2), of p ?l] by simp
    with 1 have "fresh_map (os_pagesize OS) mapped byte s s' p sz"
      by (simp add: fresh_map_def blocks_at_def held_one)
    then show ?thesis using 1(1) l by (simp add: fallible_map_def m(1))
  next
    case (2 s')
    then show ?thesis using l by (simp add: fallible_map_def m(1))
  qed
qed

lemma elf_unmap_ok:
  assumes os: "os_contract OS mapped byte" and n: "0 < n" "page_block (os_pagesize OS) p n"
    "pages (os_pagesize OS) p n \<subseteq> mapped s"
  shows "\<exists>s'. elf_unmap OS s p n = Some s' \<and> mapped s' = mapped s - pages (os_pagesize OS) p n
    \<and> kept byte s s' (mapped s')"
proof -
  obtain m where m: "elf_map_alloc OS = Some m" "ma_pagesize m = os_pagesize OS" using elf_map_alloc_ok by blast
  have mo: "mmap_os OS mapped byte m" using os m(2) by (simp add: mmap_os_def)
  have pg: "0 < os_pagesize OS" using os_page [OF os] by blast
  have "p \<noteq> null" using n(2) by (simp add: page_block_def)
  then have "0 < unat p" by (simp add: unat_gt_0)
  then have "n < 2 ^ 64" using n(2) round_up_bounds(1) [OF pg, of n] by (simp add: page_block_def fits_def)
  then show ?thesis using unmap_pages_ok [OF mo n] n(1) layout_bytes [of n] by (simp add: elf_unmap_def m(1) ma_dealloc_def)
qed

lemma unmap_some_ok:
  assumes os: "os_contract OS mapped byte" and n: "os_pagesize OS dvd n"
    "0 < n \<Longrightarrow> os_pagesize OS dvd unat p \<and> p \<noteq> null \<and> fits p n \<and> region p n \<subseteq> mapped s"
  shows "\<exists>s'. unmap_some OS s p n = Some s' \<and> mapped s' = mapped s - region p n \<and> kept byte s s' (mapped s')"
proof (cases "0 < n")
  case True
  have "0 < os_pagesize OS" using os_page [OF os] by blast
  then have "page_block (os_pagesize OS) p n" "pages (os_pagesize OS) p n = region p n"
    using n(1) n(2) [OF True] by (simp_all add: page_block_def pages_def)
  then show ?thesis using elf_unmap_ok [OF os True, of p s] n(2) [OF True] True by (simp add: unmap_some_def)
next
  case False
  then show ?thesis by (simp add: unmap_some_def region_def kept_def)
qed

subsection \<open>\<open>MmapSource\<close>: aligned pages\<close>

lemma mod_size_eq:
  assumes "is_power_of_two n" "n < 2 ^ 64"
  shows "mod_size x n = unat x mod n"
proof -
  define k where "k = ceillog2 n"
  have k: "n = 2 ^ k" using assms(1) by (simp add: is_power_of_two_def k_def)
  then have "k < 64" using assms(2) by (metis one_less_numeral_iff power_less_imp_less_exp semiring_norm(76))
  then have "x AND (of_nat n - 1) = take_bit k x" by (simp add: k take_bit_eq_mask mask_eq_exp_minus_1)
  then show ?thesis by (simp only: mod_size_def k unsigned_take_bit_eq) (simp add: take_bit_eq_mod)
qed

text \<open>Trimming a mapping to its aligned middle part.\<close>

lemma trim_aligned:
  fixes ps a rem1 rem2 :: nat
  assumes "0 < ps" "rem1 = a mod ps" "rem2 = ps - rem1"
  shows "ps dvd a + rem2" "rem1 < ps" "0 < rem2" "rem1 + rem2 = ps"
proof -
  show lt: "rem1 < ps" using assms by simp
  then show "0 < rem2" "rem1 + rem2 = ps" using assms by simp_all
  have "a + rem2 = ps * (a div ps) + ps" using assms(2,3) lt div_mult_mod_eq [of a ps] mult.commute [of ps "a div ps"] by linarith
  then show "ps dvd a + rem2" by simp
qed

text \<open>What \<open>carve\<close> promises: \<open>npages\<close> pages aligned to \<open>ps\<close>, and nothing else mapped.\<close>

lemma carve_small:
  assumes os: "os_contract OS mapped byte" and ps: "is_power_of_two ps" "ps \<le> os_pagesize OS"
    and n: "0 < npages" "npages * ps + os_pagesize OS \<le> 2 ^ 64"
  shows "(\<exists>s' p. mmap_carve OS ps s npages = Some (s', Some p) \<and> ps dvd unat p
        \<and> fresh_map (os_pagesize OS) mapped byte s s' p (npages * ps))
    \<or> (\<exists>s'. mmap_carve OS ps s npages = Some (s', None) \<and> mapped s' = mapped s \<and> kept byte s s' (mapped s))"
proof -
  have pg: "is_power_of_two (os_pagesize OS)" "0 < os_pagesize OS" using os_page [OF os] by blast+
  have "ps dvd os_pagesize OS" using pow2_le_dvd ps pg by blast
  then have al: "ps dvd unat p" if "page_block (os_pagesize OS) p k" for p k
    using that dvd_trans by (auto simp: page_block_def)
  have "npages * ps < 2 ^ 64" using n(2) pg(2) by linarith
  then have eq: "mmap_carve OS ps s npages = fallible_map OS s (npages * ps)"
    using ps(2) by (simp add: mmap_carve_def mul_usize_def)
  have "0 < npages * ps" using n(1) is_power_of_two_pos [OF ps(1)] by simp
  from fallible_map_cases [OF os this n(2), of s] show ?thesis
    unfolding eq by (auto simp: fresh_map_def intro: al)
qed

lemma trim_sets:
  fixes M :: "nat set"
  assumes "{a ..< a + (t + ps)} \<inter> M = {}" "r1 + r2 = ps"
  shows "M \<union> {a ..< a + (t + ps)} - {a + r2 + t ..< a + (t + ps)} - {a ..< a + r2} = M \<union> {a + r2 ..< a + r2 + t}"
proof -
  have "{a ..< a + (t + ps)} = {a ..< a + r2} \<union> {a + r2 ..< a + r2 + t} \<union> {a + r2 + t ..< a + (t + ps)}"
    using assms(2) by auto
  moreover have "{a + r2 ..< a + r2 + t} \<inter> {a ..< a + r2} = {}" "{a + r2 ..< a + r2 + t} \<inter> {a + r2 + t ..< a + (t + ps)} = {}"
    by auto
  ultimately show ?thesis using assms(1) by blast
qed

lemma carve_trims:
  assumes os: "os_contract OS mapped byte" and ps: "is_power_of_two ps" "os_pagesize OS < ps" "ps < 2 ^ 64"
    and mem: "fresh_map (os_pagesize OS) mapped byte s s1 mem (target + ps)" "ps dvd target" "0 < target"
    and rem: "rem1 = unat mem mod ps" "rem2 = ps - rem1"
  shows "\<exists>s2 s3. unmap_some OS s1 (offset (offset mem rem2) target) rem1 = Some s2 \<and> unmap_some OS s2 mem rem2 = Some s3
    \<and> fresh_map (os_pagesize OS) mapped byte s s3 (offset mem rem2) target"
proof -
  let ?pg = "os_pagesize OS" let ?a = "unat mem"
  have pg: "is_power_of_two ?pg" "0 < ?pg" using os_page [OF os] by blast+
  have d: "?pg dvd ps" using pow2_le_dvd ps(1,2) pg(1) less_imp_le by blast
  then have dt: "?pg dvd target" "?pg dvd target + ps" using mem(2) dvd_trans by auto
  note t = trim_aligned [OF is_power_of_two_pos [OF ps(1)] rem]
  have al: "?pg dvd ?a" and lim: "?a + (target + ps) \<le> 2 ^ 64" and nn: "mem \<noteq> null"
    using mem(1) dt(2) pg(2) by (simp_all add: fresh_map_def page_block_def fits_def)
  have fr: "region mem (target + ps) \<inter> mapped s = {}" "mapped s1 = mapped s \<union> region mem (target + ps)"
      "kept byte s s1 (mapped s)" "\<forall>x \<in> region mem (target + ps). byte s1 x = 0"
    using mem(1) dt(2) pg(2) by (simp_all add: fresh_map_def pages_def)
  have d1: "?pg dvd rem1" using d al rem(1) by (simp add: dvd_mod)
  have d2: "?pg dvd rem2" using d d1 rem(2) by (simp add: dvd_diff_nat)
  have ur: "unat (offset mem rem2) = ?a + rem2" using lim mem(3) t(4) by (intro unat_offset) linarith
  have tl: "0 < rem1 \<Longrightarrow> unat (offset (offset mem rem2) target) = ?a + rem2 + target"
    using ur lim t(4) by (subst unat_offset) linarith+
  have rt: "region (offset (offset mem rem2) target) rem1 = {?a + rem2 + target ..< ?a + (target + ps)}"
    using tl t(4) by (cases "0 < rem1") (auto simp: region_def)
  have c1: "?pg dvd unat (offset (offset mem rem2) target) \<and> offset (offset mem rem2) target \<noteq> null
      \<and> fits (offset (offset mem rem2) target) rem1 \<and> {?a + rem2 + target ..< ?a + (target + ps)} \<subseteq> mapped s1" if "0 < rem1"
  proof -
    note u = tl [OF that]
    have "0 < unat (offset (offset mem rem2) target)" unfolding u using mem(3) by simp
    then have "offset (offset mem rem2) target \<noteq> null" by (metis less_irrefl unat_0)
    moreover have "?pg dvd unat (offset (offset mem rem2) target)" unfolding u using al d2 dt(1) by simp
    moreover have "fits (offset (offset mem rem2) target) rem1" unfolding fits_def u using lim t(4) by linarith
    moreover have "{?a + rem2 + target ..< ?a + (target + ps)} \<subseteq> mapped s1" unfolding fr(2) region_def by auto
    ultimately show ?thesis by blast
  qed
  obtain s2 where s2: "unmap_some OS s1 (offset (offset mem rem2) target) rem1 = Some s2"
      "mapped s2 = mapped s1 - {?a + rem2 + target ..< ?a + (target + ps)}" "kept byte s1 s2 (mapped s2)"
    using unmap_some_ok [OF os d1, of "offset (offset mem rem2) target" s1, unfolded rt, OF c1] by blast
  have "region mem rem2 \<subseteq> mapped s2" unfolding s2(2) fr(2) region_def using t(4) by auto
  moreover have "fits mem rem2" unfolding fits_def using lim t(4) by linarith
  ultimately obtain s3 where s3: "unmap_some OS s2 mem rem2 = Some s3"
      "mapped s3 = mapped s2 - region mem rem2" "kept byte s2 s3 (mapped s3)"
    using unmap_some_ok [OF os d2, of mem s2] al nn by blast
  have reg: "region (offset mem rem2) target = {?a + rem2 ..< ?a + rem2 + target}" by (simp add: region_def ur)
  have m3: "mapped s3 = mapped s \<union> region (offset mem rem2) target"
    unfolding s3(2) s2(2) fr(2) reg unfolding region_def by (rule trim_sets [OF fr(1) [unfolded region_def] t(4)])
  have sub: "mapped s3 \<subseteq> mapped s2" "mapped s2 \<subseteq> mapped s1" using s2(2) s3(2) by blast+
  have k: "kept byte s1 s3 (mapped s3)" using s2(3) s3(3) sub unfolding kept_def by (metis subsetD)
  have "kept byte s s3 (mapped s)" using fr(3) k m3 by (simp add: kept_def)
  moreover have "region (offset mem rem2) target \<subseteq> region mem (target + ps)"
    unfolding reg unfolding region_def using t(4) by auto
  then have "\<forall>x \<in> region (offset mem rem2) target. byte s3 x = 0" "region (offset mem rem2) target \<inter> mapped s = {}"
    using fr(1,4) k m3 by (auto simp: kept_def)
  moreover have "0 < unat (offset mem rem2)" unfolding ur using t(3) by simp
  then have "offset mem rem2 \<noteq> null" by (metis less_irrefl unat_0)
  then have "page_block ?pg (offset mem rem2) target"
    using dt(1) pg(2) ur al d2 lim t(4) by (simp add: page_block_def fits_def)
  ultimately show ?thesis using s2(1) s3(1) dt(1) pg(2) m3 by (simp add: fresh_map_def pages_def)
qed

lemma mmap_carve_ok:
  assumes os: "os_contract OS mapped byte" and ps: "is_power_of_two ps"
    and n: "0 < npages" "npages * ps + ps + os_pagesize OS \<le> 2 ^ 64"
  shows "(\<exists>s' p. mmap_carve OS ps s npages = Some (s', Some p) \<and> ps dvd unat p
        \<and> fresh_map (os_pagesize OS) mapped byte s s' p (npages * ps))
    \<or> (\<exists>s'. mmap_carve OS ps s npages = Some (s', None) \<and> mapped s' = mapped s \<and> kept byte s s' (mapped s))"
proof (cases "ps \<le> os_pagesize OS")
  case True
  show ?thesis using n(2) by (intro carve_small [OF os ps True n(1)]) simp
next
  case False
  let ?pg = "os_pagesize OS" let ?t = "npages * ps"
  have pg: "is_power_of_two ?pg" "0 < ?pg" using os_page [OF os] by blast+
  have ps0: "0 < ps" and lt: "ps < 2 ^ 64" "?pg < 2 ^ 64" "0 < ?t"
    using is_power_of_two_pos [OF ps] n pg(2) False by simp_all
  have c: "mul_usize npages ps = Some ?t" "sum_usize ?t ps = Some (?t + ps)"
    using n(2) pg(2) by (simp_all add: mul_usize_def sum_usize_def)
  consider s1 mem where "fallible_map OS s (?t + ps) = Some (s1, Some mem)" "fresh_map ?pg mapped byte s s1 mem (?t + ps)"
    | s1 where "fallible_map OS s (?t + ps) = Some (s1, None)" "mapped s1 = mapped s" "kept byte s s1 (mapped s)"
    using fallible_map_cases [OF os, of "?t + ps" s] ps0 n(2) by blast
  then show ?thesis
  proof cases
    case (1 s1 mem)
    define rem1 where "rem1 = unat mem mod ps"
    define rem2 where "rem2 = ps - rem1"
    obtain s2 s3 where u: "unmap_some OS s1 (offset (offset mem rem2) ?t) rem1 = Some s2" "unmap_some OS s2 mem rem2 = Some s3"
      and f: "fresh_map ?pg mapped byte s s3 (offset mem rem2) ?t"
      using carve_trims [OF os ps _ lt(1) 1(2) _ lt(3) rem1_def rem2_def] False by auto
    have "unat mem + round_up ?pg (?t + ps) \<le> 2 ^ 64"
      using 1(2) by (simp add: fresh_map_def page_block_def fits_def)
    then have lim: "unat mem + rem2 < 2 ^ 64"
      using round_up_bounds(1) [OF pg(2), of "?t + ps"] lt(3) unfolding rem2_def by linarith
    have al: "ps dvd unat (offset mem rem2)"
      using trim_aligned(1) [OF ps0 rem1_def rem2_def] unat_offset [OF lim] by simp
    have a: "mod_size mem ?pg = 0" "mod_size (offset mem rem2) ps = 0" "mod_size mem ps = rem1"
      unfolding mod_size_eq [OF pg(1) lt(2)] mod_size_eq [OF ps lt(1)] using 1(2) al
      by (simp_all add: rem1_def fresh_map_def page_block_def)
    have "mmap_carve OS ps s npages = Some (s3, Some (offset mem rem2))"
      using False c 1(1) a u by (simp add: mmap_carve_def Let_def flip: rem2_def)
    then show ?thesis using f al by blast
  next
    case (2 s1)
    then have "mmap_carve OS ps s npages = Some (s1, None)" using False c by (simp add: mmap_carve_def)
    then show ?thesis using 2 by blast
  qed
qed

subsection \<open>\<open>Creek\<close>: carving from one mapping\<close>

lemma get_heap_ok:
  assumes os: "os_contract OS mapped byte" "2 ^ k + os_pagesize OS \<le> 2 ^ 64"
    and r: "get_heap OS s (2 ^ k) = Some (s', p, n)"
  shows "\<exists>j \<le> k. n = 2 ^ j \<and> 30 < j \<and> fresh_map (os_pagesize OS) mapped byte s s' p n"
  using os(2) r
proof (induction k arbitrary: s)
  case 0
  then show ?case by (simp add: get_heap.simps)
next
  case (Suc k)
  have big: "(2 :: nat) ^ 30 < 2 ^ Suc k" using Suc.prems(2) by (auto simp: get_heap.simps [of OS s] split: if_splits)
  then have k: "30 < Suc k" by (rule power_less_imp_less_exp [rotated]) simp
  consider t q where "fallible_map OS s (2 ^ Suc k) = Some (t, Some q)" "fresh_map (os_pagesize OS) mapped byte s t q (2 ^ Suc k)"
    | t where "fallible_map OS s (2 ^ Suc k) = Some (t, None)" "mapped t = mapped s" "kept byte s t (mapped s)"
    using fallible_map_cases [OF os(1) _ Suc.prems(1), of s] by auto
  then show ?case
  proof cases
    case (1 t q)
    then have "s' = t" "p = q" "n = 2 ^ Suc k" using Suc.prems(2) big by (simp_all add: get_heap.simps [of OS s])
    then show ?thesis using 1(2) k by blast
  next
    case (2 t)
    then have "get_heap OS t (2 ^ k) = Some (s', p, n)" using Suc.prems(2) big by (simp add: get_heap.simps [of OS s])
    moreover have "2 ^ k + os_pagesize OS \<le> 2 ^ 64" using Suc.prems(1) by simp
    ultimately obtain j where "j \<le> k" "n = 2 ^ j" "30 < j" "fresh_map (os_pagesize OS) mapped byte t s' p n"
      using Suc.IH by blast
    moreover from this(4) have "fresh_map (os_pagesize OS) mapped byte s s' p n"
      using 2(2,3) by (simp add: fresh_map_def kept_def)
    ultimately show ?thesis using le_SucI by blast
  qed
qed

lemma creek_new_ok:
  assumes os: "os_contract OS mapped byte" "2 ^ 41 + os_pagesize OS \<le> 2 ^ 64"
    and r: "creek_new OS s ps = Some (s', c)"
  shows "is_power_of_two ps \<and> ck_page_size c = ps \<and> ck_bump c = 0
    \<and> fresh_map (os_pagesize OS) mapped byte s s' (ck_map_addr c) (ck_map_size c)
    \<and> (\<exists>j > 30. ck_map_size c = 2 ^ j)
    \<and> unat (ck_base c) = round_up ps (unat (ck_map_addr c)) + ps"
proof -
  obtain p n b a where h: "get_heap OS s (2 * 2 ^ 40) = Some (s', p, n)" and ps: "is_power_of_two ps" "8 < ps"
    and b: "(if unat p = 0 then sum_usize (unat p) ps else if unat p mod ps \<noteq> 0
               then sum_usize (unat p) (ps - unat p mod ps) else Some (unat p)) = Some b"
    and a: "sum_usize b ps = Some a"
    and c: "c = \<lparr> ck_page_size = ps, ck_map_addr = p, ck_map_size = n, ck_base = of_nat a, ck_bump = 0 \<rparr>"
    using r by (auto simp: creek_new_def Let_def split: if_splits bind_splits)
  have "get_heap OS s (2 ^ 41) = Some (s', p, n)" using h by simp
  from get_heap_ok [OF os this] obtain j where j: "30 < j" "n = 2 ^ j" "fresh_map (os_pagesize OS) mapped byte s s' p n" by blast
  have "p \<noteq> null" using j(3) by (simp add: fresh_map_def page_block_def)
  then have "0 < unat p" by (simp add: unat_gt_0)
  then have b': "b = (if unat p mod ps \<noteq> 0 then unat p + (ps - unat p mod ps) else unat p)"
    using b by (auto simp: sum_usize_def split: if_splits)
  have "round_up ps (unat p) = b"
  proof (cases "unat p mod ps = 0")
    case True
    then show ?thesis using b' ps(2) by (simp add: mod_eq_0_iff_dvd)
  next
    case False
    have "0 < ps" using ps(2) by simp
    note t = trim_aligned [OF this refl refl, of "unat p"]
    show ?thesis unfolding b' using False t by (auto intro!: round_up_eqI)
  qed
  moreover have "a < 2 ^ 64" "a = b + ps" using a by (auto simp: sum_usize_def split: if_splits)
  moreover from this(1) have "unat (of_nat a :: ptr) = a" by (simp add: unat_of_nat)
  ultimately show ?thesis using ps j unfolding c by auto
qed

text \<open>A history of calls of \<open>carve\<close>, by one or several handles: the counter is advanced atomically,
  so the calls are ordered by their steps on it.\<close>

fun creek_run :: "creek \<Rightarrow> nat list \<Rightarrow> (creek \<times> ptr option list) option" where
  "creek_run c [] = Some (c, [])"
| "creek_run c (n # ns) = do {
     (c1, r) \<leftarrow> creek_carve c n;
     (c2, rs) \<leftarrow> creek_run c1 ns;
     Some (c2, r # rs) }"

definition carved :: "creek \<Rightarrow> nat \<Rightarrow> nat \<Rightarrow> ptr option" where
  "carved c b n = (if (b + n) * ck_page_size c < ck_map_size c then Some (offset (ck_base c) (b * ck_page_size c)) else None)"

lemma creek_run_ok:
  assumes "(unat (ck_bump c) + sum_list ns) * ck_page_size c < 2 ^ 64" "0 < ck_page_size c"
  shows "\<exists>c' rs. creek_run c ns = Some (c', rs) \<and> length rs = length ns
    \<and> (\<forall>i < length ns. rs ! i = carved c (unat (ck_bump c) + sum_list (take i ns)) (ns ! i))"
  using assms
proof (induction ns arbitrary: c)
  case Nil
  then show ?case by simp
next
  case (Cons n ns)
  let ?b = "unat (ck_bump c)" and ?ps = "ck_page_size c"
  let ?c = "c\<lparr> ck_bump := ck_bump c + of_nat n \<rparr>"
  have le: "(?b + n) * ?ps \<le> (?b + sum_list (n # ns)) * ?ps" by (intro mult_le_mono1) simp
  have "?b + n \<le> (?b + n) * ?ps" using Cons.prems(2) by simp
  then have lt: "(?b + n) * ?ps < 2 ^ 64" "?b + n < 2 ^ 64" using le Cons.prems(1) by linarith+
  then have u: "unat (ck_bump ?c) = ?b + n" by (simp add: unat_word_ariths unat_of_nat)
  have "creek_carve c n = Some (?c, carved c ?b n)"
    using lt by (simp add: creek_carve_def sum_usize_def mul_usize_def carved_def Let_def)
  moreover obtain c' rs where "creek_run ?c ns = Some (c', rs)" "length rs = length ns"
      "\<forall>i < length ns. rs ! i = carved ?c (?b + n + sum_list (take i ns)) (ns ! i)"
    using Cons.IH [of ?c, unfolded u] Cons.prems by (auto simp: add.assoc)
  moreover have "carved ?c = carved c" by (intro ext) (simp add: carved_def)
  ultimately show ?case by (auto simp: less_Suc_eq_0_disj add.assoc)
qed

lemma sum_list_take_le: "i \<le> j \<Longrightarrow> sum_list (take i ns) \<le> sum_list (take j (ns :: nat list))"
  by (metis le_add1 le_Suc_ex sum_list_append take_add)

lemma sum_list_take_Suc: "i < length ns \<Longrightarrow> sum_list (take (Suc i) ns) = sum_list (take i ns) + (ns ! i :: nat)"
  by (simp add: take_Suc_conv_app_nth)

text \<open>A carved run of pages: its place relative to the mapping.\<close>

lemma carved_place:
  assumes new: "is_power_of_two ps" "ck_page_size c = ps" "ck_map_size c = 2 ^ j"
      "unat (ck_base c) = round_up ps (unat (ck_map_addr c)) + ps" "fits (ck_map_addr c) (ck_map_size c)"
    and p: "carved c b n = Some p" "0 < n"
  shows "ps dvd unat p \<and> unat p = round_up ps (unat (ck_map_addr c)) + ps + b * ps
    \<and> unat p + n * ps \<le> round_up ps (unat (ck_map_addr c)) + ck_map_size c"
proof -
  let ?m = "unat (ck_map_addr c)" let ?r = "round_up ps ?m"
  have ps0: "0 < ps" using new(1) is_power_of_two_pos by blast
  have lt: "(b + n) * ps < 2 ^ j" and pe: "p = offset (ck_base c) (b * ps)"
    using p(1) new(2,3) by (auto simp: carved_def split: if_splits)
  have "ps \<le> (b + n) * ps" using p(2) by simp
  then have "ps \<le> 2 ^ j" using lt by linarith
  then have "ps dvd 2 ^ j" by (rule pow2_le_dvd [OF new(1) is_power_of_two_power])
  then have "ps dvd 2 ^ j - (b + n) * ps" by (intro dvd_diff_nat) simp_all
  then have le: "(b + n) * ps + ps \<le> 2 ^ j" using lt dvd_imp_le [of ps "2 ^ j - (b + n) * ps"] by simp
  moreover have "?r < ?m + ps" "?m + 2 ^ j \<le> 2 ^ 64"
    using round_up_bounds(2) [OF ps0] new(3,5) by (simp_all add: fits_def)
  moreover have "ps \<le> n * ps" using p(2) by simp
  ultimately have "?r + ps + b * ps < 2 ^ 64" unfolding add_mult_distrib by linarith
  then have up: "unat p = ?r + ps + b * ps" unfolding pe using new(4) by (subst unat_offset) simp_all
  have "ps dvd ?r" by (rule round_up_bounds(3) [OF ps0])
  then show ?thesis using up le new(3) by (simp add: add_mult_distrib)
qed

lemma carved_apart:
  assumes "carved c b n = Some p" "carved c b' n' = Some q" "b + n \<le> b'"
    "unat p = z + b * ck_page_size c" "unat q = z + b' * ck_page_size c"
  shows "region p (n * ck_page_size c) \<inter> region q (n' * ck_page_size c) = {}"
proof -
  have "(b + n) * ck_page_size c \<le> b' * ck_page_size c" using assms(3) by (rule mult_le_mono1)
  then show ?thesis using assms(4,5) by (auto simp: region_def add_mult_distrib)
qed

text \<open>Where the blocks of a history lie.\<close>

lemma creek_run_blocks:
  assumes os: "os_contract OS mapped byte" "2 ^ 41 + os_pagesize OS \<le> 2 ^ 64" "creek_new OS s ps = Some (s', c)"
    and ns: "sum_list ns * ps < 2 ^ 64" "0 \<notin> set ns"
  shows "\<exists>c' rs. creek_run c ns = Some (c', rs) \<and> length rs = length ns
    \<and> (\<forall>i p. i < length ns \<longrightarrow> rs ! i = Some p \<longrightarrow>
         carved c (sum_list (take i ns)) (ns ! i) = Some p \<and> ps dvd unat p
         \<and> unat p = round_up ps (unat (ck_map_addr c)) + ps + sum_list (take i ns) * ps
         \<and> unat p + ns ! i * ps \<le> round_up ps (unat (ck_map_addr c)) + ck_map_size c)"
proof -
  obtain k where new: "is_power_of_two ps" "ck_page_size c = ps" "ck_bump c = 0" "ck_map_size c = 2 ^ k"
      "fresh_map (os_pagesize OS) mapped byte s s' (ck_map_addr c) (ck_map_size c)"
      "unat (ck_base c) = round_up ps (unat (ck_map_addr c)) + ps"
    using creek_new_ok [OF os] by blast
  have ps0: "0 < ps" "0 < os_pagesize OS" using is_power_of_two_pos [OF new(1)] os_page [OF os(1)] by blast+
  obtain c' rs where r: "creek_run c ns = Some (c', rs)" "length rs = length ns"
      "\<And>i. i < length ns \<Longrightarrow> rs ! i = carved c (sum_list (take i ns)) (ns ! i)"
    using creek_run_ok [of c ns] new(2,3) ns(1) ps0(1) by auto
  have "fits (ck_map_addr c) (ck_map_size c)"
    using new(5) round_up_bounds(1) [OF ps0(2), of "ck_map_size c"]
    by (simp add: fresh_map_def page_block_def fits_def)
  note place = carved_place [OF new(1,2,4,6) this]
  have "carved c (sum_list (take i ns)) (ns ! i) = Some p \<and> ps dvd unat p
      \<and> unat p = round_up ps (unat (ck_map_addr c)) + ps + sum_list (take i ns) * ps
      \<and> unat p + ns ! i * ps \<le> round_up ps (unat (ck_map_addr c)) + ck_map_size c"
    if i: "i < length ns" "rs ! i = Some p" for i p
  proof -
    have "0 < ns ! i" using ns(2) nth_mem [OF i(1)] by (metis gr0I)
    moreover have "carved c (sum_list (take i ns)) (ns ! i) = Some p" using r(3) [OF i(1)] i(2) by simp
    ultimately show ?thesis using place by blast
  qed
  then show ?thesis using r(1,2) by blast
qed

end
