(* ===== verification/Source_Claims.thy ===== *)
theory Source_Claims
  imports Elf_Sources Sim_Os
begin

text \<open>
  The properties of the memory sources of \<open>elfmalloc\<close>, \<open>MmapSource\<close> and \<open>Creek\<close>, and their
  witnesses over the operating system of \<open>Sim_Os\<close>.
\<close>

text \<open>C31.  \<open>MmapSource::carve\<close> returns, when it returns memory, fresh zeroed pages aligned to its page size;
  exactly the pages of the request become mapped, whatever had to be mapped and trimmed on the way, and nothing
  that was mapped changes.  When it returns nothing the mapped memory is as before.  It does not panic.\<close>

theorem mmap_source_carve:
  assumes "os_contract OS mapped byte" "ps = mmap_source_new n"
    "0 < npages" "npages * ps + ps + os_pagesize OS \<le> 2 ^ 64"
  shows "\<exists>s' r. mmap_carve OS ps s npages = Some (s', r) \<and> kept byte s s' (mapped s)
    \<and> (case r of
         None \<Rightarrow> mapped s' = mapped s
       | Some p \<Rightarrow> p \<noteq> null \<and> ps dvd unat p \<and> mapped s' = mapped s \<union> pages (os_pagesize OS) p (npages * ps)
           \<and> pages (os_pagesize OS) p (npages * ps) \<inter> mapped s = {}
           \<and> (\<forall>a \<in> region p (npages * ps). byte s' a = 0))"
proof -
  have ps: "is_power_of_two ps" using assms(2) by (simp add: mmap_source_new_def)
  have sub: "region p k \<subseteq> pages (os_pagesize OS) p k" for p k
    using round_up_bounds(1) os_page [OF assms(1)] by (auto simp: pages_def region_def intro: less_le_trans)
  consider s' p where "mmap_carve OS ps s npages = Some (s', Some p)" "ps dvd unat p"
      "fresh_map (os_pagesize OS) mapped byte s s' p (npages * ps)"
    | s' where "mmap_carve OS ps s npages = Some (s', None)" "mapped s' = mapped s" "kept byte s s' (mapped s)"
    using mmap_carve_ok [OF assms(1) ps assms(3,4), of s] by blast
  then show ?thesis
  proof cases
    case (1 s' p)
    then have "\<forall>a \<in> region p (npages * ps). byte s' a = 0" using sub [of p "npages * ps"] unfolding fresh_map_def by blast
    then show ?thesis using 1 by (simp add: fresh_map_def page_block_def)
  next
    case (2 s')
    then show ?thesis by simp
  qed
qed

theorem mmap_source_carve_witness:
  "\<exists>s' r. mmap_carve sim_os 8192 sim_start 3 = Some (s', r)
    \<and> (case r of None \<Rightarrow> sim_mapped s' = {} | Some p \<Rightarrow> 8192 dvd unat p \<and> sim_mapped s' = pages 4096 p 24576)"
proof -
  have "is_power_of_two 8192" using is_power_of_two_power [of 13] by simp
  then have p: "8192 = mmap_source_new 8192" by (simp add: mmap_source_new_def next_power_of_two_def is_power_of_two_def)
  have e: "sim_mapped sim_start = {}" "os_pagesize sim_os = 4096" by (simp_all add: sim_mapped_def sim_start_def sim_os_def)
  have n: "0 < (3 :: nat)" "3 * 8192 + 8192 + os_pagesize sim_os \<le> 2 ^ 64" by (simp_all add: e)
  obtain s' r where "mmap_carve sim_os 8192 sim_start 3 = Some (s', r)"
      "case r of None \<Rightarrow> sim_mapped s' = {} | Some p \<Rightarrow> p \<noteq> null \<and> 8192 dvd unat p
         \<and> sim_mapped s' = {} \<union> pages 4096 p (3 * 8192) \<and> pages 4096 p (3 * 8192) \<inter> {} = {}
         \<and> (\<forall>a \<in> region p (3 * 8192). sim_byte s' a = 0)"
    using mmap_source_carve [OF sim_contract p n, of sim_start, unfolded e] by blast
  then show ?thesis by (cases r) simp_all
qed

text \<open>C32.  The runs of pages that calls of \<open>Creek::carve\<close> return, in any order of the calls of all
  handles, are aligned to the page size and apart from each other; and when the mapping happens to be aligned to
  the page size they all lie in the mapping, which was fresh and zeroed.\<close>

theorem creek_history:
  assumes "os_contract OS mapped byte" "2 ^ 41 + os_pagesize OS \<le> 2 ^ 64" "creek_new OS s ps = Some (s', c)"
    "sum_list ns * ps < 2 ^ 64" "0 \<notin> set ns"
  shows "\<exists>c' rs. creek_run c ns = Some (c', rs) \<and> length rs = length ns
    \<and> (\<forall>i p. i < length ns \<longrightarrow> rs ! i = Some p \<longrightarrow> ps dvd unat p \<and>
         (ps dvd unat (ck_map_addr c) \<longrightarrow> region p (ns ! i * ps) \<subseteq> mapped s' - mapped s
            \<and> (\<forall>a \<in> region p (ns ! i * ps). byte s' a = 0)))
    \<and> (\<forall>i j p q. i < j \<longrightarrow> j < length ns \<longrightarrow> rs ! i = Some p \<longrightarrow> rs ! j = Some q \<longrightarrow>
         region p (ns ! i * ps) \<inter> region q (ns ! j * ps) = {})"
proof -
  have new: "ck_page_size c = ps" "is_power_of_two ps"
      "fresh_map (os_pagesize OS) mapped byte s s' (ck_map_addr c) (ck_map_size c)"
    using creek_new_ok [OF assms(1-3)] by blast+
  have ps0: "0 < ps" "0 < os_pagesize OS" using is_power_of_two_pos [OF new(2)] os_page [OF assms(1)] by blast+
  let ?b = "\<lambda>i. sum_list (take i ns)" let ?m = "unat (ck_map_addr c)"
  obtain c' rs where r: "creek_run c ns = Some (c', rs)" "length rs = length ns"
    and at: "\<And>i p. i < length ns \<Longrightarrow> rs ! i = Some p \<Longrightarrow> carved c (?b i) (ns ! i) = Some p \<and> ps dvd unat p
        \<and> unat p = round_up ps ?m + ps + ?b i * ps \<and> unat p + ns ! i * ps \<le> round_up ps ?m + ck_map_size c"
    using creek_run_blocks [OF assms] by metis
  have inside: "region p (ns ! i * ps) \<subseteq> mapped s' - mapped s \<and> (\<forall>a \<in> region p (ns ! i * ps). byte s' a = 0)"
    if i: "i < length ns" "rs ! i = Some p" "ps dvd ?m" for i p
  proof -
    have "region p (ns ! i * ps) \<subseteq> pages (os_pagesize OS) (ck_map_addr c) (ck_map_size c)"
      using at [OF i(1,2)] i(3) ps0(1) round_up_bounds(1) [OF ps0(2), of "ck_map_size c"]
      by (auto simp: pages_def region_def)
    then show ?thesis using new(3) unfolding fresh_map_def by blast
  qed
  have apart: "region p (ns ! i * ps) \<inter> region q (ns ! j * ps) = {}"
    if ij: "i < j" "j < length ns" "rs ! i = Some p" "rs ! j = Some q" for i j p q
  proof -
    have i: "i < length ns" using ij by simp
    have "?b i + ns ! i \<le> ?b j" using sum_list_take_le [of "Suc i" j ns] ij(1) sum_list_take_Suc [OF i] by simp
    with at [OF i ij(3)] at [OF ij(2,4)] show ?thesis
      using carved_apart [of c "?b i" "ns ! i" p "?b j" "ns ! j" q "round_up ps ?m + ps"] new(1) by simp
  qed
  show ?thesis using r at inside apart by (intro exI [of _ c'] exI [of _ rs] conjI) blast+
qed

lemma sim_creek:
  "\<exists>s'. creek_new sim_os sim_start 8192 = Some (s', \<lparr> ck_page_size = 8192, ck_map_addr = 4096, ck_map_size = 2 ^ 41,
     ck_base = 16384, ck_bump = 0 \<rparr>)"
proof -
  obtain m where m: "elf_map_alloc sim_os = Some m" "ma_pagesize m = 4096"
    using elf_map_alloc_ok [of sim_os] by (auto simp: sim_os_def)
  have l: "layout_from_size_align 2199023255552 1 = Some \<lparr> lay_size = 2199023255552, lay_align = 1 \<rparr>"
    by (rule layout_bytes) simp
  have os: "os_mmap sim_os = sim_mmap" by (simp add: sim_os_def)
  have mm: "\<exists>s'. sim_mmap sim_start h 2199023255552 prot flags = (s', Inr 4096)" for h prot flags
    by (simp add: sim_mmap_def sim_start_def)
  obtain s' where "sim_mmap sim_start null 2199023255552 (ma_perms m) (c_MAP_ANONYMOUS sim_os OR c_MAP_PRIVATE sim_os
      OR (if ma_commit m then c_MAP_POPULATE sim_os else 0)) = (s', Inr 4096)"
    using mm by blast
  then have "map_pages sim_os sim_start 2199023255552 (ma_perms m) (ma_commit m) = Some (s', Some 4096)"
    unfolding map_pages_def os Let_def by simp
  then have "ma_alloc sim_os m sim_start \<lparr> lay_size = 2199023255552, lay_align = 1 \<rparr> = Some (s', Inr 4096)"
    by (simp add: ma_alloc_def m(2) next_multiple_def)
  then have f: "fallible_map sim_os sim_start 2199023255552 = Some (s', Some 4096)"
    using l by (simp add: fallible_map_def m(1))
  have "get_heap sim_os sim_start 2199023255552 = Some (s', 4096, 2199023255552)"
    unfolding get_heap.simps [of sim_os sim_start] f by simp
  moreover have "is_power_of_two 8192" using is_power_of_two_power [of 13] by simp
  ultimately show ?thesis by (simp add: creek_new_def sum_usize_def)
qed

theorem creek_history_witness:
  "\<exists>s' c c' rs. creek_new sim_os sim_start 8192 = Some (s', c) \<and> creek_run c [1, 2, 5] = Some (c', rs) \<and> length rs = 3
    \<and> (\<forall>p q. rs ! 0 = Some p \<longrightarrow> rs ! 2 = Some q \<longrightarrow> region p 8192 \<inter> region q 40960 = {})"
proof -
  obtain s' c where c: "creek_new sim_os sim_start 8192 = Some (s', c)" using sim_creek by blast
  have "2 ^ 41 + os_pagesize sim_os \<le> 2 ^ 64" by (simp add: sim_os_def)
  from creek_history [OF sim_contract this c, of "[1, 2, 5]"] obtain c' rs where
    r: "creek_run c [1, 2, 5] = Some (c', rs)" "length rs = 3"
    and a: "\<forall>i j p q. i < j \<longrightarrow> j < length [1, 2, 5 :: nat] \<longrightarrow> rs ! i = Some p \<longrightarrow> rs ! j = Some q \<longrightarrow>
         region p ([1, 2, 5] ! i * 8192) \<inter> region q ([1, 2, 5] ! j * 8192) = {}"
    by auto
  have "region p 8192 \<inter> region q 40960 = {}" if "rs ! 0 = Some p" "rs ! 2 = Some q" for p q
    using a [rule_format, of 0 2 p q] that by simp
  then show ?thesis using c r by blast
qed

text \<open>C33.  When the mapping is not aligned to the page size of a \<open>Creek\<close>, the bound of \<open>carve\<close> is too
  weak: a request for all but one page of the heap succeeds, and the pages returned reach beyond the mapping, by
  as many bytes as were skipped at its start.\<close>

theorem creek_overruns_map:
  assumes "os_contract OS mapped byte" "2 ^ 41 + os_pagesize OS \<le> 2 ^ 64" "creek_new OS s ps = Some (s', c)"
    "ps \<le> 2 ^ 30" "\<not> ps dvd unat (ck_map_addr c)"
  shows "\<exists>c' p n. creek_carve c n = Some (c', Some p) \<and> 0 < n
    \<and> unat p + n * ps = unat (ck_map_addr c) + ck_map_size c + (ps - unat (ck_map_addr c) mod ps)"
proof -
  let ?m = "unat (ck_map_addr c)"
  obtain k where new: "is_power_of_two ps" "ck_page_size c = ps" "ck_bump c = 0" "30 < k" "ck_map_size c = 2 ^ k"
      "unat (ck_base c) = round_up ps ?m + ps" "fresh_map (os_pagesize OS) mapped byte s s' (ck_map_addr c) (ck_map_size c)"
    using creek_new_ok [OF assms(1-3)] by blast
  have ps0: "0 < ps" using is_power_of_two_pos [OF new(1)] by blast
  note t = trim_aligned [OF ps0 refl refl, of ?m]
  have "0 < ?m mod ps" using assms(5) by (simp add: dvd_eq_mod_eq_0)
  then have ru: "round_up ps ?m = ?m + (ps - ?m mod ps)" using t by (intro round_up_eqI ps0) auto
  have "(2 :: nat) ^ 31 \<le> 2 ^ k" using new(4) by (intro power_increasing) simp_all
  then have big: "2 * ps \<le> 2 ^ k" using assms(4) by simp
  then have "ps dvd 2 ^ k" by (intro pow2_le_dvd [OF new(1) is_power_of_two_power]) simp
  then obtain d where d: "2 ^ k = d * ps" by (metis dvdE mult.commute)
  have "2 \<le> d" using big ps0 unfolding d by simp
  have "?m \<noteq> 0" using \<open>0 < ?m mod ps\<close> by (metis less_irrefl mod_0)
  moreover have "?m + 2 ^ k \<le> 2 ^ 64"
    using new(5,7) round_up_bounds(1) [of "os_pagesize OS" "2 ^ k"] os_page [OF assms(1)]
    by (auto simp: fresh_map_def page_block_def fits_def)
  ultimately have lt: "d * ps < 2 ^ 64" unfolding d by linarith
  have le: "(d - 1) * ps < d * ps" "d - 1 \<le> d * ps" using \<open>2 \<le> d\<close> ps0
    by (simp, metis diff_le_self le_trans mult_le_mono2 mult.right_neutral Suc_leI One_nat_def)
  have "creek_carve c (d - 1) = Some (c\<lparr> ck_bump := 0 + of_nat (d - 1) \<rparr>, Some (ck_base c))"
    using le(1) less_trans [OF le(1) lt] le_less_trans [OF le(2) lt] new(2,3,5)
    unfolding d creek_carve_def sum_usize_def mul_usize_def Let_def by simp
  moreover have "(d - 1) * ps + ps = d * ps" using \<open>2 \<le> d\<close> by (simp add: diff_mult_distrib)
  then have "unat (ck_base c) + (d - 1) * ps = ?m + ck_map_size c + (ps - ?m mod ps)"
    unfolding new(5,6) ru d by linarith
  ultimately show ?thesis using \<open>2 \<le> d\<close> by (intro exI [of _ "c\<lparr> ck_bump := 0 + of_nat (d - 1) \<rparr>"] exI [of _ "ck_base c"] exI [of _ "d - 1"]) simp
qed

theorem creek_overruns_map_witness:
  "\<exists>s' c c' p n. creek_new sim_os sim_start 8192 = Some (s', c) \<and> creek_carve c n = Some (c', Some p)
    \<and> unat p + n * 8192 = 4096 + 2 ^ 41 + 4096"
proof -
  let ?c = "\<lparr> ck_page_size = 8192, ck_map_addr = 4096, ck_map_size = 2 ^ 41, ck_base = 16384, ck_bump = 0 \<rparr>"
  obtain s' where c: "creek_new sim_os sim_start 8192 = Some (s', ?c)" using sim_creek by blast
  have b: "2 ^ 41 + os_pagesize sim_os \<le> 2 ^ 64" by (simp add: sim_os_def)
  have u: "unat (ck_map_addr ?c) = 4096" "ck_map_size ?c = 2 ^ 41" by simp_all
  have a: "(8192 :: nat) \<le> 2 ^ 30" "\<not> (8192 :: nat) dvd unat (ck_map_addr ?c)" unfolding u by simp_all
  obtain c' p n where "creek_carve ?c n = Some (c', Some p)" "unat p + n * 8192 = 4096 + 2 ^ 41 + (8192 - 4096 mod 8192)"
    using creek_overruns_map [OF sim_contract b c a] unfolding u by blast
  moreover have "8192 - 4096 mod 8192 = (4096 :: nat)" by simp
  ultimately show ?thesis using c by metis
qed

end
