(* ===== verification/Size_Classes.thy ===== *)
theory Size_Classes
  imports Elf_Sources
begin

text \<open>
  The size classes of \<open>src/elfmalloc/src/general.rs\<close>: the maps \<open>Multiples\<close>, \<open>PowersOfTwo\<close> and
  \<open>TieredSizeClasses\<close> from a size to the allocator of the smallest class that holds it.  A map
  owns a \<open>TypedArray\<close> of \<open>Elf_Sources\<close>; next to the array's address the model keeps the items
  written to it.  The constructor closure is a function on a state.  \<open>None\<close> is a panic: a failed
  assertion, a sum, product or difference outside \<open>usize\<close>, or memory that cannot be mapped.
\<close>

subsection \<open>Arithmetic on sizes\<close>

definition sub_usize :: "nat \<Rightarrow> nat \<Rightarrow> nat option" where
  "sub_usize a b = (if b \<le> a then Some (a - b) else None)"

definition multiple :: nat where
  "multiple = 16"

definition elf_page_size :: nat where
  "elf_page_size = 2 * 2 ^ 20"

definition elf_small_page_size :: nat where
  "elf_small_page_size = 256 * 2 ^ 10"

definition elf_small_cutoff :: nat where
  "elf_small_cutoff = elf_small_page_size div 4"

definition class_round :: "nat \<Rightarrow> nat option" where
  "class_round n = map_option (\<lambda>k. unat ((of_nat k :: usize) AND NOT (of_nat (multiple - 1))))
     (sum_usize n (multiple - 1))"

definition next_pow2 :: "nat \<Rightarrow> nat option" where
  "next_pow2 n = (if next_power_of_two n < 2 ^ 64 then Some (next_power_of_two n) else None)"

subsection \<open>The maps\<close>

text \<open>The loops that fill an array: \<open>f\<close> makes the item of a class from its size, \<open>next\<close> gives
  the size of the following class.\<close>

fun fill_classes ::
  "(nat \<Rightarrow> nat option) \<Rightarrow> ('f \<Rightarrow> nat \<Rightarrow> 'f \<times> 't) \<Rightarrow> nat \<Rightarrow> nat \<Rightarrow> 'f \<Rightarrow> ('f \<times> 't list \<times> nat) option" where
  "fill_classes next f 0 cur st = Some (st, [], cur)"
| "fill_classes next f (Suc n) cur st =
     (let (st1, t) = f st cur in do {
        cur1 \<leftarrow> next cur;
        (st2, ts, cur2) \<leftarrow> fill_classes next f n cur1 st1;
        Some (st2, t # ts, cur2) })"

record 't classes =
  cl_starting_size :: nat
  cl_max_size :: nat
  cl_array :: typed_array
  cl_items :: "'t list"

definition multiples_init ::
  "'s os_ops \<Rightarrow> nat \<Rightarrow> ('f \<Rightarrow> nat \<Rightarrow> 'f \<times> 't) \<Rightarrow> 's \<Rightarrow> 'f \<Rightarrow> nat \<Rightarrow> nat \<Rightarrow> ('s \<times> 'f \<times> 't classes) option" where
  "multiples_init OS elem f s st start n_classes =
     (if n_classes < 1 then None
      else do {
        starting_size \<leftarrow> class_round start;
        bytes \<leftarrow> mul_usize n_classes multiple;
        top \<leftarrow> sum_usize bytes starting_size;
        (s1, arr) \<leftarrow> typed_array_new OS s elem n_classes;
        (st1, items, cur_size) \<leftarrow> fill_classes (\<lambda>c. sum_usize c multiple) f n_classes starting_size st;
        if top - multiple \<noteq> cur_size - multiple then None
        else Some (s1, st1, \<lparr> cl_starting_size = starting_size, cl_max_size = top - multiple,
                              cl_array = arr, cl_items = items \<rparr>) })"

definition multiples_index :: "'t classes \<Rightarrow> nat \<Rightarrow> nat option" where
  "multiples_index c n = do {
     class \<leftarrow> class_round n;
     if class \<le> cl_max_size c
     then map_option (\<lambda>d. d div multiple) (sub_usize class (cl_starting_size c))
     else None }"

definition powers_init ::
  "'s os_ops \<Rightarrow> nat \<Rightarrow> ('f \<Rightarrow> nat \<Rightarrow> 'f \<times> 't) \<Rightarrow> 's \<Rightarrow> 'f \<Rightarrow> nat \<Rightarrow> nat \<Rightarrow> ('s \<times> 'f \<times> 't classes) option" where
  "powers_init OS elem f s st start n_classes = do {
     starting_size \<leftarrow> next_pow2 start;
     (s1, arr) \<leftarrow> typed_array_new OS s elem n_classes;
     (st1, items, cur_size) \<leftarrow> fill_classes (\<lambda>c. mul_usize c 2) f n_classes starting_size st;
     Some (s1, st1, \<lparr> cl_starting_size = starting_size, cl_max_size = cur_size div 2,
                      cl_array = arr, cl_items = items \<rparr>) }"

definition powers_index :: "'t classes \<Rightarrow> nat \<Rightarrow> nat option" where
  "powers_index c k =
     (if k \<le> cl_max_size c then do {
        p \<leftarrow> next_pow2 k;
        log \<leftarrow> sub_usize (trailing_zeros p) (trailing_zeros (cl_starting_size c));
        if log < ta_len (cl_array c) then Some log else None }
      else None)"

text \<open>\<open>get_raw\<close> is the address of the item at an index, \<open>get\<close> reads it.\<close>

definition class_raw :: "nat \<Rightarrow> 't classes \<Rightarrow> nat \<Rightarrow> ptr" where
  "class_raw elem c i = typed_array_get elem (cl_array c) i"

definition class_get :: "'t classes \<Rightarrow> nat \<Rightarrow> 't option" where
  "class_get c i = (if i < length (cl_items c) then Some (cl_items c ! i) else None)"

record 't tiered =
  tr_word :: "'t option"
  tr_small :: "'t classes"
  tr_medium :: "'t classes"

text \<open>\<open>w\<close> says whether the build has the class of 8 bytes (it has, except for the C interface on
  systems whose smallest alignment is 16).\<close>

definition tiered_init ::
  "bool \<Rightarrow> 's os_ops \<Rightarrow> nat \<Rightarrow> ('f \<Rightarrow> nat \<Rightarrow> 'f \<times> 't) \<Rightarrow> 's \<Rightarrow> 'f \<Rightarrow> nat \<Rightarrow> nat \<Rightarrow> ('s \<times> 'f \<times> 't tiered) option" where
  "tiered_init w OS elem f s st start n_classes = do {
     avail \<leftarrow> sub_usize (elf_small_cutoff div multiple) (start div multiple);
     let n_small = min avail (n_classes div 2);
     let n_medium = n_classes - n_small;
     (s1, st1, small) \<leftarrow> multiples_init OS elem f s st start n_small;
     first \<leftarrow> sum_usize (cl_max_size small) 1;
     (s2, st2, medium) \<leftarrow> powers_init OS elem f s1 st1 first n_medium;
     let (st3, word) = (if w then (case f st2 8 of (st', t) \<Rightarrow> (st', Some t)) else (st2, None));
     Some (s2, st3, \<lparr> tr_word = word, tr_small = small, tr_medium = medium \<rparr>) }"

definition tiered_get :: "bool \<Rightarrow> 't tiered \<Rightarrow> nat \<Rightarrow> 't option" where
  "tiered_get w t n =
     (if w \<and> n \<le> 8 then tr_word t
      else if n \<le> cl_max_size (tr_small t) then multiples_index (tr_small t) n \<bind> class_get (tr_small t)
      else powers_index (tr_medium t) n \<bind> class_get (tr_medium t))"

definition tiered_max_key :: "'t tiered \<Rightarrow> nat" where
  "tiered_max_key t = cl_max_size (tr_medium t)"

text \<open>The items \<open>foreach\<close> visits, in order.\<close>

definition tiered_foreach :: "'t tiered \<Rightarrow> 't list" where
  "tiered_foreach t = (case tr_word t of Some r \<Rightarrow> [r] | None \<Rightarrow> [])
     @ cl_items (tr_small t) @ cl_items (tr_medium t)"

text \<open>\<open>Drop\<close> of \<open>DynamicAllocator\<close>: every item is dropped, then the two arrays are unmapped; \<open>d\<close>
  is the drop of an item.\<close>

definition tiered_drop :: "'s os_ops \<Rightarrow> ('s \<Rightarrow> 't \<Rightarrow> 's) \<Rightarrow> 's \<Rightarrow> 't tiered \<Rightarrow> ('s \<times> 't tiered) option" where
  "tiered_drop OS d s t = do {
     let s1 = fold (\<lambda>x s. d s x) (tiered_foreach t) s;
     s2 \<leftarrow> typed_array_destroy OS s1 (cl_array (tr_medium t));
     s3 \<leftarrow> typed_array_destroy OS s2 (cl_array (tr_small t));
     Some (s3, t\<lparr> tr_word := None \<rparr>) }"

subsection \<open>What the maps hold\<close>

lemma class_round_eq:
  assumes "n + 15 < 2 ^ 64"
  shows "class_round n = Some (16 * ((n + 15) div 16))"
proof -
  have m: "(of_nat (2 ^ 4) :: usize) - 1 = of_nat (multiple - 1)" by (simp add: multiple_def)
  have "unat ((of_nat (n + 15) :: usize) AND NOT (of_nat (multiple - 1))) = 2 ^ 4 * (unat (of_nat (n + 15) :: usize) div 2 ^ 4)"
    unfolding m [symmetric] by (rule word_and_not_mask) simp
  moreover have "unat (of_nat (n + 15) :: usize) = n + 15" using assms unat_of_nat [of "n + 15", where 'a = 64] by simp
  ultimately show ?thesis using assms by (simp add: class_round_def sum_usize_def multiple_def)
qed

lemma fill_classes_ok:
  assumes "fill_classes nxt f n (g j) st = Some (st', ts, c)"
    and nxt: "\<And>i c. nxt (g i) = Some c \<Longrightarrow> c = g (Suc i) \<and> c < 2 ^ 64"
    and cls: "\<And>\<sigma> k. class_of (snd (f \<sigma> k)) = k"
  shows "map class_of ts = map g [j..<j + n] \<and> c = g (j + n) \<and> (0 < n \<longrightarrow> c < 2 ^ 64)"
  using assms(1)
proof (induction n arbitrary: j st ts)
  case 0
  then show ?case by simp
next
  case (Suc n)
  obtain st1 t where t: "f st (g j) = (st1, t)" by fastforce
  obtain c1 ts2 where c1: "nxt (g j) = Some c1" and r: "fill_classes nxt f n c1 st1 = Some (st', ts2, c)" "ts = t # ts2"
    using Suc.prems t by (auto split: bind_splits)
  have "class_of t = g j" using cls [of st "g j"] t by simp
  moreover have "map class_of ts2 = map g [Suc j..<Suc j + n] \<and> c = g (Suc j + n) \<and> (0 < n \<longrightarrow> c < 2 ^ 64)"
    using Suc.IH r(1) nxt [OF c1] by blast
  moreover have "[j..<j + Suc n] = j # [Suc j..<Suc j + n]" by (simp add: upt_conv_Cons del: upt_Suc)
  ultimately show ?case using nxt [OF c1] by (cases n) (simp_all add: r(2) del: upt_Suc)
qed

lemma fill_classes_total:
  assumes "\<And>i. i < n \<Longrightarrow> nxt (g (j + i)) = Some (g (Suc (j + i)))"
  shows "\<exists>st' ts. fill_classes nxt f n (g j) st = Some (st', ts, g (j + n))"
  using assms
proof (induction n arbitrary: j st)
  case 0
  then show ?case by simp
next
  case (Suc n)
  have "nxt (g j) = Some (g (Suc j))" using Suc.prems [of 0] by simp
  moreover have "nxt (g (Suc j + i)) = Some (g (Suc (Suc j + i)))" if "i < n" for i using Suc.prems [of "Suc i"] that by simp
  then obtain st' ts where "fill_classes nxt f n (g (Suc j)) (fst (f st (g j))) = Some (st', ts, g (Suc j + n))"
    using Suc.IH by blast
  ultimately show ?case by (simp add: case_prod_beta)
qed

text \<open>The shape of an initialised map: \<open>a\<close> multiples of 16, then \<open>b\<close> powers of two from the first
  that exceeds them.\<close>

definition tiered_wf :: "('t \<Rightarrow> nat) \<Rightarrow> bool \<Rightarrow> nat \<Rightarrow> nat \<Rightarrow> nat \<Rightarrow> 't tiered \<Rightarrow> bool" where
  "tiered_wf class_of w a q b t \<longleftrightarrow> 0 < a \<and> 0 < b \<and> 16 * a + 15 < 2 ^ 64 \<and> 2 ^ (q + b) < (2 :: nat) ^ 64
     \<and> next_power_of_two (16 * a + 1) = 2 ^ q
     \<and> cl_starting_size (tr_small t) = 16 \<and> cl_max_size (tr_small t) = 16 * a
     \<and> map class_of (cl_items (tr_small t)) = map (\<lambda>i. 16 * (i + 1)) [0..<a]
     \<and> cl_starting_size (tr_medium t) = 2 ^ q \<and> cl_max_size (tr_medium t) = 2 ^ (q + b - 1)
     \<and> ta_len (cl_array (tr_medium t)) = b \<and> map class_of (cl_items (tr_medium t)) = map (\<lambda>i. 2 ^ (q + i)) [0..<b]
     \<and> (if w then map_option class_of (tr_word t) = Some 8 else tr_word t = None)"

lemma typed_array_new_len: "typed_array_new OS s elem n = Some (s', a) \<Longrightarrow> ta_len a = n"
  by (auto simp: typed_array_new_def Let_def split: bind_splits)

lemma multiples_init_ok:
  assumes "multiples_init OS elem f s st start n = Some (s', st', c)" "0 < start" "start \<le> 16"
    and cls: "\<And>\<sigma> k. class_of (snd (f \<sigma> k)) = k"
  shows "0 < n \<and> 16 * n + 16 < 2 ^ 64 \<and> cl_starting_size c = 16 \<and> cl_max_size c = 16 * n
    \<and> map class_of (cl_items c) = map (\<lambda>i. 16 * (i + 1)) [0..<n]"
proof -
  have "class_round start = Some 16" using assms(2,3) by (simp add: class_round_eq)
  then obtain arr items cur where n: "0 < n" "n * 16 + 16 < 2 ^ 64"
    and fill: "fill_classes (\<lambda>c. sum_usize c multiple) f n 16 st = Some (st', items, cur)"
    and c: "c = \<lparr> cl_starting_size = 16, cl_max_size = n * 16, cl_array = arr, cl_items = items \<rparr>"
    using assms(1) by (auto simp: multiples_init_def mul_usize_def sum_usize_def multiple_def split: if_splits bind_splits)
  have "map class_of items = map (\<lambda>i. 16 * (i + 1)) [0..<0 + n] \<and> cur = 16 * (0 + n + 1) \<and> (0 < n \<longrightarrow> cur < 2 ^ 64)"
    using fill cls by (intro fill_classes_ok [where g = "\<lambda>i. 16 * (i + 1)"]) (auto simp: sum_usize_def multiple_def split: if_splits)
  then show ?thesis using n by (simp add: c mult.commute)
qed

lemma powers_init_ok:
  assumes "powers_init OS elem f s st start n = Some (s', st', c)"
    and cls: "\<And>\<sigma> k. class_of (snd (f \<sigma> k)) = k"
  shows "\<exists>q. next_power_of_two start = 2 ^ q \<and> (0 < n \<longrightarrow> 2 ^ (q + n) < (2 :: nat) ^ 64) \<and> cl_starting_size c = 2 ^ q \<and> cl_max_size c = 2 ^ (q + n) div 2
    \<and> ta_len (cl_array c) = n \<and> map class_of (cl_items c) = map (\<lambda>i. 2 ^ (q + i)) [0..<n]"
proof -
  obtain q where q: "next_power_of_two start = 2 ^ q" by (simp add: next_power_of_two_def)
  then obtain arr items cur where lt: "2 ^ q < (2 :: nat) ^ 64"
    and fill: "fill_classes (\<lambda>c. mul_usize c 2) f n (2 ^ q) st = Some (st', items, cur)"
    and arr: "\<exists>s'. typed_array_new OS s elem n = Some (s', arr)"
    and c: "c = \<lparr> cl_starting_size = 2 ^ q, cl_max_size = cur div 2, cl_array = arr, cl_items = items \<rparr>"
    using assms(1) by (auto simp: powers_init_def next_pow2_def split: if_splits bind_splits)
  have it: "map class_of items = map (\<lambda>i. 2 ^ (q + i)) [0..<0 + n] \<and> cur = 2 ^ (q + (0 + n)) \<and> (0 < n \<longrightarrow> cur < 2 ^ 64)"
    using fill cls by (intro fill_classes_ok [where g = "\<lambda>i. 2 ^ (q + i)"]) (auto simp: mul_usize_def split: if_splits)
  have "ta_len arr = n" using arr by (auto dest: typed_array_new_len)
  moreover have "0 < n \<longrightarrow> 2 ^ (q + n) < (2 :: nat) ^ 64" using it by (metis add_0)
  ultimately show ?thesis using q it by (intro exI [of _ q]) (simp add: c)
qed

lemma tiered_init_ok:
  assumes init: "tiered_init w OS elem f s st start n = Some (s', st', t)" and start: "0 < start" "start \<le> 16"
    and cls: "\<And>\<sigma> k. class_of (snd (f \<sigma> k)) = k"
  shows "\<exists>a q b. a + b = n \<and> tiered_wf class_of w a q b t"
proof -
  define a where "a = min (elf_small_cutoff div multiple - start div multiple) (n div 2)"
  obtain s1 st1 small st2 medium where m: "multiples_init OS elem f s st start a = Some (s1, st1, small)"
    and p: "powers_init OS elem f s1 st1 (cl_max_size small + 1) (n - a) = Some (s', st2, medium)"
    and t: "t = \<lparr> tr_word = (if w then Some (snd (f st2 8)) else None), tr_small = small, tr_medium = medium \<rparr>"
    using init by (auto simp: tiered_init_def sub_usize_def sum_usize_def a_def Let_def split: bind_splits if_splits prod.splits)
  note mo = multiples_init_ok [OF m start, of class_of, OF cls]
  obtain q where po: "next_power_of_two (16 * a + 1) = 2 ^ q" "0 < n - a \<longrightarrow> 2 ^ (q + (n - a)) < (2 :: nat) ^ 64"
      "cl_starting_size medium = 2 ^ q" "cl_max_size medium = 2 ^ (q + (n - a)) div 2" "ta_len (cl_array medium) = n - a"
      "map class_of (cl_items medium) = map (\<lambda>i. 2 ^ (q + i)) [0..<n - a]"
    using powers_init_ok [OF p, of class_of, OF cls] mo by auto
  have "a \<le> n div 2" by (simp add: a_def)
  moreover have "0 < a" using mo by blast
  ultimately have b: "0 < n - a" "a + (n - a) = n" by linarith+
  then have "(2 :: nat) ^ (q + (n - a)) div 2 = 2 ^ (q + (n - a) - 1)" by (cases "n - a") simp_all
  then have "tiered_wf class_of w a q (n - a) t"
    using mo po b cls by (simp add: tiered_wf_def t)
  then show ?thesis using b(2) by blast
qed

subsection \<open>Looking up a size\<close>

lemma nth_of_map:
  assumes "map class_of ts = map g [0..<n]" "i < n"
  shows "i < length ts" "class_of (ts ! i) = g i"
proof -
  have "length ts = n" using arg_cong [OF assms(1), of length] by simp
  moreover have "map class_of ts ! i = map g [0..<n] ! i" by (simp only: assms(1))
  ultimately show "i < length ts" "class_of (ts ! i) = g i"
    using assms(2) by (simp_all add: nth_map [of i ts])
qed

lemma small_lookup:
  assumes wf: "tiered_wf class_of w a q b t" and n: "0 < n" "n \<le> 16 * a"
  shows "\<exists>x \<in> set (cl_items (tr_small t)). (multiples_index (tr_small t) n \<bind> class_get (tr_small t)) = Some x
    \<and> class_of x = 16 * ((n + 15) div 16)"
proof -
  let ?c = "16 * ((n + 15) div 16)" let ?i = "(n + 15) div 16 - 1"
  have lim: "n + 15 < 2 ^ 64" using wf n(2) by (simp add: tiered_wf_def)
  have i: "?i < a" "16 \<le> ?c" "?c \<le> 16 * a" "(?c - 16) div 16 = ?i" "16 * (?i + 1) = ?c"
    using n div_mult_mod_eq [of "n + 15" 16] mod_less_divisor [of 16 "n + 15"] by auto
  note at = nth_of_map [OF _ i(1), of class_of "cl_items (tr_small t)" "\<lambda>i. 16 * (i + 1)"]
  have items: "map class_of (cl_items (tr_small t)) = map (\<lambda>i. 16 * (i + 1)) [0..<a]" using wf by (simp add: tiered_wf_def)
  have "multiples_index (tr_small t) n = Some ?i"
    using wf i by (simp add: multiples_index_def class_round_eq [OF lim] tiered_wf_def sub_usize_def multiple_def)
  then show ?thesis using at [OF items] i(5) by (intro bexI [of _ "cl_items (tr_small t) ! ?i"]) (simp_all add: class_get_def)
qed

lemma medium_lookup:
  assumes wf: "tiered_wf class_of w a q b t" and n: "16 * a < n" "n \<le> 2 ^ (q + b - 1)"
  shows "\<exists>x \<in> set (cl_items (tr_medium t)). (powers_index (tr_medium t) n \<bind> class_get (tr_medium t)) = Some x
    \<and> class_of x = next_power_of_two n"
proof -
  obtain k where k: "next_power_of_two n = 2 ^ k" by (simp add: next_power_of_two_def)
  have wf': "0 < b" "2 ^ (q + b) < (2 :: nat) ^ 64" "next_power_of_two (16 * a + 1) = 2 ^ q"
      "cl_starting_size (tr_medium t) = 2 ^ q" "cl_max_size (tr_medium t) = 2 ^ (q + b - 1)"
      "ta_len (cl_array (tr_medium t)) = b" "map class_of (cl_items (tr_medium t)) = map (\<lambda>i. 2 ^ (q + i)) [0..<b]"
    using wf by (simp_all add: tiered_wf_def)
  have "2 ^ q \<le> (2 :: nat) ^ k"
    using next_power_of_two_least [of "2 ^ k" "16 * a + 1"] next_power_of_two_ge [of n] n(1) wf'(3) k by simp
  then have qk: "q \<le> k" by simp
  have "(2 :: nat) ^ k \<le> 2 ^ (q + b - 1)" using next_power_of_two_least [OF _ n(2)] k by simp
  then have kb: "k \<le> q + b - 1" by simp
  then have i: "k - q < b" using wf'(1) qk by linarith
  have "(2 :: nat) ^ k \<le> 2 ^ (q + b)" using kb by (intro power_increasing) simp_all
  then have "(2 :: nat) ^ k < 2 ^ 64" using wf'(2) by (rule le_less_trans)
  then have "powers_index (tr_medium t) n = Some (k - q)"
    using wf' n(2) k qk i by (simp add: powers_index_def next_pow2_def sub_usize_def)
  then show ?thesis using nth_of_map [OF wf'(7) i] qk
    by (intro bexI [of _ "cl_items (tr_medium t) ! (k - q)"]) (simp_all add: class_get_def k)
qed

lemma tiered_sizes:
  assumes wf: "tiered_wf class_of w a q b t" and y: "y \<in> set (tiered_foreach t)"
  shows "(w \<and> class_of y = 8) \<or> (\<exists>i < a. class_of y = 16 * (i + 1)) \<or> (\<exists>i. class_of y = 2 ^ (q + i))"
proof -
  have mem: "\<exists>i < m. class_of y = g i" if "map class_of ts = map g [0..<m]" "y \<in> set ts" for ts m and g :: "nat \<Rightarrow> nat"
  proof -
    have "class_of y \<in> set (map class_of ts)" using that(2) by simp
    then show ?thesis unfolding that(1) by auto
  qed
  consider "tr_word t = Some y" | "y \<in> set (cl_items (tr_small t))" | "y \<in> set (cl_items (tr_medium t))"
    using y by (auto simp: tiered_foreach_def split: option.splits)
  then show ?thesis
  proof cases
    case 1
    then show ?thesis using wf by (auto simp: tiered_wf_def split: if_splits)
  next
    case 2
    then show ?thesis using mem [of _ "\<lambda>i. 16 * (i + 1)" a] wf unfolding tiered_wf_def by blast
  next
    case 3
    then show ?thesis using mem [of _ "\<lambda>i. 2 ^ (q + i)" b] wf unfolding tiered_wf_def by blast
  qed
qed

text \<open>The item of a size is that of the least class that holds it, and the size of the class leads
  back to the item.\<close>

definition best_class :: "('t \<Rightarrow> nat) \<Rightarrow> bool \<Rightarrow> 't tiered \<Rightarrow> nat \<Rightarrow> 't \<Rightarrow> bool" where
  "best_class class_of w t n x \<longleftrightarrow> tiered_get w t n = Some x \<and> x \<in> set (tiered_foreach t) \<and> n \<le> class_of x
     \<and> (\<forall>y \<in> set (tiered_foreach t). n \<le> class_of y \<longrightarrow> class_of x \<le> class_of y)
     \<and> tiered_get w t (class_of x) = Some x"

lemma medium_above:
  assumes "tiered_wf class_of w a q b t"
  shows "16 * a < 2 ^ (q + i)"
proof -
  have "16 * a + 1 \<le> 2 ^ q" using assms next_power_of_two_ge [of "16 * a + 1"] by (simp add: tiered_wf_def)
  moreover have "(2 :: nat) ^ q \<le> 2 ^ (q + i)" by (intro power_increasing) simp_all
  ultimately show ?thesis by linarith
qed

lemma best_class_word:
  assumes wf: "tiered_wf class_of True a q b t" and n: "n \<le> 8"
  shows "\<exists>x. best_class class_of True t n x"
proof -
  obtain x where x: "tr_word t = Some x" "class_of x = 8" "0 < a" using wf by (auto simp: tiered_wf_def)
  have "8 \<le> class_of y" if "y \<in> set (tiered_foreach t)" for y
    using tiered_sizes [OF wf that]
  proof (elim disjE exE conjE)
    fix i assume "class_of y = 2 ^ (q + i)"
    then show ?thesis using medium_above [OF wf, of i] x(3) by linarith
  qed auto
  then show ?thesis using x n
    by (intro exI [of _ x]) (auto simp: best_class_def tiered_get_def tiered_foreach_def)
qed

lemma best_class_small:
  assumes wf: "tiered_wf class_of w a q b t" and n: "0 < n" "w \<longrightarrow> 8 < n" "n \<le> 16 * a"
  shows "\<exists>x. best_class class_of w t n x"
proof -
  let ?c = "16 * ((n + 15) div 16)"
  obtain x where x: "x \<in> set (cl_items (tr_small t))" "(multiples_index (tr_small t) n \<bind> class_get (tr_small t)) = Some x" "class_of x = ?c"
    using small_lookup [OF wf n(1,3)] by blast
  have max: "cl_max_size (tr_small t) = 16 * a" and lim: "16 * a + 15 < 2 ^ 64" using wf by (simp_all add: tiered_wf_def)
  have c: "n \<le> ?c" "?c \<le> 16 * a" "(?c + 15) div 16 = (n + 15) div 16"
    using n(3) div_mult_mod_eq [of "n + 15" 16] mod_less_divisor [of 16 "n + 15"] by auto
  have "class_round ?c = class_round n" using c n(3) lim by (simp add: class_round_eq)
  then have "multiples_index (tr_small t) ?c = multiples_index (tr_small t) n" by (simp add: multiples_index_def)
  then have g: "tiered_get w t n = Some x" "tiered_get w t (class_of x) = Some x"
    using x(2,3) n c max by (auto simp: tiered_get_def)
  have "?c \<le> class_of y" if "y \<in> set (tiered_foreach t)" "n \<le> class_of y" for y
  proof -
    from tiered_sizes [OF wf that(1)] consider "w" "class_of y = 8" | i where "class_of y = 16 * (i + 1)" | i where "class_of y = 2 ^ (q + i)"
      by blast
    then show ?thesis
    proof cases
      case (2 i)
      then have "n + 15 < 16 * (i + 2)" using that(2) by simp
      then have "(n + 15) div 16 < i + 2" by (simp add: less_mult_imp_div_less)
      then have "(n + 15) div 16 \<le> i + 1" by simp
      then show ?thesis unfolding 2 by (rule mult_le_mono2)
    next
      case (3 i)
      then show ?thesis using medium_above [OF wf, of i] c(2) by linarith
    qed (use n(2) that(2) in simp)
  qed
  then show ?thesis using g x(1,3) c(1) by (intro exI [of _ x]) (auto simp: best_class_def tiered_foreach_def)
qed

lemma best_class_medium:
  assumes wf: "tiered_wf class_of w a q b t" and n: "16 * a < n" "n \<le> 2 ^ (q + b - 1)"
  shows "\<exists>x. best_class class_of w t n x"
proof -
  let ?c = "next_power_of_two n"
  obtain x where x: "x \<in> set (cl_items (tr_medium t))" "(powers_index (tr_medium t) n \<bind> class_get (tr_medium t)) = Some x" "class_of x = ?c"
    using medium_lookup [OF wf n] by blast
  have max: "cl_max_size (tr_small t) = 16 * a" "cl_max_size (tr_medium t) = 2 ^ (q + b - 1)" and a: "0 < a"
    using wf by (simp_all add: tiered_wf_def)
  have c: "n \<le> ?c" "?c \<le> 2 ^ (q + b - 1)" "next_power_of_two ?c = ?c"
    using next_power_of_two_ge [of n] next_power_of_two_least [OF _ n(2)] next_power_of_two_least [of ?c ?c]
      next_power_of_two_ge [of ?c] by (auto intro: antisym)
  then have "powers_index (tr_medium t) ?c = powers_index (tr_medium t) n"
    using n(2) max by (simp add: powers_index_def next_pow2_def)
  then have g: "tiered_get w t n = Some x" "tiered_get w t (class_of x) = Some x"
    using x(2,3) n c(1) max a by (auto simp: tiered_get_def)
  have "?c \<le> class_of y" if "y \<in> set (tiered_foreach t)" "n \<le> class_of y" for y
    using tiered_sizes [OF wf that(1)]
  proof (elim disjE exE conjE)
    fix i assume "class_of y = 2 ^ (q + i)"
    then show ?thesis using next_power_of_two_least [of "2 ^ (q + i)" n] that(2) by simp
  qed (use n(1) a that(2) in auto)
  then show ?thesis using g x(1,3) c(1) by (intro exI [of _ x]) (auto simp: best_class_def tiered_foreach_def)
qed

lemma best_class_ok:
  assumes wf: "tiered_wf class_of w a q b t" and n: "n \<le> tiered_max_key t" "w \<or> 0 < n"
  shows "\<exists>x. best_class class_of w t n x"
proof -
  have "n \<le> 2 ^ (q + b - 1)" using n(1) wf by (simp add: tiered_max_key_def tiered_wf_def)
  note medium = best_class_medium [OF wf _ this]
  consider "w" "n \<le> 8" | "0 < n" "w \<longrightarrow> 8 < n" "n \<le> 16 * a" | "16 * a < n" using n(2) by linarith
  then show ?thesis
  proof cases
    case 1
    then show ?thesis using best_class_word [of class_of a q b t n] wf by simp
  qed (auto intro: best_class_small [OF wf] medium)
qed

end
