(* ===== verification/Large_Alloc.thy ===== *)
theory Large_Alloc
  imports Size_Classes Slag_Meta
begin

text \<open>
  Allocations beyond the largest size class, the module \<open>large_alloc\<close> of
  \<open>src/elfmalloc/src/general.rs\<close>, and the lookup of the kind of an allocation from its address.
  The headers written into mapped memory are a store from addresses to \<open>AllocInfo\<close>; unmapping a
  region drops its entries, and reading an address without a header is undefined behaviour, so
  \<open>None\<close>, as are panics.
\<close>

record alloc_info =
  ai_ty :: alloc_type
  ai_base :: ptr
  ai_region_size :: nat

record 's large_state =
  lg_os :: 's
  lg_info :: "ptr \<Rightarrow> alloc_info option"

definition round_to_page :: "ptr \<Rightarrow> ptr" where
  "round_to_page item = item AND NOT (of_nat elf_page_size - 1)"

definition get_commitment_mut :: "ptr \<Rightarrow> ptr" where
  "get_commitment_mut item = round_to_page (item - 1)"

definition get_type :: "'s large_state \<Rightarrow> ptr \<Rightarrow> alloc_type option" where
  "get_type st item = map_option ai_ty (lg_info st (round_to_page (item - 1)))"

definition get_commitment :: "'s large_state \<Rightarrow> ptr \<Rightarrow> (nat \<times> ptr) option" where
  "get_commitment st item =
     map_option (\<lambda>i. (ai_region_size i, ai_base i)) (lg_info st (get_commitment_mut item))"

definition large_get_size :: "'s large_state \<Rightarrow> ptr \<Rightarrow> nat option" where
  "large_get_size st item = do { (n, base) \<leftarrow> get_commitment st item; sub_usize n elf_page_size }"

definition large_alloc :: "'s os_ops \<Rightarrow> 's large_state \<Rightarrow> nat \<Rightarrow> ('s large_state \<times> ptr) option" where
  "large_alloc OS st sz = do {
     region_size \<leftarrow> sum_usize sz elf_page_size;
     let n_pages = region_size div elf_small_cutoff + min 1 (region_size mod elf_small_cutoff);
     (s1, r) \<leftarrow> mmap_carve OS (mmap_source_new elf_small_cutoff) (lg_os st) n_pages;
     mem \<leftarrow> r;
     let res = offset mem elf_page_size;
     let st1 = \<lparr> lg_os = s1, lg_info = (lg_info st)(get_commitment_mut res \<mapsto>
                   \<lparr> ai_ty = LargeType, ai_base = mem, ai_region_size = region_size \<rparr>) \<rparr>;
     if mem = null \<or> unat mem mod elf_small_cutoff \<noteq> 0 \<or> unat mem mod 4096 \<noteq> 0 \<or> unat res mod 4096 \<noteq> 0
        \<or> get_commitment st1 res \<noteq> Some (sz + elf_page_size, mem)
     then None else Some (st1, res) }"

text \<open>In a debug build \<open>free\<close> first writes a byte to the block it is about to unmap.\<close>

definition large_free :: "'s os_ops \<Rightarrow> 's large_state \<Rightarrow> ptr \<Rightarrow> 's large_state option" where
  "large_free OS st item = do {
     (n, base) \<leftarrow> get_commitment st item;
     if n = 0 \<and> base = null then Some st
     else if unat base mod os_pagesize OS \<noteq> 0 then None
     else do {
       s1 \<leftarrow> elf_unmap OS (lg_os st) base n;
       Some \<lparr> lg_os = s1, lg_info = (\<lambda>a. if unat a \<in> region base n then None else lg_info st a) \<rparr> } }"

subsection \<open>Headers\<close>

lemma elf_sizes: "elf_page_size = 2 ^ 21" "elf_small_cutoff = 2 ^ 16" "mmap_source_new (2 ^ 16) = 2 ^ 16"
proof -
  show c: "elf_page_size = 2 ^ 21" "elf_small_cutoff = 2 ^ 16"
    by (simp_all add: elf_page_size_def elf_small_cutoff_def elf_small_page_size_def)
  show "mmap_source_new (2 ^ 16) = 2 ^ 16"
    by (simp only: mmap_source_new_def next_power_of_two_def ceillog2_2_power)
qed

text \<open>The header of a block lies in the two megabytes before it, at least one small cutoff away, so
  that it fits.\<close>

lemma header_place:
  assumes al: "2 ^ 16 dvd unat mem" and lim: "unat mem + 2 ^ 21 < 2 ^ 64"
  shows "unat mem \<le> unat (get_commitment_mut (offset mem (2 ^ 21)))"
    "unat (get_commitment_mut (offset mem (2 ^ 21))) + 2 ^ 16 \<le> unat mem + 2 ^ 21"
proof -
  let ?r = "offset mem (2 ^ 21)" let ?h = "2 ^ 21 * ((unat mem + 2 ^ 21 - 1) div 2 ^ 21)"
  have u: "unat ?r = unat mem + 2 ^ 21" using lim by (rule unat_offset)
  then have "?r \<noteq> 0" by auto
  then have u1: "unat (?r - 1) = unat mem + 2 ^ 21 - 1" using u unat_minus_one by metis
  have m: "(of_nat elf_page_size :: ptr) = of_nat (2 ^ 21)" by (simp only: elf_sizes)
  have h: "unat (get_commitment_mut ?r) = ?h"
    unfolding get_commitment_mut_def round_to_page_def m using word_and_not_mask [of 21 "?r - 1"] u1 by simp
  have eq: "?h + (unat mem + 2 ^ 21 - 1) mod 2 ^ 21 = unat mem + 2 ^ 21 - 1" by (rule mult_div_mod_eq)
  have md: "(unat mem + 2 ^ 21 - 1) mod 2 ^ 21 < 2 ^ 21" by simp
  have le: "unat mem \<le> ?h" "?h < unat mem + 2 ^ 21" using eq md by linarith+
  show "unat mem \<le> unat (get_commitment_mut ?r)" using le h by simp
  have "(2 :: nat) ^ 16 dvd 2 ^ 21" by (rule le_imp_power_dvd) simp
  then have "2 ^ 16 dvd ?h" "2 ^ 16 dvd unat mem + 2 ^ 21" using al by auto
  then have "2 ^ 16 dvd unat mem + 2 ^ 21 - ?h" by (rule dvd_diff_nat [rotated])
  then have "2 ^ 16 \<le> unat mem + 2 ^ 21 - ?h" using le(2) by (intro dvd_imp_le) simp_all
  then show "unat (get_commitment_mut ?r) + 2 ^ 16 \<le> unat mem + 2 ^ 21" using h le(2) by linarith
qed

definition large_pages :: "nat \<Rightarrow> nat" where
  "large_pages n = (n + 2 ^ 21) div 2 ^ 16 + min 1 ((n + 2 ^ 21) mod 2 ^ 16)"

lemma pages_cover:
  fixes x m :: nat
  assumes "0 < m"
  shows "x \<le> (x div m + min 1 (x mod m)) * m" "(x div m + min 1 (x mod m)) * m < x + m"
proof -
  note e = div_mult_mod_eq [of x m] mod_less_divisor [OF assms, of x]
  show "x \<le> (x div m + min 1 (x mod m)) * m" "(x div m + min 1 (x mod m)) * m < x + m"
  proof (atomize (full), cases "x mod m = 0")
    case True
    then show "x \<le> (x div m + min 1 (x mod m)) * m \<and> (x div m + min 1 (x mod m)) * m < x + m" using e assms by simp
  next
    case False
    then have "min 1 (x mod m) = 1" by simp
    then show "x \<le> (x div m + min 1 (x mod m)) * m \<and> (x div m + min 1 (x mod m)) * m < x + m"
      using e False unfolding add_mult_distrib by linarith
  qed
qed

lemma large_pages_bounds: "n + 2 ^ 21 \<le> large_pages n * 2 ^ 16" "large_pages n * 2 ^ 16 < n + 2 ^ 21 + 2 ^ 16" "0 < large_pages n"
proof -
  have "0 < (2 :: nat) ^ 16" by simp
  from pages_cover [OF this, of "n + 2 ^ 21"]
  show a: "n + 2 ^ 21 \<le> large_pages n * 2 ^ 16" "large_pages n * 2 ^ 16 < n + 2 ^ 21 + 2 ^ 16"
    unfolding large_pages_def by simp_all
  then show "0 < large_pages n" by (cases "large_pages n") simp_all
qed

text \<open>Sizes for which no computation overflows.\<close>

definition large_fits :: "nat \<Rightarrow> nat \<Rightarrow> bool" where
  "large_fits pg n \<longleftrightarrow> 0 < n \<and> n + 2 ^ 21 + 2 * 2 ^ 16 + pg \<le> 2 ^ 64"

lemma large_alloc_cases:
  assumes os: "os_contract OS mapped byte" and pg: "2 ^ 12 \<le> os_pagesize OS" and n: "large_fits (os_pagesize OS) n"
  shows "(\<exists>s' mem. large_alloc OS st n = Some (\<lparr> lg_os = s', lg_info = (lg_info st)(get_commitment_mut (offset mem (2 ^ 21)) \<mapsto>
            \<lparr> ai_ty = LargeType, ai_base = mem, ai_region_size = n + 2 ^ 21 \<rparr>) \<rparr>, offset mem (2 ^ 21))
          \<and> 2 ^ 16 dvd unat mem \<and> fresh_map (os_pagesize OS) mapped byte (lg_os st) s' mem (large_pages n * 2 ^ 16))
    \<or> (large_alloc OS st n = None \<and> (\<exists>s'. mmap_carve OS (2 ^ 16) (lg_os st) (large_pages n) = Some (s', None)))"
proof -
  have lim: "large_pages n * 2 ^ 16 + 2 ^ 16 + os_pagesize OS \<le> 2 ^ 64"
    using n large_pages_bounds(2) [of n] by (simp add: large_fits_def)
  have "n + 2 ^ 21 < 2 ^ 64" using n pg by (simp add: large_fits_def)
  then have eq: "large_alloc OS st n = (case mmap_carve OS (2 ^ 16) (lg_os st) (large_pages n) of
      None \<Rightarrow> None | Some (s1, None) \<Rightarrow> None | Some (s1, Some mem) \<Rightarrow>
        if mem = null \<or> unat mem mod 2 ^ 16 \<noteq> 0 \<or> unat mem mod 4096 \<noteq> 0 \<or> unat (offset mem (2 ^ 21)) mod 4096 \<noteq> 0 then None
        else Some (\<lparr> lg_os = s1, lg_info = (lg_info st)(get_commitment_mut (offset mem (2 ^ 21)) \<mapsto>
            \<lparr> ai_ty = LargeType, ai_base = mem, ai_region_size = n + 2 ^ 21 \<rparr>) \<rparr>, offset mem (2 ^ 21)))"
    unfolding large_alloc_def Let_def elf_sizes large_pages_def sum_usize_def get_commitment_def
    by (auto split: option.splits bind_splits)
  from mmap_carve_ok [OF os is_power_of_two_power large_pages_bounds(3) lim, of "lg_os st"] show ?thesis
  proof (elim disjE exE conjE)
    fix s' mem assume c: "mmap_carve OS (2 ^ 16) (lg_os st) (large_pages n) = Some (s', Some mem)" "2 ^ 16 dvd unat mem"
      "fresh_map (os_pagesize OS) mapped byte (lg_os st) s' mem (large_pages n * 2 ^ 16)"
    have "(2 :: nat) ^ 12 dvd 2 ^ 16" "(2 :: nat) ^ 12 dvd 2 ^ 21" by (rule le_imp_power_dvd, simp)+
    then have d: "4096 dvd unat mem" "4096 dvd (2 :: nat) ^ 21" using c(2) dvd_trans by auto
    have "mem \<noteq> null" "unat mem + large_pages n * 2 ^ 16 \<le> 2 ^ 64"
      using c(3) round_up_bounds(1) [of "os_pagesize OS" "large_pages n * 2 ^ 16"] pg
      by (auto simp: fresh_map_def page_block_def fits_def)
    then have "unat mem + 2 ^ 21 < 2 ^ 64" using large_pages_bounds(1) [of n] n by (simp add: large_fits_def)
    then have "unat (offset mem (2 ^ 21)) = unat mem + 2 ^ 21" by (rule unat_offset)
    then have "4096 dvd unat (offset mem (2 ^ 21))" using d by simp
    then have "large_alloc OS st n = Some (\<lparr> lg_os = s', lg_info = (lg_info st)(get_commitment_mut (offset mem (2 ^ 21)) \<mapsto>
            \<lparr> ai_ty = LargeType, ai_base = mem, ai_region_size = n + 2 ^ 21 \<rparr>) \<rparr>, offset mem (2 ^ 21))"
      using d(1) c(1,2) \<open>mem \<noteq> null\<close> unfolding eq by (simp add: dvd_eq_mod_eq_0)
    then show ?thesis using c(2,3) by blast
  next
    fix s' assume "mmap_carve OS (2 ^ 16) (lg_os st) (large_pages n) = Some (s', None)"
    then show ?thesis by (simp add: eq)
  qed
qed

subsection \<open>Histories\<close>

text \<open>Where the mapping of a block starts, and the memory it occupies.\<close>

definition large_base :: "ptr \<Rightarrow> ptr" where
  "large_base p = p - of_nat (2 ^ 21)"

definition large_extent :: "nat \<Rightarrow> ptr \<Rightarrow> nat \<Rightarrow> nat set" where
  "large_extent pg p n = pages pg (large_base p) (large_pages n * 2 ^ 16)"

lemma large_base_offset: "large_base (offset mem (2 ^ 21)) = mem" "offset (large_base p) (2 ^ 21) = p"
  by (simp_all add: large_base_def offset_def)

definition large_at :: "nat \<Rightarrow> nat set \<Rightarrow> (ptr \<Rightarrow> alloc_info option) \<Rightarrow> ptr \<Rightarrow> nat \<Rightarrow> bool" where
  "large_at pg M info p n \<longleftrightarrow> large_fits pg n \<and> 2 ^ 16 dvd unat (large_base p)
     \<and> page_block pg (large_base p) (large_pages n * 2 ^ 16) \<and> large_extent pg p n \<subseteq> M
     \<and> info (get_commitment_mut p) = Some \<lparr> ai_ty = LargeType, ai_base = large_base p, ai_region_size = n + 2 ^ 21 \<rparr>"

definition large_inv :: "nat \<Rightarrow> nat set \<Rightarrow> nat set \<Rightarrow> (ptr \<Rightarrow> alloc_info option) \<Rightarrow> (ptr \<Rightarrow> nat option) \<Rightarrow> bool" where
  "large_inv pg M0 M info live \<longleftrightarrow> M0 \<subseteq> M \<and> (\<forall>p n. live p = Some n \<longrightarrow> large_at pg (M - M0) info p n)
     \<and> (\<forall>p n q k. live p = Some n \<longrightarrow> live q = Some k \<longrightarrow> p \<noteq> q \<longrightarrow> large_extent pg p n \<inter> large_extent pg q k = {})"

text \<open>What a block looks like from outside.\<close>

lemma large_at_place:
  assumes a: "large_at pg M info p n" and pg: "0 < pg"
  shows "unat p = unat (large_base p) + 2 ^ 21" "unat (large_base p) + 2 ^ 21 + n \<le> 2 ^ 64"
    "unat (get_commitment_mut p) \<in> large_extent pg p n" "region p n \<subseteq> large_extent pg p n"
    "pages pg (large_base p) (n + 2 ^ 21) \<subseteq> large_extent pg p n" "page_block pg (large_base p) (n + 2 ^ 21)"
    "unat (get_commitment_mut p) \<in> region (large_base p) (n + 2 ^ 21)" "2 ^ 16 dvd unat p"
proof -
  let ?m = "unat (large_base p)"
  have n: "0 < n" and al: "2 ^ 16 dvd ?m" using a by (simp_all add: large_at_def large_fits_def)
  note b = large_pages_bounds(1) [of n]
  have "round_up pg (n + 2 ^ 21) \<le> round_up pg (large_pages n * 2 ^ 16)"
    using b round_up_bounds [OF pg, of "large_pages n * 2 ^ 16"] padding_needed_for_least [OF pg, of "round_up pg (large_pages n * 2 ^ 16)" "n + 2 ^ 21"]
    by (simp add: round_up_def)
  moreover have f: "?m + round_up pg (large_pages n * 2 ^ 16) \<le> 2 ^ 64" "large_base p \<noteq> null" "pg dvd ?m"
    using a by (simp_all add: large_at_def page_block_def fits_def)
  ultimately show "pages pg (large_base p) (n + 2 ^ 21) \<subseteq> large_extent pg p n" "page_block pg (large_base p) (n + 2 ^ 21)"
    by (auto simp: large_extent_def pages_def region_def page_block_def fits_def)
  have up: "large_pages n * 2 ^ 16 \<le> round_up pg (large_pages n * 2 ^ 16)" by (rule round_up_bounds(1) [OF pg])
  show lim: "?m + 2 ^ 21 + n \<le> 2 ^ 64" using f(1) up b by linarith
  then have lt: "?m + 2 ^ 21 < 2 ^ 64" using n by linarith
  show p: "unat p = ?m + 2 ^ 21" using unat_offset [OF lt] unfolding large_base_offset .
  note h = header_place [OF al lt, unfolded large_base_offset]
  show "unat (get_commitment_mut p) \<in> large_extent pg p n" "region p n \<subseteq> large_extent pg p n"
    "unat (get_commitment_mut p) \<in> region (large_base p) (n + 2 ^ 21)"
    using h p b up by (auto simp: large_extent_def pages_def region_def)
  have "(2 :: nat) ^ 16 dvd 2 ^ 21" by (rule le_imp_power_dvd) simp
  then show "2 ^ 16 dvd unat p" unfolding p using al by (rule dvd_add [rotated])
qed

text \<open>The client asks for blocks whose size does not overflow, and returns blocks it holds.\<close>

inductive large_reach :: "'s os_ops \<Rightarrow> 's large_state \<Rightarrow> 's large_state \<Rightarrow> (ptr \<Rightarrow> nat option) \<Rightarrow> bool"
  for OS :: "'s os_ops" and st0 :: "'s large_state" where
  start: "large_reach OS st0 st0 Map.empty"
| got: "large_reach OS st0 st live \<Longrightarrow> large_fits (os_pagesize OS) n \<Longrightarrow> large_alloc OS st n = Some (st', p)
    \<Longrightarrow> large_reach OS st0 st' (live(p \<mapsto> n))"
| returned: "large_reach OS st0 st live \<Longrightarrow> live p = Some n \<Longrightarrow> large_free OS st p = Some st'
    \<Longrightarrow> large_reach OS st0 st' (live(p := None))"

lemma large_inv_got:
  assumes inv: "large_inv pg M0 M info live" and pg: "0 < pg" and n: "large_fits pg n" "2 ^ 16 dvd unat mem"
    and f: "page_block pg mem (large_pages n * 2 ^ 16)" "pages pg mem (large_pages n * 2 ^ 16) \<inter> M = {}"
  shows "large_inv pg M0 (M \<union> pages pg mem (large_pages n * 2 ^ 16))
    (info(get_commitment_mut (offset mem (2 ^ 21)) \<mapsto> \<lparr> ai_ty = LargeType, ai_base = mem, ai_region_size = n + 2 ^ 21 \<rparr>))
    (live(offset mem (2 ^ 21) \<mapsto> n))"
proof -
  let ?p = "offset mem (2 ^ 21)" let ?M = "M \<union> pages pg mem (large_pages n * 2 ^ 16)"
  let ?info = "info(get_commitment_mut ?p \<mapsto> \<lparr> ai_ty = LargeType, ai_base = mem, ai_region_size = n + 2 ^ 21 \<rparr>)"
  have e: "large_extent pg ?p n = pages pg mem (large_pages n * 2 ^ 16)" unfolding large_extent_def large_base_offset ..
  have M0: "M0 \<subseteq> M" using inv by (simp add: large_inv_def)
  have new: "large_at pg (?M - M0) ?info ?p n" unfolding large_at_def large_base_offset e using n f M0 by auto
  have old: "large_at pg (?M - M0) ?info q k \<and> large_extent pg q k \<inter> large_extent pg ?p n = {}" if q: "live q = Some k" for q k
  proof -
    have a: "large_at pg (M - M0) info q k" using inv q by (simp add: large_inv_def)
    then have d: "large_extent pg q k \<inter> large_extent pg ?p n = {}" using f(2) unfolding e by (auto simp: large_at_def)
    then have "get_commitment_mut q \<noteq> get_commitment_mut ?p"
      using large_at_place(3) [OF a pg] large_at_place(3) [OF new pg] by auto
    then show ?thesis using a d by (auto simp: large_at_def)
  qed
  show ?thesis
    unfolding large_inv_def
  proof (intro conjI allI impI)
    show "M0 \<subseteq> ?M" using M0 by blast
    show "large_at pg (?M - M0) ?info q k" if "(live(?p \<mapsto> n)) q = Some k" for q k
      using that new old by (auto split: if_splits)
    show "large_extent pg q k \<inter> large_extent pg r l = {}"
      if "(live(?p \<mapsto> n)) q = Some k" "(live(?p \<mapsto> n)) r = Some l" "q \<noteq> r" for q k r l
      using that old inv unfolding large_inv_def by (auto split: if_splits)
  qed
qed

lemma large_inv_returned:
  assumes inv: "large_inv pg M0 M info live" and pg: "0 < pg" and p: "live p = Some n"
  shows "large_inv pg M0 (M - pages pg (large_base p) (n + 2 ^ 21))
    (\<lambda>a. if unat a \<in> region (large_base p) (n + 2 ^ 21) then None else info a) (live(p := None))"
proof -
  have a: "large_at pg (M - M0) info p n" using inv p by (simp add: large_inv_def)
  note pl = large_at_place [OF a pg]
  have sub: "region (large_base p) (n + 2 ^ 21) \<subseteq> pages pg (large_base p) (n + 2 ^ 21)"
    using round_up_bounds(1) [OF pg, of "n + 2 ^ 21"] by (auto simp: pages_def region_def)
  have ext: "large_extent pg p n \<inter> M0 = {}" using a by (auto simp: large_at_def)
  have old: "large_at pg (M - pages pg (large_base p) (n + 2 ^ 21) - M0)
      (\<lambda>a. if unat a \<in> region (large_base p) (n + 2 ^ 21) then None else info a) q k"
    if q: "live q = Some k" "q \<noteq> p" for q k
  proof -
    have b: "large_at pg (M - M0) info q k" and d: "large_extent pg q k \<inter> large_extent pg p n = {}"
      using inv p q by (simp_all add: large_inv_def)
    then show ?thesis using pl(5) sub large_at_place(3) [OF b pg] unfolding large_at_def by auto
  qed
  then show ?thesis using inv ext pl(5) unfolding large_inv_def by (auto split: if_splits)
qed

lemma large_free_ok:
  assumes os: "os_contract OS mapped byte" and a: "large_at (os_pagesize OS) (mapped (lg_os st) - M0) (lg_info st) p n"
  shows "\<exists>s'. large_free OS st p = Some \<lparr> lg_os = s',
        lg_info = (\<lambda>a. if unat a \<in> region (large_base p) (n + 2 ^ 21) then None else lg_info st a) \<rparr>
    \<and> mapped s' = mapped (lg_os st) - pages (os_pagesize OS) (large_base p) (n + 2 ^ 21)
    \<and> kept byte (lg_os st) s' (mapped s')"
proof -
  have pg: "0 < os_pagesize OS" using os_page [OF os] by blast
  note pl = large_at_place [OF a pg]
  have c: "get_commitment st p = Some (n + 2 ^ 21, large_base p)"
    using a unfolding get_commitment_def large_at_def by simp
  have "pages (os_pagesize OS) (large_base p) (n + 2 ^ 21) \<subseteq> mapped (lg_os st)" using a pl(5) unfolding large_at_def by blast
  moreover have "0 < n + 2 ^ 21" "unat (large_base p) mod os_pagesize OS = 0"
    using pl(6) by (simp_all add: page_block_def)
  ultimately show ?thesis
    using elf_unmap_ok [OF os _ pl(6), of "lg_os st"] c unfolding large_free_def by auto
qed

lemma large_reach_inv:
  assumes os: "os_contract OS mapped byte" "2 ^ 12 \<le> os_pagesize OS" and r: "large_reach OS st0 st live"
  shows "large_inv (os_pagesize OS) (mapped (lg_os st0)) (mapped (lg_os st)) (lg_info st) live"
  using r
proof induction
  case start
  show ?case by (simp add: large_inv_def)
next
  case (got st live n st' p)
  have pg: "0 < os_pagesize OS" using os_page [OF os(1)] by blast
  obtain s' mem where m: "st' = \<lparr> lg_os = s', lg_info = (lg_info st)(get_commitment_mut (offset mem (2 ^ 21)) \<mapsto>
        \<lparr> ai_ty = LargeType, ai_base = mem, ai_region_size = n + 2 ^ 21 \<rparr>) \<rparr>" "p = offset mem (2 ^ 21)"
      "2 ^ 16 dvd unat mem" "fresh_map (os_pagesize OS) mapped byte (lg_os st) s' mem (large_pages n * 2 ^ 16)"
    using large_alloc_cases [OF os got.hyps(2), of st] got.hyps(3) by auto
  then show ?case
    using large_inv_got [OF got.IH pg got.hyps(2) m(3)] unfolding fresh_map_def by (simp only: large_state.simps)
next
  case (returned st live p n st')
  have pg: "0 < os_pagesize OS" using os_page [OF os(1)] by blast
  have "large_at (os_pagesize OS) (mapped (lg_os st) - mapped (lg_os st0)) (lg_info st) p n"
    using returned.IH returned.hyps(2) by (simp add: large_inv_def)
  from large_free_ok [OF os(1) this] obtain s' where "st' = \<lparr> lg_os = s',
        lg_info = (\<lambda>a. if unat a \<in> region (large_base p) (n + 2 ^ 21) then None else lg_info st a) \<rparr>"
      "mapped s' = mapped (lg_os st) - pages (os_pagesize OS) (large_base p) (n + 2 ^ 21)"
    using returned.hyps(3) by auto
  then show ?case using large_inv_returned [OF returned.IH pg returned.hyps(2)] by (simp only: large_state.simps)
qed

end
