(* ===== verification/Page_Alloc.thy ===== *)
theory Page_Alloc
  imports Bag_Pipe Elf_Sources Slag_Meta
begin

text \<open>
  The page cache of \<open>elfmalloc\<close>, \<open>PageAlloc\<close> of \<open>src/elfmalloc/src/slag.rs\<close>, over the pipes of
  \<open>Bag_Pipe\<close> and the memory source \<open>MmapSource\<close> of \<open>Elf_Sources\<close>, which is the source the
  allocator is built with; the callback \<open>DirtyFn\<close> is the default one, which does nothing.  The
  memory is the operating system's state and, for each address, the \<open>AllocType\<close> and the word
  that are read there; zeroed memory reads as the first constructor and as 0.
\<close>

subsection \<open>State\<close>

record 's elf_memory =
  em_os :: 's
  em_types :: "ptr \<Rightarrow> alloc_type"
  em_words :: "ptr \<Rightarrow> usize"

type_synonym slag_pipe = "faa_queue pipe_state \<times> pipe_handle"

record page_alloc =
  pa_target_overhead :: nat
  pa_creek :: nat
  pa_clean :: slag_pipe
  pa_dirty :: slag_pipe
  pa_aligned_source :: nat
  pa_pages_per :: nat
  pa_ty :: alloc_type

definition zero_types :: "ptr \<Rightarrow> nat \<Rightarrow> (ptr \<Rightarrow> alloc_type) \<Rightarrow> ptr \<Rightarrow> alloc_type" where
  "zero_types p n types a = (if unat a \<in> region p n then SmallSlag else types a)"

definition zero_words :: "ptr \<Rightarrow> nat \<Rightarrow> (ptr \<Rightarrow> usize) \<Rightarrow> ptr \<Rightarrow> usize" where
  "zero_words p n ws a = (if unat a \<in> region p n then 0 else ws a)"

subsection \<open>Operations\<close>

definition page_new_aligned :: "nat \<Rightarrow> nat \<Rightarrow> nat \<Rightarrow> nat \<Rightarrow> alloc_type \<Rightarrow> page_alloc option" where
  "page_new_aligned page_size target_overhead pipe_size align ty =
     (if align < page_size \<or> \<not> is_power_of_two page_size \<or> \<not> is_power_of_two align then None
      else do {
        let pages_per = align div page_size;
        let creek = mmap_source_new page_size;
        let creek_2 = (if 1 < pages_per then mmap_source_new align else creek);
        clean \<leftarrow> pipe_new_size (faa_bag False) 2;
        dirty \<leftarrow> pipe_new_size (faa_bag False) pipe_size;
        Some \<lparr> pa_target_overhead = target_overhead, pa_creek = creek, pa_clean = clean, pa_dirty = dirty,
               pa_aligned_source = creek_2, pa_pages_per = pages_per, pa_ty = ty \<rparr> })"

definition page_new :: "nat \<Rightarrow> nat \<Rightarrow> nat \<Rightarrow> alloc_type \<Rightarrow> page_alloc option" where
  "page_new page_size target_overhead pipe_size ty =
     page_new_aligned page_size target_overhead pipe_size page_size ty"

definition refresh_pages ::
  "'s os_ops \<Rightarrow> page_alloc \<Rightarrow> 's elf_memory \<Rightarrow> (page_alloc \<times> 's elf_memory \<times> ptr) option" where
  "refresh_pages OS pa m = do {
     let npages = max (pa_pages_per pa) 2;
     let count = (if pa_pages_per pa = 1 then 2 else 1);
     (s1, r) \<leftarrow> mmap_carve OS (pa_aligned_source pa) (em_os m) count;
     pages \<leftarrow> r;
     let types = (zero_types pages (count * pa_aligned_source pa) (em_types m))(pages := pa_ty pa);
     let words = zero_words pages (count * pa_aligned_source pa) (em_words m);
     clean \<leftarrow> bulk_add (faa_bag False) (fst (pa_clean pa)) (snd (pa_clean pa))
                (map (\<lambda>i. offset pages (pa_creek pa * i)) [1..<npages]);
     Some (pa\<lparr> pa_clean := clean \<rparr>, \<lparr> em_os = s1, em_types = types, em_words = words \<rparr>, pages) }"

definition page_alloc_alloc ::
  "'s os_ops \<Rightarrow> page_alloc \<Rightarrow> 's elf_memory \<Rightarrow> (page_alloc \<times> 's elf_memory \<times> ptr) option" where
  "page_alloc_alloc OS pa m = do {
     (st, h, r) \<leftarrow> try_pop_mut (faa_bag False) (fst (pa_dirty pa)) (snd (pa_dirty pa));
     let pa1 = pa\<lparr> pa_dirty := (st, h) \<rparr>;
     case r of
       Popped p \<Rightarrow> Some (pa1, m, p)
     | _ \<Rightarrow> do {
         (st2, h2, r2) \<leftarrow> try_pop_mut (faa_bag False) (fst (pa_clean pa1)) (snd (pa_clean pa1));
         let pa2 = pa1\<lparr> pa_clean := (st2, h2) \<rparr>;
         case r2 of Popped p \<Rightarrow> Some (pa2, m, p) | _ \<Rightarrow> refresh_pages OS pa2 m } }"

text \<open>\<open>uncommit\<close> ignores what \<open>madvise\<close> returns; the call is taken to succeed, after which the pages
  read as zeros.\<close>

definition mem_uncommit :: "'s os_ops \<Rightarrow> 's elf_memory \<Rightarrow> ptr \<Rightarrow> nat \<Rightarrow> 's elf_memory option" where
  "mem_uncommit OS m p n = do {
     s1 \<leftarrow> elf_uncommit OS (em_os m) p n;
     Some \<lparr> em_os = s1, em_types = zero_types p n (em_types m), em_words = zero_words p n (em_words m) \<rparr> }"

definition push_dirty :: "page_alloc \<Rightarrow> ptr \<Rightarrow> page_alloc option" where
  "push_dirty pa p = map_option (\<lambda>d. pa\<lparr> pa_dirty := d \<rparr>)
     (push_mut (faa_bag False) (fst (pa_dirty pa)) (snd (pa_dirty pa)) p)"

definition push_clean :: "page_alloc \<Rightarrow> ptr \<Rightarrow> page_alloc option" where
  "push_clean pa p = map_option (\<lambda>c. pa\<lparr> pa_clean := c \<rparr>)
     (push_mut (faa_bag False) (fst (pa_clean pa)) (snd (pa_clean pa)) p)"

text \<open>The cast \<open>as isize\<close>: a \<open>usize\<close> of \<open>2^63\<close> or more becomes negative.\<close>

definition as_isize :: "nat \<Rightarrow> int" where
  "as_isize n = sint (of_nat n :: usize)"

definition page_alloc_free ::
  "'s os_ops \<Rightarrow> page_alloc \<Rightarrow> 's elf_memory \<Rightarrow> ptr \<Rightarrow> bool \<Rightarrow> (page_alloc \<times> 's elf_memory) option" where
  "page_alloc_free OS pa m p decommit =
     (if as_isize (pa_target_overhead pa) \<le> size_guess (fst (pa_dirty pa)) then do {
        m1 \<leftarrow> mem_uncommit OS m p (pa_creek pa);
        pa1 \<leftarrow> push_clean pa p;
        Some (pa1, m1) }
      else if decommit then
        let uncommit_len = pa_creek pa - os_pagesize OS in
        if uncommit_len = 0 then do { pa1 \<leftarrow> push_dirty pa p; Some (pa1, m) }
        else do {
          m1 \<leftarrow> mem_uncommit OS m (offset p (os_pagesize OS)) uncommit_len;
          pa1 \<leftarrow> push_dirty pa p;
          Some (pa1, m1) }
      else do { pa1 \<leftarrow> push_dirty pa p; Some (pa1, m) })"

text \<open>\<open>PageCleanup\<close>, and what happens when the last handle is dropped: the pages left in the
  pipes are unmapped.\<close>

definition page_cleanup :: "'s os_ops \<Rightarrow> nat \<Rightarrow> ptr \<Rightarrow> 's \<Rightarrow> 's option" where
  "page_cleanup OS page_size it s = elf_unmap OS s it page_size"

fun cleanup_items :: "'s os_ops \<Rightarrow> nat \<Rightarrow> ptr list \<Rightarrow> 's \<Rightarrow> 's option" where
  "cleanup_items OS page_size [] s = Some s"
| "cleanup_items OS page_size (p # ps) s = page_cleanup OS page_size p s \<bind> cleanup_items OS page_size ps"

definition page_alloc_drop :: "'s os_ops \<Rightarrow> page_alloc \<Rightarrow> 's \<Rightarrow> 's option" where
  "page_alloc_drop OS pa s = do {
     (qs, its) \<leftarrow> cleanup_all (faa_bag False) (ps_pipes (fst (pa_clean pa)));
     s1 \<leftarrow> cleanup_items OS (pa_creek pa) its s;
     (qs', its') \<leftarrow> cleanup_all (faa_bag False) (ps_pipes (fst (pa_dirty pa)));
     cleanup_items OS (pa_creek pa) its' s1 }"

subsection \<open>The invariant\<close>

text \<open>\<open>madvise\<close> with \<open>MADV_DONTNEED\<close> leaves the range mapped and touches only the pages of the range.\<close>

definition madvise_contract :: "'s os_ops \<Rightarrow> ('s \<Rightarrow> nat set) \<Rightarrow> ('s \<Rightarrow> nat \<Rightarrow> 8 word) \<Rightarrow> bool" where
  "madvise_contract OS mapped byte \<longleftrightarrow> (\<forall>s p n. mapped (os_madvise OS s p n (c_MADV_DONTNEED OS)) = mapped s
     \<and> kept byte s (os_madvise OS s p n (c_MADV_DONTNEED OS)) (mapped s - pages (os_pagesize OS) p n))"

abbreviation pipe_ok :: "slag_pipe \<Rightarrow> bool" where
  "pipe_ok sp \<equiv> pipe_inv faa_inv (\<lambda>q. mset (faa_items q)) (fst sp) (snd sp)"

abbreviation pipe_items :: "slag_pipe \<Rightarrow> ptr multiset" where
  "pipe_items sp \<equiv> pipe_contents (\<lambda>q. mset (faa_items q)) (ps_pipes (fst sp))"

text \<open>A page of \<open>ps\<close> bytes.\<close>

definition page_at :: "nat \<Rightarrow> ptr \<Rightarrow> bool" where
  "page_at ps p \<longleftrightarrow> p \<noteq> null \<and> ps dvd unat p \<and> fits p ps"

definition pages_region :: "nat \<Rightarrow> ptr set \<Rightarrow> nat set" where
  "pages_region ps U = (\<Union>p \<in> U. region p ps)"

text \<open>The parameters of a page cache that works: powers of two, from the system's page size up, and
  small enough that no request overflows.\<close>

definition page_params :: "nat \<Rightarrow> page_alloc \<Rightarrow> bool" where
  "page_params pg pa \<longleftrightarrow> is_power_of_two (pa_creek pa) \<and> 1 < pa_creek pa \<and> pg \<le> pa_creek pa
     \<and> is_power_of_two (pa_aligned_source pa) \<and> 0 < pa_pages_per pa
     \<and> pa_aligned_source pa = pa_pages_per pa * pa_creek pa \<and> 3 * pa_aligned_source pa + pg \<le> 2 ^ 64"

lemma page_params_update [simp]:
  "page_params pg (pa\<lparr> pa_clean := c \<rparr>) = page_params pg pa" "page_params pg (pa\<lparr> pa_dirty := d \<rparr>) = page_params pg pa"
  by (simp_all add: page_params_def)

text \<open>\<open>H\<close> are the pages of the clients, \<open>X\<close> those in the pipes.  Together they are a set, no page
  twice, and their memory is exactly what was mapped since the beginning, \<open>M0\<close>.\<close>

definition pages_wf :: "nat \<Rightarrow> nat set \<Rightarrow> nat set \<Rightarrow> ptr multiset \<Rightarrow> ptr set \<Rightarrow> bool" where
  "pages_wf ps M0 M X H \<longleftrightarrow> finite H
     \<and> (\<exists>U. finite U \<and> X + mset_set H = mset_set U \<and> (\<forall>p \<in> U. page_at ps p)
          \<and> M = M0 \<union> pages_region ps U \<and> pages_region ps U \<inter> M0 = {})"

definition page_inv :: "nat \<Rightarrow> nat set \<Rightarrow> nat set \<Rightarrow> page_alloc \<Rightarrow> ptr set \<Rightarrow> bool" where
  "page_inv pg M0 M pa H \<longleftrightarrow> page_params pg pa \<and> pipe_ok (pa_clean pa) \<and> pipe_ok (pa_dirty pa)
     \<and> pages_wf (pa_creek pa) M0 M (pipe_items (pa_clean pa) + pipe_items (pa_dirty pa)) H"

text \<open>The pages in the pipes; memory that reads as 0, and memory whose words are kept.\<close>

abbreviation pa_pages :: "page_alloc \<Rightarrow> ptr multiset" where
  "pa_pages pa \<equiv> pipe_items (pa_clean pa) + pipe_items (pa_dirty pa)"

definition blank :: "'s elf_memory \<Rightarrow> ptr \<Rightarrow> nat \<Rightarrow> bool" where
  "blank m p n \<longleftrightarrow> (\<forall>a. unat a \<in> region p n \<longrightarrow> em_words m a = 0)"

definition words_kept :: "'s elf_memory \<Rightarrow> 's elf_memory \<Rightarrow> nat set \<Rightarrow> bool" where
  "words_kept m m' A \<longleftrightarrow> (\<forall>a. unat a \<in> A \<longrightarrow> em_words m' a = em_words m a)"

lemma words_kept_refl [simp]: "words_kept m m A"
  by (simp add: words_kept_def)

subsection \<open>Sets of pages\<close>

lemma pages_take:
  assumes "pages_wf ps M0 M (add_mset p X) H"
  shows "p \<notin> H" "pages_wf ps M0 M X (insert p H)"
proof -
  obtain U where U: "finite H" "finite U" "add_mset p X + mset_set H = mset_set U"
    and r: "\<forall>p \<in> U. page_at ps p" "M = M0 \<union> pages_region ps U" "pages_region ps U \<inter> M0 = {}"
    using assms unfolding pages_wf_def by blast
  have "count (add_mset p X + mset_set H) p \<le> 1" unfolding U(3) by (simp add: count_mset_set')
  then show p: "p \<notin> H" using U(1) by (auto simp: count_mset_set')
  then have "X + mset_set (insert p H) = mset_set U" using U by (simp add: mset_set.insert)
  then show "pages_wf ps M0 M X (insert p H)" using U r unfolding pages_wf_def by blast
qed

lemma pages_give:
  assumes "pages_wf ps M0 M X H" "p \<in> H"
  shows "pages_wf ps M0 M (add_mset p X) (H - {p})"
proof -
  have "finite H" using assms(1) by (simp add: pages_wf_def)
  then have "mset_set H = add_mset p (mset_set (H - {p}))" using assms(2) by (rule mset_set.remove)
  then have e: "add_mset p X + mset_set (H - {p}) = X + mset_set H" by simp
  show ?thesis unfolding pages_wf_def e using assms(1) unfolding pages_wf_def by blast
qed

lemma pages_grow:
  assumes wf: "pages_wf ps M0 M X H" and ps: "0 < ps" and N: "finite N" "\<forall>p \<in> N. page_at ps p" "pages_region ps N \<inter> M = {}"
  shows "pages_wf ps M0 (M \<union> pages_region ps N) (mset_set N + X) H"
proof -
  obtain U where U: "finite H" "finite U" "X + mset_set H = mset_set U" "\<forall>p \<in> U. page_at ps p"
      "M = M0 \<union> pages_region ps U" "pages_region ps U \<inter> M0 = {}"
    using wf unfolding pages_wf_def by blast
  have "N \<inter> U = {}"
  proof -
    have "unat p \<in> region p ps" for p using ps by (simp add: region_def)
    then show ?thesis using N(3) U(5) unfolding pages_region_def by blast
  qed
  then have "mset_set N + X + mset_set H = mset_set (N \<union> U)"
    using U(2,3) N(1) by (simp add: mset_set_Union Int_commute add.assoc)
  moreover have "M0 \<union> pages_region ps U \<union> pages_region ps N = M0 \<union> pages_region ps (N \<union> U)"
      "pages_region ps (N \<union> U) \<inter> M0 = {}"
    using N(3) U(5,6) unfolding pages_region_def by auto
  ultimately show ?thesis using U N unfolding pages_wf_def by (intro conjI exI [of _ "N \<union> U"]) auto
qed

lemma page_cache_held:
  assumes "pages_wf ps M0 M X H" "p \<in> H"
  shows "page_at ps p" "region p ps \<subseteq> M - M0"
proof -
  obtain U where U: "finite H" "finite U" "X + mset_set H = mset_set U" "\<forall>p \<in> U. page_at ps p"
      "M = M0 \<union> pages_region ps U" "pages_region ps U \<inter> M0 = {}"
    using assms(1) unfolding pages_wf_def by blast
  have "p \<in># mset_set U" using U(1,3) assms(2) by (metis union_iff elem_mset_set)
  then have "p \<in> U" using U(2) by simp
  then show "page_at ps p" "region p ps \<subseteq> M - M0" using U(4-6) unfolding pages_region_def by auto
qed

text \<open>Distinct aligned pages do not overlap.\<close>

lemma pages_disjoint:
  assumes "page_at ps p" "page_at ps q" "p \<noteq> q"
  shows "region p ps \<inter> region q ps = {}"
proof -
  obtain i j where ij: "unat p = ps * i" "unat q = ps * j" using assms(1,2) unfolding page_at_def by (metis dvdE)
  then have "i \<noteq> j" using assms(3) by (metis word_unat_eq_iff)
  then consider "Suc i \<le> j" | "Suc j \<le> i" by linarith
  then have "ps * i + ps \<le> ps * j \<or> ps * j + ps \<le> ps * i"
    by cases (metis mult_le_mono2 mult_Suc_right add.commute)+
  then show ?thesis using ij by (auto simp: region_def)
qed

text \<open>A run of \<open>k\<close> pages.\<close>

lemma run_pages:
  assumes ps: "0 < ps" "ps dvd unat base" "base \<noteq> null" "fits base (k * ps)"
  defines "N \<equiv> (\<lambda>i. offset base (ps * i)) ` {..<k}"
  shows "\<forall>p \<in> N. page_at ps p" "pages_region ps N = region base (k * ps)"
    "inj_on (\<lambda>i. offset base (ps * i)) {..<k}"
proof -
  have le: "ps * i + ps \<le> k * ps" if "i < k" for i
    using mult_le_mono2 [of "Suc i" k ps] that by (simp add: mult.commute)
  have u: "unat (offset base (ps * i)) = unat base + ps * i" if "i < k" for i
    using le [OF that] ps(1,4) by (intro unat_offset) (simp add: fits_def)
  show "inj_on (\<lambda>i. offset base (ps * i)) {..<k}"
  proof (rule inj_onI)
    fix i j assume "i \<in> {..<k}" "j \<in> {..<k}" "offset base (ps * i) = offset base (ps * j)"
    then have "unat base + ps * i = unat base + ps * j" using u by (metis lessThan_iff)
    then show "i = j" using ps(1) by simp
  qed
  have b: "0 < unat base" using ps(3) by (simp add: unat_gt_0)
  show "\<forall>p \<in> N. page_at ps p"
  proof
    fix p assume "p \<in> N"
    then obtain i where i: "i < k" "p = offset base (ps * i)" by (auto simp: N_def)
    have "p \<noteq> null" using u [OF i(1)] b i(2) by (metis add_is_0 less_irrefl unat_0)
    then show "page_at ps p" using u [OF i(1)] le [OF i(1)] ps(2,4) i(2) by (simp add: page_at_def fits_def)
  qed
  have "region (offset base (ps * i)) ps = {unat base + ps * i ..< unat base + ps * i + ps}" if "i < k" for i
    using u [OF that] by (simp add: region_def)
  then have "pages_region ps N = (\<Union>i \<in> {..<k}. {unat base + ps * i ..< unat base + ps * i + ps})"
    by (simp add: pages_region_def N_def)
  also have "\<dots> = region base (k * ps)"
  proof (intro equalityI subsetI)
    fix x assume "x \<in> (\<Union>i \<in> {..<k}. {unat base + ps * i ..< unat base + ps * i + ps})"
    then show "x \<in> region base (k * ps)" using le by (fastforce simp: region_def)
  next
    fix x assume x: "x \<in> region base (k * ps)"
    define i where "i = (x - unat base) div ps"
    have "x - unat base < k * ps" using x by (auto simp: region_def)
    then have "i < k" unfolding i_def by (rule less_mult_imp_div_less)
    moreover have "ps * i \<le> x - unat base" "x - unat base < ps * i + ps"
      using mult_div_mod_eq [of ps "x - unat base"] mod_less_divisor [OF ps(1), of "x - unat base"]
      unfolding i_def by linarith+
    ultimately show "x \<in> (\<Union>i \<in> {..<k}. {unat base + ps * i ..< unat base + ps * i + ps})"
      using x by (auto simp: region_def intro!: bexI [of _ i])
  qed
  finally show "pages_region ps N = region base (k * ps)" .
qed

lemma page_item: "is_power_of_two ps \<Longrightarrow> 1 < ps \<Longrightarrow> page_at ps p \<Longrightarrow> valid_item p"
proof -
  assume ps: "is_power_of_two ps" "1 < ps" "page_at ps p"
  obtain k where k: "ps = 2 ^ k" using ps(1) by (auto simp: is_power_of_two_iff)
  with ps(2) have "0 < k" by (cases k) simp_all
  then have "2 dvd ps" using k by (cases k) simp_all
  then have "2 dvd unat p" using ps(3) dvd_trans by (auto simp: page_at_def)
  moreover have "unat (sentinel :: usize) = 2 ^ 64 - 1" by (simp add: sentinel_def unsigned_minus_1_eq_mask mask_eq_exp_minus_1)
  ultimately have "p \<noteq> sentinel" by auto
  then show "valid_item p" using ps(3) by (simp add: valid_item_def page_at_def)
qed

subsection \<open>Operations keep the invariant\<close>

lemma pop_pipe:
  assumes "pipe_ok sp"
  shows "\<exists>st h r. try_pop_mut (faa_bag False) (fst sp) (snd sp) = Some (st, h, r) \<and> pipe_ok (st, h)
    \<and> ((\<exists>p. r = Popped p \<and> pipe_items sp = add_mset p (pipe_items (st, h)))
       \<or> ((\<forall>p. r \<noteq> Popped p) \<and> pipe_items (st, h) = pipe_items sp))"
  using faa.try_pop_mut_ok [OF assms, of False] by (fastforce split: pop_result.splits)

lemma push_pipe:
  assumes "pipe_ok sp" "valid_item p"
  shows "\<exists>sp'. push_mut (faa_bag False) (fst sp) (snd sp) p = Some sp' \<and> pipe_ok sp' \<and> pipe_items sp' = add_mset p (pipe_items sp)"
  using faa.push_mut_ok [OF assms, of False] by fastforce

text \<open>The run of pages of a refresh.\<close>

lemma refresh_carve:
  assumes os: "os_contract OS mapped byte" and pa: "page_params (os_pagesize OS) pa"
    and n: "n = (if pa_pages_per pa = 1 then 2 else 1)" and k: "k = max (pa_pages_per pa) 2"
  shows "(\<exists>s' base. mmap_carve OS (pa_aligned_source pa) s n = Some (s', Some base) \<and> base \<noteq> null
        \<and> pa_creek pa dvd unat base \<and> fits base (k * pa_creek pa)
        \<and> mapped s' = mapped s \<union> region base (k * pa_creek pa) \<and> region base (k * pa_creek pa) \<inter> mapped s = {}
        \<and> kept byte s s' (mapped s))
    \<or> (\<exists>s'. mmap_carve OS (pa_aligned_source pa) s n = Some (s', None))"
    "n * pa_aligned_source pa = k * pa_creek pa"
proof -
  let ?ps = "pa_creek pa" let ?al = "pa_aligned_source pa" let ?pg = "os_pagesize OS"
  have p: "is_power_of_two ?ps" "?pg \<le> ?ps" "is_power_of_two ?al" "0 < pa_pages_per pa" "?al = pa_pages_per pa * ?ps"
      "3 * ?al + ?pg \<le> 2 ^ 64"
    using pa unfolding page_params_def by blast+
  have pg: "is_power_of_two ?pg" "0 < ?pg" using os_page [OF os] by blast+
  have c: "0 < n" "n * ?al + ?al + ?pg \<le> 2 ^ 64" "n * ?al = k * ?ps"
    using p(4-6) by (auto simp: n k)
  have "?pg dvd ?ps" by (rule pow2_le_dvd [OF pg(1) p(1,2)])
  then have "round_up ?pg (k * ?ps) = k * ?ps" using pg(2) by simp
  then have e: "pages ?pg q (n * ?al) = region q (k * ?ps)" "page_block ?pg q (n * ?al) \<longleftrightarrow> q \<noteq> null \<and> ?pg dvd unat q \<and> fits q (k * ?ps)" for q
    unfolding c(3) pages_def page_block_def by (simp_all only:)
  have d: "?ps dvd ?al" unfolding p(5) by simp
  show "n * ?al = k * ?ps" by (rule c(3))
  let ?thesis = "(\<exists>s' base. mmap_carve OS ?al s n = Some (s', Some base) \<and> base \<noteq> null
        \<and> ?ps dvd unat base \<and> fits base (k * ?ps)
        \<and> mapped s' = mapped s \<union> region base (k * ?ps) \<and> region base (k * ?ps) \<inter> mapped s = {}
        \<and> kept byte s s' (mapped s))
    \<or> (\<exists>s'. mmap_carve OS ?al s n = Some (s', None))"
  from mmap_carve_ok [OF os p(3) c(1,2), of s] show ?thesis
  proof (elim disjE exE conjE)
    fix s' base assume r: "mmap_carve OS ?al s n = Some (s', Some base)" "?al dvd unat base" "fresh_map ?pg mapped byte s s' base (n * ?al)"
    have "?ps dvd unat base" using d r(2) by (rule dvd_trans)
    then show ?thesis using r(1,3) unfolding fresh_map_def e by blast
  qed blast
qed

lemma page_alloc_source:
  assumes "page_alloc_alloc OS pa m = Some (pa', m', p)"
  shows "pa_aligned_source pa' = pa_aligned_source pa" "pa_pages_per pa' = pa_pages_per pa"
  using assms by (auto simp: page_alloc_alloc_def refresh_pages_def Let_def split: bind_splits pop_result.splits)

text \<open>The source is asked for more memory than there is: what \<open>refresh_pages\<close> asks it for, it does not get.\<close>

definition source_failed :: "'s os_ops \<Rightarrow> page_alloc \<Rightarrow> 's elf_memory \<Rightarrow> bool" where
  "source_failed OS pa m \<longleftrightarrow> (\<exists>s'. mmap_carve OS (pa_aligned_source pa) (em_os m)
     (if pa_pages_per pa = 1 then 2 else 1) = Some (s', None))"

lemma refresh_pages_cases:
  assumes os: "os_contract OS mapped byte" and inv: "page_inv (os_pagesize OS) M0 (mapped (em_os m)) pa H"
  shows "(\<exists>pa' m' p. refresh_pages OS pa m = Some (pa', m', p) \<and> p \<notin> H
        \<and> page_inv (os_pagesize OS) M0 (mapped (em_os m')) pa' (insert p H)
        \<and> pa_creek pa' = pa_creek pa \<and> kept byte (em_os m) (em_os m') (mapped (em_os m))
        \<and> words_kept m m' (mapped (em_os m))
        \<and> (\<forall>q. q \<in># add_mset p (pa_pages pa') \<longrightarrow> q \<in># pa_pages pa \<or> blank m' q (pa_creek pa)))
    \<or> (refresh_pages OS pa m = None \<and> (\<exists>s'. mmap_carve OS (pa_aligned_source pa) (em_os m)
          (if pa_pages_per pa = 1 then 2 else 1) = Some (s', None)))"
proof -
  let ?ps = "pa_creek pa" let ?k = "max (pa_pages_per pa) 2" let ?c = "if pa_pages_per pa = 1 then 2 else 1 :: nat"
  have i: "page_params (os_pagesize OS) pa" "pipe_ok (pa_clean pa)" "pipe_ok (pa_dirty pa)"
    "pages_wf ?ps M0 (mapped (em_os m)) (pipe_items (pa_clean pa) + pipe_items (pa_dirty pa)) H"
    using inv by (simp_all add: page_inv_def)
  have ps: "is_power_of_two ?ps" "1 < ?ps" "0 < ?ps" using i(1) by (auto simp: page_params_def)
  from refresh_carve(1) [OF os i(1) refl refl, of "em_os m"] show ?thesis
  proof (elim disjE exE conjE)
    fix s' base
    assume c: "mmap_carve OS (pa_aligned_source pa) (em_os m) ?c = Some (s', Some base)" "base \<noteq> null" "?ps dvd unat base"
      "fits base (?k * ?ps)" "mapped s' = mapped (em_os m) \<union> region base (?k * ?ps)"
      "region base (?k * ?ps) \<inter> mapped (em_os m) = {}" "kept byte (em_os m) s' (mapped (em_os m))"
    let ?page = "\<lambda>i. offset base (?ps * i)" let ?N = "?page ` {..<?k}" let ?its = "map ?page [1..<?k]"
    note run = run_pages [OF ps(3) c(3,2,4)]
    have wf: "pages_wf ?ps M0 (mapped s') (mset_set ?N + (pipe_items (pa_clean pa) + pipe_items (pa_dirty pa))) H"
      using pages_grow [OF i(4) ps(3) _ run(1)] c(5,6) unfolding run(2) by simp
    have "mset_set ?N = mset (map ?page [0..<?k])"
      using run(3) by (simp add: image_mset_mset_set [symmetric] mset_upt [symmetric] atLeast0LessThan [symmetric] del: mset_upt)
    also have "[0..<?k] = 0 # [1..<?k]" by (simp add: upt_conv_Cons)
    finally have N: "mset_set ?N = add_mset base (mset ?its)" by simp
    have "list_all valid_item ?its"
      using run(1) page_item [OF ps(1,2)] by (auto simp: list_all_iff)
    then obtain cl where cl: "bulk_add (faa_bag False) (fst (pa_clean pa)) (snd (pa_clean pa)) ?its = Some cl" "pipe_ok cl"
        "pipe_items cl = mset ?its + pipe_items (pa_clean pa)"
      using faa.bulk_add_ok [OF i(2), of ?its False] by fastforce
    have "pages_wf ?ps M0 (mapped s') (add_mset base (pipe_items cl + pipe_items (pa_dirty pa))) H"
      using wf unfolding N cl(3) by (simp add: add.assoc)
    note t = pages_take [OF this]
    have "page_inv (os_pagesize OS) M0 (mapped s') (pa\<lparr> pa_clean := cl \<rparr>) (insert base H)"
      using t(2) i(1,3) cl(2) by (simp add: page_inv_def)
    moreover define m' where "m' = \<lparr> em_os = s', em_types = (zero_types base (?k * ?ps) (em_types m))(base := pa_ty pa),
        em_words = zero_words base (?k * ?ps) (em_words m) \<rparr>"
    have "refresh_pages OS pa m = Some (pa\<lparr> pa_clean := cl \<rparr>, m', base)"
      using c(1) cl(1) refresh_carve(2) [OF os i(1) refl refl] by (simp add: refresh_pages_def Let_def m'_def)
    moreover have "words_kept m m' (mapped (em_os m))" using c(6) by (auto simp: words_kept_def m'_def zero_words_def)
    moreover have "q \<in># pa_pages pa \<or> blank m' q ?ps" if "q \<in># add_mset base (pa_pages (pa\<lparr> pa_clean := cl \<rparr>))" for q
    proof (cases "q \<in># pa_pages pa")
      case False
      then have "q \<in># mset_set ?N" using that cl(3) unfolding N by auto
      then have "region q ?ps \<subseteq> region base (?k * ?ps)" using run(2) unfolding pages_region_def by auto
      then show ?thesis by (auto simp: blank_def m'_def zero_words_def)
    qed simp
    ultimately show ?thesis using t(1) c(7) by (intro disjI1 exI [of _ "pa\<lparr> pa_clean := cl \<rparr>"] exI [of _ m'] exI [of _ base]) (simp add: m'_def)
  next
    fix s' assume "mmap_carve OS (pa_aligned_source pa) (em_os m) ?c = Some (s', None)"
    then show ?thesis by (simp add: refresh_pages_def Let_def)
  qed
qed

lemma page_alloc_cases:
  assumes os: "os_contract OS mapped byte" and inv: "page_inv (os_pagesize OS) M0 (mapped (em_os m)) pa H"
  shows "(\<exists>pa' m' p. page_alloc_alloc OS pa m = Some (pa', m', p) \<and> p \<notin> H
        \<and> page_inv (os_pagesize OS) M0 (mapped (em_os m')) pa' (insert p H)
        \<and> pa_creek pa' = pa_creek pa \<and> kept byte (em_os m) (em_os m') (mapped (em_os m))
        \<and> words_kept m m' (mapped (em_os m))
        \<and> (\<forall>q. q \<in># add_mset p (pa_pages pa') \<longrightarrow> q \<in># pa_pages pa \<or> blank m' q (pa_creek pa)))
    \<or> (page_alloc_alloc OS pa m = None \<and> (\<exists>s'. mmap_carve OS (pa_aligned_source pa) (em_os m)
          (if pa_pages_per pa = 1 then 2 else 1) = Some (s', None)))"
proof -
  let ?ps = "pa_creek pa" let ?M = "mapped (em_os m)"
  have i: "page_params (os_pagesize OS) pa" "pipe_ok (pa_clean pa)" "pipe_ok (pa_dirty pa)"
    "pages_wf ?ps M0 ?M (pipe_items (pa_clean pa) + pipe_items (pa_dirty pa)) H"
    using inv by (simp_all add: page_inv_def)
  obtain st h r where d: "try_pop_mut (faa_bag False) (fst (pa_dirty pa)) (snd (pa_dirty pa)) = Some (st, h, r)" "pipe_ok (st, h)"
    "(\<exists>p. r = Popped p \<and> pipe_items (pa_dirty pa) = add_mset p (pipe_items (st, h)))
     \<or> ((\<forall>p. r \<noteq> Popped p) \<and> pipe_items (st, h) = pipe_items (pa_dirty pa))"
    using pop_pipe [OF i(3)] by blast
  obtain st2 h2 r2 where c: "try_pop_mut (faa_bag False) (fst (pa_clean pa)) (snd (pa_clean pa)) = Some (st2, h2, r2)" "pipe_ok (st2, h2)"
    "(\<exists>p. r2 = Popped p \<and> pipe_items (pa_clean pa) = add_mset p (pipe_items (st2, h2)))
     \<or> ((\<forall>p. r2 \<noteq> Popped p) \<and> pipe_items (st2, h2) = pipe_items (pa_clean pa))"
    using pop_pipe [OF i(2)] by blast
  let ?d = "pa\<lparr> pa_dirty := (st, h) \<rparr>" let ?c = "pa\<lparr> pa_dirty := (st, h), pa_clean := (st2, h2) \<rparr>"
  consider p where "r = Popped p" "pipe_items (pa_dirty pa) = add_mset p (pipe_items (st, h))"
    | p where "\<forall>p. r \<noteq> Popped p" "pipe_items (st, h) = pipe_items (pa_dirty pa)" "r2 = Popped p" "pipe_items (pa_clean pa) = add_mset p (pipe_items (st2, h2))"
    | "\<forall>p. r \<noteq> Popped p" "\<forall>p. r2 \<noteq> Popped p" "pipe_items (st, h) = pipe_items (pa_dirty pa)" "pipe_items (st2, h2) = pipe_items (pa_clean pa)"
    using d(3) c(3) by blast
  then show ?thesis
  proof cases
    case (1 p)
    have "pages_wf ?ps M0 ?M (add_mset p (pipe_items (pa_clean pa) + pipe_items (st, h))) H" using i(4) 1(2) by simp
    note t = pages_take [OF this]
    have "page_inv (os_pagesize OS) M0 ?M ?d (insert p H)" using t(2) i(1,2) d(2) by (simp add: page_inv_def)
    then show ?thesis using t(1) d(1) 1(1,2) by (simp add: page_alloc_alloc_def kept_def)
  next
    case (2 p)
    have "pages_wf ?ps M0 ?M (add_mset p (pipe_items (st2, h2) + pipe_items (st, h))) H" using i(4) 2(2,4) by simp
    note t = pages_take [OF this]
    have "page_inv (os_pagesize OS) M0 ?M ?c (insert p H)" using t(2) i(1) d(2) c(2) by (simp add: page_inv_def)
    moreover have "page_alloc_alloc OS pa m = Some (?c, m, p)"
      using d(1) c(1) 2(1,3) by (cases r) (simp_all add: page_alloc_alloc_def)
    ultimately show ?thesis using t(1) 2(2,4) by (simp add: kept_def)
  next
    case 3
    have "page_inv (os_pagesize OS) M0 ?M ?c H" using 3(3,4) i(1,4) d(2) c(2) by (simp add: page_inv_def)
    moreover have "page_alloc_alloc OS pa m = refresh_pages OS ?c m"
      using d(1) c(1) 3(1,2) by (cases r; cases r2) (simp_all add: page_alloc_alloc_def)
    ultimately show ?thesis using refresh_pages_cases [OF os, of M0 m ?c H] 3(3,4) by simp
  qed
qed

lemma mem_uncommit_ok:
  assumes os: "os_contract OS mapped byte" "madvise_contract OS mapped byte" and n: "0 < n" "n < 2 ^ 64" "os_pagesize OS dvd unat p"
  shows "\<exists>m'. mem_uncommit OS m p n = Some m' \<and> mapped (em_os m') = mapped (em_os m)
    \<and> kept byte (em_os m) (em_os m') (mapped (em_os m) - pages (os_pagesize OS) p n) \<and> em_words m' = zero_words p n (em_words m)"
proof -
  obtain a where a: "elf_map_alloc OS = Some a" "ma_pagesize a = os_pagesize OS" using elf_map_alloc_ok by blast
  have "1 \<le> os_pagesize OS" using os_page [OF os(1)] by simp
  then have "elf_uncommit OS (em_os m) p n = Some (os_madvise OS (em_os m) p n (c_MADV_DONTNEED OS))"
    using layout_bytes [OF n(2)] n a(2) by (simp add: elf_uncommit_def a(1) ma_uncommit_def debug_verify_ptr_def uncommit_pages_def)
  then show ?thesis using os(2) by (simp add: mem_uncommit_def madvise_contract_def)
qed

lemma push_ok:
  assumes "page_params pg pa" "pipe_ok (pa_clean pa)" "pipe_ok (pa_dirty pa)" "page_at (pa_creek pa) p"
    "pages_wf (pa_creek pa) M0 M (add_mset p (pipe_items (pa_clean pa) + pipe_items (pa_dirty pa))) H"
  shows "\<exists>pa'. push_dirty pa p = Some pa' \<and> page_inv pg M0 M pa' H \<and> pa_creek pa' = pa_creek pa \<and> pa_pages pa' = add_mset p (pa_pages pa)"
    "\<exists>pa'. push_clean pa p = Some pa' \<and> page_inv pg M0 M pa' H \<and> pa_creek pa' = pa_creek pa \<and> pa_pages pa' = add_mset p (pa_pages pa)"
proof -
  have v: "valid_item p" using page_item [OF _ _ assms(4)] assms(1) by (simp add: page_params_def)
  show "\<exists>pa'. push_dirty pa p = Some pa' \<and> page_inv pg M0 M pa' H \<and> pa_creek pa' = pa_creek pa \<and> pa_pages pa' = add_mset p (pa_pages pa)"
    using push_pipe [OF assms(3) v] assms by (auto simp: push_dirty_def page_inv_def)
  show "\<exists>pa'. push_clean pa p = Some pa' \<and> page_inv pg M0 M pa' H \<and> pa_creek pa' = pa_creek pa \<and> pa_pages pa' = add_mset p (pa_pages pa)"
    using push_pipe [OF assms(2) v] assms by (auto simp: push_clean_def page_inv_def)
qed

lemma page_free_ok:
  assumes os: "os_contract OS mapped byte" "madvise_contract OS mapped byte"
    and inv: "page_inv (os_pagesize OS) M0 (mapped (em_os m)) pa H" and p: "p \<in> H"
  shows "\<exists>pa' m'. page_alloc_free OS pa m p decommit = Some (pa', m')
    \<and> page_inv (os_pagesize OS) M0 (mapped (em_os m')) pa' (H - {p}) \<and> pa_creek pa' = pa_creek pa
    \<and> kept byte (em_os m) (em_os m') (mapped (em_os m) - region p (pa_creek pa))
    \<and> pa_pages pa' = add_mset p (pa_pages pa) \<and> words_kept m m' (- region p (pa_creek pa))
    \<and> (blank m' p (pa_creek pa) \<or> words_kept m m' (region p (if decommit then os_pagesize OS else pa_creek pa)))"
proof -
  let ?ps = "pa_creek pa" let ?pg = "os_pagesize OS" let ?M = "mapped (em_os m)"
  have i: "page_params ?pg pa" "pipe_ok (pa_clean pa)" "pipe_ok (pa_dirty pa)"
    "pages_wf ?ps M0 ?M (pipe_items (pa_clean pa) + pipe_items (pa_dirty pa)) H"
    using inv by (simp_all add: page_inv_def)
  have pg: "is_power_of_two ?pg" "0 < ?pg" using os_page [OF os(1)] by blast+
  have par: "is_power_of_two ?ps" "1 < ?ps" "?pg \<le> ?ps" "0 < pa_pages_per pa" "pa_aligned_source pa = pa_pages_per pa * ?ps"
      "3 * pa_aligned_source pa + ?pg \<le> 2 ^ 64"
    using i(1) unfolding page_params_def by blast+
  have "?ps \<le> pa_aligned_source pa" using par(4,5) by simp
  then have small: "?ps < 2 ^ 64" using par(6) pg(2) by linarith
  have dv: "?pg dvd ?ps" by (rule pow2_le_dvd [OF pg(1) par(1,3)])
  have at: "page_at ?ps p" by (rule page_cache_held(1) [OF i(4) p])
  then have pa: "?pg dvd unat p" using dv dvd_trans by (auto simp: page_at_def)
  note push = push_ok [OF i(1-3) at pages_give [OF i(4) p]]
  obtain m1 where u1: "mem_uncommit OS m p ?ps = Some m1" "mapped (em_os m1) = ?M" "kept byte (em_os m) (em_os m1) (?M - region p ?ps)"
      "blank m1 p ?ps" "words_kept m m1 (- region p ?ps)"
    unfolding blank_def words_kept_def
    using mem_uncommit_ok [OF os _ small pa, of m] par(2) dv pg(2) by (auto simp: pages_def zero_words_def)
  have u2: "\<exists>m2. mem_uncommit OS m (offset p ?pg) (?ps - ?pg) = Some m2 \<and> mapped (em_os m2) = ?M
      \<and> kept byte (em_os m) (em_os m2) (?M - region p ?ps) \<and> words_kept m m2 (- region p ?ps)
      \<and> words_kept m m2 (region p ?pg)" if lt: "?pg < ?ps"
  proof -
    have u: "unat (offset p ?pg) = unat p + ?pg" using at lt by (intro unat_offset) (simp add: page_at_def fits_def)
    then have "?pg dvd unat (offset p ?pg)" using pa by simp
    moreover have "pages ?pg (offset p ?pg) (?ps - ?pg) \<subseteq> region p ?ps"
      using dv pg(2) u by (auto simp: pages_def region_def dvd_diff_nat)
    moreover have "0 < ?ps - ?pg" "?ps - ?pg < 2 ^ 64" using small lt by linarith+
    ultimately obtain m2 where m2: "mem_uncommit OS m (offset p ?pg) (?ps - ?pg) = Some m2" "mapped (em_os m2) = ?M"
        "kept byte (em_os m) (em_os m2) (?M - region p ?ps)" "em_words m2 = zero_words (offset p ?pg) (?ps - ?pg) (em_words m)"
      using mem_uncommit_ok [OF os, of "?ps - ?pg" "offset p ?pg" m] unfolding kept_def by blast
    have "words_kept m m2 (- region p ?ps)" "words_kept m m2 (region p ?pg)"
      using lt u unfolding words_kept_def m2(4) zero_words_def region_def by auto
    then show ?thesis using m2 by blast
  qed
  show ?thesis
  proof (cases "as_isize (pa_target_overhead pa) \<le> size_guess (fst (pa_dirty pa))")
    case True
    then show ?thesis using push(2) u1 by (auto simp: page_alloc_free_def)
  next
    case f: False
    show ?thesis
    proof (cases "decommit \<and> ?pg < ?ps")
      case True
      then show ?thesis using f push(1) u2 by (fastforce simp: page_alloc_free_def Let_def)
    next
      case False
      then show ?thesis using f push(1) par(3) by (auto simp: page_alloc_free_def Let_def kept_def)
    qed
  qed
qed

lemma page_new_ok:
  assumes "page_new_aligned ps target pipe_size align ty = Some pa" "1 < ps" "pg \<le> ps" "3 * align + pg \<le> 2 ^ 64"
  shows "page_inv pg M0 M0 pa {} \<and> pa_creek pa = ps \<and> pa_pages pa = {#}"
proof -
  have a: "ps \<le> align" "is_power_of_two ps" "is_power_of_two align" using assms(1) by (simp_all add: page_new_aligned_def split: if_splits)
  have n: "mmap_source_new ps = ps" "mmap_source_new align = align"
    using a(2,3) by (simp_all add: mmap_source_new_def next_power_of_two_def is_power_of_two_def)
  have "0 < pipe_size"
    using assms(1) by (auto simp: page_new_aligned_def pipe_new_size_def Let_def split: if_splits bind_splits)
  then obtain st h st' h' where c: "pipe_new_size (faa_bag False) 2 = Some (st, h)" "pipe_ok (st, h)" "pipe_items (st, h) = {#}"
    and d: "pipe_new_size (faa_bag False) pipe_size = Some (st', h')" "pipe_ok (st', h')" "pipe_items (st', h') = {#}"
    using faa.pipe_new_ok [of 2 False] faa.pipe_new_ok [of pipe_size False] by auto
  have "ps dvd align" by (rule pow2_le_dvd [OF a(2,3,1)])
  then have "align div ps * ps = align" by simp
  moreover have "align = ps" if "align div ps = 1" using that \<open>align div ps * ps = align\<close> by simp
  moreover have "0 < align div ps" using a(1) assms(2) by (simp add: div_greater_zero_iff)
  ultimately have "page_params pg pa" "pa_clean pa = (st, h)" "pa_dirty pa = (st', h')" "pa_creek pa = ps"
    using assms a n c(1) d(1) by (auto simp: page_new_aligned_def page_params_def Let_def not_less le_Suc_eq)
  then show ?thesis using c d by (simp add: page_inv_def pages_wf_def pages_region_def exI [of _ "{}"])
qed

text \<open>Dropping the cache unmaps the pages it holds.\<close>

lemma cleanup_items_ok:
  assumes os: "os_contract OS mapped byte" and ps: "is_power_of_two ps" "os_pagesize OS \<le> ps"
  shows "distinct its \<Longrightarrow> \<forall>p \<in> set its. page_at ps p \<Longrightarrow> pages_region ps (set its) \<subseteq> mapped s
    \<Longrightarrow> \<exists>s'. cleanup_items OS ps its s = Some s' \<and> mapped s' = mapped s - pages_region ps (set its)"
proof (induction its arbitrary: s)
  case Nil
  then show ?case by (simp add: pages_region_def)
next
  case (Cons p its)
  let ?pg = "os_pagesize OS"
  have pg: "is_power_of_two ?pg" "0 < ?pg" using os_page [OF os] by blast+
  have dv: "?pg dvd ps" by (rule pow2_le_dvd [OF pg(1) ps])
  have at: "page_at ps p" using Cons.prems(2) by simp
  have "?pg dvd unat p" using at dv dvd_trans by (auto simp: page_at_def)
  then have pb: "page_block ?pg p ps" "pages ?pg p ps = region p ps"
    using at dv pg(2) by (simp_all add: page_block_def pages_def page_at_def)
  have sub: "region p ps \<subseteq> mapped s" using Cons.prems(3) by (auto simp: pages_region_def)
  then obtain s1 where s1: "elf_unmap OS s p ps = Some s1" "mapped s1 = mapped s - region p ps"
    using elf_unmap_ok [OF os is_power_of_two_pos [OF ps(1)] pb(1), of s] pb(2) by auto
  have "region q ps \<inter> region p ps = {}" if "q \<in> set its" for q
    using pages_disjoint [of ps q p] at Cons.prems(1,2) that by auto
  then have dis: "pages_region ps (set its) \<inter> region p ps = {}" by (auto simp: pages_region_def)
  then have "pages_region ps (set its) \<subseteq> mapped s1" using Cons.prems(3) s1(2) by (auto simp: pages_region_def)
  then obtain s2 where "cleanup_items OS ps its s1 = Some s2" "mapped s2 = mapped s1 - pages_region ps (set its)"
    using Cons.IH [of s1] Cons.prems(1,2) by auto
  then show ?case using s1 by (auto simp: page_cleanup_def pages_region_def)
qed

lemma cleanup_pipe:
  assumes "pipe_ok sp"
  shows "\<exists>qs its. cleanup_all (faa_bag False) (ps_pipes (fst sp)) = Some (qs, its) \<and> mset its = pipe_items sp"
  using faa.cleanup_takes_all [of "ps_pipes (fst sp)" False] assms
  by (auto simp: pipe_inv_def pipes_ok_def pipe_contents_def)

lemma page_drop_ok:
  assumes os: "os_contract OS mapped byte" and inv: "page_inv (os_pagesize OS) M0 (mapped s) pa {}"
  shows "\<exists>s'. page_alloc_drop OS pa s = Some s' \<and> mapped s' = M0"
proof -
  let ?ps = "pa_creek pa"
  have i: "page_params (os_pagesize OS) pa" "pipe_ok (pa_clean pa)" "pipe_ok (pa_dirty pa)"
    using inv by (simp_all add: page_inv_def)
  have ps: "is_power_of_two ?ps" "os_pagesize OS \<le> ?ps" using i(1) by (simp_all add: page_params_def)
  obtain U where U: "finite U" "pipe_items (pa_clean pa) + pipe_items (pa_dirty pa) = mset_set U" "\<forall>p \<in> U. page_at ?ps p"
      "mapped s = M0 \<union> pages_region ?ps U" "pages_region ?ps U \<inter> M0 = {}"
    using inv by (auto simp: page_inv_def pages_wf_def)
  obtain qs its qs' its' where c: "cleanup_all (faa_bag False) (ps_pipes (fst (pa_clean pa))) = Some (qs, its)" "mset its = pipe_items (pa_clean pa)"
    "cleanup_all (faa_bag False) (ps_pipes (fst (pa_dirty pa))) = Some (qs', its')" "mset its' = pipe_items (pa_dirty pa)"
    using cleanup_pipe [OF i(2)] cleanup_pipe [OF i(3)] by blast
  have m: "mset (its @ its') = mset_set U" using U(2) c(2,4) by simp
  have d: "distinct (its @ its')"
    using m U(1) by (metis count_mset_set' distinct_count_atmost_1 finite_set_mset_mset_set set_mset_mset)
  have set: "set its \<union> set its' = U" using m U(1) by (metis finite_set_mset_mset_set set_append set_mset_mset)
  have at: "\<forall>p \<in> set its. page_at ?ps p" "\<forall>p \<in> set its'. page_at ?ps p" using set U(3) by auto
  have un: "pages_region ?ps U = pages_region ?ps (set its) \<union> pages_region ?ps (set its')"
    using set by (auto simp: pages_region_def)
  have dis: "pages_region ?ps (set its) \<inter> pages_region ?ps (set its') = {}"
    using pages_disjoint at d unfolding pages_region_def by fastforce
  obtain s1 where s1: "cleanup_items OS ?ps its s = Some s1" "mapped s1 = mapped s - pages_region ?ps (set its)"
    using cleanup_items_ok [OF os ps _ at(1), of s] d U(4) un by auto
  obtain s2 where "cleanup_items OS ?ps its' s1 = Some s2" "mapped s2 = mapped s1 - pages_region ?ps (set its')"
    using cleanup_items_ok [OF os ps _ at(2), of s1] d U(4) un dis s1(2) by auto
  moreover from this(2) have "mapped s2 = M0" using s1(2) U(4,5) un by blast
  ultimately show ?thesis using c(1,3) s1(1) by (simp add: page_alloc_drop_def)
qed

subsection \<open>Histories\<close>

text \<open>Clients take pages and return pages they hold.\<close>

inductive page_reach :: "'s os_ops \<Rightarrow> page_alloc \<Rightarrow> 's elf_memory \<Rightarrow> page_alloc \<Rightarrow> 's elf_memory \<Rightarrow> ptr set \<Rightarrow> bool"
  for OS :: "'s os_ops" and pa0 :: page_alloc and m0 :: "'s elf_memory" where
  start: "page_reach OS pa0 m0 pa0 m0 {}"
| got: "page_reach OS pa0 m0 pa m H \<Longrightarrow> page_alloc_alloc OS pa m = Some (pa', m', p)
    \<Longrightarrow> page_reach OS pa0 m0 pa' m' (insert p H)"
| returned: "page_reach OS pa0 m0 pa m H \<Longrightarrow> p \<in> H \<Longrightarrow> page_alloc_free OS pa m p d = Some (pa', m')
    \<Longrightarrow> page_reach OS pa0 m0 pa' m' (H - {p})"

lemma page_reach_inv:
  assumes os: "os_contract OS mapped byte" "madvise_contract OS mapped byte"
    and new: "page_inv (os_pagesize OS) (mapped (em_os m0)) (mapped (em_os m0)) pa0 {}"
    and r: "page_reach OS pa0 m0 pa m H"
  shows "page_inv (os_pagesize OS) (mapped (em_os m0)) (mapped (em_os m)) pa H \<and> pa_creek pa = pa_creek pa0"
  using r
proof induction
  case start
  show ?case using new by simp
next
  case (got pa m H pa' m' p)
  then show ?case using page_alloc_cases [OF os(1), of "mapped (em_os m0)" m pa H] by auto
next
  case (returned pa m H p d pa' m')
  then show ?case using page_free_ok [OF os, of "mapped (em_os m0)" m pa H p d] by auto
qed

subsection \<open>Memory besides the pages\<close>

text \<open>Memory that is mapped otherwise, and pages that others will unmap.\<close>

lemma page_inv_other:
  assumes "page_inv pg M0 M pa H" "R \<inter> M = {}"
  shows "page_inv pg (M0 \<union> R) (M \<union> R) pa H"
proof -
  obtain U where U: "finite H" "finite U" "pa_pages pa + mset_set H = mset_set U" "\<forall>p \<in> U. page_at (pa_creek pa) p"
      "M = M0 \<union> pages_region (pa_creek pa) U" "pages_region (pa_creek pa) U \<inter> M0 = {}"
    using assms(1) unfolding page_inv_def pages_wf_def by blast
  have "M \<union> R = M0 \<union> R \<union> pages_region (pa_creek pa) U" "pages_region (pa_creek pa) U \<inter> (M0 \<union> R) = {}"
    using U(5,6) assms(2) by blast+
  then have "pages_wf (pa_creek pa) (M0 \<union> R) (M \<union> R) (pa_pages pa) H" using U(1-4) unfolding pages_wf_def by blast
  then show ?thesis using assms(1) by (simp add: page_inv_def)
qed

lemma page_inv_forget:
  assumes "page_inv pg M0 M pa H" "L \<subseteq> H"
  shows "page_inv pg (M0 \<union> pages_region (pa_creek pa) L) M pa (H - L)" "pages_region (pa_creek pa) L \<inter> M0 = {}"
proof -
  let ?ps = "pa_creek pa"
  obtain U where U: "finite H" "finite U" "pa_pages pa + mset_set H = mset_set U" "\<forall>p \<in> U. page_at ?ps p"
      "M = M0 \<union> pages_region ?ps U" "pages_region ?ps U \<inter> M0 = {}"
    using assms(1) unfolding page_inv_def pages_wf_def by blast
  have "H \<subseteq> U"
  proof
    fix x assume "x \<in> H"
    then have "x \<in># mset_set U" using U(1,3) by (metis elem_mset_set union_iff)
    then show "x \<in> U" using U(2) by simp
  qed
  then have LU: "L \<subseteq> U" using assms(2) by blast
  have part: "mset_set A = mset_set L + mset_set (A - L)" if "L \<subseteq> A" "finite A" for A
    using mset_set_Union [of L "A - L"] that finite_subset [OF that] by (simp add: Un_absorb1)
  have "pa_pages pa + mset_set (H - L) + mset_set L = mset_set (U - L) + mset_set L"
    using U(3) part [OF LU U(2)] part [OF assms(2) U(1)] by (simp add: ac_simps)
  then have X: "pa_pages pa + mset_set (H - L) = mset_set (U - L)" by simp
  have dis: "region p ?ps \<inter> region q ?ps = {}" if "p \<in> U - L" "q \<in> L" for p q
    using pages_disjoint U(4) that LU by (metis DiffD1 DiffD2 subsetD)
  have "M = M0 \<union> pages_region ?ps L \<union> pages_region ?ps (U - L)" using U(5) LU unfolding pages_region_def by blast
  moreover have "pages_region ?ps (U - L) \<inter> (M0 \<union> pages_region ?ps L) = {}" using dis U(6) unfolding pages_region_def by blast
  ultimately have "pages_wf ?ps (M0 \<union> pages_region ?ps L) M (pa_pages pa) (H - L)"
    unfolding pages_wf_def using X U(1,2,4) by (intro conjI exI [of _ "U - L"]) simp_all
  then show "page_inv pg (M0 \<union> pages_region ?ps L) M pa (H - L)" using assms by (simp add: page_inv_def)
  show "pages_region ?ps L \<inter> M0 = {}" using U(6) LU unfolding pages_region_def by blast
qed

end
