(* ===== verification/General_Claims.thy ===== *)
theory General_Claims
  imports Large_Alloc Page_Alloc Sim_Os
begin

text \<open>
  The properties of the size classes, of the large allocations and of the page cache of
  \<open>elfmalloc\<close>, and their witnesses over the operating system of \<open>Sim_Os\<close>.
\<close>

section \<open>The simulated system\<close>

lemma sim_map_pages:
  assumes "0 < n" "4096 dvd n" "sim_next s + n + 4096 < 2 ^ 64"
  shows "\<exists>s' p. map_pages sim_os s n prot commit = Some (s', Some p) \<and> sim_next s' \<le> sim_next s + n + 4096"
proof -
  let ?a = "4096 * (sim_next s div 4096 + 1)"
  have a: "?a \<le> sim_next s + 4096" using div_mult_mod_eq [of "sim_next s" 4096] by simp
  have n: "round_up 4096 n = n" using assms(2) by simp
  have lt: "?a + n < 2 ^ 64" using a assms(3) by linarith
  then have "?a < 2 ^ 64" by linarith
  then have "unat (of_nat ?a :: ptr) = ?a" using unat_of_nat [of ?a, where 'a = 64] by simp
  moreover have "0 < ?a" by simp
  ultimately have nz: "of_nat ?a \<noteq> null" by (metis less_irrefl unat_0)
  let ?s = "\<lparr> sim_next = ?a + n, sim_set = sim_mapped s \<union> {?a ..< ?a + n},
      sim_byte = (\<lambda>x. if ?a \<le> x then 0 else sim_byte s x) \<rparr>"
  have mm: "sim_mmap s h n prot flags = (?s, Inr (of_nat ?a))" for h prot flags
    unfolding sim_mmap_def Let_def n using lt by (rule if_P)
  have os: "os_mmap sim_os = sim_mmap" by (simp add: sim_os_def)
  have "map_pages sim_os s n prot commit = Some (?s, Some (of_nat ?a))"
    unfolding map_pages_def Let_def os mm using nz by simp
  moreover have "sim_next ?s \<le> sim_next s + n + 4096" using a by simp
  ultimately show ?thesis by blast
qed

lemma sim_fallible_map:
  assumes "0 < n" "sim_next s + n + 8192 < 2 ^ 64"
  shows "\<exists>s' p. fallible_map sim_os s n = Some (s', Some p) \<and> sim_next s' \<le> sim_next s + n + 8192"
proof -
  let ?n = "round_up 4096 n" let ?l = "\<lparr> lay_size = n, lay_align = 1 \<rparr>"
  have pg: "os_pagesize sim_os = 4096" by (simp add: sim_os_def)
  obtain m where m: "elf_map_alloc sim_os = Some m" "ma_pagesize m = 4096" using elf_map_alloc_ok [of sim_os] pg by auto
  have b: "n \<le> ?n" "?n < n + 4096" "4096 dvd ?n" using round_up_bounds [of 4096 n] by simp_all
  have l: "layout_from_size_align n 1 = Some ?l" using assms(2) by (intro layout_bytes) linarith
  have "mappable 4096 ?l" using assms by (simp add: mappable_def)
  then have nm: "next_multiple n 4096 = Some ?n" using next_multiple_mappable [of 4096 ?l] by simp
  have "0 < ?n" "sim_next s + ?n + 4096 < 2 ^ 64" using b(1,2) assms by linarith+
  then obtain s' p where mp: "map_pages sim_os s ?n (ma_perms m) (ma_commit m) = Some (s', Some p)"
      "sim_next s' \<le> sim_next s + ?n + 4096"
    using sim_map_pages [OF _ b(3), of s "ma_perms m" "ma_commit m"] by blast
  have "ma_alloc sim_os m s ?l = Some (s', Inr p)" using assms(1) m(2) nm mp(1) by (simp add: ma_alloc_def)
  then have "fallible_map sim_os s n = Some (s', Some p)" using l by (simp add: fallible_map_def m(1))
  then show ?thesis using mp(2) b(2) by (intro exI conjI) (assumption, linarith)
qed

section \<open>Size classes\<close>

text \<open>C35.  \<open>TieredSizeClasses\<close> is a best-fit map: for every size up to the largest class the lookup
  does not panic and gives the item of the smallest class that holds the size, and looking up that class's
  own size, as \<open>free\<close> does, gives the same item again.  \<open>class_of\<close> is the size an item was built for.\<close>

theorem size_class_best_fit:
  assumes "tiered_init w OS elem f s st start n_classes = Some (s', st', t)" "0 < start" "start \<le> 16"
    and "\<And>\<sigma> k. class_of (snd (f \<sigma> k)) = k"
    and "n \<le> tiered_max_key t" "w \<or> 0 < n"
  shows "\<exists>x. tiered_get w t n = Some x \<and> x \<in> set (tiered_foreach t) \<and> n \<le> class_of x
    \<and> (\<forall>y \<in> set (tiered_foreach t). n \<le> class_of y \<longrightarrow> class_of x \<le> class_of y)
    \<and> tiered_get w t (class_of x) = Some x"
proof -
  obtain a q b where "tiered_wf class_of w a q b t" using tiered_init_ok [OF assms(1-3), of class_of] assms(4) by blast
  from best_class_ok [OF this assms(5,6)] show ?thesis unfolding best_class_def .
qed

lemma sim_typed_array:
  assumes "0 < n" "0 < elem" "sim_next s + elem * n + 12288 < 2 ^ 64"
  shows "\<exists>s' a. typed_array_new sim_os s elem n = Some (s', a) \<and> sim_next s' \<le> sim_next s + elem * n + 12288"
proof -
  let ?b = "elem * n" let ?r = "(?b div 4096 + min 1 (?b mod 4096)) * 4096"
  have pg: "os_pagesize sim_os = 4096" by (simp add: sim_os_def)
  have r: "?b \<le> ?r" "?r < ?b + 4096" using pages_cover [of 4096 ?b] by simp_all
  have "0 < ?b" using assms(1,2) by simp
  then have "0 < ?r" "sim_next s + ?r + 8192 < 2 ^ 64" using r assms(3) by linarith+
  then obtain s' p where f: "fallible_map sim_os s ?r = Some (s', Some p)" "sim_next s' \<le> sim_next s + ?r + 8192"
    using sim_fallible_map by blast
  have "?b < 2 ^ 64" "?r < 2 ^ 64" using r assms(3) by linarith+
  then have "typed_array_new sim_os s elem n = Some (s', \<lparr> ta_data = p, ta_len = n, ta_mapped = ?r \<rparr>)"
    using f(1) by (simp add: typed_array_new_def pg mul_usize_def elf_map_def Let_def)
  moreover have "sim_next s' \<le> sim_next s + ?b + 12288" using f(2) r(2) by linarith
  ultimately show ?thesis by blast
qed

lemma sim_tiered:
  "\<exists>s' t. tiered_init True sim_os 8 (\<lambda>u k. (u, k)) sim_start () 8 25 = Some (s', (), t) \<and> tiered_max_key t = 2 ^ 20"
proof -
  have st: "sim_next sim_start = 0" by (simp add: sim_start_def)
  obtain s1 a1 where a1: "typed_array_new sim_os sim_start 8 12 = Some (s1, a1)" "sim_next s1 \<le> 20000"
    using sim_typed_array [of 12 8 sim_start] st by auto
  obtain s2 a2 where a2: "typed_array_new sim_os s1 8 13 = Some (s2, a2)"
    using sim_typed_array [of 13 8 s1] a1(2) by auto
  have r: "class_round 8 = Some 16" by (simp add: class_round_eq)
  have "sum_usize (16 * (0 + i + 1)) 16 = Some (16 * (Suc (0 + i) + 1))" if "i < 12" for i
    using that by (simp add: sum_usize_def)
  from fill_classes_total [where g = "\<lambda>i. 16 * (i + 1)" and nxt = "\<lambda>c. sum_usize c 16" and n = 12 and j = 0 and f = "\<lambda>u k. (u, k)" and st = "()", OF this]
  obtain i1 where f1: "fill_classes (\<lambda>c. sum_usize c 16) (\<lambda>u k. (u, k)) 12 16 () = Some ((), i1, 208)" by auto
  have m: "multiples_init sim_os 8 (\<lambda>u k. (u, k)) sim_start () 8 12 =
      Some (s1, (), \<lparr> cl_starting_size = 16, cl_max_size = 192, cl_array = a1, cl_items = i1 \<rparr>)"
    using r a1(1) f1 by (simp add: multiples_init_def mul_usize_def multiple_def, simp add: sum_usize_def multiple_def)
  have "mul_usize (2 ^ (8 + (0 + i))) 2 = Some (2 ^ (8 + Suc (0 + i)))" if "i < 13" for i
  proof -
    have "(2 :: nat) ^ (8 + Suc i) \<le> 2 ^ 21" using that by (intro power_increasing) simp_all
    also have "\<dots> < 2 ^ 64" by simp
    finally have lt: "(2 :: nat) ^ (8 + Suc i) < 2 ^ 64" .
    have eq: "(2 :: nat) ^ (8 + i) * 2 = 2 ^ (8 + Suc i)" by (simp add: power_add)
    show ?thesis unfolding mul_usize_def add_0 eq using lt by (rule if_P)
  qed
  from fill_classes_total [where g = "\<lambda>i. 2 ^ (8 + i)" and nxt = "\<lambda>c. mul_usize c 2" and n = 13 and j = 0 and f = "\<lambda>u k. (u, k)" and st = "()", OF this]
  obtain i2 where f2: "fill_classes (\<lambda>c. mul_usize c 2) (\<lambda>u k. (u, k)) 13 256 () = Some ((), i2, 2097152)" by auto
  have "ceillog2 193 = 8" by code_simp
  then have "powers_init sim_os 8 (\<lambda>u k. (u, k)) s1 () 193 13 =
      Some (s2, (), \<lparr> cl_starting_size = 256, cl_max_size = 1048576, cl_array = a2, cl_items = i2 \<rparr>)"
    using a2 f2 by (simp add: powers_init_def next_pow2_def next_power_of_two_def)
  then show ?thesis using m
    by (simp add: tiered_init_def sub_usize_def elf_small_cutoff_def elf_small_page_size_def multiple_def Let_def,
        simp add: sum_usize_def tiered_max_key_def)
qed

theorem size_class_best_fit_witness:
  "\<exists>s' t x. tiered_init True sim_os 8 (\<lambda>u k. (u, k)) sim_start () 8 25 = Some (s', (), t)
    \<and> tiered_get True t 100 = Some x \<and> x \<in> set (tiered_foreach t) \<and> 100 \<le> x \<and> tiered_get True t x = Some x"
proof -
  obtain s' t where t: "tiered_init True sim_os 8 (\<lambda>u k. (u, k)) sim_start () 8 25 = Some (s', (), t)" "tiered_max_key t = 2 ^ 20"
    using sim_tiered by blast
  have "100 \<le> tiered_max_key t" unfolding t(2) by simp
  from size_class_best_fit [OF t(1), of "\<lambda>k. k" 100] this t(1) show ?thesis by auto
qed

section \<open>Large allocations\<close>

text \<open>C36.  Any history of large allocations: every block a client holds is mapped, aligned to 64 KiB and
  apart from all other blocks and from the memory mapped before; its kind and its size are found from its address,
  however many other blocks were allocated and freed meanwhile; and freeing it does not panic.\<close>

theorem large_alloc_history:
  assumes "os_contract OS mapped byte" "2 ^ 12 \<le> os_pagesize OS" "large_reach OS st0 st live"
  shows "(\<forall>p n. live p = Some n \<longrightarrow> 2 ^ 16 dvd unat p \<and> region p n \<subseteq> mapped (lg_os st) - mapped (lg_os st0)
        \<and> get_type st p = Some LargeType \<and> large_get_size st p = Some n \<and> (\<exists>st'. large_free OS st p = Some st'))
    \<and> (\<forall>p n q m. live p = Some n \<longrightarrow> live q = Some m \<longrightarrow> p \<noteq> q \<longrightarrow> region p n \<inter> region q m = {})"
proof -
  let ?pg = "os_pagesize OS"
  have pg: "0 < ?pg" using os_page [OF assms(1)] by blast
  have inv: "large_inv ?pg (mapped (lg_os st0)) (mapped (lg_os st)) (lg_info st) live"
    by (rule large_reach_inv [OF assms])
  have at: "large_at ?pg (mapped (lg_os st) - mapped (lg_os st0)) (lg_info st) p n" if "live p = Some n" for p n
    using inv that by (simp add: large_inv_def)
  show ?thesis
  proof (intro conjI allI impI)
    fix p n assume p: "live p = Some n"
    note a = at [OF p] and pl = large_at_place [OF at [OF p] pg]
    show "2 ^ 16 dvd unat p" by (rule pl(8))
    show "region p n \<subseteq> mapped (lg_os st) - mapped (lg_os st0)" using pl(4) a unfolding large_at_def by blast
    show "get_type st p = Some LargeType" using a by (simp add: get_type_def large_at_def get_commitment_mut_def)
    show "large_get_size st p = Some n"
      using a by (simp add: large_get_size_def get_commitment_def large_at_def sub_usize_def elf_sizes)
    show "\<exists>st'. large_free OS st p = Some st'" using large_free_ok [OF assms(1) a] by blast
  next
    fix p n q m assume pq: "live p = Some n" "live q = Some m" "p \<noteq> q"
    then have "large_extent ?pg p n \<inter> large_extent ?pg q m = {}" using inv unfolding large_inv_def by blast
    then show "region p n \<inter> region q m = {}"
      using large_at_place(4) [OF at [OF pq(1)] pg] large_at_place(4) [OF at [OF pq(2)] pg] by blast
  qed
qed

lemma sim_large_alloc:
  "\<exists>st p. large_alloc sim_os \<lparr> lg_os = sim_start, lg_info = Map.empty \<rparr> 3000000 = Some (st, p)"
proof -
  have pg: "os_pagesize sim_os = 4096" by (simp add: sim_os_def)
  have n: "large_fits (os_pagesize sim_os) 3000000" "2 ^ 12 \<le> os_pagesize sim_os" by (simp_all add: pg large_fits_def)
  have lp: "large_pages 3000000 = 78" by (simp add: large_pages_def)
  obtain s1 mem where f: "fallible_map sim_os sim_start 5177344 = Some (s1, Some mem)"
    using sim_fallible_map [of 5177344 sim_start] by (auto simp: sim_start_def)
  have "mmap_carve sim_os (2 ^ 16) sim_start 78 \<noteq> Some (s', None)" for s'
    using f by (auto simp: mmap_carve_def pg mul_usize_def sum_usize_def Let_def split: bind_splits if_splits)
  then show ?thesis
    using large_alloc_cases [OF sim_contract n(2,1), of "\<lparr> lg_os = sim_start, lg_info = Map.empty \<rparr>"] unfolding lp by auto
qed

theorem large_alloc_history_witness:
  "\<exists>st p. large_alloc sim_os \<lparr> lg_os = sim_start, lg_info = Map.empty \<rparr> 3000000 = Some (st, p)
    \<and> large_get_size st p = Some 3000000 \<and> get_type st p = Some LargeType \<and> (\<exists>st'. large_free sim_os st p = Some st')"
proof -
  let ?s = "\<lparr> lg_os = sim_start, lg_info = Map.empty \<rparr>"
  obtain st p where a: "large_alloc sim_os ?s 3000000 = Some (st, p)" using sim_large_alloc by blast
  have pg: "os_pagesize sim_os = 4096" by (simp add: sim_os_def)
  have n: "large_fits (os_pagesize sim_os) 3000000" "2 ^ 12 \<le> os_pagesize sim_os" by (simp_all add: pg large_fits_def)
  have "large_reach sim_os ?s st [p \<mapsto> 3000000]" by (rule large_reach.got [OF large_reach.start n(1) a])
  from large_alloc_history [OF sim_contract n(2) this] a show ?thesis by simp
qed

text \<open>C37.  Freeing a large block does not return all of its memory: the mapping was rounded up to 64 KiB, but
  \<open>free\<close> unmaps only as many pages as the stored size needs, so the pages behind stay mapped for ever.\<close>

theorem large_free_leaks:
  assumes "os_contract OS mapped byte" "2 ^ 12 \<le> os_pagesize OS" "os_pagesize OS \<le> 2 ^ 16" "large_fits (os_pagesize OS) n"
    and "large_alloc OS st n = Some (st1, p)"
  shows "\<exists>st2. large_free OS st1 p = Some st2 \<and> mapped (lg_os st2) = mapped (lg_os st) \<union>
    {unat p + round_up (os_pagesize OS) (n + 2 ^ 21) - 2 ^ 21 ..< unat p + round_up (2 ^ 16) (n + 2 ^ 21) - 2 ^ 21}"
proof -
  let ?pg = "os_pagesize OS" let ?P = "large_pages n * 2 ^ 16"
  have pg: "is_power_of_two ?pg" "0 < ?pg" using os_page [OF assms(1)] by blast+
  obtain s' mem where al: "st1 = \<lparr> lg_os = s', lg_info = (lg_info st)(get_commitment_mut (offset mem (2 ^ 21)) \<mapsto>
        \<lparr> ai_ty = LargeType, ai_base = mem, ai_region_size = n + 2 ^ 21 \<rparr>) \<rparr>" "p = offset mem (2 ^ 21)"
      "2 ^ 16 dvd unat mem" "fresh_map ?pg mapped byte (lg_os st) s' mem ?P"
    using large_alloc_cases [OF assms(1,2,4), of st] assms(5) by auto
  have b: "large_base p = mem" unfolding al(2) by (rule large_base_offset)
  have at: "large_at ?pg (mapped (lg_os st1) - {}) (lg_info st1) p n"
    using al(3,4) assms(4) unfolding large_at_def large_extent_def b fresh_map_def al(1) al(2) [symmetric] by auto
  note pl = large_at_place [OF at pg(2), unfolded b]
  obtain st2 where f: "large_free OS st1 p = Some st2" "mapped (lg_os st2) = mapped s' - pages ?pg mem (n + 2 ^ 21)"
    using large_free_ok [OF assms(1) at] unfolding b al(1) by auto
  have "?pg dvd 2 ^ 16" by (rule pow2_le_dvd [OF pg(1) is_power_of_two_power assms(3)])
  then have "?pg dvd ?P" by (rule dvd_mult)
  then have "pages ?pg mem ?P = {unat mem ..< unat mem + ?P}" using pg(2) by (simp add: pages_def region_def)
  moreover have r: "round_up (2 ^ 16) (n + 2 ^ 21) = ?P"
    using large_pages_bounds [of n] by (intro round_up_eqI) simp_all
  moreover have "round_up ?pg (n + 2 ^ 21) \<le> ?P"
    using pl(5) \<open>?pg dvd ?P\<close> pg(2) round_up_pos [OF pg(2), of "n + 2 ^ 21"]
    by (simp add: large_extent_def b pages_def region_def)
  moreover have "mapped s' = mapped (lg_os st) \<union> pages ?pg mem ?P" "pages ?pg mem ?P \<inter> mapped (lg_os st) = {}"
    using al(4) by (simp_all add: fresh_map_def)
  ultimately have "mapped (lg_os st2) = mapped (lg_os st) \<union> {unat mem + round_up ?pg (n + 2 ^ 21) ..< unat mem + ?P}"
    unfolding f(2) pages_def region_def by auto
  then show ?thesis using f(1) pl(1) r by (simp add: add.commute add.left_commute)
qed

theorem large_free_leaks_witness:
  "\<exists>st1 p st2. large_alloc sim_os \<lparr> lg_os = sim_start, lg_info = Map.empty \<rparr> 3000000 = Some (st1, p)
    \<and> large_free sim_os st1 p = Some st2 \<and> sim_mapped (lg_os st2) = {unat p + 3002368 ..< unat p + 3014656}"
proof -
  let ?s = "\<lparr> lg_os = sim_start, lg_info = Map.empty \<rparr>"
  obtain st p where a: "large_alloc sim_os ?s 3000000 = Some (st, p)" using sim_large_alloc by blast
  have pg: "os_pagesize sim_os = 4096" by (simp add: sim_os_def)
  have n: "2 ^ 12 \<le> os_pagesize sim_os" "os_pagesize sim_os \<le> 2 ^ 16" "large_fits (os_pagesize sim_os) 3000000"
    by (simp_all add: pg large_fits_def)
  have r: "round_up 4096 5097152 = 5099520" "round_up 65536 5097152 = 5111808"
    by (simp_all add: round_up_def padding_needed_for_def)
  show ?thesis using large_free_leaks [OF sim_contract n a] a by (simp add: pg r sim_mapped_def sim_start_def add.commute)
qed

section \<open>The page cache\<close>

text \<open>C34.  Any history of a \<open>PageAlloc\<close>: the pages its clients hold are aligned to the page size, mapped, and
  apart from each other and from the memory mapped before.  A further allocation fails only when the source has no
  memory, gives a page nobody holds and leaves all memory as it is; a free does not panic and changes at most the
  page given back; and when all pages are back, dropping the cache unmaps exactly what it had mapped.\<close>

theorem page_alloc_history:
  assumes "os_contract OS mapped byte" "madvise_contract OS mapped byte"
    and "page_new_aligned ps target pipe_size align ty = Some pa0" "1 < ps" "os_pagesize OS \<le> ps" "3 * align + os_pagesize OS \<le> 2 ^ 64"
    and "page_reach OS pa0 m0 pa m H"
  shows "(\<forall>p \<in> H. ps dvd unat p \<and> region p ps \<subseteq> mapped (em_os m) - mapped (em_os m0))
    \<and> (\<forall>p \<in> H. \<forall>q \<in> H. p \<noteq> q \<longrightarrow> region p ps \<inter> region q ps = {})
    \<and> (page_alloc_alloc OS pa m = None \<longrightarrow> source_failed OS pa m)
    \<and> (\<forall>pa' m' p. page_alloc_alloc OS pa m = Some (pa', m', p) \<longrightarrow> p \<notin> H \<and> kept byte (em_os m) (em_os m') (mapped (em_os m)))
    \<and> (\<forall>p \<in> H. \<exists>pa' m'. page_alloc_free OS pa m p d = Some (pa', m')
          \<and> kept byte (em_os m) (em_os m') (mapped (em_os m) - region p ps))
    \<and> (H = {} \<longrightarrow> (\<exists>s'. page_alloc_drop OS pa (em_os m) = Some s' \<and> mapped s' = mapped (em_os m0)))"
proof -
  let ?pg = "os_pagesize OS"
  have new: "page_inv ?pg (mapped (em_os m0)) (mapped (em_os m0)) pa0 {}" "pa_creek pa0 = ps"
    using page_new_ok [OF assms(3-6)] by blast+
  have inv: "page_inv ?pg (mapped (em_os m0)) (mapped (em_os m)) pa H" and ps: "pa_creek pa = ps"
    using page_reach_inv [OF assms(1,2) new(1) assms(7)] new(2) by simp_all
  then have wf: "pages_wf ps (mapped (em_os m0)) (mapped (em_os m)) (pipe_items (pa_clean pa) + pipe_items (pa_dirty pa)) H"
    by (simp add: page_inv_def)
  note al = page_alloc_cases [OF assms(1) inv]
  show ?thesis
  proof (intro conjI ballI impI allI)
    fix p assume p: "p \<in> H"
    show "ps dvd unat p" "region p ps \<subseteq> mapped (em_os m) - mapped (em_os m0)"
      using page_cache_held [OF wf p] by (simp_all add: page_at_def)
    show "\<exists>pa' m'. page_alloc_free OS pa m p d = Some (pa', m') \<and> kept byte (em_os m) (em_os m') (mapped (em_os m) - region p ps)"
      using page_free_ok [OF assms(1,2) inv p, of d] ps by auto
    fix q assume "q \<in> H" "p \<noteq> q"
    then show "region p ps \<inter> region q ps = {}" using pages_disjoint page_cache_held(1) [OF wf] p by blast
  next
    assume "page_alloc_alloc OS pa m = None"
    then show "source_failed OS pa m" using al by (auto simp: source_failed_def)
  next
    fix pa' m' p assume "page_alloc_alloc OS pa m = Some (pa', m', p)"
    then show "p \<notin> H" "kept byte (em_os m) (em_os m') (mapped (em_os m))" using al by auto
  next
    assume "H = {}"
    then show "\<exists>s'. page_alloc_drop OS pa (em_os m) = Some s' \<and> mapped s' = mapped (em_os m0)"
      using page_drop_ok [OF assms(1)] inv by simp
  qed
qed

theorem page_alloc_history_witness:
  "\<exists>pa0 pa m p. page_new_aligned 8192 2 2 8192 SmallSlag = Some pa0
    \<and> page_alloc_alloc sim_os pa0 \<lparr> em_os = sim_start, em_types = (\<lambda>_. SmallSlag), em_words = (\<lambda>_. 0) \<rparr> = Some (pa, m, p)
    \<and> 8192 dvd unat p \<and> region p 8192 \<subseteq> sim_mapped (em_os m)
    \<and> (\<exists>pa' m'. page_alloc_free sim_os pa m p True = Some (pa', m'))"
proof -
  let ?m = "\<lparr> em_os = sim_start, em_types = (\<lambda>_. SmallSlag), em_words = (\<lambda>_. 0) \<rparr>"
  have pg: "os_pagesize sim_os = 4096" by (simp add: sim_os_def)
  have "is_power_of_two 8192" using is_power_of_two_power [of 13] by simp
  then have src: "mmap_source_new 8192 = 8192" by (simp add: mmap_source_new_def next_power_of_two_def is_power_of_two_def)
  obtain pa0 where new: "page_new_aligned 8192 2 2 8192 SmallSlag = Some pa0" and par: "pa_aligned_source pa0 = 8192" "pa_pages_per pa0 = 1"
    using \<open>is_power_of_two 8192\<close> src by (auto simp: page_new_aligned_def pipe_new_size_def)
  have lim: "1 < (8192 :: nat)" "os_pagesize sim_os \<le> 8192" "3 * 8192 + os_pagesize sim_os \<le> 2 ^ 64" by (simp_all add: pg)
  have adv: "madvise_contract sim_os sim_mapped sim_byte" by (simp add: madvise_contract_def sim_os_def kept_def)
  have inv: "page_inv (os_pagesize sim_os) (sim_mapped (em_os ?m)) (sim_mapped (em_os ?m)) pa0 {}"
    using page_new_ok [OF new lim] by blast
  obtain s1 mem where f: "fallible_map sim_os sim_start 24576 = Some (s1, Some mem)"
    using sim_fallible_map [of 24576 sim_start] by (auto simp: sim_start_def)
  have "mmap_carve sim_os 8192 sim_start 2 \<noteq> Some (s', None)" for s'
    using f by (auto simp: mmap_carve_def pg mul_usize_def sum_usize_def Let_def split: bind_splits if_splits)
  then obtain pa m p where a: "page_alloc_alloc sim_os pa0 ?m = Some (pa, m, p)"
    using page_alloc_cases [OF sim_contract inv] par by auto
  have "page_reach sim_os pa0 ?m pa m {p}" by (rule page_reach.got [OF page_reach.start a])
  from page_alloc_history [OF sim_contract adv new lim this, of True] new a show ?thesis by auto
qed

end
