(* ===== verification/Bag_Revoke.thy ===== *)
theory Bag_Revoke
  imports Bag_Pipe
begin

text \<open>
  Revocation from a \<open>BagPipe\<close> of revocable queues (\<open>src/bagpipe/src/lib.rs\<close>).  The handle of an
  item is a word in the item that holds the address of the cell the item was last stored in; the
  model keeps it as one entry per queue, of which at most one is set.  The lemmas show that
  handles are never stale, so that the queues meet the contract of \<open>SharedWeakBag\<close> with handles
  that point, and that a revocation takes the item out of the pipe or changes nothing.  A
  revocation is not counted in the size estimate, so pipes with revocation keep a weaker
  invariant than the others.
\<close>

subsection \<open>Operations\<close>

text \<open>The queue whose cell the handle of an item points to.\<close>

definition handle_queue :: "faa_queue list \<Rightarrow> usize \<Rightarrow> nat option" where
  "handle_queue qs it = find (\<lambda>i. fq_handle (qs ! i) it \<noteq> None) [0..<length qs]"

definition pipe_revoke :: "faa_queue pipe_state \<Rightarrow> usize \<Rightarrow> (faa_queue pipe_state \<times> bool) option" where
  "pipe_revoke st it =
     as_usize it \<bind> (\<lambda>_. case handle_queue (ps_pipes st) it of
         None \<Rightarrow> Some (st, False)
       | Some i \<Rightarrow> faa_revoke (ps_pipes st ! i) it \<bind> (\<lambda>(q, b).
           Some (st\<lparr> ps_pipes := (ps_pipes st)[i := q] \<rparr>, b)))"

text \<open>Storing 0 to the handle of an item.\<close>

definition clear_handle :: "usize \<Rightarrow> faa_queue pipe_state \<Rightarrow> faa_queue pipe_state" where
  "clear_handle it st = st\<lparr> ps_pipes := map (handle_store True it None) (ps_pipes st) \<rparr>"

subsection \<open>Handles point\<close>

definition handle_ok :: "faa_queue \<Rightarrow> bool" where
  "handle_ok q \<longleftrightarrow> (\<forall>it. fq_handle q it \<noteq> None \<longrightarrow> valid_item it \<and> handle_points q it)"

lemma handle_okD:
  assumes "handle_ok q" "fq_handle q it \<noteq> None"
  obtains i ix where "valid_item it" "fq_handle q it = Some (fq_base q + i, ix)" "i < length (fq_nodes q)"
    "fn_head_index (fq_nodes q ! i) \<le> ix" "ix < small_seg_size" "fn_data (fq_nodes q ! i) ! ix = it"
  using assms unfolding handle_ok_def handle_points_def by blast

lemma handle_okI:
  assumes "\<And>it n jx. fq_handle q it = Some (n, jx) \<Longrightarrow> valid_item it \<and> (\<exists>i. n = fq_base q + i \<and> i < length (fq_nodes q)
    \<and> fn_head_index (fq_nodes q ! i) \<le> jx \<and> jx < small_seg_size \<and> fn_data (fq_nodes q ! i) ! jx = it)"
  shows "handle_ok q"
  unfolding handle_ok_def handle_points_def using assms by fastforce

text \<open>A handle that points belongs to an item of the queue.\<close>

lemma handle_points_item:
  assumes "faa_inv q" "valid_item it" "handle_points q it"
  shows "it \<in> set (faa_items q)"
proof -
  obtain q' where "mset (faa_items q) = add_mset it (mset (faa_items q'))"
    using faa_revoke_ok [OF assms] by blast
  then show ?thesis by (metis set_mset_mset union_single_eq_member)
qed

lemma faa_new_handles: "handle_ok faa_new"
  by (simp add: handle_ok_def faa_new_def)

lemma faa_push_handles:
  assumes inv: "faa_inv q" and h: "handle_ok q" and it: "valid_item it"
    and push: "faa_try_push True q it = Some (q', r)"
  shows "handle_ok q'"
proof -
  obtain ns l where n: "fq_nodes q = ns @ [l]" "fq_tail q = length ns" "node_ok l" using faa_invD [OF inv] by blast
  have u: "as_usize it = Some it" using it by (simp add: as_usize_def valid_item_def)
  let ?l = "l\<lparr> fn_tail_index := fn_tail_index l + 1 \<rparr>"
  show ?thesis
  proof (cases "small_seg_size \<le> fn_tail_index l")
    case True
    have "q' = q\<lparr> fq_nodes := (ns @ [?l]) @ [faa_node_new it], fq_tail := length ns + 1 \<rparr>"
      using push True n(1,2) by (simp add: faa_try_push_def u faa_push_loop.simps [of True q] Let_def)
    then have e: "fq_handle q' = fq_handle q" "fq_base q' = fq_base q" "length (fq_nodes q) \<le> length (fq_nodes q')"
      "\<And>i. i < length (fq_nodes q) \<Longrightarrow> fn_data (fq_nodes q' ! i) = fn_data (fq_nodes q ! i)
          \<and> fn_head_index (fq_nodes q' ! i) = fn_head_index (fq_nodes q ! i)"
      using n(1) by (auto simp: nth_append less_Suc_eq)
    show ?thesis
    proof (rule handle_okI)
      fix x m jx assume "fq_handle q' x = Some (m, jx)"
      then have "fq_handle q x = Some (m, jx)" using e(1) by simp
      then obtain i where i: "valid_item x" "m = fq_base q + i" "i < length (fq_nodes q)" "fn_head_index (fq_nodes q ! i) \<le> jx"
          "jx < small_seg_size" "fn_data (fq_nodes q ! i) ! jx = x"
        using handle_okD [OF h, of x] by fastforce
      then show "valid_item x \<and> (\<exists>i. m = fq_base q' + i \<and> i < length (fq_nodes q') \<and> fn_head_index (fq_nodes q' ! i) \<le> jx
          \<and> jx < small_seg_size \<and> fn_data (fq_nodes q' ! i) ! jx = x)"
        using e(2,3) e(4) [OF i(3)] by (intro conjI exI [of _ i]) simp_all
    qed
  next
    case False
    let ?t = "fn_tail_index l"
    have z: "fn_data l ! ?t = 0" "?t < length (fn_data l)" using n(3) False node_push(1) [OF n(3) _ it] by (simp_all add: node_ok_def)
    have e: "fq_handle q' = (fq_handle q)(it \<mapsto> (fq_base q + length ns, ?t))" "fq_base q' = fq_base q"
        "fq_nodes q' = ns @ [?l\<lparr> fn_data := (fn_data l)[?t := it] \<rparr>]"
      using push False n(1,2) z(1) by (auto simp: faa_try_push_def u faa_push_loop.simps [of True q] Let_def handle_store_def)
    show ?thesis
    proof (rule handle_okI)
      fix x m jx assume x: "fq_handle q' x = Some (m, jx)"
      show "valid_item x \<and> (\<exists>i. m = fq_base q' + i \<and> i < length (fq_nodes q') \<and> fn_head_index (fq_nodes q' ! i) \<le> jx
          \<and> jx < small_seg_size \<and> fn_data (fq_nodes q' ! i) ! jx = x)"
      proof (cases "x = it")
        case True
        then have "m = fq_base q' + length ns" "jx = ?t" using x e(1,2) by auto
        then show ?thesis using True it False n(3) e(3) z(2)
          by (auto simp: node_ok_def intro!: exI [of _ "length ns"])
      next
        case ne: False
        then have "fq_handle q x = Some (m, jx)" using x e(1) by simp
        then obtain i where i: "valid_item x" "m = fq_base q + i" "i < length (fq_nodes q)" "fn_head_index (fq_nodes q ! i) \<le> jx"
            "jx < small_seg_size" "fn_data (fq_nodes q ! i) ! jx = x"
          using handle_okD [OF h, of x] by fastforce
        show ?thesis
        proof (cases "i = length ns")
          case True
          then have "jx \<noteq> ?t" using i(1,6) n(1) z(1) by (auto simp: valid_item_def)
          then show ?thesis using i True n(1) e(2,3) by (auto intro!: exI [of _ i])
        next
          case False
          then show ?thesis using i n(1) e(2,3) by (auto simp: nth_append less_Suc_eq intro!: exI [of _ i])
        qed
      qed
    qed
  qed
qed

lemma faa_pop_handles:
  "faa_inv q \<Longrightarrow> handle_ok q \<Longrightarrow> faa_try_pop True q = Some (q', r) \<Longrightarrow> handle_ok q'"
proof (induction True q rule: faa_try_pop.induct)
  case (1 q)
  note inv = "1.prems"(1) and h = "1.prems"(2) and pop = "1.prems"(3)
  obtain n ns where q: "fq_nodes q = n # ns" using faa_invD [OF inv] by (metis append_is_Nil_conv neq_Nil_conv)
  have ok: "node_ok n" using faa_inv_first [OF inv q] .
  let ?h = "fn_head_index n" and ?v = "fn_data n ! fn_head_index n"
  have points: "\<exists>i. valid_item x \<and> m = fq_base q + i \<and> i < Suc (length ns) \<and> fn_head_index ((n # ns) ! i) \<le> jx
      \<and> jx < small_seg_size \<and> fn_data ((n # ns) ! i) ! jx = x" if "fq_handle q x = Some (m, jx)" for x m jx
    using handle_okD [OF h, of x] that q by fastforce
  show ?case
  proof (cases "fn_tail_index n \<le> ?h \<and> ns = []")
    case True
    then show ?thesis using pop h q by (simp add: faa_try_pop.simps [of True q])
  next
    case ne: False
    show ?thesis
    proof (cases "small_seg_size \<le> ?h")
      case True
      let ?q = "q\<lparr> fq_base := fq_base q + 1, fq_nodes := ns, fq_tail := fq_tail q - 1 \<rparr>"
      show ?thesis
      proof (cases "ns = []")
        case True
        then have "q' = q\<lparr> fq_nodes := [n\<lparr> fn_head_index := ?h + 1 \<rparr>] \<rparr>"
          using pop q ne \<open>small_seg_size \<le> ?h\<close> by (simp add: faa_try_pop.simps [of True q] Let_def)
        moreover have "fq_handle q x = None" for x
          using points [of x] True \<open>small_seg_size \<le> ?h\<close> by (cases "fq_handle q x") auto
        ultimately show ?thesis by (simp add: handle_ok_def)
      next
        case ns: False
        have e: "faa_try_pop True ?q = Some (q', r)" using pop q ns ne True by (simp add: faa_try_pop.simps [of True q] Let_def)
        have "handle_ok ?q"
        proof (rule handle_okI)
          fix x m jx assume "fq_handle ?q x = Some (m, jx)"
          then obtain i where i: "valid_item x" "m = fq_base q + i" "i < Suc (length ns)" "fn_head_index ((n # ns) ! i) \<le> jx"
              "jx < small_seg_size" "fn_data ((n # ns) ! i) ! jx = x" using points by fastforce
          then have "i \<noteq> 0" using True by (cases i) auto
          then obtain j where "i = Suc j" by (cases i) auto
          then show "valid_item x \<and> (\<exists>i. m = fq_base ?q + i \<and> i < length (fq_nodes ?q) \<and> fn_head_index (fq_nodes ?q ! i) \<le> jx
              \<and> jx < small_seg_size \<and> fn_data (fq_nodes ?q ! i) ! jx = x)"
            using i by (intro conjI exI [of _ j]) simp_all
        qed
        then show ?thesis using "1.hyps" [OF q ne refl refl True ns faa_inv_next(1) [OF inv q ns] _ e] by blast
      qed
    next
      case False
      let ?q = "q\<lparr> fq_nodes := n\<lparr> fn_head_index := ?h + 1, fn_data := (fn_data n)[?h := sentinel] \<rparr> # ns \<rparr>"
      have q': "q' = ?q \<and> (?v = 0 \<or> ?v = sentinel) \<or> q' = handle_store True ?v None ?q"
        using pop q ne False by (auto simp: faa_try_pop.simps [of True q] Let_def split: if_splits)
      show ?thesis
      proof (rule handle_okI)
        fix x m jx assume x: "fq_handle q' x = Some (m, jx)"
        then have "fq_handle q x = Some (m, jx)" using q' by (auto simp: handle_store_def split: if_splits)
        then obtain i where i: "valid_item x" "m = fq_base q + i" "i < Suc (length ns)" "fn_head_index ((n # ns) ! i) \<le> jx"
            "jx < small_seg_size" "fn_data ((n # ns) ! i) ! jx = x" using points by fastforce
        have "x \<noteq> ?v" using x q' i(1) by (auto simp: handle_store_def valid_item_def split: if_splits)
        then have "i \<noteq> 0 \<or> jx \<noteq> ?h" using i(6) by auto
        then have "fn_head_index (fq_nodes ?q ! i) \<le> jx" "fn_data (fq_nodes ?q ! i) ! jx = x"
          using i(4,6) by (cases i; simp)+
        moreover have "fq_base q' = fq_base q" "fq_nodes q' = fq_nodes ?q" using q' by auto
        ultimately show "valid_item x \<and> (\<exists>i. m = fq_base q' + i \<and> i < length (fq_nodes q') \<and> fn_head_index (fq_nodes q' ! i) \<le> jx
            \<and> jx < small_seg_size \<and> fn_data (fq_nodes q' ! i) ! jx = x)"
          using i by (intro conjI exI [of _ i]) simp_all
      qed
    qed
  qed
qed

text \<open>The revocable queue meets the contract of the bags with an invariant that includes its handles.\<close>

definition rq_inv :: "faa_queue \<Rightarrow> bool" where
  "rq_inv q \<longleftrightarrow> faa_inv q \<and> handle_ok q"

interpretation rq: bag_contract "faa_bag True" rq_inv valid_item "\<lambda>q. mset (faa_items q)" faa_poison
proof unfold_locales
  show "rq_inv (wb_new (faa_bag True))" "mset (faa_items (wb_new (faa_bag True))) = {#}"
    using faa_new_ok faa_new_handles by (simp_all add: faa_bag_def rq_inv_def)
next
  fix q it assume a: "rq_inv q" "valid_item it"
  then obtain q' where q': "faa_try_push True q it = Some (q', None)" "faa_inv q'" "faa_items q' = faa_items q @ [it]"
    using faa_push_ok [of q it True] by (auto simp: rq_inv_def)
  moreover have "handle_ok q'" using faa_push_handles [OF _ _ a(2) q'(1)] a(1) by (simp add: rq_inv_def)
  ultimately show "\<exists>q' r. wb_try_push (faa_bag True) q it = Some (q', r) \<and> rq_inv q'
      \<and> (r = None \<and> mset (faa_items q') = add_mset it (mset (faa_items q))
         \<or> r = Some it \<and> mset (faa_items q') = mset (faa_items q) \<and> faa_poison q' < faa_poison q)"
    by (simp add: faa_bag_def rq_inv_def)
next
  fix q assume a: "rq_inv q"
  then obtain q' r where q': "wb_try_pop (faa_bag True) q = Some (q', r)" "faa_inv q'"
      "case r of Popped it \<Rightarrow> valid_item it \<and> mset (faa_items q) = add_mset it (mset (faa_items q'))
         | PopEmpty \<Rightarrow> mset (faa_items q) = {#} \<and> mset (faa_items q') = {#}
         | PopTransient \<Rightarrow> mset (faa_items q') = mset (faa_items q) \<and> faa_poison q' < faa_poison q"
    using faa.pop_ok [of q True] by (auto simp: rq_inv_def)
  moreover have "handle_ok q'" using faa_pop_handles [of q q' r] a q'(1) by (simp add: rq_inv_def faa_bag_def)
  ultimately show "\<exists>q' r. wb_try_pop (faa_bag True) q = Some (q', r) \<and> rq_inv q'
      \<and> (case r of Popped it \<Rightarrow> valid_item it \<and> mset (faa_items q) = add_mset it (mset (faa_items q'))
         | PopEmpty \<Rightarrow> mset (faa_items q) = {#} \<and> mset (faa_items q') = {#}
         | PopTransient \<Rightarrow> mset (faa_items q') = mset (faa_items q) \<and> faa_poison q' < faa_poison q)"
    by (auto simp: rq_inv_def)
qed

subsection \<open>Pipes without a size estimate\<close>

definition pipe_weak :: "('q \<Rightarrow> bool) \<Rightarrow> 'q pipe_state \<Rightarrow> pipe_handle \<Rightarrow> bool" where
  "pipe_weak ok st h \<longleftrightarrow> pipes_ok ok (ps_pipes st) \<and> odd (ph_stride h)"

lemma propagate_diff_pipes:
  "propagate_diff st h d = (st', h') \<Longrightarrow> ps_pipes st' = ps_pipes st \<and> ph_stride h' = ph_stride h"
  by (auto simp: propagate_diff_def push_diff_def Let_def split: if_splits)

context bag_contract
begin

lemma weak_try_push_mut:
  assumes "pipe_weak ok st h" "item it"
  shows "\<exists>st' h' r. try_push_mut B st h it = Some (st', h', r) \<and> pipe_weak ok st' h'
     \<and> (r = None \<and> pipe_contents contents (ps_pipes st') = add_mset it (pipe_contents contents (ps_pipes st))
        \<or> r = Some it \<and> pipe_contents contents (ps_pipes st') = pipe_contents contents (ps_pipes st))"
proof -
  obtain st1 r where p: "try_push_internal B st it (ph_offset h) (ph_stride h) (ph_push_failures h + 1) False = Some (st1, r)"
    "pipes_ok ok (ps_pipes st1)"
    "(\<exists>b. r = Inl b) \<and> pipe_contents contents (ps_pipes st1) = add_mset it (pipe_contents contents (ps_pipes st))
      \<or> r = Inr it \<and> pipe_contents contents (ps_pipes st1) = pipe_contents contents (ps_pipes st)"
    using push_internal_ok [of st it "ph_offset h" "ph_stride h" "ph_push_failures h + 1" False] assms
    by (auto simp: pipe_weak_def)
  show ?thesis
  proof (cases r)
    case (Inl b)
    obtain st2 h2 where d: "propagate_diff st1 (h\<lparr> ph_push_failures := ph_push_failures h div 2 \<rparr>) 1 = (st2, h2)" by fastforce
    then show ?thesis using propagate_diff_pipes [OF d] p Inl assms(1) by (simp add: try_push_mut_def pipe_weak_def)
  next
    case (Inr it')
    then show ?thesis using p assms(1) by (simp add: try_push_mut_def pipe_weak_def)
  qed
qed

lemma weak_push_mut:
  assumes "pipe_weak ok st h" "item it"
  shows "\<exists>st' h'. push_mut B st h it = Some (st', h') \<and> pipe_weak ok st' h'
     \<and> pipe_contents contents (ps_pipes st') = add_mset it (pipe_contents contents (ps_pipes st))"
proof -
  obtain st1 h1 r where t: "try_push_mut B st h it = Some (st1, h1, r)" "pipe_weak ok st1 h1"
    "r = None \<and> pipe_contents contents (ps_pipes st1) = add_mset it (pipe_contents contents (ps_pipes st))
     \<or> r = Some it \<and> pipe_contents contents (ps_pipes st1) = pipe_contents contents (ps_pipes st)"
    using weak_try_push_mut [OF assms] by blast
  show ?thesis
  proof (cases r)
    case None
    then show ?thesis using t by (simp add: push_mut_def)
  next
    case (Some it')
    obtain st2 b where p: "try_push_internal B st1 it (ph_offset h1) (ph_stride h1) (ph_push_failures h1 + 1) True = Some (st2, Inl b)"
      "pipes_ok ok (ps_pipes st2)" "pipe_contents contents (ps_pipes st2) = add_mset it (pipe_contents contents (ps_pipes st1))"
      using push_internal_ok [of st1 it "ph_offset h1" "ph_stride h1" "ph_push_failures h1 + 1" True] t(2) assms(2)
      by (auto simp: pipe_weak_def)
    define h2 where "h2 = (if b then h1\<lparr> ph_push_failures := ph_push_failures h1 div 2 \<rparr>
      else h1\<lparr> ph_offset := ph_offset h1 + ph_stride h1, ph_push_failures := ph_push_failures h1 + 1 \<rparr>)"
    obtain st3 h3 where d: "propagate_diff st2 h2 1 = (st3, h3)" by fastforce
    have "ps_pipes st3 = ps_pipes st2" "ph_stride h3 = ph_stride h1" using propagate_diff_pipes [OF d] by (simp_all add: h2_def)
    moreover have "push_mut B st h it = Some (st3, h3)"
      using t Some p(1) d by (cases b) (auto simp: push_mut_def h2_def)
    ultimately show ?thesis using t(2,3) Some p(2,3) by (simp add: pipe_weak_def)
  qed
qed

lemma weak_try_pop_mut:
  assumes "pipe_weak ok st h"
  shows "\<exists>st' h' r. try_pop_mut B st h = Some (st', h', r) \<and> pipe_weak ok st' h'
     \<and> (case r of Popped it \<Rightarrow> item it \<and> pipe_contents contents (ps_pipes st) = add_mset it (pipe_contents contents (ps_pipes st'))
        | _ \<Rightarrow> pipe_contents contents (ps_pipes st') = pipe_contents contents (ps_pipes st))"
proof -
  have inv: "pipes_ok ok (ps_pipes st)" "odd (ph_stride h)" using assms by (simp_all add: pipe_weak_def)
  have l: "0 < length (ps_pipes st)" using inv(1) is_power_of_two_pos unfolding pipes_ok_def by blast
  obtain ps r where p: "pop_sched B (ps_pipes st) (ph_offset h) (ph_stride h) (ph_pop_failures h * 2 + 1) 0 [] = Some (ps, r)"
    "pipes_ok ok ps" "case r of Popped it \<Rightarrow> item it \<and> pipe_contents contents (ps_pipes st) = add_mset it (pipe_contents contents ps)
        | PopEmpty \<Rightarrow> pipe_contents contents (ps_pipes st) = {#} \<and> pipe_contents contents ps = {#}
        | PopTransient \<Rightarrow> pipe_contents contents ps = pipe_contents contents (ps_pipes st)"
    using pop_sched_ok [OF inv, where n = "ph_pop_failures h * 2 + 1" and empties = 0 and s = "ph_offset h"
        and ix = "ph_offset h" and seen = "[]"] l by auto
  have i: "try_pop_internal B st (ph_offset h) (ph_stride h) (ph_pop_failures h * 2 + 1) = Some (st\<lparr> ps_pipes := ps \<rparr>, r)"
    using inv(1) p(1) by (simp add: try_pop_internal_def pipes_ok_def)
  show ?thesis
  proof (cases r)
    case (Popped it)
    obtain st2 h2 where d: "propagate_diff (st\<lparr> ps_pipes := ps \<rparr>) (h\<lparr> ph_pop_failures := ph_pop_failures h div 2 \<rparr>) (- 1) = (st2, h2)"
      by fastforce
    then show ?thesis using propagate_diff_pipes [OF d] p i Popped inv(2) by (simp add: try_pop_mut_def pipe_weak_def)
  qed (use p i inv(2) in \<open>simp_all add: try_pop_mut_def pipe_weak_def\<close>)
qed

lemma weak_pipe_new:
  assumes "0 < sz"
  shows "\<exists>st h. pipe_new_size B sz = Some (st, h) \<and> pipe_weak ok st h \<and> pipe_contents contents (ps_pipes st) = {#}"
  using pipe_new_ok [OF assms] by (auto simp: pipe_inv_def pipe_weak_def)

end

subsection \<open>Revocation from a pipe\<close>

abbreviation avail_ok :: "faa_queue pipe_state \<times> pipe_handle \<Rightarrow> bool" where
  "avail_ok sp \<equiv> pipe_weak rq_inv (fst sp) (snd sp)"

abbreviation avail_items :: "faa_queue pipe_state \<times> pipe_handle \<Rightarrow> usize multiset" where
  "avail_items sp \<equiv> pipe_contents (\<lambda>q. mset (faa_items q)) (ps_pipes (fst sp))"

lemma slagpipe_pop:
  assumes "avail_ok sp"
  shows "\<exists>st h r. try_pop_mut (faa_bag True) (fst sp) (snd sp) = Some (st, h, r) \<and> avail_ok (st, h)
    \<and> ((\<exists>q. r = Popped q \<and> valid_item q \<and> avail_items sp = add_mset q (avail_items (st, h)))
       \<or> ((\<forall>q. r \<noteq> Popped q) \<and> avail_items (st, h) = avail_items sp))"
  using rq.weak_try_pop_mut [OF assms] by (fastforce split: pop_result.splits)

lemma slagpipe_push:
  assumes "avail_ok sp" "valid_item q"
  shows "\<exists>sp'. push_mut (faa_bag True) (fst sp) (snd sp) q = Some sp' \<and> avail_ok sp' \<and> avail_items sp' = add_mset q (avail_items sp)"
  using rq.weak_push_mut [OF assms] by fastforce

lemma rq_clear: "rq_inv q \<Longrightarrow> rq_inv (handle_store True it None q)"
  by (auto simp: rq_inv_def handle_ok_def handle_points_def handle_store_def faa_inv_def)

lemma pipe_contents_clear:
  "pipe_contents (\<lambda>q. mset (faa_items q)) (map (handle_store True it None) qs) = pipe_contents (\<lambda>q. mset (faa_items q)) qs"
  by (simp add: pipe_contents_def comp_def)

lemma rq_revoke:
  assumes rq: "rq_inv q" and hd: "fq_handle q it \<noteq> None"
  shows "\<exists>q'. faa_revoke q it = Some (q', True) \<and> rq_inv (handle_store True it None q')
    \<and> mset (faa_items q) = add_mset it (mset (faa_items q'))"
proof -
  have inv: "faa_inv q" and ok: "handle_ok q" using rq by (simp_all add: rq_inv_def)
  have v: "valid_item it" "handle_points q it" using ok hd by (simp_all add: handle_ok_def)
  obtain q' where q': "faa_revoke q it = Some (q', True)" "faa_inv q'" "mset (faa_items q) = add_mset it (mset (faa_items q'))"
    using faa_revoke_ok [OF inv v] by blast
  obtain i ix where p: "fq_handle q it = Some (fq_base q + i, ix)" "i < length (fq_nodes q)" "fn_data (fq_nodes q ! i) ! ix = it"
    using handle_okD [OF ok hd] by blast
  have "as_usize it = Some it" using v(1) by (simp add: as_usize_def valid_item_def)
  then have e: "q' = q\<lparr> fq_nodes := (fq_nodes q)[i := (fq_nodes q ! i)\<lparr> fn_data := (fn_data (fq_nodes q ! i))[ix := sentinel] \<rparr>] \<rparr>"
    using q'(1) p by (simp add: faa_revoke_def Let_def)
  have "handle_ok (handle_store True it None q')"
  proof (rule handle_okI)
    fix x m jx assume x: "fq_handle (handle_store True it None q') x = Some (m, jx)"
    then have ne: "x \<noteq> it" and "fq_handle q x = Some (m, jx)" by (auto simp: handle_store_def e split: if_splits)
    then obtain j where j: "valid_item x" "m = fq_base q + j" "j < length (fq_nodes q)" "fn_head_index (fq_nodes q ! j) \<le> jx"
        "jx < small_seg_size" "fn_data (fq_nodes q ! j) ! jx = x"
      using handle_okD [OF ok, of x] by fastforce
    have "j \<noteq> i \<or> jx \<noteq> ix" using ne p(3) j(6) by auto
    then show "valid_item x \<and> (\<exists>i. m = fq_base (handle_store True it None q') + i \<and> i < length (fq_nodes (handle_store True it None q'))
        \<and> fn_head_index (fq_nodes (handle_store True it None q') ! i) \<le> jx \<and> jx < small_seg_size
        \<and> fn_data (fq_nodes (handle_store True it None q') ! i) ! jx = x)"
      using j p(2) by (intro conjI exI [of _ j]) (auto simp: e nth_list_update)
  qed
  then show ?thesis using q' by (auto simp: rq_inv_def)
qed

text \<open>A revocation that succeeds, followed by the reset of the handle, takes the item out; one that
  fails changes nothing, and it fails when the item is not in the pipe.\<close>

lemma pipe_revoke_cases:
  assumes ok: "pipes_ok rq_inv (ps_pipes st)" and it: "valid_item it"
  shows "(\<exists>st'. pipe_revoke st it = Some (st', True) \<and> pipes_ok rq_inv (ps_pipes (clear_handle it st'))
      \<and> pipe_contents (\<lambda>q. mset (faa_items q)) (ps_pipes st)
          = add_mset it (pipe_contents (\<lambda>q. mset (faa_items q)) (ps_pipes (clear_handle it st'))))
    \<or> pipe_revoke st it = Some (st, False)"
proof -
  let ?qs = "ps_pipes st"
  have u: "as_usize it = Some it" using it by (simp add: as_usize_def valid_item_def)
  show ?thesis
  proof (cases "handle_queue ?qs it")
    case None
    then show ?thesis by (simp add: pipe_revoke_def u)
  next
    case (Some i)
    then have i: "i < length ?qs" "fq_handle (?qs ! i) it \<noteq> None"
      by (auto simp: handle_queue_def find_Some_iff)
    then have "rq_inv (?qs ! i)" using ok by (simp add: pipes_ok_def list_all_length)
    from rq_revoke [OF this i(2)] obtain q' where q': "faa_revoke (?qs ! i) it = Some (q', True)"
        "rq_inv (handle_store True it None q')" "mset (faa_items (?qs ! i)) = add_mset it (mset (faa_items q'))" by blast
    let ?st = "st\<lparr> ps_pipes := ?qs[i := q'] \<rparr>"
    have "pipe_revoke st it = Some (?st, True)" using Some q'(1) by (simp add: pipe_revoke_def u)
    moreover have "pipes_ok rq_inv (ps_pipes (clear_handle it ?st))"
      using ok q'(2) rq_clear i(1) by (auto simp: pipes_ok_def clear_handle_def list_all_length map_update nth_list_update)
    moreover have "pipe_contents (\<lambda>q. mset (faa_items q)) ?qs = add_mset it (pipe_contents (\<lambda>q. mset (faa_items q)) (?qs[i := q']))"
      using rq.contents_take [OF i(1) q'(3)] .
    ultimately show ?thesis by (simp add: clear_handle_def pipe_contents_clear)
  qed
qed

end
