(* ===== verification/Slag_Alloc.thy ===== *)
theory Slag_Alloc
  imports Bag_Revoke Page_Alloc Slag
begin

text \<open>
  \<open>SlagAllocator\<close> of \<open>src/elfmalloc/src/slag.rs\<close>: the slags of one size class, which move between
  the page cache, the pipe of available slags and the hands of the allocator.  The header and the
  bit-set of a slag are words of its page; \<open>load_slag\<close> and \<open>store_slag\<close> read and write them, and
  each operation works on the record of theory \<open>Slag\<close>.  The metadata records are a store from
  addresses, the revocation handle of a slag is kept with the pipe (theory \<open>Bag_Revoke\<close>).  One
  handle of the allocator is modelled, used sequentially.
\<close>

subsection \<open>Slags in memory\<close>

definition load_slag :: "'s elf_memory \<Rightarrow> metadata \<Rightarrow> ptr \<Rightarrow> slag" where
  "load_slag m meta q = \<lparr> sl_ty = em_types m q, sl_meta = em_words m (offset q 8), sl_rc = em_words m (offset q 16),
     sl_handle = em_words m (offset q 24),
     sl_words = map (\<lambda>i. em_words m (offset q (md_bitset_offset meta + 8 * i))) [0..<md_n_bitset_words meta] \<rparr>"

fun store_words :: "ptr \<Rightarrow> nat \<Rightarrow> usize list \<Rightarrow> (ptr \<Rightarrow> usize) \<Rightarrow> ptr \<Rightarrow> usize" where
  "store_words q n [] f = f"
| "store_words q n (w # ws) f = store_words q (n + 8) ws (f(offset q n := w))"

definition store_slag :: "'s elf_memory \<Rightarrow> metadata \<Rightarrow> ptr \<Rightarrow> slag \<Rightarrow> 's elf_memory" where
  "store_slag m meta q s = m\<lparr> em_types := (em_types m)(q := sl_ty s),
     em_words := store_words q (md_bitset_offset meta) (sl_words s)
       ((em_words m)(offset q 8 := sl_meta s, offset q 16 := sl_rc s, offset q 24 := sl_handle s)) \<rparr>"

definition meta_at :: "metas \<Rightarrow> ptr \<Rightarrow> metadata option" where
  "meta_at M p = (if p = null then None else M p)"

subsection \<open>State and construction\<close>

record slag_allocator =
  sa_m :: ptr
  sa_slag :: ptr
  sa_pages :: page_alloc
  sa_available :: slag_pipe
  sa_threshold :: nat

definition sal_partial_new :: "'s os_ops \<Rightarrow> metas \<Rightarrow> ptr \<Rightarrow> nat \<Rightarrow> page_alloc \<Rightarrow> slag_pipe \<Rightarrow> 's elf_memory
    \<Rightarrow> (slag_allocator \<times> 's elf_memory) option" where
  "sal_partial_new OS M mp decommit pa avail m = do {
     (pa1, m1, first_slag) \<leftarrow> page_alloc_alloc OS pa m;
     meta \<leftarrow> meta_at M mp;
     s \<leftarrow> (if first_slag = null then None else slag_init mp meta);
     Some (\<lparr> sa_m = mp, sa_slag = first_slag, sa_pages = pa1, sa_available = avail, sa_threshold = decommit \<rparr>,
       store_slag m1 meta first_slag s) }"

text \<open>\<open>new\<close> puts the metadata in a box at the address \<open>mp\<close>.\<close>

definition sal_new :: "'s os_ops \<Rightarrow> metas \<Rightarrow> ptr \<Rightarrow> nat \<Rightarrow> nat \<Rightarrow> nat \<Rightarrow> rat \<Rightarrow> nat \<Rightarrow> page_alloc \<Rightarrow> 's elf_memory
    \<Rightarrow> (metas \<times> slag_allocator \<times> 's elf_memory) option" where
  "sal_new OS M mp max_objects object_size index cutoff_factor eager_decommit pa m = do {
     meta \<leftarrow> compute_metadata object_size (pa_creek pa) index cutoff_factor max_objects SmallSlag;
     let M1 = M(mp \<mapsto> meta);
     (pa1, m1, first_slag) \<leftarrow> page_alloc_alloc OS pa m;
     s \<leftarrow> (if first_slag = null then None else slag_init mp meta);
     avail \<leftarrow> pipe_new_size (faa_bag True) 8;
     Some (M1, \<lparr> sa_m = mp, sa_slag = first_slag, sa_pages = pa1, sa_available = avail, sa_threshold = eager_decommit \<rparr>,
       store_slag m1 meta first_slag s) }"

subsection \<open>Transitions\<close>

definition transition_available :: "slag_allocator \<Rightarrow> ptr \<Rightarrow> slag_allocator option" where
  "transition_available sal slag = do {
     avail \<leftarrow> push_mut (faa_bag True) (fst (sa_available sal)) (snd (sa_available sal)) slag;
     Some (sal\<lparr> sa_available := avail \<rparr>) }"

definition transition_full ::
  "'s os_ops \<Rightarrow> slag_allocator \<Rightarrow> 's elf_memory \<Rightarrow> ptr \<Rightarrow> metadata \<Rightarrow> (slag_allocator \<times> 's elf_memory) option" where
  "transition_full OS sal m slag meta = do {
     (st, revoked) \<leftarrow> pipe_revoke (fst (sa_available sal)) slag;
     if revoked then do {
       let sal1 = sal\<lparr> sa_available := (clear_handle slag st, snd (sa_available sal)) \<rparr>;
       (pa, m1) \<leftarrow> page_alloc_free OS (sa_pages sal1) m slag (sa_threshold sal1 \<le> md_usable_size meta);
       Some (sal1\<lparr> sa_pages := pa \<rparr>, m1) }
     else Some (sal\<lparr> sa_available := (st, snd (sa_available sal)) \<rparr>, m) }"

subsection \<open>Operations\<close>

text \<open>The claim of a slag and the iterator over it.\<close>

definition claim_refresh :: "'s elf_memory \<Rightarrow> metadata \<Rightarrow> ptr \<Rightarrow> ('s elf_memory \<times> alloc_iter) option" where
  "claim_refresh m meta slag =
     (let s = load_slag m meta slag; (rc, claimed) = rc_claim (sl_rc s) in
      if claimed then do {
        (s1, it) \<leftarrow> slag_refresh slag (s\<lparr> sl_rc := rc \<rparr>) meta;
        Some (store_slag m meta slag s1, it) }
      else None)"

text \<open>The next slag: from the pipe of available slags, or from a page that is initialised unless it
  already is one of this class.\<close>

definition next_slag :: "'s os_ops \<Rightarrow> slag_allocator \<Rightarrow> 's elf_memory \<Rightarrow> metadata
    \<Rightarrow> (slag_allocator \<times> 's elf_memory \<times> ptr) option" where
  "next_slag OS sal m meta = do {
     (st, h, r) \<leftarrow> try_pop_mut (faa_bag True) (fst (sa_available sal)) (snd (sa_available sal));
     let sal1 = sal\<lparr> sa_available := (st, h) \<rparr>;
     case r of
       Popped slag \<Rightarrow> Some (sal1, m, slag)
     | _ \<Rightarrow> do {
         (pa, m1, new_raw) \<leftarrow> page_alloc_alloc OS (sa_pages sal1) m;
         let sal2 = sal1\<lparr> sa_pages := pa \<rparr>;
         if em_words m1 (offset new_raw 8) \<noteq> sa_m sal2 then do {
           s \<leftarrow> (if new_raw = null then None else slag_init (sa_m sal2) meta);
           Some (sal2, store_slag m1 meta new_raw s, new_raw) }
         else Some (sal2, m1, new_raw) } }"

definition sal_refresh :: "'s os_ops \<Rightarrow> metas \<Rightarrow> slag_allocator \<Rightarrow> 's elf_memory
    \<Rightarrow> (slag_allocator \<times> 's elf_memory \<times> alloc_iter) option" where
  "sal_refresh OS M sal m = do {
     meta \<leftarrow> meta_at M (sa_m sal);
     let s = load_slag m meta (sa_slag sal);
     let (rc, _, was) = rc_unclaim (sl_rc s);
     let m1 = store_slag m meta (sa_slag sal) (s\<lparr> sl_rc := rc \<rparr>);
     meta' \<leftarrow> meta_at M (sl_meta s);
     if meta' \<noteq> meta then None
     else if md_cutoff_objects meta \<le> unat was then do {
       (m2, it) \<leftarrow> claim_refresh m1 meta (sa_slag sal);
       Some (sal, m2, it) }
     else do {
       (sal1, m2, next) \<leftarrow> next_slag OS sal m1 meta;
       if next = null then None
       else do {
         (m3, it) \<leftarrow> claim_refresh m2 meta next;
         Some (sal1\<lparr> sa_slag := next \<rparr>, m3, it) } } }"

definition sal_free :: "'s os_ops \<Rightarrow> metas \<Rightarrow> slag_allocator \<Rightarrow> 's elf_memory \<Rightarrow> ptr
    \<Rightarrow> (slag_allocator \<times> 's elf_memory) option" where
  "sal_free OS M sal m item = do {
     meta \<leftarrow> meta_at M (sa_m sal);
     let it_slag = slag_find item (md_total_bytes meta);
     own \<leftarrow> (if it_slag = null then None else meta_at M (em_words m (offset it_slag 8)));
     (s, t) \<leftarrow> slag_free M it_slag (load_slag m own it_slag) item;
     let m1 = store_slag m own it_slag s;
     case t of
       TNull \<Rightarrow> Some (sal, m1)
     | TAvailable \<Rightarrow> do { sal1 \<leftarrow> transition_available sal it_slag; Some (sal1, m1) }
     | TFull \<Rightarrow> transition_full OS sal m1 it_slag meta }"

text \<open>\<open>bulk_free\<close> of the objects \<open>msk\<close> of the word at index \<open>word\<close> of the bit-set.\<close>

definition sal_bulk_free :: "'s os_ops \<Rightarrow> slag_allocator \<Rightarrow> 's elf_memory \<Rightarrow> usize \<Rightarrow> nat \<Rightarrow> ptr \<Rightarrow> metadata
    \<Rightarrow> (slag_allocator \<times> 's elf_memory) option" where
  "sal_bulk_free OS sal m msk word slag meta =
     (let n_ones = count_ones msk in
      if n_ones = 0 then Some (sal, m)
      else
        let s = load_slag m meta slag; (rc, claimed, was) = rc_inc_n (of_nat n_ones) (sl_rc s) in
        if length (sl_words s) \<le> word then None
        else
          let before = sl_words s ! word;
              m1 = store_slag m meta slag (s\<lparr> sl_rc := rc, sl_words := (sl_words s)[word := before OR msk] \<rparr>);
              now = unat was + n_ones in
          if before AND msk \<noteq> 0 then None
          else if \<not> claimed \<and> now = md_n_objects meta then transition_full OS sal m1 slag meta
          else if \<not> claimed \<and> unat was < md_cutoff_objects meta \<and> md_cutoff_objects meta \<le> now
          then do { sal1 \<leftarrow> transition_available sal slag; Some (sal1, m1) }
          else Some (sal, m1))"

definition sal_contains :: "metas \<Rightarrow> slag_allocator \<Rightarrow> ptr \<Rightarrow> bool option" where
  "sal_contains M sal it = do {
     meta \<leftarrow> meta_at M (sa_m sal);
     Some (slag_find it (md_total_bytes meta) = sa_slag sal) }"

text \<open>The destructor, and the destructors of the page cache and of the pipe of available slags.\<close>

definition sal_release :: "'s os_ops \<Rightarrow> metas \<Rightarrow> slag_allocator \<Rightarrow> 's elf_memory \<Rightarrow> (slag_allocator \<times> 's elf_memory) option" where
  "sal_release OS M sal m = do {
     meta \<leftarrow> meta_at M (sa_m sal);
     let slag = sa_slag sal;
     let s = load_slag m meta slag;
     let (rc, claimed, was) = rc_unclaim (sl_rc s);
     let m1 = store_slag m meta slag (s\<lparr> sl_rc := rc \<rparr>);
     if \<not> claimed \<or> unat was = md_n_objects meta then do {
       (pa, m2) \<leftarrow> page_alloc_free OS (sa_pages sal) m1 slag False;
       Some (sal\<lparr> sa_pages := pa \<rparr>, m2) }
     else if md_cutoff_objects meta \<le> unat was then do {
       sal1 \<leftarrow> transition_available sal slag;
       Some (sal1, m1) }
     else Some (sal, m1) }"

definition sal_drop :: "'s os_ops \<Rightarrow> metas \<Rightarrow> slag_allocator \<Rightarrow> 's elf_memory \<Rightarrow> 's option" where
  "sal_drop OS M sal m = do {
     (sal1, m1) \<leftarrow> sal_release OS M sal m;
     s1 \<leftarrow> page_alloc_drop OS (sa_pages sal1) (em_os m1);
     (qs, its) \<leftarrow> cleanup_all (faa_bag True) (ps_pipes (fst (sa_available sal1)));
     cleanup_items OS (pa_creek (sa_pages sal1)) its s1 }"

subsection \<open>Reading back what was written\<close>

definition header_size :: "metadata \<Rightarrow> nat" where
  "header_size meta = md_bitset_offset meta + 8 * md_n_bitset_words meta"

lemma store_words_other:
  "(\<And>i. i < length ws \<Longrightarrow> a \<noteq> offset q (n + 8 * i)) \<Longrightarrow> store_words q n ws f a = f a"
proof (induction ws arbitrary: n f)
  case (Cons w ws)
  have "a \<noteq> offset q (n + 8 + 8 * i)" if "i < length ws" for i
    using Cons.prems [of "Suc i"] that by (simp add: ac_simps)
  moreover have "a \<noteq> offset q n" using Cons.prems [of 0] by simp
  ultimately show ?case using Cons.IH by simp
qed simp

lemma store_words_at:
  "fits q (n + 8 * length ws) \<Longrightarrow> i < length ws \<Longrightarrow> store_words q n ws f (offset q (n + 8 * i)) = ws ! i"
proof (induction ws arbitrary: n f i)
  case (Cons w ws)
  have f: "fits q (n + 8 + 8 * length ws)" using Cons.prems(1) by (simp add: ac_simps)
  show ?case
  proof (cases i)
    case 0
    have "offset q n \<noteq> offset q (n + 8 + 8 * j)" if "j < length ws" for j
      using offset_inj [OF f, of n "n + 8 + 8 * j"] that by simp
    then show ?thesis using 0 store_words_other [of ws "offset q n" q "n + 8"] by simp
  next
    case (Suc j)
    then show ?thesis using Cons.IH [OF f, of j] Cons.prems(2) by (simp add: ac_simps)
  qed
qed simp

lemma store_slag_os [simp]: "em_os (store_slag m meta q s) = em_os m"
  by (simp add: store_slag_def)

lemma load_store:
  assumes "fits q (header_size meta)" "md_bitset_offset meta = 64" "length (sl_words s) = md_n_bitset_words meta"
  shows "load_slag (store_slag m meta q s) meta q = s"
proof -
  let ?f = "(em_words m)(offset q 8 := sl_meta s, offset q 16 := sl_rc s, offset q 24 := sl_handle s)"
  have f: "fits q (64 + 8 * length (sl_words s))" using assms by (simp add: header_size_def)
  have ne: "offset q 8 \<noteq> offset q 16" "offset q 8 \<noteq> offset q 24" "offset q 16 \<noteq> offset q 24"
    using offset_inj [OF f] by simp_all
  have w: "store_words q 64 (sl_words s) ?f (offset q k) = ?f (offset q k)" if "k < 64" for k
    using offset_inj [OF f, of k] that by (intro store_words_other) simp
  have "map (\<lambda>i. store_words q 64 (sl_words s) ?f (offset q (64 + 8 * i))) [0..<length (sl_words s)] = sl_words s"
    using store_words_at [OF f] by (intro nth_equalityI) simp_all
  then have "load_slag (store_slag m meta q s) meta q
      = \<lparr> sl_ty = sl_ty s, sl_meta = sl_meta s, sl_rc = sl_rc s, sl_handle = sl_handle s, sl_words = sl_words s \<rparr>"
    using w [of 8] w [of 16] w [of 24] ne assms(2,3) by (simp add: load_slag_def store_slag_def)
  then show ?thesis by simp
qed

lemma store_kept:
  assumes "fits q (header_size meta)" "md_bitset_offset meta = 64" "length (sl_words s) = md_n_bitset_words meta"
  shows "words_kept m (store_slag m meta q s) (- region q (header_size meta))"
  unfolding words_kept_def
proof (intro allI impI)
  fix a :: ptr assume a: "unat a \<in> - region q (header_size meta)"
  have ne: "a \<noteq> offset q k" if "k < header_size meta" for k
    using offset_in_region [OF assms(1) that] a by auto
  have l: "64 \<le> header_size meta" using assms(2) by (simp add: header_size_def)
  have "store_words q 64 (sl_words s) f a = f a" for f
    using ne assms(2,3) by (intro store_words_other) (simp add: header_size_def)
  then show "em_words (store_slag m meta q s) a = em_words m a"
    using ne [of 8] ne [of 16] ne [of 24] l assms(2) by (simp add: store_slag_def)
qed

lemma words_keptD: "words_kept m m' A \<Longrightarrow> unat a \<in> A \<Longrightarrow> em_words m' a = em_words m a"
  by (simp add: words_kept_def)

lemma words_kept_trans: "words_kept m m1 A \<Longrightarrow> words_kept m1 m2 B \<Longrightarrow> words_kept m m2 (A \<inter> B)"
  by (simp add: words_kept_def)

lemma words_kept_mono: "words_kept m m' A \<Longrightarrow> B \<subseteq> A \<Longrightarrow> words_kept m m' B"
  by (auto simp: words_kept_def)

text \<open>What is read of a slag depends on the words of its header and bit-set only.\<close>

lemma load_kept:
  assumes "words_kept m m' (region q (header_size meta))" "fits q (header_size meta)" "md_bitset_offset meta = 64"
  shows "\<exists>t. load_slag m' meta q = (load_slag m meta q)\<lparr> sl_ty := t \<rparr>"
proof -
  have e: "em_words m' (offset q k) = em_words m (offset q k)" if "k < header_size meta" for k
    using words_keptD [OF assms(1)] offset_in_region [OF assms(2) that] by blast
  have l: "64 \<le> header_size meta" using assms(3) by (simp add: header_size_def)
  have "em_words m' (offset q (64 + 8 * i)) = em_words m (offset q (64 + 8 * i))" if "i < md_n_bitset_words meta" for i
    using that assms(3) by (intro e) (simp add: header_size_def)
  then show ?thesis using e [of 8] e [of 16] e [of 24] l assms(3) by (simp add: load_slag_def)
qed

subsection \<open>One slag\<close>

text \<open>The metadata of a class: a layout that \<open>Slag::init\<close> gets right, on pages of a power of two.\<close>

definition slag_class :: "metadata \<Rightarrow> bool" where
  "slag_class m \<longleftrightarrow> layout_wf m \<and> mask_wf m \<and> rotation_ok m \<and> md_cutoff_objects m \<le> md_n_objects m
     \<and> is_power_of_two (md_total_bytes m) \<and> md_objects_offset m + md_n_objects m * md_object_size m \<le> md_total_bytes m
     \<and> md_total_bytes m < 2 ^ 62"

lemma slag_classD:
  assumes "slag_class m"
  shows "layout_wf m" "mask_wf m" "rotation_ok m" "md_cutoff_objects m \<le> md_n_objects m" "0 < md_cutoff_objects m"
    "0 < md_n_objects m" "md_bitset_offset m = 64" "header_size m \<le> md_total_bytes m" "md_n_objects m < 2 ^ 62"
    "0 < md_object_size m" "64 \<le> header_size m"
proof -
  show c: "layout_wf m" "mask_wf m" "rotation_ok m" "md_cutoff_objects m \<le> md_n_objects m" "0 < md_cutoff_objects m"
    "0 < md_n_objects m" "md_bitset_offset m = 64" and sz: "0 < md_object_size m"
    using assms unfolding slag_class_def by (auto simp: layout_wf_def)
  show "header_size m \<le> md_total_bytes m" "64 \<le> header_size m"
    using assms by (simp_all add: slag_class_def layout_wf_def header_size_def)
  have "md_n_objects m * 1 \<le> md_n_objects m * md_object_size m" using sz by (intro mult_le_mono2) simp
  then show "md_n_objects m < 2 ^ 62" using assms unfolding slag_class_def by linarith
qed

lemma slag_class_placed: "slag_class m \<Longrightarrow> page_at (md_total_bytes m) q \<Longrightarrow> slag_placed q m"
  by (simp add: slag_class_def slag_placed_def page_at_def fits_def)

lemma slag_class_fits: "slag_class m \<Longrightarrow> page_at (md_total_bytes m) q \<Longrightarrow> fits q (header_size m)"
  using slag_classD(8) [of m] by (simp add: page_at_def fits_def)

text \<open>The positions in the bit-set of all objects, and of those the set \<open>H\<close> has of a slag.\<close>

definition all_positions :: "metadata \<Rightarrow> nat multiset" where
  "all_positions meta = mset (map (\<lambda>k. k * md_bits meta) [0..<md_n_objects meta])"

definition out_positions :: "metadata \<Rightarrow> ptr set \<Rightarrow> ptr \<Rightarrow> nat multiset" where
  "out_positions meta H q = mset (map (\<lambda>k. k * md_bits meta) (filter (\<lambda>k. slag_object q meta k \<in> H) [0..<md_n_objects meta]))"

text \<open>A slag of the class at \<open>q\<close>: claimed or not, with the positions \<open>C\<close> out of the bit-set, and with
  a count that agrees.\<close>

definition slag_at :: "metadata \<Rightarrow> ptr \<Rightarrow> 's elf_memory \<Rightarrow> ptr \<Rightarrow> bool \<Rightarrow> nat multiset \<Rightarrow> bool" where
  "slag_at meta mp m q c C \<longleftrightarrow> sl_meta (load_slag m meta q) = mp \<and> rc_agrees (load_slag m meta q) c
     \<and> mset (positions (sl_words (load_slag m meta q))) + C = all_positions meta"

definition n_free :: "metadata \<Rightarrow> 's elf_memory \<Rightarrow> ptr \<Rightarrow> nat" where
  "n_free meta m q = total_free (sl_words (load_slag m meta q))"

lemma length_load [simp]: "length (sl_words (load_slag m meta q)) = md_n_bitset_words meta"
  by (simp add: load_slag_def)

lemma size_all [simp]: "size (all_positions meta) = md_n_objects meta"
  by (simp add: all_positions_def)

lemma n_free_size: "slag_at meta mp m q c C \<Longrightarrow> n_free meta m q + size C = md_n_objects meta"
  unfolding slag_at_def n_free_def total_free_positions by (metis size_all size_mset size_union)

lemma slag_at_kept:
  assumes "slag_class meta" "page_at (md_total_bytes meta) q" "words_kept m m' (region q (header_size meta))"
  shows "slag_at meta mp m' q c C = slag_at meta mp m q c C" "n_free meta m' q = n_free meta m q"
proof -
  obtain t where "load_slag m' meta q = (load_slag m meta q)\<lparr> sl_ty := t \<rparr>"
    using load_kept [OF assms(3) slag_class_fits [OF assms(1,2)] slag_classD(7) [OF assms(1)]] by blast
  then show "slag_at meta mp m' q c C = slag_at meta mp m q c C" "n_free meta m' q = n_free meta m q"
    by (simp_all add: slag_at_def n_free_def rc_agrees_def)
qed

lemma slag_region_kept:
  assumes c: "slag_class meta" and q: "page_at (md_total_bytes meta) q" and k: "words_kept m m' S" "region q (md_total_bytes meta) \<subseteq> S"
  shows "slag_at meta mp m' q cl C = slag_at meta mp m q cl C" "n_free meta m' q = n_free meta m q"
    "em_words m' (offset q 8) = em_words m (offset q 8)"
proof -
  have "region q (header_size meta) \<subseteq> region q (md_total_bytes meta)" using slag_classD(8) [OF c] by (auto simp: region_def)
  then have h: "words_kept m m' (region q (header_size meta))" using k by (auto simp: words_kept_def)
  show "slag_at meta mp m' q cl C = slag_at meta mp m q cl C" "n_free meta m' q = n_free meta m q"
    using slag_at_kept [OF c q h] by auto
  have "8 < header_size meta" using slag_classD(11) [OF c] by simp
  then show "em_words m' (offset q 8) = em_words m (offset q 8)"
    using words_keptD [OF h] offset_in_region [OF slag_class_fits [OF c q]] by blast
qed

text \<open>A store to one slag changes no other.\<close>

lemma store_other:
  assumes "slag_class meta" "page_at (md_total_bytes meta) q" "page_at (md_total_bytes meta) p" "p \<noteq> q"
    "length (sl_words s) = md_n_bitset_words meta"
  shows "words_kept m (store_slag m meta q s) (region p (md_total_bytes meta))"
proof -
  have "region p (md_total_bytes meta) \<inter> region q (md_total_bytes meta) = {}" by (rule pages_disjoint [OF assms(3,2,4)])
  moreover have "region q (header_size meta) \<subseteq> region q (md_total_bytes meta)"
    using slag_classD(8) [OF assms(1)] by (auto simp: region_def)
  ultimately show ?thesis
    using store_kept [OF slag_class_fits [OF assms(1,2)] slag_classD(7) [OF assms(1)] assms(5), of m]
    by (rule_tac words_kept_mono) blast+
qed

lemma load_stored:
  assumes "slag_class meta" "page_at (md_total_bytes meta) q" "length (sl_words s) = md_n_bitset_words meta"
  shows "load_slag (store_slag m meta q s) meta q = s"
  by (rule load_store [OF slag_class_fits [OF assms(1,2)] slag_classD(7) [OF assms(1)] assms(3)])

text \<open>Objects of one slag are different, those of different slags too.\<close>

lemma slag_object_inj:
  assumes c: "slag_class meta" and p: "page_at (md_total_bytes meta) p" "page_at (md_total_bytes meta) q"
    and k: "j < md_n_objects meta" "k < md_n_objects meta"
  shows "slag_object p meta j = slag_object q meta k \<longleftrightarrow> p = q \<and> j = k"
proof
  assume e: "slag_object p meta j = slag_object q meta k"
  have "slag_find (slag_object p meta j) (md_total_bytes meta) = p" "slag_find (slag_object q meta k) (md_total_bytes meta) = q"
    using slag_find_object slag_class_placed [OF c] slag_classD(1) [OF c] p k by blast+
  then have pq: "p = q" using e by simp
  have "unat q + (md_objects_offset meta + j * md_object_size meta) = unat q + (md_objects_offset meta + k * md_object_size meta)"
    using slag_object_bound(2) [OF slag_class_placed [OF c p(2)] _ slag_classD(10) [OF c]] k e pq by metis
  then show "p = q \<and> j = k" using pq slag_classD(10) [OF c] by simp
qed simp

lemma mset_filter_insert:
  "k < N \<Longrightarrow> \<not> P k \<Longrightarrow> mset (filter (\<lambda>j. j = k \<or> P j) [0..<N]) = add_mset k (mset (filter P [0..<N]))"
  by (induction N) (auto simp: less_Suc_eq)

lemma out_positions_insert:
  assumes c: "slag_class meta" and p: "page_at (md_total_bytes meta) p" "page_at (md_total_bytes meta) q"
    and k: "k < md_n_objects meta" and n: "slag_object q meta k \<notin> H"
  shows "out_positions meta (insert (slag_object q meta k) H) p
    = (if p = q then add_mset (k * md_bits meta) (out_positions meta H q) else out_positions meta H p)"
proof -
  have e: "slag_object p meta j \<in> insert (slag_object q meta k) H \<longleftrightarrow> p = q \<and> j = k \<or> slag_object p meta j \<in> H"
    if "j < md_n_objects meta" for j
    using slag_object_inj [OF c p that k] by auto
  show ?thesis
  proof (cases "p = q")
    case False
    then have "filter (\<lambda>j. slag_object p meta j \<in> insert (slag_object q meta k) H) [0..<md_n_objects meta]
        = filter (\<lambda>j. slag_object p meta j \<in> H) [0..<md_n_objects meta]"
      using e by (intro filter_cong) auto
    then show ?thesis using False unfolding out_positions_def by (simp only: if_False)
  next
    case True
    from arg_cong [OF mset_filter_insert [OF k, of "\<lambda>j. slag_object q meta j \<in> H", OF n], of "image_mset (\<lambda>k. k * md_bits meta)"]
    have "mset (map (\<lambda>k. k * md_bits meta) (filter (\<lambda>j. j = k \<or> slag_object q meta j \<in> H) [0..<md_n_objects meta]))
        = add_mset (k * md_bits meta) (out_positions meta H q)"
      by (simp add: out_positions_def)
    moreover have "filter (\<lambda>j. slag_object q meta j \<in> insert (slag_object q meta k) H) [0..<md_n_objects meta]
        = filter (\<lambda>j. j = k \<or> slag_object q meta j \<in> H) [0..<md_n_objects meta]"
      using slag_object_inj [OF c p(2,2) _ k] by (intro filter_cong) auto
    ultimately show ?thesis using True by (simp add: out_positions_def)
  qed
qed

subsection \<open>Positions in the bit-set\<close>

abbreviation iter_cur :: "alloc_iter \<Rightarrow> nat multiset" where
  "iter_cur it \<equiv> mset (word_positions (it_cur_word_index it) (it_cur_word it))"

lemma positions_update:
  assumes "i < length ws"
  shows "mset (positions (ws[i := w])) + mset (word_positions i (ws ! i)) = mset (positions ws) + mset (word_positions i w)"
proof -
  let ?f = "\<lambda>ws j. word_positions j (ws ! j)"
  have split: "[0..<length ws] = [0..<i] @ i # [Suc i..<length ws]"
    using assms by (metis less_imp_le_nat upt_add_eq_append upt_conv_Cons zero_le le_add_diff_inverse add_0)
  have "map (?f (ws[i := w])) [0..<i] = map (?f ws) [0..<i]" "map (?f (ws[i := w])) [Suc i..<length ws] = map (?f ws) [Suc i..<length ws]"
    by (auto intro!: map_cong)
  then have "positions (ws[i := w]) = concat (map (?f ws) [0..<i]) @ word_positions i w @ concat (map (?f ws) [Suc i..<length ws])"
    using assms unfolding positions_def length_list_update split
    by (simp only: map_append concat_append list.map concat.simps nth_list_update_eq)
  moreover have "positions ws = concat (map (?f ws) [0..<i]) @ word_positions i (ws ! i) @ concat (map (?f ws) [Suc i..<length ws])"
    unfolding positions_def split by simp
  ultimately show ?thesis by (simp add: ac_simps)
qed

lemma positions_mark:
  fixes ws :: "usize list"
  assumes "p < 64 * length ws" "p \<notin> set (positions ws)"
  shows "mset (positions (ws[p div 64 := ws ! (p div 64) OR push_bit (p mod 64) 1])) = add_mset p (mset (positions ws))"
proof -
  have l: "p div 64 < length ws" using assms(1) by (simp add: less_mult_imp_div_less mult.commute)
  have "\<not> bit (ws ! (p div 64)) (p mod 64)" using assms by (simp add: positions_filter)
  then have "mset (filter (\<lambda>j. j = p \<or> bit (ws ! (j div 64)) (j mod 64)) [0..<64 * length ws])
      = add_mset p (mset (filter (\<lambda>j. bit (ws ! (j div 64)) (j mod 64)) [0..<64 * length ws]))"
    using mset_filter_insert [OF assms(1), of "\<lambda>j. bit (ws ! (j div 64)) (j mod 64)"] by blast
  then show ?thesis unfolding positions_filter length_list_update mark_bit [OF l] .
qed

lemma word_positions_or:
  assumes "w AND v = (0 :: usize)"
  shows "mset (word_positions i (w OR v)) = mset (word_positions i w) + mset (word_positions i v)"
    "count_ones (w OR v) = count_ones w + count_ones v"
proof -
  have x: "\<not> (bit w j \<and> bit v j)" for j using assms by (metis bit_and_iff bit_0_eq bot_apply bot_bool_def)
  have "mset (filter (bit (w OR v)) xs) = mset (filter (bit w) xs) + mset (filter (bit v) xs)" for xs
    using x by (induction xs) (auto simp: bit_or_iff)
  from this [of "[0..<64]"] show m: "mset (word_positions i (w OR v)) = mset (word_positions i w) + mset (word_positions i v)"
    unfolding word_positions_def mset_map by (simp only: image_mset_union)
  show "count_ones (w OR v) = count_ones w + count_ones v"
    using arg_cong [OF m, of size] by (simp add: length_word_positions)
qed

lemma iter_clear_positions:
  assumes "iter_wf s it" "iter_clear s it"
  shows "mset (iter_positions s it) = mset (positions (sl_words s)) + iter_cur it"
proof -
  let ?f = "\<lambda>i. word_positions i (sl_words s ! i)"
  have "it_next_word it \<le> length (sl_words s)" using assms(1) by (simp add: iter_wf_def)
  then have "[0..<length (sl_words s)] = [0..<it_next_word it] @ [it_next_word it..<length (sl_words s)]"
    by (metis le_add_diff_inverse add_0 upt_add_eq_append zero_le)
  moreover have "concat (map ?f [0..<it_next_word it]) = []" using assms(2) by (simp add: iter_clear_def)
  ultimately show ?thesis by (simp add: iter_positions_def positions_def)
qed

lemma iter_next_bits:
  assumes "rc_agrees s c" "iter_wf s it"
  shows "\<exists>s' it' r. iter_next s it = Some (s', it', r) \<and> rc_agrees s' c \<and> iter_wf s' it' \<and> iter_object it' = iter_object it
    \<and> sl_meta s' = sl_meta s \<and> length (sl_words s') = length (sl_words s)
    \<and> (case r of
         None \<Rightarrow> mset (positions (sl_words s')) = mset (positions (sl_words s)) + iter_cur it \<and> iter_cur it' = {#}
       | Some x \<Rightarrow> \<exists>p. x = iter_object it p
           \<and> mset (positions (sl_words s)) + iter_cur it = add_mset p (mset (positions (sl_words s')) + iter_cur it'))"
  using assms
proof (induction s it rule: iter_next.induct)
  case (1 s it)
  let ?j = "trailing_zeros (unat (it_cur_word it))"
  show ?case
  proof (cases "it_cur_word it = 0")
    case False
    have j: "?j < 64" "word_positions (it_cur_word_index it) (it_cur_word it) = (64 * it_cur_word_index it + ?j)
        # word_positions (it_cur_word_index it) (it_cur_word it XOR push_bit ?j 1)"
      using trailing_zeros_word [OF False] by blast+
    then show ?thesis using "1.prems"
      by (simp add: iter_next.simps [of s it] iter_object_def iter_wf_def fun_eq_iff mult.commute Let_def)
  next
    case zero: True
    then have tz: "?j = word_bits" by (simp add: trailing_zeros.simps)
    show ?thesis
    proof (cases "it_remaining_words it = 0")
      case True
      then show ?thesis using "1.prems" zero tz by (simp add: iter_next.simps [of s it] Let_def)
    next
      case False
      have i: "it_next_word it < length (sl_words s)" using "1.prems"(2) False by (simp add: iter_wf_def)
      let ?w = "sl_words s ! it_next_word it"
      let ?it = "it\<lparr> it_next_word := it_next_word it + 1, it_cur_word := ?w,
        it_remaining_words := it_remaining_words it - 1, it_cur_word_index := it_cur_word_index it + 1 \<rparr>"
      obtain s' where s': "take_word (it_next_word it) s = Some (s', ?w)"
        "sl_words s' = (sl_words s)[it_next_word it := 0]" "rc_agrees s' c" "sl_meta s' = sl_meta s"
        using take_word_agrees [OF "1.prems"(1) i] by blast
      have r: "refresh_word s it = Some (s', ?it)" using s'(1) False by (simp add: refresh_word_def)
      have wf: "iter_wf s' ?it" using "1.prems"(2) False s'(2) by (simp add: iter_wf_def)
      have p: "mset (positions (sl_words s')) + iter_cur ?it = mset (positions (sl_words s)) + iter_cur it"
        using positions_update [OF i, of 0] "1.prems"(2) s'(2) zero by (simp add: iter_wf_def)
      have o: "iter_object ?it = iter_object it" by (simp add: iter_object_def fun_eq_iff)
      have e: "iter_next s it = iter_next s' ?it" using tz False r by (simp add: iter_next.simps [of s it])
      show ?thesis using "1.IH" [OF refl tz False r refl s'(3) wf] unfolding e p o using s'(2,4) by simp
    qed
  qed
qed

subsection \<open>Operations on a slag in memory\<close>

lemma all_positions_distinct:
  assumes "slag_class meta" "X + C = all_positions meta" "p \<in># C"
  shows "p \<notin># X" "\<exists>k<md_n_objects meta. p = k * md_bits meta"
proof -
  have b: "0 < md_bits meta" using slag_classD(1) [OF assms(1)] by (simp add: layout_wf_def)
  have d: "distinct (map (\<lambda>k. k * md_bits meta) [0..<md_n_objects meta])" using b by (simp add: distinct_map inj_on_def)
  have "count (X + C) p \<le> 1"
    unfolding assms(2) all_positions_def using d by (simp add: distinct_count_atmost_1)
  moreover have "0 < count C p" using assms(3) by (simp add: count_greater_zero_iff)
  ultimately have "count X p = 0" unfolding count_union by linarith
  then show "p \<notin># X" by (simp add: not_in_iff)
  have "p \<in># all_positions meta" using assms(2,3) by (metis union_iff)
  then show "\<exists>k<md_n_objects meta. p = k * md_bits meta" by (auto simp: all_positions_def)
qed

text \<open>The memory around a store to a slag.\<close>

definition slag_frame :: "metadata \<Rightarrow> 's elf_memory \<Rightarrow> 's elf_memory \<Rightarrow> ptr \<Rightarrow> bool" where
  "slag_frame meta m m' q \<longleftrightarrow> em_os m' = em_os m \<and> words_kept m m' (- region q (md_total_bytes meta))"

lemma slag_frame_store:
  assumes "slag_class meta" "page_at (md_total_bytes meta) q" "length (sl_words s) = md_n_bitset_words meta"
  shows "slag_frame meta m (store_slag m meta q s) q"
proof -
  have "region q (header_size meta) \<subseteq> region q (md_total_bytes meta)"
    using slag_classD(8) [OF assms(1)] by (auto simp: region_def)
  then have "words_kept m (store_slag m meta q s) (- region q (md_total_bytes meta))"
    by (intro words_kept_mono [OF store_kept [OF slag_class_fits [OF assms(1,2)] slag_classD(7) [OF assms(1)] assms(3)]]) blast
  then show ?thesis by (simp add: slag_frame_def)
qed

lemma slag_frame_trans: "slag_frame meta m m1 q \<Longrightarrow> slag_frame meta m1 m2 q \<Longrightarrow> slag_frame meta m m2 q"
  by (simp add: slag_frame_def words_kept_def)

lemma slag_frame_other:
  assumes "slag_class meta" "slag_frame meta m m' q" "page_at (md_total_bytes meta) p" "page_at (md_total_bytes meta) q" "p \<noteq> q"
  shows "slag_at meta mp m' p c C = slag_at meta mp m p c C" "n_free meta m' p = n_free meta m p"
    "em_words m' (offset p 8) = em_words m (offset p 8)"
proof -
  have "region p (md_total_bytes meta) \<subseteq> - region q (md_total_bytes meta)" using pages_disjoint [OF assms(3-5)] by blast
  moreover have "words_kept m m' (- region q (md_total_bytes meta))" using assms(2) by (simp add: slag_frame_def)
  ultimately show "slag_at meta mp m' p c C = slag_at meta mp m p c C" "n_free meta m' p = n_free meta m p"
    "em_words m' (offset p 8) = em_words m (offset p 8)"
    using slag_region_kept [OF assms(1,3)] by blast+
qed

lemma slag_init_at:
  assumes c: "slag_class meta" and q: "page_at (md_total_bytes meta) q"
  shows "\<exists>s. slag_init mp meta = Some s \<and> slag_at meta mp (store_slag m meta q s) q False {#}
    \<and> slag_frame meta m (store_slag m meta q s) q"
proof -
  have n: "md_n_objects meta < 2 ^ 63" using slag_classD(9) [OF c] by simp
  obtain s where s: "slag_init mp meta = Some s" "marks meta (sl_words s)" "rc_agrees s False" "sl_meta s = mp"
    using slag_init_ok [OF slag_classD(1-3) [OF c] n] by blast
  have l: "length (sl_words s) = md_n_bitset_words meta" using s(2) by (simp add: marks_def)
  have "mset (positions (sl_words s)) = all_positions meta"
    using positions_marks [OF s(2) slag_classD(1) [OF c]] by (simp add: all_positions_def)
  then show ?thesis
    using s load_stored [OF c q l, of m] slag_frame_store [OF c q l, of m] by (simp add: slag_at_def)
qed

text \<open>The iterator of a slag: its pointers are into the slag, its word is what it took.\<close>

definition iter_at :: "metadata \<Rightarrow> 's elf_memory \<Rightarrow> ptr \<Rightarrow> alloc_iter \<Rightarrow> bool" where
  "iter_at meta m q it \<longleftrightarrow> iter_wf (load_slag m meta q) it
     \<and> iter_object it = (\<lambda>p. offset q (md_objects_offset meta + 2 ^ md_bit_rep_shift meta * p))"

lemma iter_at_kept:
  "slag_class meta \<Longrightarrow> slag_frame meta m m' p \<Longrightarrow> iter_at meta m' q it = iter_at meta m q it"
  by (simp add: iter_at_def iter_wf_def)

lemma iter_object_at:
  "slag_class meta \<Longrightarrow> iter_at meta m q it \<Longrightarrow> iter_object it (k * md_bits meta) = slag_object q meta k"
  using slag_classD(1) [of meta] by (simp add: iter_at_def slag_object_def layout_wf_def ac_simps)

lemma claim_refresh_at:
  assumes c: "slag_class meta" and q: "page_at (md_total_bytes meta) q" and s: "slag_at meta mp m q False C"
  shows "\<exists>m' it. claim_refresh m meta q = Some (m', it) \<and> slag_at meta mp m' q True (C + iter_cur it)
    \<and> slag_frame meta m m' q \<and> iter_at meta m' q it
    \<and> (0 < n_free meta m q \<longrightarrow> (\<exists>s' it' x. iter_next (load_slag m' meta q) it = Some (s', it', Some x)))"
proof -
  let ?s = "load_slag m meta q" let ?s1 = "?s\<lparr> sl_rc := fst (rc_claim (sl_rc ?s)) \<rparr>"
  have a: "sl_meta ?s = mp" "rc_agrees ?s False" "mset (positions (sl_words ?s)) + C = all_positions meta"
    using s by (simp_all add: slag_at_def)
  have cl: "snd (rc_claim (sl_rc ?s))"
    using a(2) rc_claim_pack [of "total_free (sl_words ?s)" False] by (simp add: rc_agrees_def)
  have a1: "rc_agrees ?s1 True" by (rule rc_agrees_claim [OF a(2)])
  obtain s' it where r: "slag_refresh q ?s1 meta = Some (s', it)" "rc_agrees s' True" "iter_wf s' it" "iter_clear s' it"
      "iter_positions s' it = positions (sl_words ?s)" "sl_meta s' = mp"
      "iter_object it = (\<lambda>p. offset q (md_objects_offset meta + 2 ^ md_bit_rep_shift meta * p))"
    using slag_refresh_ok [OF slag_classD(1) [OF c] a1, of q] a(1) by auto
  have l: "length (sl_words s') = md_n_bitset_words meta"
    using r(1) by (auto simp: slag_refresh_def iter_new_def take_word_def Let_def split: bind_splits if_splits prod.splits)
  note ld = load_stored [OF c q l, of m]
  have "mset (positions (sl_words s')) + iter_cur it = mset (positions (sl_words ?s))"
    using iter_clear_positions [OF r(3,4)] r(5) by simp
  then have "mset (positions (sl_words s')) + (C + iter_cur it) = all_positions meta"
    using a(3) by (metis add.assoc add.commute)
  then have "slag_at meta mp (store_slag m meta q s') q True (C + iter_cur it)"
    using r(2,6) by (simp add: slag_at_def ld)
  moreover have "claim_refresh m meta q = Some (store_slag m meta q s', it)"
    using r(1) cl by (simp add: claim_refresh_def Let_def split_beta)
  moreover have "\<exists>s'' it' x. iter_next s' it = Some (s'', it', Some x)" if "0 < n_free meta m q"
  proof -
    have "positions (sl_words ?s) \<noteq> []" using that by (auto simp: n_free_def total_free_positions)
    then show ?thesis using iter_next_step [OF r(2-4)] r(5) by (auto split: list.splits)
  qed
  ultimately show ?thesis using slag_frame_store [OF c q l, of m] r(3,7) by (simp add: iter_at_def ld)
qed

lemma iter_next_at:
  assumes c: "slag_class meta" and q: "page_at (md_total_bytes meta) q"
    and s: "slag_at meta mp m q True (C + iter_cur it)" and i: "iter_at meta m q it"
  shows "\<exists>s' it' r. iter_next (load_slag m meta q) it = Some (s', it', r) \<and> iter_at meta (store_slag m meta q s') q it'
    \<and> slag_frame meta m (store_slag m meta q s') q
    \<and> (case r of
         None \<Rightarrow> slag_at meta mp (store_slag m meta q s') q True C \<and> iter_cur it' = {#}
       | Some x \<Rightarrow> \<exists>k<md_n_objects meta. x = slag_object q meta k \<and> k * md_bits meta \<notin># C
           \<and> slag_at meta mp (store_slag m meta q s') q True (add_mset (k * md_bits meta) C + iter_cur it'))"
proof -
  let ?s = "load_slag m meta q"
  have a: "sl_meta ?s = mp" "rc_agrees ?s True" "mset (positions (sl_words ?s)) + (C + iter_cur it) = all_positions meta"
    using s by (simp_all add: slag_at_def)
  have wf: "iter_wf ?s it" using i by (simp add: iter_at_def)
  obtain s' it' r where n: "iter_next ?s it = Some (s', it', r)" "rc_agrees s' True" "iter_wf s' it'" "iter_object it' = iter_object it"
      "sl_meta s' = mp" "length (sl_words s') = md_n_bitset_words meta"
      "case r of None \<Rightarrow> mset (positions (sl_words s')) = mset (positions (sl_words ?s)) + iter_cur it \<and> iter_cur it' = {#}
       | Some x \<Rightarrow> \<exists>p. x = iter_object it p
           \<and> mset (positions (sl_words ?s)) + iter_cur it = add_mset p (mset (positions (sl_words s')) + iter_cur it')"
    using iter_next_bits [OF a(2) wf] a(1) by auto
  note ld = load_stored [OF c q n(6), of m]
  have "case r of None \<Rightarrow> slag_at meta mp (store_slag m meta q s') q True C \<and> iter_cur it' = {#}
       | Some x \<Rightarrow> \<exists>k<md_n_objects meta. x = slag_object q meta k \<and> k * md_bits meta \<notin># C
           \<and> slag_at meta mp (store_slag m meta q s') q True (add_mset (k * md_bits meta) C + iter_cur it')"
  proof (cases r)
    case None
    then have "mset (positions (sl_words s')) + C = all_positions meta" using n(7) a(3) by (simp add: ac_simps)
    then show ?thesis using None n(2,5,7) by (simp add: slag_at_def ld)
  next
    case (Some x)
    then obtain p where p: "x = iter_object it p"
        "mset (positions (sl_words ?s)) + iter_cur it = add_mset p (mset (positions (sl_words s')) + iter_cur it')"
      using n(7) by auto
    have e: "(mset (positions (sl_words s')) + C + iter_cur it') + {#p#} = all_positions meta"
      using a(3) p(2) by (metis (no_types) add.assoc add.commute add_mset_add_single)
    then obtain k where k: "k < md_n_objects meta" "p = k * md_bits meta" using all_positions_distinct(2) [OF c e] by auto
    have "p \<notin># C" using all_positions_distinct(1) [OF c e] by simp
    moreover have "mset (positions (sl_words s')) + (add_mset p C + iter_cur it') = all_positions meta"
      using e by (simp add: ac_simps)
    ultimately show ?thesis
      using Some k p(1) n(2,5) iter_object_at [OF c i, of k] by (auto simp: slag_at_def ld)
  qed
  then show ?thesis using n(1,3,4) slag_frame_store [OF c q n(6), of m] i by (auto simp: iter_at_def ld)
qed

text \<open>Marking the object of an unmarked position.\<close>

lemma slag_free_at:
  assumes c: "slag_class meta" and q: "page_at (md_total_bytes meta) q" and M: "mp \<noteq> null" "M mp = Some meta"
    and s: "slag_at meta mp m q cl (add_mset (k * md_bits meta) C)" and k: "k < md_n_objects meta"
  shows "\<exists>s'. slag_free M q (load_slag m meta q) (slag_object q meta k) = Some (s',
        if \<not> cl \<and> n_free meta m q = md_cutoff_objects meta - 1 then TAvailable
        else if \<not> cl \<and> n_free meta m q = md_n_objects meta - 1 then TFull else TNull)
    \<and> slag_at meta mp (store_slag m meta q s') q cl C \<and> slag_frame meta m (store_slag m meta q s') q
    \<and> n_free meta (store_slag m meta q s') q = Suc (n_free meta m q)"
proof -
  let ?s = "load_slag m meta q" let ?p = "k * md_bits meta"
  have a: "sl_meta ?s = mp" "rc_agrees ?s cl" "mset (positions (sl_words ?s)) + add_mset ?p C = all_positions meta"
    using s by (simp_all add: slag_at_def)
  have nin: "?p \<notin> set (positions (sl_words ?s))" using all_positions_distinct(1) [OF c a(3)] by simp
  have "?p div 64 < md_n_bitset_words meta" by (rule object_word_lt [OF slag_classD(1) [OF c] k])
  then have l: "?p < 64 * length (sl_words ?s)" by simp
  have nb: "\<not> bit (sl_words ?s ! (?p div 64)) (?p mod 64)" using nin l by (simp add: positions_filter)
  have "n_free meta m q \<le> md_n_objects meta" using n_free_size [OF s] by simp
  then have room: "total_free (sl_words ?s) + 1 < 2 ^ 63" using slag_classD(9) [OF c] by (simp add: n_free_def)
  obtain s' where s': "slag_free M q ?s (slag_object q meta k) = Some (s',
        if \<not> cl \<and> n_free meta m q = md_cutoff_objects meta - 1 then TAvailable
        else if \<not> cl \<and> n_free meta m q = md_n_objects meta - 1 then TFull else TNull)"
      "rc_agrees s' cl" "sl_meta s' = mp"
      "sl_words s' = (sl_words ?s)[?p div 64 := sl_words ?s ! (?p div 64) OR push_bit (?p mod 64) 1]"
    using slag_free_ok [OF slag_class_placed [OF c q] slag_classD(1) [OF c] k _ _ _ a(2) room nb, of M] a(1) M
    unfolding n_free_def by auto
  have l': "length (sl_words s') = md_n_bitset_words meta" using s'(4) by simp
  note ld = load_stored [OF c q l', of m]
  have p: "mset (positions (sl_words s')) = add_mset ?p (mset (positions (sl_words ?s)))"
    unfolding s'(4) by (rule positions_mark [OF l nin])
  then have at: "slag_at meta mp (store_slag m meta q s') q cl C" using a(3) s'(2,3) by (simp add: slag_at_def ld)
  moreover have "n_free meta (store_slag m meta q s') q = Suc (n_free meta m q)"
    using n_free_size [OF at] n_free_size [OF s] by simp
  ultimately show ?thesis using s'(1) slag_frame_store [OF c q l', of m] by blast
qed

lemma unclaim_at:
  assumes c: "slag_class meta" and q: "page_at (md_total_bytes meta) q" and s: "slag_at meta mp m q cl C"
  defines "s' \<equiv> (load_slag m meta q)\<lparr> sl_rc := fst (rc_unclaim (sl_rc (load_slag m meta q))) \<rparr>"
  shows "snd (rc_unclaim (sl_rc (load_slag m meta q))) = (cl, of_nat (n_free meta m q))"
    "unat (of_nat (n_free meta m q) :: usize) = n_free meta m q"
    "slag_at meta mp (store_slag m meta q s') q False C" "slag_frame meta m (store_slag m meta q s') q"
    "n_free meta (store_slag m meta q s') q = n_free meta m q"
proof -
  let ?s = "load_slag m meta q"
  have l: "length (sl_words s') = md_n_bitset_words meta" by (simp add: s'_def)
  note ld = load_stored [OF c q l, of m]
  have a: "total_free (sl_words ?s) < 2 ^ 63" "sl_rc ?s = rc_pack cl (n_free meta m q)"
    using s by (simp_all add: slag_at_def rc_agrees_def n_free_def)
  then have u: "rc_unclaim (sl_rc ?s) = (rc_pack False (n_free meta m q), (cl, of_nat (n_free meta m q)))"
    by (simp add: rc_unclaim_pack n_free_def)
  show "snd (rc_unclaim (sl_rc ?s)) = (cl, of_nat (n_free meta m q))" by (simp add: u)
  show "unat (of_nat (n_free meta m q) :: usize) = n_free meta m q"
    using a(1) by (simp add: n_free_def unat_of_nat take_bit_nat_eq_self)
  show "slag_at meta mp (store_slag m meta q s') q False C"
    using s u a(1) by (simp add: slag_at_def ld) (simp add: s'_def rc_agrees_def n_free_def)
  show "slag_frame meta m (store_slag m meta q s') q" by (rule slag_frame_store [OF c q l])
  show "n_free meta (store_slag m meta q s') q = n_free meta m q" unfolding n_free_def ld by (simp add: s'_def)
qed

text \<open>Giving back objects of one word of the bit-set at once.\<close>

lemma bulk_mark_at:
  assumes c: "slag_class meta" and q: "page_at (md_total_bytes meta) q" and j: "i < md_n_bitset_words meta"
    and s: "slag_at meta mp m q cl (C + mset (word_positions i w))"
  defines "s0 \<equiv> load_slag m meta q"
  defines "s' \<equiv> s0\<lparr> sl_rc := fst (rc_inc_n (of_nat (count_ones w)) (sl_rc s0)), sl_words := (sl_words s0)[i := sl_words s0 ! i OR w] \<rparr>"
  shows "snd (rc_inc_n (of_nat (count_ones w)) (sl_rc s0)) = (cl, of_nat (n_free meta m q))"
    "unat (of_nat (n_free meta m q) :: usize) = n_free meta m q" "sl_words s0 ! i AND w = 0"
    "slag_at meta mp (store_slag m meta q s') q cl C" "slag_frame meta m (store_slag m meta q s') q"
    "n_free meta (store_slag m meta q s') q = n_free meta m q + count_ones w"
proof -
  let ?b = "sl_words s0 ! i" let ?n = "n_free meta m q" let ?k = "count_ones w" let ?D = "mset (word_positions i w)"
  have a: "sl_meta s0 = mp" "sl_rc s0 = rc_pack cl ?n" "mset (positions (sl_words s0)) + (C + ?D) = all_positions meta"
    using s by (simp_all add: slag_at_def rc_agrees_def n_free_def s0_def)
  have ix: "i < length (sl_words s0)" using j by (simp add: s0_def)
  show dis: "?b AND w = 0"
  proof (rule bit_eqI)
    fix j show "bit (?b AND w) j = bit (0 :: usize) j"
    proof (cases "bit ?b j \<and> bit w j")
      case True
      then have j: "j < 64" by (auto dest: bit_imp_le_length)
      have "64 * i + j \<in># ?D" "64 * i + j \<in># mset (word_positions i ?b)" using True j by (simp_all add: word_positions_def)
      moreover have "64 * i + j \<notin># mset (positions (sl_words s0)) + C"
        using all_positions_distinct(1) [OF c, of "mset (positions (sl_words s0)) + C" ?D] a(3) calculation(1) by (simp add: add.assoc)
      moreover have "set (word_positions i ?b) \<subseteq> set (positions (sl_words s0))" using ix by (auto simp: positions_def)
      ultimately show ?thesis by auto
    qed (simp add: bit_and_iff)
  qed
  have sz: "?n + (size C + ?k) = md_n_objects meta" using n_free_size [OF s] by (simp add: length_word_positions)
  then have nk: "?n + ?k < 2 ^ 63" using slag_classD(9) [OF c] by simp
  have rc: "rc_inc_n (of_nat ?k) (sl_rc s0) = (rc_pack cl (?n + ?k), (cl, of_nat ?n))" unfolding a(2) by (rule rc_inc_pack [OF nk])
  then show "snd (rc_inc_n (of_nat ?k) (sl_rc s0)) = (cl, of_nat ?n)" by simp
  show "unat (of_nat ?n :: usize) = ?n" using nk by (simp add: unat_of_nat take_bit_nat_eq_self)
  have l: "length (sl_words s') = md_n_bitset_words meta" by (simp add: s'_def s0_def)
  note ld = load_stored [OF c q l, of m]
  have m: "mset (positions (sl_words s')) = mset (positions (sl_words s0)) + ?D"
    using positions_update [OF ix, of "?b OR w"] word_positions_or(1) [OF dis, of i] by (simp add: s'_def)
  have "size (mset (positions (sl_words s'))) = size (mset (positions (sl_words s0))) + size ?D" unfolding m by (rule size_union)
  then have tf: "total_free (sl_words s') = ?n + ?k"
    by (simp only: total_free_positions n_free_def length_word_positions size_mset s0_def)
  show "n_free meta (store_slag m meta q s') q = ?n + ?k" unfolding n_free_def [of _ "store_slag m meta q s'"] ld tf ..
  have "sl_meta s' = mp" "sl_rc s' = rc_pack cl (?n + ?k)" using a(1) rc by (simp_all add: s'_def)
  then show "slag_at meta mp (store_slag m meta q s') q cl C"
    unfolding slag_at_def ld using a(3) m tf nk by (simp add: rc_agrees_def ac_simps)
  show "slag_frame meta m (store_slag m meta q s') q" by (rule slag_frame_store [OF c q l])
qed

subsection \<open>The invariant of the allocator\<close>

text \<open>\<open>P\<close> are the pages the allocator has from its page cache, all of them slags of its class, \<open>A\<close> those
  in the pipe of available slags, \<open>H\<close> the objects in the hands of clients, \<open>C\<close> the positions the iterator
  took from the current slag.  The available slags are those that are not current and have enough free
  objects.  A page in the cache is not marked as a slag of the class, or all its objects are free.\<close>

definition slag_objects :: "metadata \<Rightarrow> ptr set \<Rightarrow> ptr set" where
  "slag_objects meta P = {slag_object q meta k | q k. q \<in> P \<and> k < md_n_objects meta}"

definition slags_inv :: "metadata \<Rightarrow> ptr \<Rightarrow> 's elf_memory \<Rightarrow> ptr \<Rightarrow> ptr set \<Rightarrow> ptr set \<Rightarrow> ptr set \<Rightarrow> bool \<Rightarrow> nat multiset \<Rightarrow> bool" where
  "slags_inv meta mp m cur P A H cl C \<longleftrightarrow> cur \<in> P \<and> A \<subseteq> P - {cur} \<and> H \<subseteq> slag_objects meta P
     \<and> slag_at meta mp m cur cl (out_positions meta H cur + C)
     \<and> (\<forall>q \<in> P - {cur}. slag_at meta mp m q False (out_positions meta H q)
          \<and> (q \<in> A \<longleftrightarrow> md_cutoff_objects meta \<le> n_free meta m q))"

definition cached_inv :: "metadata \<Rightarrow> ptr \<Rightarrow> 's elf_memory \<Rightarrow> ptr multiset \<Rightarrow> bool" where
  "cached_inv meta mp m X \<longleftrightarrow> (\<forall>q. q \<in># X \<longrightarrow> em_words m (offset q 8) \<noteq> mp \<or> slag_at meta mp m q False {#})"

definition sal_inv :: "'s os_ops \<Rightarrow> ('s \<Rightarrow> nat set) \<Rightarrow> nat set \<Rightarrow> metadata \<Rightarrow> ptr \<Rightarrow> slag_allocator \<Rightarrow> 's elf_memory
    \<Rightarrow> ptr set \<Rightarrow> ptr set \<Rightarrow> ptr set \<Rightarrow> bool \<Rightarrow> nat multiset \<Rightarrow> bool" where
  "sal_inv OS mapped M0 meta mp sal m P A H cl C \<longleftrightarrow> sa_m sal = mp \<and> pa_creek (sa_pages sal) = md_total_bytes meta
     \<and> page_inv (os_pagesize OS) M0 (mapped (em_os m)) (sa_pages sal) P
     \<and> avail_ok (sa_available sal) \<and> avail_items (sa_available sal) = mset_set A
     \<and> slags_inv meta mp m (sa_slag sal) P A H cl C \<and> cached_inv meta mp m (pa_pages (sa_pages sal))"

lemma page_inv_pages:
  assumes "page_inv pg M0 M pa P"
  shows "finite P" "\<And>q. q \<in> P \<Longrightarrow> page_at (pa_creek pa) q" "\<And>q. q \<in> P \<Longrightarrow> region q (pa_creek pa) \<subseteq> M - M0"
    "\<And>q. q \<in># pa_pages pa \<Longrightarrow> page_at (pa_creek pa) q \<and> q \<notin> P \<and> region q (pa_creek pa) \<subseteq> M - M0"
proof -
  have wf: "pages_wf (pa_creek pa) M0 M (pa_pages pa) P" using assms by (simp add: page_inv_def)
  then show "finite P" by (simp add: pages_wf_def)
  show "page_at (pa_creek pa) q" "region q (pa_creek pa) \<subseteq> M - M0" if "q \<in> P" for q
    using page_cache_held [OF wf that] by auto
  fix q assume q: "q \<in># pa_pages pa"
  then obtain X where "pa_pages pa = add_mset q X" by (metis mset_add)
  then have "pages_wf (pa_creek pa) M0 M (add_mset q X) P" using wf by simp
  from pages_take [OF this] have "q \<notin> P" and w: "pages_wf (pa_creek pa) M0 M X (insert q P)" by auto
  then show "page_at (pa_creek pa) q \<and> q \<notin> P \<and> region q (pa_creek pa) \<subseteq> M - M0"
    using page_cache_held [OF w, of q] by auto
qed

lemma out_positions_empty:
  assumes "slag_class meta" "page_at (md_total_bytes meta) q" "\<forall>p \<in> P. page_at (md_total_bytes meta) p" "q \<notin> P"
    "H \<subseteq> slag_objects meta P"
  shows "out_positions meta H q = {#}"
proof -
  have "slag_object q meta k \<notin> H" if k: "k < md_n_objects meta" for k
  proof
    assume "slag_object q meta k \<in> H"
    then obtain p j where "p \<in> P" "j < md_n_objects meta" "slag_object q meta k = slag_object p meta j"
      using assms(5) unfolding slag_objects_def by blast
    then show False using slag_object_inj [OF assms(1,2) _ k, of p j] assms(3,4) by auto
  qed
  then show ?thesis by (simp add: out_positions_def)
qed

text \<open>A change to one slag keeps the others, and the pages in the cache.\<close>

lemma objects_elsewhere:
  assumes "H \<subseteq> slag_objects meta P" "out_positions meta H q = {#}"
  shows "H \<subseteq> slag_objects meta (P - {q})"
proof
  fix x assume x: "x \<in> H"
  then obtain p k where p: "p \<in> P" "k < md_n_objects meta" "x = slag_object p meta k" using assms(1) by (auto simp: slag_objects_def)
  have "p \<noteq> q"
  proof
    assume "p = q"
    then have "k * md_bits meta \<in># out_positions meta H q" using p x by (auto simp: out_positions_def)
    then show False using assms(2) by simp
  qed
  then show "x \<in> slag_objects meta (P - {q})" using p by (auto simp: slag_objects_def)
qed

lemma mset_filter_split: "mset (filter P xs) = mset (filter (\<lambda>x. P x \<and> \<not> Q x) xs) + mset (filter (\<lambda>x. P x \<and> Q x) xs)"
  by (induction xs) auto

lemma out_positions_split: "F \<subseteq> H \<Longrightarrow> out_positions meta H q = out_positions meta (H - F) q + out_positions meta F q"
proof -
  assume "F \<subseteq> H"
  then have e: "x \<in> H \<and> x \<in> F \<longleftrightarrow> x \<in> F" for x by blast
  show ?thesis
    using arg_cong [OF mset_filter_split [of "\<lambda>k. slag_object q meta k \<in> H" "[0..<md_n_objects meta]" "\<lambda>k. slag_object q meta k \<in> F"],
        of "image_mset (\<lambda>k. k * md_bits meta)"]
    by (simp add: out_positions_def e)
qed

lemma out_positions_elsewhere:
  assumes c: "slag_class meta" and p: "page_at (md_total_bytes meta) p" "page_at (md_total_bytes meta) q" "p \<noteq> q"
    and F: "F \<subseteq> slag_objects meta {q}"
  shows "out_positions meta (H - F) p = out_positions meta H p"
proof -
  have "slag_object p meta k \<notin> F" if "k < md_n_objects meta" for k
    using slag_object_inj [OF c p(1,2) that] F p(3) by (auto simp: slag_objects_def)
  then have "filter (\<lambda>k. slag_object p meta k \<in> H - F) [0..<md_n_objects meta] = filter (\<lambda>k. slag_object p meta k \<in> H) [0..<md_n_objects meta]"
    by (intro filter_cong) auto
  then show ?thesis by (simp only: out_positions_def)
qed

lemma slags_others:
  assumes c: "slag_class meta" and st: "slag_frame meta m m' q" and q: "page_at (md_total_bytes meta) q"
    and P: "\<forall>p \<in> P. page_at (md_total_bytes meta) p" and p: "p \<in> P" "p \<noteq> q"
  shows "slag_at meta mp m' p c' C' = slag_at meta mp m p c' C'" "n_free meta m' p = n_free meta m p"
  using slag_frame_other [OF c st _ q p(2)] P p(1) by auto

lemma cached_step:
  assumes c: "slag_class meta" and st: "slag_frame meta m m' q" and q: "page_at (md_total_bytes meta) q"
    and X: "\<And>p. p \<in># X \<Longrightarrow> page_at (md_total_bytes meta) p \<and> p \<noteq> q" and inv: "cached_inv meta mp m X"
  shows "cached_inv meta mp m' X"
  unfolding cached_inv_def
proof (intro allI impI)
  fix p assume p: "p \<in># X"
  then have "page_at (md_total_bytes meta) p" "p \<noteq> q" using X by auto
  from slag_frame_other [OF c st this(1) q this(2)] show "em_words m' (offset p 8) \<noteq> mp \<or> slag_at meta mp m' p False {#}"
    using inv p unfolding cached_inv_def by auto
qed

text \<open>Memory that is mapped besides.\<close>

lemma sal_inv_other:
  assumes c: "slag_class meta" and inv: "sal_inv OS mapped M0 meta mp sal m P A H cl C"
    and m': "mapped (em_os m') = mapped (em_os m) \<union> R" "R \<inter> mapped (em_os m) = {}" "words_kept m m' (mapped (em_os m))"
  shows "sal_inv OS mapped (M0 \<union> R) meta mp sal m' P A H cl C"
proof -
  let ?ps = "md_total_bytes meta"
  have i: "pa_creek (sa_pages sal) = ?ps" "page_inv (os_pagesize OS) M0 (mapped (em_os m)) (sa_pages sal) P"
      "slags_inv meta mp m (sa_slag sal) P A H cl C" "cached_inv meta mp m (pa_pages (sa_pages sal))"
    using inv by (simp_all add: sal_inv_def)
  note pg = page_inv_pages [OF i(2), unfolded i(1)]
  have "slag_at meta mp m' q c' C' = slag_at meta mp m q c' C'" "n_free meta m' q = n_free meta m q" if "q \<in> P" for q c' C'
    using slag_region_kept(1,2) [OF c _ m'(3)] pg(2,3) [OF that] by blast+
  then have "slags_inv meta mp m' (sa_slag sal) P A H cl C" using i(3) unfolding slags_inv_def by auto
  moreover have "cached_inv meta mp m' (pa_pages (sa_pages sal))"
    unfolding cached_inv_def
  proof (intro allI impI)
    fix q assume q: "q \<in># pa_pages (sa_pages sal)"
    have "page_at ?ps q" "region q ?ps \<subseteq> mapped (em_os m)" using pg(4) [OF q] by auto
    from slag_region_kept [OF c this(1) m'(3) this(2)]
    show "em_words m' (offset q 8) \<noteq> mp \<or> slag_at meta mp m' q False {#}" using i(4) q unfolding cached_inv_def by auto
  qed
  moreover have "page_inv (os_pagesize OS) (M0 \<union> R) (mapped (em_os m')) (sa_pages sal) P"
    unfolding m'(1) by (rule page_inv_other [OF i(2) m'(2)])
  ultimately show ?thesis using inv by (simp add: sal_inv_def)
qed

text \<open>The current slag hands out its next object.\<close>

lemma sal_iter_next:
  assumes c: "slag_class meta" and inv: "sal_inv OS mapped M0 meta mp sal m P A H True (iter_cur it)"
    and it: "iter_at meta m (sa_slag sal) it"
  shows "\<exists>s' it' r. iter_next (load_slag m meta (sa_slag sal)) it = Some (s', it', r)
    \<and> iter_at meta (store_slag m meta (sa_slag sal) s') (sa_slag sal) it'
    \<and> (case r of
         None \<Rightarrow> sal_inv OS mapped M0 meta mp sal (store_slag m meta (sa_slag sal) s') P A H True {#} \<and> iter_cur it' = {#}
       | Some x \<Rightarrow> x \<notin> H \<and> (\<exists>k < md_n_objects meta. x = slag_object (sa_slag sal) meta k)
           \<and> sal_inv OS mapped M0 meta mp sal (store_slag m meta (sa_slag sal) s') P A (insert x H) True (iter_cur it'))"
proof -
  let ?q = "sa_slag sal"
  have i: "sa_m sal = mp" "pa_creek (sa_pages sal) = md_total_bytes meta"
      "page_inv (os_pagesize OS) M0 (mapped (em_os m)) (sa_pages sal) P" "avail_ok (sa_available sal)"
      "avail_items (sa_available sal) = mset_set A" "slags_inv meta mp m ?q P A H True (iter_cur it)"
      "cached_inv meta mp m (pa_pages (sa_pages sal))"
    using inv by (simp_all add: sal_inv_def)
  note pg = page_inv_pages [OF i(3), unfolded i(2)]
  have s: "?q \<in> P" "A \<subseteq> P - {?q}" "H \<subseteq> slag_objects meta P" "slag_at meta mp m ?q True (out_positions meta H ?q + iter_cur it)"
      "\<forall>q \<in> P - {?q}. slag_at meta mp m q False (out_positions meta H q) \<and> (q \<in> A \<longleftrightarrow> md_cutoff_objects meta \<le> n_free meta m q)"
    using i(6) unfolding slags_inv_def by blast+
  have q: "page_at (md_total_bytes meta) ?q" and P: "\<forall>p \<in> P. page_at (md_total_bytes meta) p" using pg(2) s(1) by auto
  obtain s' it' r where n: "iter_next (load_slag m meta ?q) it = Some (s', it', r)"
      "iter_at meta (store_slag m meta ?q s') ?q it'" "slag_frame meta m (store_slag m meta ?q s') ?q"
      "case r of None \<Rightarrow> slag_at meta mp (store_slag m meta ?q s') ?q True (out_positions meta H ?q) \<and> iter_cur it' = {#}
       | Some x \<Rightarrow> \<exists>k<md_n_objects meta. x = slag_object ?q meta k \<and> k * md_bits meta \<notin># out_positions meta H ?q
           \<and> slag_at meta mp (store_slag m meta ?q s') ?q True (add_mset (k * md_bits meta) (out_positions meta H ?q) + iter_cur it')"
    using iter_next_at [OF c q s(4) it] by blast
  let ?m = "store_slag m meta ?q s'"
  have ca: "cached_inv meta mp ?m (pa_pages (sa_pages sal))"
    using cached_step [OF c n(3) q _ i(7)] pg(4) s(1) by blast
  have os: "em_os ?m = em_os m" by simp
  have o: "slag_at meta mp ?m p False C' = slag_at meta mp m p False C'" "n_free meta ?m p = n_free meta m p"
    if "p \<in> P - {?q}" for p C'
    using slags_others [OF c n(3) q P] that by auto
  show ?thesis
  proof (cases r)
    case None
    then have "slags_inv meta mp ?m ?q P A H True {#}" using n(4) s o unfolding slags_inv_def by auto
    then have "sal_inv OS mapped M0 meta mp sal ?m P A H True {#}" using i ca os by (simp add: sal_inv_def)
    then show ?thesis using n None by auto
  next
    case (Some x)
    then obtain k where k: "k < md_n_objects meta" "x = slag_object ?q meta k" "k * md_bits meta \<notin># out_positions meta H ?q"
        "slag_at meta mp ?m ?q True (add_mset (k * md_bits meta) (out_positions meta H ?q) + iter_cur it')"
      using n(4) by auto
    have x: "x \<notin> H" using k(1-3) by (auto simp: out_positions_def)
    note ins = out_positions_insert [OF c _ q k(1), of _ H, folded k(2), OF _ x]
    have "slag_at meta mp ?m p False (out_positions meta (insert x H) p)" if p: "p \<in> P - {?q}" for p
      using ins [of p] P s(5) o(1) [OF p] p by auto
    moreover have "slag_at meta mp ?m ?q True (out_positions meta (insert x H) ?q + iter_cur it')"
      using k(4) ins [OF q] by simp
    moreover have "insert x H \<subseteq> slag_objects meta P" using s(1,3) k(1,2) by (auto simp: slag_objects_def)
    ultimately have "slags_inv meta mp ?m ?q P A (insert x H) True (iter_cur it')"
      using s(1,2,5) o(2) unfolding slags_inv_def by auto
    then have "sal_inv OS mapped M0 meta mp sal ?m P A (insert x H) True (iter_cur it')" using i ca os by (simp add: sal_inv_def)
    then show ?thesis using n(1,2) Some x k(1,2) by auto
  qed
qed

lemma sal_invD:
  assumes "sal_inv OS mapped M0 meta mp sal m P A H cl C"
  shows "sa_m sal = mp" "pa_creek (sa_pages sal) = md_total_bytes meta"
    "page_inv (os_pagesize OS) M0 (mapped (em_os m)) (sa_pages sal) P" "avail_ok (sa_available sal)"
    "avail_items (sa_available sal) = mset_set A" "slags_inv meta mp m (sa_slag sal) P A H cl C"
    "cached_inv meta mp m (pa_pages (sa_pages sal))" "finite A"
    "\<And>q. q \<in> P \<Longrightarrow> page_at (md_total_bytes meta) q"
    "\<And>q. q \<in># pa_pages (sa_pages sal) \<Longrightarrow> page_at (md_total_bytes meta) q \<and> q \<notin> P"
proof -
  show i: "sa_m sal = mp" "pa_creek (sa_pages sal) = md_total_bytes meta"
    "page_inv (os_pagesize OS) M0 (mapped (em_os m)) (sa_pages sal) P" "avail_ok (sa_available sal)"
    "avail_items (sa_available sal) = mset_set A" and s: "slags_inv meta mp m (sa_slag sal) P A H cl C"
    and "cached_inv meta mp m (pa_pages (sa_pages sal))"
    using assms by (simp_all add: sal_inv_def)
  note pg = page_inv_pages [OF i(3), unfolded i(2)]
  show "finite A" using s pg(1) by (auto simp: slags_inv_def intro: finite_subset)
  show "\<And>q. q \<in> P \<Longrightarrow> page_at (md_total_bytes meta) q" "\<And>q. q \<in># pa_pages (sa_pages sal) \<Longrightarrow> page_at (md_total_bytes meta) q \<and> q \<notin> P"
    using pg by blast+
qed

text \<open>A change to the current slag.\<close>

lemma sal_step_current:
  assumes c: "slag_class meta" and inv: "sal_inv OS mapped M0 meta mp sal m P A H cl C"
    and st: "slag_frame meta m m' (sa_slag sal)" and at: "slag_at meta mp m' (sa_slag sal) cl' (out_positions meta H (sa_slag sal) + C')"
  shows "sal_inv OS mapped M0 meta mp sal m' P A H cl' C'"
proof -
  let ?q = "sa_slag sal"
  note i = sal_invD [OF inv]
  have s: "?q \<in> P" "A \<subseteq> P - {?q}" "H \<subseteq> slag_objects meta P"
      "\<forall>q \<in> P - {?q}. slag_at meta mp m q False (out_positions meta H q) \<and> (q \<in> A \<longleftrightarrow> md_cutoff_objects meta \<le> n_free meta m q)"
    using i(6) unfolding slags_inv_def by blast+
  have q: "page_at (md_total_bytes meta) ?q" and P: "\<forall>p \<in> P. page_at (md_total_bytes meta) p" using i(9) s(1) by auto
  have "slags_inv meta mp m' ?q P A H cl' C'"
    using s at slags_others [OF c st q P] unfolding slags_inv_def by auto
  moreover have "cached_inv meta mp m' (pa_pages (sa_pages sal))" using cached_step [OF c st q _ i(7)] i(10) s(1) by blast
  moreover have "em_os m' = em_os m" using st by (simp add: slag_frame_def)
  ultimately show ?thesis using i(1-5) by (simp add: sal_inv_def)
qed

lemma sal_claim:
  assumes c: "slag_class meta" and inv: "sal_inv OS mapped M0 meta mp sal m P A H False {#}"
  shows "\<exists>m' it. claim_refresh m meta (sa_slag sal) = Some (m', it) \<and> iter_at meta m' (sa_slag sal) it
    \<and> sal_inv OS mapped M0 meta mp sal m' P A H True (iter_cur it)
    \<and> (0 < n_free meta m (sa_slag sal) \<longrightarrow> (\<exists>s' it' x. iter_next (load_slag m' meta (sa_slag sal)) it = Some (s', it', Some x)))"
proof -
  let ?q = "sa_slag sal"
  note i = sal_invD [OF inv]
  have s: "?q \<in> P" "slag_at meta mp m ?q False (out_positions meta H ?q)" using i(6) unfolding slags_inv_def by simp_all
  from claim_refresh_at [OF c i(9) [OF s(1)] s(2)] show ?thesis
  proof (elim exE conjE)
    fix m' it assume r: "claim_refresh m meta ?q = Some (m', it)"
      "slag_at meta mp m' ?q True (out_positions meta H ?q + iter_cur it)" "slag_frame meta m m' ?q" "iter_at meta m' ?q it"
      "0 < n_free meta m ?q \<longrightarrow> (\<exists>s' it' x. iter_next (load_slag m' meta ?q) it = Some (s', it', Some x))"
    then show ?thesis using sal_step_current [OF c inv r(3,2)] by (intro exI [of _ m'] exI [of _ it] conjI)
  qed
qed

text \<open>The page cache gives a page: what was known of slags and cached pages still is, and the new
  page is blank or was in the cache.\<close>

lemma sal_take_page:
  assumes c: "slag_class meta" and mp: "mp \<noteq> null" and os: "os_contract OS mapped byte"
    and inv: "sal_inv OS mapped M0 meta mp sal m P A H cl C"
  shows "(\<exists>pa m1 p. page_alloc_alloc OS (sa_pages sal) m = Some (pa, m1, p) \<and> p \<notin> P \<and> page_at (md_total_bytes meta) p
      \<and> page_inv (os_pagesize OS) M0 (mapped (em_os m1)) pa (insert p P) \<and> pa_creek pa = md_total_bytes meta
      \<and> slags_inv meta mp m1 (sa_slag sal) P A H cl C \<and> cached_inv meta mp m1 (add_mset p (pa_pages pa)))
    \<or> (page_alloc_alloc OS (sa_pages sal) m = None \<and> source_failed OS (sa_pages sal) m)"
proof -
  let ?ps = "md_total_bytes meta"
  note i = sal_invD [OF inv]
  note pg = page_inv_pages [OF i(3), unfolded i(2)]
  from page_alloc_cases [OF os i(3), unfolded i(2)] show ?thesis
  proof (elim disjE exE conjE)
    fix pa m1 p
    assume a: "page_alloc_alloc OS (sa_pages sal) m = Some (pa, m1, p)" "p \<notin> P"
        "page_inv (os_pagesize OS) M0 (mapped (em_os m1)) pa (insert p P)" "pa_creek pa = ?ps" "words_kept m m1 (mapped (em_os m))"
        "\<forall>q. q \<in># add_mset p (pa_pages pa) \<longrightarrow> q \<in># pa_pages (sa_pages sal) \<or> blank m1 q ?ps"
    note kept = slag_region_kept [OF c _ a(5)]
    have pt: "page_at ?ps p" using page_inv_pages(2) [OF a(3), of p] a(4) by simp
    have "slag_at meta mp m1 q c' C' = slag_at meta mp m q c' C'" "n_free meta m1 q = n_free meta m q" if "q \<in> P" for q c' C'
      using kept(1,2) [of q] pg(2,3) [OF that] by blast+
    then have sl: "slags_inv meta mp m1 (sa_slag sal) P A H cl C" using i(6) unfolding slags_inv_def by auto
    have "em_words m1 (offset q 8) \<noteq> mp \<or> slag_at meta mp m1 q False {#}" if q: "q \<in># add_mset p (pa_pages pa)" for q
    proof (cases "q \<in># pa_pages (sa_pages sal)")
      case True
      have q: "page_at ?ps q" "region q ?ps \<subseteq> mapped (em_os m)" using pg(4) [OF True] by auto
      have "em_words m (offset q 8) \<noteq> mp \<or> slag_at meta mp m q False {#}" using i(7) True unfolding cached_inv_def by blast
      then show ?thesis using kept(1) [OF q, of mp False "{#}"] kept(3) [OF q] by simp
    next
      case False
      have "page_at ?ps q" using q pt page_inv_pages(4) [OF a(3), of q] a(4) by auto
      then have "unat (offset q 8) \<in> region q ?ps"
        using offset_in_region [of q ?ps 8] slag_classD(8,11) [OF c] by (simp add: page_at_def)
      then have "em_words m1 (offset q 8) = 0" using a(6) q False by (auto simp: blank_def)
      then show ?thesis using mp by simp
    qed
    then have "cached_inv meta mp m1 (add_mset p (pa_pages pa))" unfolding cached_inv_def by blast
    then show ?thesis using a(1-4) pt sl by blast
  qed (simp add: source_failed_def)
qed

lemma slags_switch:
  assumes inv: "slags_inv meta mp m cur P A H False {#}" and low: "n_free meta m cur < md_cutoff_objects meta" and q: "q \<in> A"
  shows "slags_inv meta mp m q P (A - {q}) H False {#}" "q \<in> P" "md_cutoff_objects meta \<le> n_free meta m q"
  using assms unfolding slags_inv_def by (auto; fastforce)+

lemma slags_new:
  assumes c: "slag_class meta" and inv: "slags_inv meta mp m cur P A H False {#}" and low: "n_free meta m cur < md_cutoff_objects meta"
    and P: "\<forall>p \<in> P. page_at (md_total_bytes meta) p" and q: "q \<notin> P" "page_at (md_total_bytes meta) q" "slag_at meta mp m q False {#}"
  shows "slags_inv meta mp m q (insert q P) A H False {#}"
proof -
  have s: "cur \<in> P" "A \<subseteq> P - {cur}" "H \<subseteq> slag_objects meta P" "slag_at meta mp m cur False (out_positions meta H cur)"
      "\<forall>q \<in> P - {cur}. slag_at meta mp m q False (out_positions meta H q) \<and> (q \<in> A \<longleftrightarrow> md_cutoff_objects meta \<le> n_free meta m q)"
    using inv unfolding slags_inv_def by simp_all
  have "out_positions meta H q = {#}" by (rule out_positions_empty [OF c q(2) P q(1) s(3)])
  moreover have "slag_at meta mp m p False (out_positions meta H p) \<and> (p \<in> A \<longleftrightarrow> md_cutoff_objects meta \<le> n_free meta m p)"
    if "p \<in> P" for p using s(2,4,5) low that by (cases "p = cur") auto
  moreover have "H \<subseteq> slag_objects meta (insert q P)" using s(3) unfolding slag_objects_def by blast
  ultimately show ?thesis using q s(2) unfolding slags_inv_def by auto
qed

lemma next_slag_ok:
  assumes c: "slag_class meta" and mp: "mp \<noteq> null" and os: "os_contract OS mapped byte"
    and inv: "sal_inv OS mapped M0 meta mp sal m P A H False {#}" and low: "n_free meta m (sa_slag sal) < md_cutoff_objects meta"
  shows "(\<exists>sal' m' q P' A'. next_slag OS sal m meta = Some (sal', m', q) \<and> q \<noteq> null \<and> sa_threshold sal' = sa_threshold sal
      \<and> sal_inv OS mapped M0 meta mp (sal'\<lparr> sa_slag := q \<rparr>) m' P' A' H False {#} \<and> md_cutoff_objects meta \<le> n_free meta m' q)
    \<or> (next_slag OS sal m meta = None \<and> source_failed OS (sa_pages sal) m)"
proof -
  note i = sal_invD [OF inv]
  let ?av = "sa_available sal"
  obtain st h r where pop: "try_pop_mut (faa_bag True) (fst ?av) (snd ?av) = Some (st, h, r)" "avail_ok (st, h)"
      "(\<exists>q. r = Popped q \<and> valid_item q \<and> avail_items ?av = add_mset q (avail_items (st, h)))
       \<or> ((\<forall>q. r \<noteq> Popped q) \<and> avail_items (st, h) = avail_items ?av)"
    using slagpipe_pop [OF i(4)] by blast
  let ?sal = "sal\<lparr> sa_available := (st, h) \<rparr>"
  show ?thesis
  proof (cases "\<exists>q. r = Popped q")
    case True
    then obtain q where r: "r = Popped q" by blast
    then have m: "mset_set A = add_mset q (avail_items (st, h))" "valid_item q" using pop(3) i(5) by auto
    then have q: "q \<in> A" using i(8) by (metis elem_mset_set union_single_eq_member)
    then have "avail_items (st, h) = mset_set (A - {q})" using m(1) i(8) by (metis add_mset_remove_trivial mset_set.remove)
    note sw = slags_switch [OF i(6) low q]
    have "sal_inv OS mapped M0 meta mp (?sal\<lparr> sa_slag := q \<rparr>) m P (A - {q}) H False {#}"
      using i(1-3,7) pop(2) sw(1) \<open>avail_items (st, h) = mset_set (A - {q})\<close> by (simp add: sal_inv_def)
    moreover have "next_slag OS sal m meta = Some (?sal, m, q)" using pop(1) r by (simp add: next_slag_def)
    moreover have "q \<noteq> null" using m(2) by (simp add: valid_item_def)
    ultimately show ?thesis using sw(3) by fastforce
  next
    case False
    then have it: "avail_items (st, h) = mset_set A" using pop(3) i(5) by (cases r) auto
    have e: "next_slag OS sal m meta = (do {
         (pa, m1, new_raw) \<leftarrow> page_alloc_alloc OS (sa_pages sal) m;
         let sal2 = ?sal\<lparr> sa_pages := pa \<rparr>;
         if em_words m1 (offset new_raw 8) \<noteq> sa_m sal2 then do {
           s \<leftarrow> (if new_raw = null then None else slag_init (sa_m sal2) meta);
           Some (sal2, store_slag m1 meta new_raw s, new_raw) }
         else Some (sal2, m1, new_raw) })"
      using pop(1) False by (cases r) (simp_all add: next_slag_def)
    from sal_take_page [OF c mp os inv] show ?thesis
    proof (elim disjE exE conjE)
      fix pa m1 p
      assume a: "page_alloc_alloc OS (sa_pages sal) m = Some (pa, m1, p)" "p \<notin> P" "page_at (md_total_bytes meta) p"
        "page_inv (os_pagesize OS) M0 (mapped (em_os m1)) pa (insert p P)" "pa_creek pa = md_total_bytes meta"
        "slags_inv meta mp m1 (sa_slag sal) P A H False {#}" "cached_inv meta mp m1 (add_mset p (pa_pages pa))"
      let ?sal2 = "sal\<lparr> sa_available := (st, h), sa_pages := pa \<rparr>"
      have p0: "p \<noteq> null" using a(3) by (simp add: page_at_def)
      have P: "\<forall>p \<in> P. page_at (md_total_bytes meta) p" using i(9) by blast
      note pg = page_inv_pages [OF a(4), unfolded a(5)]
      have low1: "n_free meta m1 (sa_slag sal) < md_cutoff_objects meta"
      proof -
        have "n_free meta m1 (sa_slag sal) + size (out_positions meta H (sa_slag sal)) = n_free meta m (sa_slag sal) + size (out_positions meta H (sa_slag sal))"
          using n_free_size [of meta mp m1] n_free_size [of meta mp m] a(6) i(6) unfolding slags_inv_def by (metis add.right_neutral empty_neutral(2))
        then show ?thesis using low by simp
      qed
      obtain m2 where m2: "next_slag OS sal m meta = Some (?sal2, m2, p)" "slag_at meta mp m2 p False {#}"
          "slags_inv meta mp m2 (sa_slag sal) P A H False {#}" "cached_inv meta mp m2 (pa_pages pa)" "em_os m2 = em_os m1"
          "n_free meta m2 (sa_slag sal) < md_cutoff_objects meta"
      proof (cases "em_words m1 (offset p 8) = mp")
        case True
        then have "slag_at meta mp m1 p False {#}" "cached_inv meta mp m1 (pa_pages pa)" using a(7) by (auto simp: cached_inv_def)
        then show ?thesis using that [of m1] a(1,6) True i(1) e low1 by simp
      next
        case False
        obtain s where s: "slag_init mp meta = Some s" "slag_at meta mp (store_slag m1 meta p s) p False {#}"
            "slag_frame meta m1 (store_slag m1 meta p s) p"
          using slag_init_at [OF c a(3)] by blast
        let ?m2 = "store_slag m1 meta p s"
        have o: "slag_at meta mp ?m2 q c' C' = slag_at meta mp m1 q c' C'" "n_free meta ?m2 q = n_free meta m1 q" if "q \<in> P" for q c' C'
          using slags_others [OF c s(3) a(3) P that] that a(2) by auto
        have cur: "sa_slag sal \<in> P" using a(6) by (simp add: slags_inv_def)
        have "slags_inv meta mp ?m2 (sa_slag sal) P A H False {#}" using a(6) o unfolding slags_inv_def by auto
        moreover have "cached_inv meta mp m1 (pa_pages pa)" using a(7) by (simp add: cached_inv_def)
        then have "cached_inv meta mp ?m2 (pa_pages pa)" using cached_step [OF c s(3) a(3)] pg(4) by blast
        ultimately show ?thesis using that [of ?m2] a(1) False i(1) e s(1,2) p0 o(2) [OF cur] low1 by simp
      qed
      have "slags_inv meta mp m2 p (insert p P) A H False {#}" by (rule slags_new [OF c m2(3,6) P a(2,3) m2(2)])
      then have "sal_inv OS mapped M0 meta mp (?sal2\<lparr> sa_slag := p \<rparr>) m2 (insert p P) A H False {#}"
        using i(1) pop(2) it a(4,5) m2(4,5) by (simp add: sal_inv_def)
      moreover have "n_free meta m2 p = md_n_objects meta" using n_free_size [OF m2(2)] by simp
      ultimately show ?thesis using m2(1) p0 slag_classD(4) [OF c] by fastforce
    next
      assume "page_alloc_alloc OS (sa_pages sal) m = None" "source_failed OS (sa_pages sal) m"
      then show ?thesis using e by simp
    qed
  qed
qed

lemma sal_refresh_ok:
  assumes c: "slag_class meta" and mp: "mp \<noteq> null" "M mp = Some meta" and os: "os_contract OS mapped byte"
    and inv: "sal_inv OS mapped M0 meta mp sal m P A H cl {#}"
  shows "(\<exists>sal' m' it P' A'. sal_refresh OS M sal m = Some (sal', m', it) \<and> sa_threshold sal' = sa_threshold sal
      \<and> sal_inv OS mapped M0 meta mp sal' m' P' A' H True (iter_cur it) \<and> iter_at meta m' (sa_slag sal') it
      \<and> (\<exists>s' it' x. iter_next (load_slag m' meta (sa_slag sal')) it = Some (s', it', Some x)))
    \<or> (sal_refresh OS M sal m = None \<and> source_failed OS (sa_pages sal) m)"
proof -
  let ?q = "sa_slag sal" let ?s = "load_slag m meta ?q"
  let ?m = "store_slag m meta ?q (?s\<lparr> sl_rc := fst (rc_unclaim (sl_rc ?s)) \<rparr>)"
  note i = sal_invD [OF inv]
  have s: "?q \<in> P" "slag_at meta mp m ?q cl (out_positions meta H ?q)" using i(6) unfolding slags_inv_def by simp_all
  note u = unclaim_at [OF c i(9) [OF s(1)] s(2)]
  have inv1: "sal_inv OS mapped M0 meta mp sal ?m P A H False {#}"
    using sal_step_current [OF c inv u(4), of False "{#}"] u(3) by simp
  have ma: "meta_at M mp = Some meta" using mp by (simp add: meta_at_def)
  have sm: "sl_meta ?s = mp" using s(2) by (simp add: slag_at_def)
  have e: "sal_refresh OS M sal m = (if md_cutoff_objects meta \<le> n_free meta m ?q
      then claim_refresh ?m meta ?q \<bind> (\<lambda>(m2, it). Some (sal, m2, it))
      else next_slag OS sal ?m meta \<bind> (\<lambda>(sal1, m2, next). if next = null then None
        else claim_refresh m2 meta next \<bind> (\<lambda>(m3, it). Some (sal1\<lparr> sa_slag := next \<rparr>, m3, it))))"
    using u(1,2) by (simp add: sal_refresh_def i(1) ma sm split_beta Let_def)
  have cut: "0 < md_cutoff_objects meta" by (rule slag_classD(5) [OF c])
  show ?thesis
  proof (cases "md_cutoff_objects meta \<le> n_free meta m ?q")
    case True
    then have pos: "0 < n_free meta ?m ?q" using u(5) cut by simp
    from sal_claim [OF c inv1] True pos e show ?thesis by fastforce
  next
    case False
    then have low: "n_free meta ?m ?q < md_cutoff_objects meta" using u(5) by simp
    from next_slag_ok [OF c mp(1) os inv1 low] show ?thesis
    proof (elim disjE exE conjE)
      fix sal' m' q P' A'
      assume n: "next_slag OS sal ?m meta = Some (sal', m', q)" "q \<noteq> null" "sa_threshold sal' = sa_threshold sal"
        "sal_inv OS mapped M0 meta mp (sal'\<lparr> sa_slag := q \<rparr>) m' P' A' H False {#}" "md_cutoff_objects meta \<le> n_free meta m' q"
      obtain m2 it where cl: "claim_refresh m' meta q = Some (m2, it)" "iter_at meta m2 q it"
          "sal_inv OS mapped M0 meta mp (sal'\<lparr> sa_slag := q \<rparr>) m2 P' A' H True (iter_cur it)"
          "\<exists>s' it' x. iter_next (load_slag m2 meta q) it = Some (s', it', Some x)"
        using sal_claim [OF c n(4)] n(5) cut by auto
      have "sal_refresh OS M sal m = Some (sal'\<lparr> sa_slag := q \<rparr>, m2, it)" using e False n(1,2) cl(1) by simp
      then show ?thesis using n(3) cl(2-4)
        by (intro disjI1 exI [of _ "sal'\<lparr> sa_slag := q \<rparr>"] exI [of _ m2] exI [of _ it] exI [of _ P'] exI [of _ A']) simp
    next
      assume "next_slag OS sal ?m meta = None" "source_failed OS (sa_pages sal) ?m"
      then show ?thesis using e False by (simp add: source_failed_def)
    qed
  qed
qed

subsection \<open>Freeing\<close>

text \<open>Eager decommitment keeps the first system page of a slag only; it is harmless when the header and
  the bit-set are on that page, or when it does not take place.\<close>

definition decommit_ok :: "nat \<Rightarrow> metadata \<Rightarrow> nat \<Rightarrow> bool" where
  "decommit_ok pg meta threshold \<longleftrightarrow> header_size meta \<le> pg \<or> md_usable_size meta < threshold"

lemma transition_full_ok:
  assumes c: "slag_class meta" and mp: "mp \<noteq> null" and os: "os_contract OS mapped byte" "madvise_contract OS mapped byte"
    and dc: "decommit_ok (os_pagesize OS) meta (sa_threshold sal)"
    and inv: "sal_inv OS mapped M0 meta mp sal m P A H cl C" and q: "q \<in> A" and full: "n_free meta m q = md_n_objects meta"
  shows "\<exists>sal' m' P' A'. transition_full OS sal m q meta = Some (sal', m') \<and> sa_slag sal' = sa_slag sal
    \<and> sa_threshold sal' = sa_threshold sal \<and> sal_inv OS mapped M0 meta mp sal' m' P' A' H cl C"
proof -
  let ?ps = "md_total_bytes meta" let ?cur = "sa_slag sal" let ?av = "sa_available sal"
  note i = sal_invD [OF inv]
  have s: "?cur \<in> P" "A \<subseteq> P - {?cur}" "H \<subseteq> slag_objects meta P" "slag_at meta mp m ?cur cl (out_positions meta H ?cur + C)"
      "\<forall>q \<in> P - {?cur}. slag_at meta mp m q False (out_positions meta H q) \<and> (q \<in> A \<longleftrightarrow> md_cutoff_objects meta \<le> n_free meta m q)"
    using i(6) unfolding slags_inv_def by blast+
  have qP: "q \<in> P" "q \<noteq> ?cur" using q s(2) by auto
  have at: "slag_at meta mp m q False (out_positions meta H q)" using s(5) qP by blast
  then have none: "out_positions meta H q = {#}" using n_free_size [OF at] full by simp
  have pq: "page_at ?ps q" using i(9) qP(1) by blast
  have v: "valid_item q" using page_item [OF _ _ pq] i(2,3) by (simp add: page_inv_def page_params_def)
  have ok: "pipes_ok rq_inv (ps_pipes (fst ?av))" using i(4) by (simp add: pipe_weak_def)
  from pipe_revoke_cases [OF ok v] show ?thesis
  proof (elim disjE exE conjE)
    assume "pipe_revoke (fst ?av) q = Some (fst ?av, False)"
    then have "transition_full OS sal m q meta = Some (sal, m)" by (simp add: transition_full_def)
    then show ?thesis using inv by blast
  next
    fix st assume r: "pipe_revoke (fst ?av) q = Some (st, True)" "pipes_ok rq_inv (ps_pipes (clear_handle q st))"
      "avail_items ?av = add_mset q (pipe_contents (\<lambda>q. mset (faa_items q)) (ps_pipes (clear_handle q st)))"
    obtain pa m' where f: "page_alloc_free OS (sa_pages sal) m q (sa_threshold sal \<le> md_usable_size meta) = Some (pa, m')"
        "page_inv (os_pagesize OS) M0 (mapped (em_os m')) pa (P - {q})" "pa_creek pa = ?ps"
        "pa_pages pa = add_mset q (pa_pages (sa_pages sal))" "words_kept m m' (- region q ?ps)"
        "blank m' q ?ps \<or> words_kept m m' (region q (if sa_threshold sal \<le> md_usable_size meta then os_pagesize OS else ?ps))"
      using page_free_ok [OF os i(3) qP(1), of "sa_threshold sal \<le> md_usable_size meta"] unfolding i(2) by blast
    let ?sal = "sal\<lparr> sa_available := (clear_handle q st, snd ?av), sa_pages := pa \<rparr>"
    have tr: "transition_full OS sal m q meta = Some (?sal, m')" using r(1) f(1) by (simp add: transition_full_def)
    have items: "pipe_contents (\<lambda>q. mset (faa_items q)) (ps_pipes (clear_handle q st)) = mset_set (A - {q})"
      using r(3) i(5,8) q by (metis add_mset_remove_trivial mset_set.remove)
    have step: "slag_at meta mp m' p c' C' = slag_at meta mp m p c' C'" "n_free meta m' p = n_free meta m p"
        "em_words m' (offset p 8) = em_words m (offset p 8)" if p: "page_at ?ps p" "p \<noteq> q" for p c' C'
    proof -
      have "region p ?ps \<subseteq> - region q ?ps" using pages_disjoint [OF p(1) pq p(2)] by blast
      from slag_region_kept [OF c p(1) f(5) this] show "slag_at meta mp m' p c' C' = slag_at meta mp m p c' C'"
        "n_free meta m' p = n_free meta m p" "em_words m' (offset p 8) = em_words m (offset p 8)" by blast+
    qed
    have "H \<subseteq> slag_objects meta (P - {q})" by (rule objects_elsewhere [OF s(3) none])
    then have sl: "slags_inv meta mp m' ?cur (P - {q}) (A - {q}) H cl C"
      using s i(9) qP(2) step unfolding slags_inv_def by auto
    have new: "em_words m' (offset q 8) \<noteq> mp \<or> slag_at meta mp m' q False {#}"
    proof (cases "blank m' q ?ps")
      case True
      have "unat (offset q 8) \<in> region q ?ps"
        using offset_in_region [of q ?ps 8] slag_classD(8,11) [OF c] pq by (simp add: page_at_def)
      then show ?thesis using True mp by (auto simp: blank_def)
    next
      case False
      then have "words_kept m m' (region q (header_size meta))"
        using f(6) dc slag_classD(8) [OF c]
        by (auto simp: decommit_ok_def region_def split: if_splits intro: words_kept_mono)
      from slag_at_kept(1) [OF c pq this, of mp False "{#}"] show ?thesis using at none by simp
    qed
    have "cached_inv meta mp m' (pa_pages pa)"
      unfolding cached_inv_def f(4)
    proof (intro allI impI)
      fix p assume p: "p \<in># add_mset q (pa_pages (sa_pages sal))"
      show "em_words m' (offset p 8) \<noteq> mp \<or> slag_at meta mp m' p False {#}"
      proof (cases "p = q")
        case False
        then have "p \<in># pa_pages (sa_pages sal)" using p by auto
        then show ?thesis using step [of p] False i(7,10) by (auto simp: cached_inv_def)
      qed (use new in simp)
    qed
    then have "sal_inv OS mapped M0 meta mp ?sal m' (P - {q}) (A - {q}) H cl C"
      using i(1,4) r(2) f(2,3) items sl by (simp add: sal_inv_def pipe_weak_def)
    then show ?thesis using tr by fastforce
  qed
qed

text \<open>The state in which objects of one slag were marked.\<close>

lemma sal_marked:
  assumes c: "slag_class meta" and inv: "sal_inv OS mapped M0 meta mp sal m P A H0 cl C" and q: "q \<in> P"
    and H: "H \<subseteq> H0" and out: "\<forall>p \<in> P - {q}. out_positions meta H p = out_positions meta H0 p" and st: "slag_frame meta m m' q"
    and at: "slag_at meta mp m' q (q = sa_slag sal \<and> cl) (out_positions meta H q + (if q = sa_slag sal then C else {#}))"
    and A': "\<And>p. p \<noteq> q \<Longrightarrow> p \<in> A' \<longleftrightarrow> p \<in> A" "q \<noteq> sa_slag sal \<Longrightarrow> q \<in> A' \<longleftrightarrow> md_cutoff_objects meta \<le> n_free meta m' q"
      "q = sa_slag sal \<Longrightarrow> q \<notin> A'"
    and av: "avail_ok av" "avail_items av = mset_set A'"
  shows "sal_inv OS mapped M0 meta mp (sal\<lparr> sa_available := av \<rparr>) m' P A' H cl C"
proof -
  let ?cur = "sa_slag sal"
  note i = sal_invD [OF inv]
  have s: "?cur \<in> P" "A \<subseteq> P - {?cur}" "H0 \<subseteq> slag_objects meta P"
      "slag_at meta mp m ?cur cl (out_positions meta H0 ?cur + C)"
      "\<forall>q \<in> P - {?cur}. slag_at meta mp m q False (out_positions meta H0 q) \<and> (q \<in> A \<longleftrightarrow> md_cutoff_objects meta \<le> n_free meta m q)"
    using i(6) unfolding slags_inv_def by blast+
  have pq: "page_at (md_total_bytes meta) q" and P: "\<forall>p \<in> P. page_at (md_total_bytes meta) p" using i(9) q by auto
  note o = slags_others [OF c st pq P]
  have sl: "slag_at meta mp m' p (p = ?cur \<and> cl) (out_positions meta H p + (if p = ?cur then C else {#}))" if "p \<in> P" for p
  proof (cases "p = q")
    case False
    then show ?thesis using s(4) bspec [OF s(5), of p] out o(1) [OF that False] that by (cases "p = ?cur") simp_all
  qed (use at in simp)
  have "p \<in> A' \<longleftrightarrow> md_cutoff_objects meta \<le> n_free meta m' p" if "p \<in> P - {?cur}" for p
    using that A'(1,2) s(5) o(2) [of p] by (cases "p = q") auto
  moreover have "p \<in> P - {?cur}" if "p \<in> A'" for p using that A'(1,3) s(2) q by (cases "p = q") auto
  moreover have "slag_at meta mp m' ?cur cl (out_positions meta H ?cur + C)" using sl [OF s(1)] by simp
  moreover have "slag_at meta mp m' p False (out_positions meta H p)" if "p \<in> P - {?cur}" for p using sl [of p] that by simp
  ultimately have "slags_inv meta mp m' ?cur P A' H cl C" using s(1,3) H unfolding slags_inv_def by blast
  moreover have "cached_inv meta mp m' (pa_pages (sa_pages sal))" using cached_step [OF c st pq _ i(7)] i(10) q by blast
  ultimately show ?thesis using i(1-3) av st by (simp add: sal_inv_def slag_frame_def)
qed

lemma sal_free_ok:
  assumes c: "slag_class meta" and mp: "mp \<noteq> null" "M mp = Some meta" and os: "os_contract OS mapped byte" "madvise_contract OS mapped byte"
    and dc: "decommit_ok (os_pagesize OS) meta (sa_threshold sal)"
    and inv: "sal_inv OS mapped M0 meta mp sal m P A H cl C" and x: "x \<in> H"
    and cur: "slag_find x (md_total_bytes meta) = sa_slag sal \<Longrightarrow> cl"
  shows "\<exists>sal' m' P' A'. sal_free OS M sal m x = Some (sal', m') \<and> sa_slag sal' = sa_slag sal
    \<and> sa_threshold sal' = sa_threshold sal \<and> sal_inv OS mapped M0 meta mp sal' m' P' A' (H - {x}) cl C"
proof -
  let ?cur = "sa_slag sal" let ?H = "H - {x}" let ?cut = "md_cutoff_objects meta"
  note i = sal_invD [OF inv]
  have s: "A \<subseteq> P - {?cur}" "H \<subseteq> slag_objects meta P" "slag_at meta mp m ?cur cl (out_positions meta H ?cur + C)"
      "\<forall>q \<in> P - {?cur}. slag_at meta mp m q False (out_positions meta H q) \<and> (q \<in> A \<longleftrightarrow> ?cut \<le> n_free meta m q)"
    using i(6) unfolding slags_inv_def by blast+
  obtain q k where q: "q \<in> P" "k < md_n_objects meta" "x = slag_object q meta k" using s(2) x by (auto simp: slag_objects_def)
  have pq: "page_at (md_total_bytes meta) q" using i(9) q(1) by blast
  have ins: "insert x ?H = H" "x \<notin> ?H" using x by auto
  have inv': "sal_inv OS mapped M0 meta mp sal m P A (insert x ?H) cl C" using inv by (simp only: ins(1))
  have f: "slag_find x (md_total_bytes meta) = q"
    using slag_find_object [OF slag_class_placed [OF c pq] slag_classD(1) [OF c] q(2)] q(3) by simp
  have cl: "q = ?cur \<Longrightarrow> cl" using cur f by simp
  have out: "out_positions meta H q = add_mset (k * md_bits meta) (out_positions meta ?H q)"
    using out_positions_insert [OF c pq pq q(2), of ?H] ins q(3) by simp
  define cc where "cc = (q = ?cur \<and> cl)"
  define C' where "C' = out_positions meta ?H q + (if q = ?cur then C else {#})"
  have at: "slag_at meta mp m q cc (add_mset (k * md_bits meta) C')"
    using s(3) bspec [OF s(4), of q] q(1) out by (cases "q = ?cur") (simp_all add: cc_def C'_def)
  obtain s' where r: "slag_free M q (load_slag m meta q) x = Some (s', if \<not> cc \<and> n_free meta m q = ?cut - 1 then TAvailable
        else if \<not> cc \<and> n_free meta m q = md_n_objects meta - 1 then TFull else TNull)"
      "slag_at meta mp (store_slag m meta q s') q cc C'" "slag_frame meta m (store_slag m meta q s') q"
      "n_free meta (store_slag m meta q s') q = Suc (n_free meta m q)"
    using slag_free_at [of meta q mp M m cc k C', OF c pq mp at q(2)] q(3) by blast
  let ?m = "store_slag m meta q s'"
  have own: "em_words m (offset q 8) = mp" using at by (simp add: slag_at_def load_slag_def)
  have q0: "q \<noteq> null" using pq by (simp add: page_at_def)
  have ma: "meta_at M mp = Some meta" using mp by (simp add: meta_at_def)
  have e: "sal_free OS M sal m x = (case if \<not> cc \<and> n_free meta m q = ?cut - 1 then TAvailable
        else if \<not> cc \<and> n_free meta m q = md_n_objects meta - 1 then TFull else TNull of
       TNull \<Rightarrow> Some (sal, ?m) | TAvailable \<Rightarrow> transition_available sal q \<bind> (\<lambda>sal1. Some (sal1, ?m))
     | TFull \<Rightarrow> transition_full OS sal ?m q meta)"
    unfolding sal_free_def i(1) ma Let_def bind.bind_lunit f own using q0 ma r(1) by (simp only: if_False bind.bind_lunit split_conv)
  have "\<forall>p \<in> P - {q}. out_positions meta ?H p = out_positions meta H p"
    using out_positions_insert [OF c i(9) pq q(2), of _ ?H] ins q(3) by auto
  note marked = sal_marked [OF c inv q(1) Diff_subset this r(3), folded C'_def cc_def, OF r(2)]
  have cut: "0 < ?cut" "?cut \<le> md_n_objects meta" using slag_classD(4,5) [OF c] by auto
  have nle: "n_free meta m q < md_n_objects meta" using n_free_size [OF at] by simp
  have v: "valid_item q" using page_item [OF _ _ pq] i(2,3) by (simp add: page_inv_def page_params_def)
  have memb: "q \<noteq> ?cur \<Longrightarrow> q \<in> A \<longleftrightarrow> ?cut \<le> n_free meta m q" "q = ?cur \<Longrightarrow> q \<notin> A" using s(1,4) q(1) by auto
  consider (avail) "\<not> cc" "n_free meta m q = ?cut - 1" | (full) "\<not> cc" "n_free meta m q \<noteq> ?cut - 1" "n_free meta m q = md_n_objects meta - 1"
    | (null) "cc \<or> n_free meta m q \<noteq> ?cut - 1 \<and> n_free meta m q \<noteq> md_n_objects meta - 1" by blast
  then show ?thesis
  proof cases
    case avail
    have ne: "q \<noteq> ?cur" using avail(1) cl by (auto simp: cc_def)
    then have nA: "q \<notin> A" using memb(1) avail(2) cut(1) by simp
    obtain av where av: "push_mut (faa_bag True) (fst (sa_available sal)) (snd (sa_available sal)) q = Some av" "avail_ok av"
        "avail_items av = mset_set (insert q A)"
      using slagpipe_push [OF i(4) v] i(5,8) nA by (auto simp: mset_set.insert)
    have "sal_inv OS mapped M0 meta mp (sal\<lparr> sa_available := av \<rparr>) ?m P (insert q A) ?H cl C"
      using marked [OF _ _ _ av(2,3)] ne r(4) avail(2) cut(1) by auto
    moreover have "sal_free OS M sal m x = Some (sal\<lparr> sa_available := av \<rparr>, ?m)"
      using e avail av(1) by (simp add: transition_available_def)
    ultimately show ?thesis by fastforce
  next
    case null
    have "q \<noteq> ?cur \<Longrightarrow> ?cut \<le> n_free meta m q \<longleftrightarrow> ?cut \<le> Suc (n_free meta m q)" using null cut(1) by (auto simp: cc_def)
    then have "sal_inv OS mapped M0 meta mp (sal\<lparr> sa_available := sa_available sal \<rparr>) ?m P A ?H cl C"
      using memb r(4) by (intro marked [OF _ _ _ i(4,5)]) simp_all
    moreover have "sal_free OS M sal m x = Some (sal, ?m)" using e null by auto
    ultimately show ?thesis by fastforce
  next
    case full
    have ne: "q \<noteq> ?cur" using full(1) cl by (auto simp: cc_def)
    have A: "q \<in> A" using memb(1) [OF ne] full(2,3) cut by linarith
    have inv1: "sal_inv OS mapped M0 meta mp (sal\<lparr> sa_available := sa_available sal \<rparr>) ?m P A ?H cl C"
      using marked [OF _ _ _ i(4,5)] A memb ne r(4) by auto
    have "n_free meta ?m q = md_n_objects meta" using r(4) full(3) slag_classD(6) [OF c] by simp
    from transition_full_ok [OF c mp(1) os _ inv1 A this] dc
    have "\<exists>sal' m' P' A'. transition_full OS sal ?m q meta = Some (sal', m') \<and> sa_slag sal' = ?cur
        \<and> sa_threshold sal' = sa_threshold sal \<and> sal_inv OS mapped M0 meta mp sal' m' P' A' ?H cl C" by simp
    moreover have "sal_free OS M sal m x = transition_full OS sal ?m q meta" using e full by simp
    ultimately show ?thesis by simp
  qed
qed

subsection \<open>Construction and destruction\<close>

lemma sal_partial_new_ok:
  assumes c: "slag_class meta" and mp: "mp \<noteq> null" "M mp = Some meta" and os: "os_contract OS mapped byte"
    and pa: "page_inv (os_pagesize OS) M0 (mapped (em_os m)) pa {}" "pa_creek pa = md_total_bytes meta" "pa_pages pa = {#}"
    and av: "avail_ok avail" "avail_items avail = {#}"
  shows "(\<exists>sal m' p. sal_partial_new OS M mp decommit pa avail m = Some (sal, m') \<and> sa_threshold sal = decommit
      \<and> sal_inv OS mapped M0 meta mp sal m' {p} {} {} False {#})
    \<or> (sal_partial_new OS M mp decommit pa avail m = None \<and> source_failed OS pa m)"
  using page_alloc_cases [OF os pa(1), unfolded pa(2,3)]
proof (elim disjE exE conjE)
  let ?ps = "md_total_bytes meta"
  fix pa1 m1 p
  assume a: "page_alloc_alloc OS pa m = Some (pa1, m1, p)" "page_inv (os_pagesize OS) M0 (mapped (em_os m1)) pa1 (insert p {})"
    "pa_creek pa1 = ?ps" "\<forall>q. q \<in># add_mset p (pa_pages pa1) \<longrightarrow> q \<in># {#} \<or> blank m1 q ?ps"
  note pg = page_inv_pages [OF a(2), unfolded a(3)]
  have p: "page_at ?ps p" using pg(2) by blast
  obtain s where s: "slag_init mp meta = Some s" "slag_at meta mp (store_slag m1 meta p s) p False {#}"
      "slag_frame meta m1 (store_slag m1 meta p s) p"
    using slag_init_at [OF c p] by blast
  let ?m = "store_slag m1 meta p s"
  let ?sal = "\<lparr> sa_m = mp, sa_slag = p, sa_pages = pa1, sa_available = avail, sa_threshold = decommit \<rparr>"
  have new: "sal_partial_new OS M mp decommit pa avail m = Some (?sal, ?m)"
    using a(1) mp s(1) p by (simp add: sal_partial_new_def meta_at_def page_at_def)
  have "em_words m1 (offset q 8) \<noteq> mp" if q: "q \<in># pa_pages pa1" for q
  proof -
    have "unat (offset q 8) \<in> region q ?ps"
      using offset_in_region [of q ?ps 8] slag_classD(8,11) [OF c] pg(4) [OF q] by (simp add: page_at_def)
    moreover have "blank m1 q ?ps" using a(4) q by auto
    ultimately show ?thesis using mp(1) by (simp add: blank_def)
  qed
  then have "cached_inv meta mp m1 (pa_pages pa1)" unfolding cached_inv_def by blast
  then have "cached_inv meta mp ?m (pa_pages pa1)" using cached_step [OF c s(3) p] pg(4) by blast
  moreover have "slags_inv meta mp ?m p {p} {} {} False {#}" using s(2) by (simp add: slags_inv_def out_positions_def)
  ultimately have "sal_inv OS mapped M0 meta mp ?sal ?m {p} {} {} False {#}" using a(2,3) av by (simp add: sal_inv_def)
  then show ?thesis using new by (intro disjI1 exI [of _ ?sal] exI [of _ ?m] exI [of _ p]) simp
next
  fix s' assume "page_alloc_alloc OS pa m = None"
    "mmap_carve OS (pa_aligned_source pa) (em_os m) (if pa_pages_per pa = 1 then 2 else 1) = Some (s', None)"
  then show ?thesis by (auto simp: sal_partial_new_def source_failed_def)
qed

text \<open>Giving the word of the iterator back to the current slag.\<close>

lemma bulk_free_current:
  assumes c: "slag_class meta" and inv: "sal_inv OS mapped M0 meta mp sal m P A H True (iter_cur it)"
    and it: "iter_at meta m (sa_slag sal) it"
  shows "\<exists>m'. sal_bulk_free OS sal m (it_cur_word it) (it_next_word it - 1) (sa_slag sal) meta = Some (sal, m')
    \<and> sal_inv OS mapped M0 meta mp sal m' P A H True {#}"
proof -
  let ?q = "sa_slag sal" let ?w = "it_cur_word it" let ?i = "it_cur_word_index it"
  note i = sal_invD [OF inv]
  have s: "?q \<in> P" "slag_at meta mp m ?q True (out_positions meta H ?q + iter_cur it)" using i(6) unfolding slags_inv_def by simp_all
  have q: "page_at (md_total_bytes meta) ?q" using i(9) [OF s(1)] .
  have ix: "it_next_word it - 1 = ?i" "?i < md_n_bitset_words meta" using it by (auto simp: iter_at_def iter_wf_def)
  note b = bulk_mark_at [OF c q ix(2) s(2)]
  show ?thesis
  proof (cases "count_ones ?w = 0")
    case True
    then have "iter_cur it = {#}" using length_word_positions [of ?i ?w] by simp
    then show ?thesis using inv True by (intro exI [of _ m]) (simp add: sal_bulk_free_def)
  next
    case False
    have "\<exists>m'. sal_bulk_free OS sal m ?w (it_next_word it - 1) ?q meta = Some (sal, m')
      \<and> slag_at meta mp m' ?q True (out_positions meta H ?q + {#}) \<and> slag_frame meta m m' ?q"
      using False b(1,3-5) ix by (simp add: sal_bulk_free_def Let_def split_beta)
    then show ?thesis using sal_step_current [OF c inv] by blast
  qed
qed

text \<open>\<open>bulk_free\<close> of objects \<open>F\<close> of any slag.  A slag that becomes full while it is not available is neither
  in the pipe nor in the page cache afterwards: it is lost, which is as if its memory were not the allocator's.\<close>

lemma sal_forget:
  assumes c: "slag_class meta" and inv: "sal_inv OS mapped M0 meta mp sal m P A H0 cl C" and q: "q \<in> P" "q \<noteq> sa_slag sal" "q \<notin> A"
    and H: "H \<subseteq> H0" and out: "\<forall>p \<in> P - {q}. out_positions meta H p = out_positions meta H0 p" and st: "slag_frame meta m m' q"
    and none: "out_positions meta H q = {#}"
  shows "sal_inv OS mapped (M0 \<union> region q (md_total_bytes meta)) meta mp sal m' (P - {q}) A H cl C"
proof -
  let ?cur = "sa_slag sal" let ?ps = "md_total_bytes meta"
  note i = sal_invD [OF inv]
  have s: "?cur \<in> P" "A \<subseteq> P - {?cur}" "H0 \<subseteq> slag_objects meta P"
      "slag_at meta mp m ?cur cl (out_positions meta H0 ?cur + C)"
      "\<forall>q \<in> P - {?cur}. slag_at meta mp m q False (out_positions meta H0 q) \<and> (q \<in> A \<longleftrightarrow> md_cutoff_objects meta \<le> n_free meta m q)"
    using i(6) unfolding slags_inv_def by blast+
  have pq: "page_at ?ps q" and P: "\<forall>p \<in> P. page_at ?ps p" using i(9) q by auto
  note o = slags_others [OF c st pq P]
  have "H \<subseteq> slag_objects meta (P - {q})" using H s(3) by (intro objects_elsewhere [OF _ none]) blast
  moreover have "slag_at meta mp m' ?cur cl (out_positions meta H ?cur + C)" using s(1,4) o(1) out q(2) by simp
  moreover have "slag_at meta mp m' p False (out_positions meta H p) \<and> (p \<in> A \<longleftrightarrow> md_cutoff_objects meta \<le> n_free meta m' p)"
    if "p \<in> P - {q} - {?cur}" for p using that s(5) o [of p] out by auto
  ultimately have "slags_inv meta mp m' ?cur (P - {q}) A H cl C" using s(1,2) q unfolding slags_inv_def by auto
  moreover have "cached_inv meta mp m' (pa_pages (sa_pages sal))" using cached_step [OF c st pq _ i(7)] i(10) q by blast
  moreover have "page_inv (os_pagesize OS) (M0 \<union> region q ?ps) (mapped (em_os m')) (sa_pages sal) (P - {q})"
    using page_inv_forget(1) [OF i(3), of "{q}"] q(1) i(2) st by (simp add: pages_region_def slag_frame_def)
  ultimately show ?thesis using i(1,2,4,5) by (simp add: sal_inv_def)
qed

lemma bulk_free_ok:
  assumes c: "slag_class meta" and mp: "mp \<noteq> null" and os: "os_contract OS mapped byte" "madvise_contract OS mapped byte"
    and dc: "decommit_ok (os_pagesize OS) meta (sa_threshold sal)"
    and inv: "sal_inv OS mapped M0 meta mp sal m P A H True C" and q: "q \<in> P" and j: "w < md_n_bitset_words meta"
    and F: "F \<subseteq> H" "F \<subseteq> slag_objects meta {q}" "out_positions meta F q = mset (word_positions w msk)"
  shows "\<exists>sal' m' P' A' X. sal_bulk_free OS sal m msk w q meta = Some (sal', m') \<and> sa_slag sal' = sa_slag sal
    \<and> sa_threshold sal' = sa_threshold sal \<and> X \<subseteq> {q} \<and> pages_region (md_total_bytes meta) X \<inter> M0 = {}
    \<and> sal_inv OS mapped (M0 \<union> pages_region (md_total_bytes meta) X) meta mp sal' m' P' A' (H - F) True C"
proof -
  let ?cur = "sa_slag sal" let ?H = "H - F" let ?cut = "md_cutoff_objects meta" let ?N = "md_n_objects meta"
  let ?n = "n_free meta m q" let ?k = "count_ones msk" let ?s = "load_slag m meta q"
  note i = sal_invD [OF inv]
  have s: "A \<subseteq> P - {?cur}" "slag_at meta mp m ?cur True (out_positions meta H ?cur + C)"
      "\<forall>q \<in> P - {?cur}. slag_at meta mp m q False (out_positions meta H q) \<and> (q \<in> A \<longleftrightarrow> ?cut \<le> n_free meta m q)"
    using i(6) unfolding slags_inv_def by blast+
  have pq: "page_at (md_total_bytes meta) q" using i(9) q by blast
  have out: "\<forall>p \<in> P - {q}. out_positions meta ?H p = out_positions meta H p"
    using out_positions_elsewhere [OF c i(9) pq _ F(2)] by blast
  define C' where "C' = out_positions meta ?H q + (if q = ?cur then C else {#})"
  have at: "slag_at meta mp m q (q = ?cur) (C' + mset (word_positions w msk))"
    using s(2) bspec [OF s(3), of q] q out_positions_split [OF F(1), of meta q] F(3) by (cases "q = ?cur") (simp_all add: C'_def ac_simps)
  note b = bulk_mark_at [OF c pq j at]
  let ?m = "store_slag m meta q (?s\<lparr> sl_rc := fst (rc_inc_n (of_nat ?k) (sl_rc ?s)), sl_words := (sl_words ?s)[w := sl_words ?s ! w OR msk] \<rparr>)"
  have e: "sal_bulk_free OS sal m msk w q meta = (if ?k = 0 then Some (sal, m)
      else if q \<noteq> ?cur \<and> ?n + ?k = ?N then transition_full OS sal ?m q meta
      else if q \<noteq> ?cur \<and> ?n < ?cut \<and> ?cut \<le> ?n + ?k then transition_available sal q \<bind> (\<lambda>sal1. Some (sal1, ?m))
      else Some (sal, ?m))"
    unfolding sal_bulk_free_def Let_def split_beta b(1,2) fst_conv snd_conv using b(3) j by simp
  have at': "slag_at meta mp ?m q (q = ?cur \<and> True) (out_positions meta ?H q + (if q = ?cur then C else {#}))"
    using b(4) by (simp add: C'_def)
  note marked = sal_marked [OF c inv q Diff_subset out b(5) at', unfolded b(6)]
  have memb: "q \<noteq> ?cur \<Longrightarrow> q \<in> A \<longleftrightarrow> ?cut \<le> ?n" "q = ?cur \<Longrightarrow> q \<notin> A" using s(1,3) q by auto
  have v: "valid_item q" using page_item [OF _ _ pq] i(2,3) by (simp add: page_inv_def page_params_def)
  consider (zero) "?k = 0" | (full) "?k \<noteq> 0" "q \<noteq> ?cur" "?n + ?k = ?N" "?cut \<le> ?n"
    | (lost) "?k \<noteq> 0" "q \<noteq> ?cur" "?n + ?k = ?N" "?n < ?cut"
    | (avail) "?k \<noteq> 0" "q \<noteq> ?cur" "?n + ?k \<noteq> ?N" "?n < ?cut" "?cut \<le> ?n + ?k"
    | (null) "?k \<noteq> 0" "q = ?cur \<or> ?n + ?k \<noteq> ?N \<and> (?cut \<le> ?n \<longleftrightarrow> ?cut \<le> ?n + ?k)" by linarith
  then show ?thesis
  proof cases
    case zero
    then have "out_positions meta F q = {#}" using F(3) length_word_positions [of w msk] by simp
    then have "F = {}" using objects_elsewhere [OF F(2)] by (auto simp: slag_objects_def)
    then show ?thesis using e zero inv by (intro exI [of _ sal] exI [of _ m] exI [of _ P] exI [of _ A] exI [of _ "{}"]) (simp add: pages_region_def)
  next
    case null
    have "sal_inv OS mapped M0 meta mp (sal\<lparr> sa_available := sa_available sal \<rparr>) ?m P A ?H True C"
      using memb null by (intro marked [OF _ _ _ i(4,5)]) auto
    moreover have "sal_bulk_free OS sal m msk w q meta = Some (sal, ?m)" using e null by auto
    ultimately show ?thesis by (intro exI [of _ sal] exI [of _ ?m] exI [of _ P] exI [of _ A] exI [of _ "{}"]) (simp add: pages_region_def)
  next
    case avail
    have nA: "q \<notin> A" using memb(1) avail(2,4) by simp
    obtain av where av: "push_mut (faa_bag True) (fst (sa_available sal)) (snd (sa_available sal)) q = Some av" "avail_ok av"
        "avail_items av = mset_set (insert q A)"
      using slagpipe_push [OF i(4) v] i(5,8) nA by (auto simp: mset_set.insert)
    have "sal_inv OS mapped M0 meta mp (sal\<lparr> sa_available := av \<rparr>) ?m P (insert q A) ?H True C"
      using avail(2,5) by (intro marked [OF _ _ _ av(2,3)]) auto
    moreover have "sal_bulk_free OS sal m msk w q meta = Some (sal\<lparr> sa_available := av \<rparr>, ?m)"
      using e avail av(1) by (simp add: transition_available_def)
    ultimately show ?thesis by (intro exI [of _ "sal\<lparr> sa_available := av \<rparr>"] exI [of _ ?m] exI [of _ P] exI [of _ "insert q A"] exI [of _ "{}"]) (simp add: pages_region_def)
  next
    case full
    have A: "q \<in> A" using memb(1) full(2,4) by simp
    have "sal_inv OS mapped M0 meta mp (sal\<lparr> sa_available := sa_available sal \<rparr>) ?m P A ?H True C"
      using full A by (intro marked [OF _ _ _ i(4,5)]) auto
    then have inv': "sal_inv OS mapped M0 meta mp sal ?m P A ?H True C" by simp
    have "n_free meta ?m q = ?N" using b(6) full(3) by simp
    from transition_full_ok [OF c mp os dc inv' A this] obtain sal' m' P' A' where "transition_full OS sal ?m q meta = Some (sal', m')"
        "sa_slag sal' = ?cur" "sa_threshold sal' = sa_threshold sal" "sal_inv OS mapped M0 meta mp sal' m' P' A' ?H True C" by blast
    then show ?thesis using e full by (intro exI [of _ sal'] exI [of _ m'] exI [of _ P'] exI [of _ A'] exI [of _ "{}"]) (simp add: pages_region_def)
  next
    case lost
    have nA: "q \<notin> A" using memb(1) lost(2,4) by simp
    have "q \<notin># avail_items (sa_available sal)" using nA i(5,8) by simp
    moreover have "pipes_ok rq_inv (ps_pipes (fst (sa_available sal)))" using i(4) by (simp add: pipe_weak_def)
    ultimately have "pipe_revoke (fst (sa_available sal)) q = Some (fst (sa_available sal), False)"
      using pipe_revoke_cases [OF _ v] by fastforce
    then have "sal_bulk_free OS sal m msk w q meta = Some (sal, ?m)" using e lost by (simp add: transition_full_def)
    moreover have "out_positions meta ?H q = {#}" using n_free_size [OF b(4)] b(6) lost(2,3) by (simp add: C'_def)
    from sal_forget [OF c inv q lost(2) nA Diff_subset out b(5) this]
    have "sal_inv OS mapped (M0 \<union> region q (md_total_bytes meta)) meta mp sal ?m (P - {q}) A ?H True C" .
    moreover have "region q (md_total_bytes meta) \<inter> M0 = {}" using page_inv_pages(3) [OF i(3) q] i(2) by auto
    ultimately show ?thesis
      by (intro exI [of _ sal] exI [of _ ?m] exI [of _ "P - {q}"] exI [of _ A] exI [of _ "{q}"]) (simp add: pages_region_def)
  qed
qed

text \<open>Dropping an allocator all of whose objects are back unmaps everything it had mapped.\<close>

lemma sal_drop_ok:
  assumes c: "slag_class meta" and mp: "mp \<noteq> null" "M mp = Some meta" and os: "os_contract OS mapped byte" "madvise_contract OS mapped byte"
    and inv: "sal_inv OS mapped M0 meta mp sal m P A {} cl {#}"
  shows "\<exists>s'. sal_drop OS M sal m = Some s' \<and> mapped s' = M0"
proof -
  let ?q = "sa_slag sal" let ?s = "load_slag m meta ?q" let ?ps = "md_total_bytes meta"
  let ?m = "store_slag m meta ?q (?s\<lparr> sl_rc := fst (rc_unclaim (sl_rc ?s)) \<rparr>)"
  note i = sal_invD [OF inv]
  have none: "out_positions meta {} p = {#}" for p by (simp add: out_positions_def)
  have s: "?q \<in> P" "A \<subseteq> P - {?q}" "slag_at meta mp m ?q cl {#}"
      "\<forall>q \<in> P - {?q}. slag_at meta mp m q False {#} \<and> (q \<in> A \<longleftrightarrow> md_cutoff_objects meta \<le> n_free meta m q)"
    using i(6) unfolding slags_inv_def none by simp_all
  have "q \<in> A" if q: "q \<in> P - {?q}" for q
  proof -
    have "slag_at meta mp m q False {#}" "q \<in> A \<longleftrightarrow> md_cutoff_objects meta \<le> n_free meta m q" using s(4) q by blast+
    then show ?thesis using n_free_size [of meta mp m q False "{#}"] slag_classD(4) [OF c] by simp
  qed
  then have A: "A = P - {?q}" using s(2) by blast
  note u = unclaim_at [OF c i(9) [OF s(1)] s(3)]
  have full: "n_free meta m ?q = md_n_objects meta" using n_free_size [OF s(3)] by simp
  have pi: "page_inv (os_pagesize OS) M0 (mapped (em_os ?m)) (sa_pages sal) P" using i(3) by simp
  obtain pa m1 where f: "page_alloc_free OS (sa_pages sal) ?m ?q False = Some (pa, m1)"
      "page_inv (os_pagesize OS) M0 (mapped (em_os m1)) pa A" "pa_creek pa = ?ps"
    using page_free_ok [OF os pi s(1), of False] A unfolding i(2) by blast
  have ma: "meta_at M mp = Some meta" using mp by (simp add: meta_at_def)
  have rel: "sal_release OS M sal m = Some (sal\<lparr> sa_pages := pa \<rparr>, m1)"
    using f(1) u(1,2) full by (simp add: sal_release_def i(1) ma split_beta Let_def)
  note rl = page_inv_forget [OF f(2) subset_refl, unfolded f(3) Diff_cancel]
  obtain s1 where s1: "page_alloc_drop OS pa (em_os m1) = Some s1" "mapped s1 = M0 \<union> pages_region ?ps A"
    using page_drop_ok [OF os(1) rl(1)] by blast
  have "list_all rq_inv (ps_pipes (fst (sa_available sal)))" using i(4) by (simp add: pipe_weak_def pipes_ok_def)
  then obtain qs its where cl: "cleanup_all (faa_bag True) (ps_pipes (fst (sa_available sal))) = Some (qs, its)" "mset its = mset_set A"
    using rq.cleanup_takes_all i(5) unfolding pipe_contents_def by metis
  have d: "distinct its" "set its = A"
    using cl(2) i(8) by (metis count_mset_set' distinct_count_atmost_1 finite_set_mset_mset_set set_mset_mset)+
  have par: "is_power_of_two ?ps" "os_pagesize OS \<le> ?ps"
    using i(2,3) by (simp_all add: page_inv_def page_params_def)
  have "\<forall>p \<in> set its. page_at ?ps p" using d(2) A i(9) by blast
  then obtain s2 where "cleanup_items OS ?ps its s1 = Some s2" "mapped s2 = mapped s1 - pages_region ?ps A"
    using cleanup_items_ok [OF os(1) par d(1), of s1] s1(2) d(2) by auto
  moreover have "M0 \<union> pages_region ?ps A - pages_region ?ps A = M0" using rl(2) by blast
  ultimately show ?thesis using s1 cl(1) rel f(3) by (simp add: sal_drop_def)
qed

end
