(* ===== verification/Frontends.thy ===== *)
theory Frontends
  imports Slag_Alloc
begin

text \<open>
  The thread-local caches of \<open>src/elfmalloc/src/frontends.rs\<close>: the stack of pointers, which is an
  array of its own, and \<open>LocalCache\<close>, which keeps freed objects of the current slag on such a stack
  and returns all others.  The lemmas show that the stack never overflows, that no call panics as
  long as there is memory, that every object is in one place, and that dropping the cache gives all
  memory back.
\<close>

subsection \<open>PtrStack\<close>

record ptr_stack =
  st_data :: typed_array
  st_cells :: "ptr list"
  st_top :: nat

text \<open>A new array of \<open>n\<close> elements; its memory reads as 0.\<close>

definition owned_array_new :: "'s os_ops \<Rightarrow> 's elf_memory \<Rightarrow> nat \<Rightarrow> nat \<Rightarrow> ('s elf_memory \<times> typed_array) option" where
  "owned_array_new OS m elem n = do {
     (s1, a) \<leftarrow> typed_array_new OS (em_os m) elem n;
     Some (\<lparr> em_os = s1, em_types = zero_types (ta_data a) (ta_mapped a) (em_types m),
             em_words = zero_words (ta_data a) (ta_mapped a) (em_words m) \<rparr>, a) }"

definition ptr_stack_new :: "'s os_ops \<Rightarrow> 's elf_memory \<Rightarrow> nat \<Rightarrow> ('s elf_memory \<times> ptr_stack) option" where
  "ptr_stack_new OS m max_objects = do {
     (m1, a) \<leftarrow> owned_array_new OS m 8 max_objects;
     Some (m1, \<lparr> st_data = a, st_cells = replicate max_objects null, st_top = 0 \<rparr>) }"

text \<open>The write of a push is not checked; beyond the array it is undefined.\<close>

definition ptr_stack_push :: "ptr_stack \<Rightarrow> ptr \<Rightarrow> ptr_stack option" where
  "ptr_stack_push st item =
     (if st_top st < length (st_cells st)
      then Some (st\<lparr> st_cells := (st_cells st)[st_top st := item], st_top := st_top st + 1 \<rparr>) else None)"

definition ptr_stack_empty :: "ptr_stack \<Rightarrow> bool" where
  "ptr_stack_empty st \<longleftrightarrow> st_top st = 0"

definition ptr_stack_pop :: "ptr_stack \<Rightarrow> ptr_stack \<times> ptr option" where
  "ptr_stack_pop st =
     (if ptr_stack_empty st then (st, None)
      else let top = st_top st - 1 in (st\<lparr> st_top := top \<rparr>, Some (st_cells st ! top)))"

definition stack_items :: "ptr_stack \<Rightarrow> ptr list" where
  "stack_items st = take (st_top st) (st_cells st)"

definition stack_ok :: "ptr_stack \<Rightarrow> bool" where
  "stack_ok st \<longleftrightarrow> st_top st \<le> length (st_cells st)"

lemma ptr_stack_push_ok:
  assumes "st_top st < length (st_cells st)"
  shows "\<exists>st'. ptr_stack_push st x = Some st' \<and> stack_items st' = stack_items st @ [x] \<and> stack_ok st'
    \<and> length (st_cells st') = length (st_cells st) \<and> st_data st' = st_data st"
  using assms by (simp add: ptr_stack_push_def stack_items_def stack_ok_def take_Suc_conv_app_nth)

lemma ptr_stack_pop_ok:
  assumes "stack_ok st"
  shows "(stack_items st = [] \<and> ptr_stack_pop st = (st, None))
    \<or> (\<exists>st' x. ptr_stack_pop st = (st', Some x) \<and> stack_items st = stack_items st' @ [x] \<and> stack_ok st'
        \<and> length (st_cells st') = length (st_cells st) \<and> st_data st' = st_data st)"
proof (cases "st_top st")
  case 0
  then show ?thesis by (simp add: ptr_stack_pop_def ptr_stack_empty_def stack_items_def)
next
  case (Suc n)
  then have "n < length (st_cells st)" using assms by (simp add: stack_ok_def)
  then show ?thesis using Suc
    by (simp add: ptr_stack_pop_def ptr_stack_empty_def stack_items_def stack_ok_def take_Suc_conv_app_nth Let_def)
qed

subsection \<open>LocalCache\<close>

record local_cache =
  lc_alloc :: slag_allocator
  lc_vals :: ptr_stack
  lc_iter :: alloc_iter

definition local_new :: "'s os_ops \<Rightarrow> metas \<Rightarrow> slag_allocator \<Rightarrow> 's elf_memory \<Rightarrow> (local_cache \<times> 's elf_memory) option" where
  "local_new OS M alloc m = do {
     meta \<leftarrow> meta_at M (sa_m alloc);
     (m1, stack) \<leftarrow> ptr_stack_new OS m (md_n_objects meta);
     (alloc1, m2, iter) \<leftarrow> sal_refresh OS M alloc m1;
     Some (\<lparr> lc_alloc = alloc1, lc_vals = stack, lc_iter = iter \<rparr>, m2) }"

text \<open>\<open>init\<close>.  The code clones the handles of the page cache and of the pipe of available slags that it
  is given, and the caller keeps the originals; here the arguments are the handles the cache gets,
  and nobody else holds one.\<close>

definition local_init :: "'s os_ops \<Rightarrow> metas \<Rightarrow> ptr \<Rightarrow> nat \<Rightarrow> page_alloc \<Rightarrow> slag_pipe \<Rightarrow> 's elf_memory
    \<Rightarrow> (local_cache \<times> 's elf_memory) option" where
  "local_init OS M mp decommit page_alloc avail m = do {
     (salloc, m1) \<leftarrow> sal_partial_new OS M mp decommit page_alloc avail m;
     local_new OS M salloc m1 }"

text \<open>The next object of an iterator over the current slag.\<close>

definition slag_next :: "metas \<Rightarrow> slag_allocator \<Rightarrow> 's elf_memory \<Rightarrow> alloc_iter
    \<Rightarrow> ('s elf_memory \<times> alloc_iter \<times> ptr option) option" where
  "slag_next M alloc m iter = do {
     meta \<leftarrow> meta_at M (sa_m alloc);
     (s, iter1, r) \<leftarrow> iter_next (load_slag m meta (sa_slag alloc)) iter;
     Some (store_slag m meta (sa_slag alloc) s, iter1, r) }"

definition local_alloc :: "'s os_ops \<Rightarrow> metas \<Rightarrow> local_cache \<Rightarrow> 's elf_memory \<Rightarrow> (local_cache \<times> 's elf_memory \<times> ptr) option" where
  "local_alloc OS M lc m =
     (case ptr_stack_pop (lc_vals lc) of
        (vals, Some p) \<Rightarrow> Some (lc\<lparr> lc_vals := vals \<rparr>, m, p)
      | (vals, None) \<Rightarrow> do {
          (m1, iter1, r) \<leftarrow> slag_next M (lc_alloc lc) m (lc_iter lc);
          case r of
            Some p \<Rightarrow> Some (lc\<lparr> lc_vals := vals, lc_iter := iter1 \<rparr>, m1, p)
          | None \<Rightarrow> do {
              (alloc2, m2, iter2) \<leftarrow> sal_refresh OS M (lc_alloc lc) m1;
              (m3, iter3, r3) \<leftarrow> slag_next M alloc2 m2 iter2;
              p \<leftarrow> r3;
              Some (\<lparr> lc_alloc = alloc2, lc_vals = vals, lc_iter = iter3 \<rparr>, m3, p) } })"

definition local_free :: "'s os_ops \<Rightarrow> metas \<Rightarrow> local_cache \<Rightarrow> 's elf_memory \<Rightarrow> ptr \<Rightarrow> (local_cache \<times> 's elf_memory) option" where
  "local_free OS M lc m it = do {
     own \<leftarrow> sal_contains M (lc_alloc lc) it;
     if own then do { vals \<leftarrow> ptr_stack_push (lc_vals lc) it; Some (lc\<lparr> lc_vals := vals \<rparr>, m) }
     else do { (alloc, m1) \<leftarrow> sal_free OS M (lc_alloc lc) m it; Some (lc\<lparr> lc_alloc := alloc \<rparr>, m1) } }"

text \<open>The destructor, and those of the fields: the allocator, then the array of the stack.\<close>

fun free_all :: "'s os_ops \<Rightarrow> metas \<Rightarrow> slag_allocator \<Rightarrow> 's elf_memory \<Rightarrow> ptr list \<Rightarrow> (slag_allocator \<times> 's elf_memory) option" where
  "free_all OS M sal m [] = Some (sal, m)"
| "free_all OS M sal m (x # xs) = do { (sal1, m1) \<leftarrow> sal_free OS M sal m x; free_all OS M sal1 m1 xs }"

definition local_drop :: "'s os_ops \<Rightarrow> metas \<Rightarrow> local_cache \<Rightarrow> 's elf_memory \<Rightarrow> 's option" where
  "local_drop OS M lc m = do {
     meta \<leftarrow> meta_at M (sa_m (lc_alloc lc));
     (alloc1, m1) \<leftarrow> sal_bulk_free OS (lc_alloc lc) m (it_cur_word (lc_iter lc)) (it_next_word (lc_iter lc) - 1)
                       (sa_slag (lc_alloc lc)) meta;
     (alloc2, m2) \<leftarrow> free_all OS M alloc1 m1 (take (st_top (lc_vals lc)) (st_cells (lc_vals lc)));
     s3 \<leftarrow> sal_drop OS M alloc2 m2;
     typed_array_destroy OS s3 (st_data (lc_vals lc)) }"

subsection \<open>The invariant of a LocalCache\<close>

text \<open>\<open>L\<close> are the objects of clients.  The objects on the stack belong to the current slag.\<close>

definition local_inv :: "'s os_ops \<Rightarrow> ('s \<Rightarrow> nat set) \<Rightarrow> nat set \<Rightarrow> metadata \<Rightarrow> ptr \<Rightarrow> local_cache \<Rightarrow> 's elf_memory \<Rightarrow> ptr set \<Rightarrow> bool" where
  "local_inv OS mapped M0 meta mp lc m L \<longleftrightarrow>
     (\<exists>P A. sal_inv OS mapped M0 meta mp (lc_alloc lc) m P A (L \<union> set (stack_items (lc_vals lc))) True (iter_cur (lc_iter lc)))
     \<and> iter_at meta m (sa_slag (lc_alloc lc)) (lc_iter lc)
     \<and> decommit_ok (os_pagesize OS) meta (sa_threshold (lc_alloc lc))
     \<and> stack_ok (lc_vals lc) \<and> length (st_cells (lc_vals lc)) = md_n_objects meta
     \<and> distinct (stack_items (lc_vals lc)) \<and> set (stack_items (lc_vals lc)) \<inter> L = {}
     \<and> set (stack_items (lc_vals lc)) \<subseteq> slag_objects meta {sa_slag (lc_alloc lc)}"

lemma card_slag_objects: "card (slag_objects meta {q}) \<le> md_n_objects meta" "finite (slag_objects meta {q})"
proof -
  have e: "slag_objects meta {q} = (\<lambda>k. slag_object q meta k) ` {..<md_n_objects meta}" by (auto simp: slag_objects_def)
  show "finite (slag_objects meta {q})" unfolding e by simp
  show "card (slag_objects meta {q}) \<le> md_n_objects meta" unfolding e using card_image_le [of "{..<md_n_objects meta}"] by simp
qed

text \<open>A slag has room on the stack for all its objects.\<close>

lemma stack_room:
  assumes "distinct (x # stack_items st)" "set (x # stack_items st) \<subseteq> slag_objects meta {q}" "stack_ok st"
    "length (st_cells st) = md_n_objects meta"
  shows "st_top st < length (st_cells st)"
proof -
  have "length (x # stack_items st) \<le> card (slag_objects meta {q})"
    using card_mono [OF card_slag_objects(2) assms(2)] distinct_card [OF assms(1)] by simp
  then have "Suc (length (stack_items st)) \<le> md_n_objects meta" using card_slag_objects(1) [of meta q] by simp
  moreover have "length (stack_items st) = st_top st" using assms(3) by (simp add: stack_items_def stack_ok_def)
  ultimately show ?thesis using assms(4) by simp
qed

lemma slag_next_ok:
  assumes c: "slag_class meta" and mp: "mp \<noteq> null" "M mp = Some meta"
    and inv: "sal_inv OS mapped M0 meta mp sal m P A H True (iter_cur it)" and it: "iter_at meta m (sa_slag sal) it"
  shows "\<exists>m' it' r. slag_next M sal m it = Some (m', it', r) \<and> iter_at meta m' (sa_slag sal) it'
    \<and> (case r of
         None \<Rightarrow> sal_inv OS mapped M0 meta mp sal m' P A H True {#} \<and> iter_cur it' = {#}
           \<and> (\<forall>s1 it1 x. iter_next (load_slag m meta (sa_slag sal)) it \<noteq> Some (s1, it1, Some x)) \<and> em_os m' = em_os m
       | Some x \<Rightarrow> x \<notin> H \<and> x \<in> slag_objects meta {sa_slag sal}
           \<and> sal_inv OS mapped M0 meta mp sal m' P A (insert x H) True (iter_cur it'))"
proof -
  obtain s' it' r where n: "iter_next (load_slag m meta (sa_slag sal)) it = Some (s', it', r)"
      "iter_at meta (store_slag m meta (sa_slag sal) s') (sa_slag sal) it'"
      "case r of None \<Rightarrow> sal_inv OS mapped M0 meta mp sal (store_slag m meta (sa_slag sal) s') P A H True {#} \<and> iter_cur it' = {#}
       | Some x \<Rightarrow> x \<notin> H \<and> (\<exists>k < md_n_objects meta. x = slag_object (sa_slag sal) meta k)
           \<and> sal_inv OS mapped M0 meta mp sal (store_slag m meta (sa_slag sal) s') P A (insert x H) True (iter_cur it')"
    using sal_iter_next [OF c inv it] by blast
  have "slag_next M sal m it = Some (store_slag m meta (sa_slag sal) s', it', r)"
    using n(1) mp sal_invD(1) [OF inv] by (simp add: slag_next_def meta_at_def)
  then show ?thesis using n by (cases r) (auto simp: slag_objects_def)
qed

text \<open>The next object, from the current slag or, when it has none, from the next one.\<close>

lemma slag_take_ok:
  assumes c: "slag_class meta" and mp: "mp \<noteq> null" "M mp = Some meta" and os: "os_contract OS mapped byte"
    and i: "sal_inv OS mapped M0 meta mp sal m P A H True (iter_cur it)" "iter_at meta m (sa_slag sal) it"
  shows "(\<exists>m1 it1 x. slag_next M sal m it = Some (m1, it1, Some x) \<and> x \<notin> H \<and> iter_at meta m1 (sa_slag sal) it1
      \<and> sal_inv OS mapped M0 meta mp sal m1 P A (insert x H) True (iter_cur it1))
    \<or> (\<exists>m1 it1. slag_next M sal m it = Some (m1, it1, None)
      \<and> ((\<exists>sal2 m2 it2 m3 it3 x P2 A2. sal_refresh OS M sal m1 = Some (sal2, m2, it2) \<and> slag_next M sal2 m2 it2 = Some (m3, it3, Some x)
            \<and> x \<notin> H \<and> sa_threshold sal2 = sa_threshold sal \<and> iter_at meta m3 (sa_slag sal2) it3
            \<and> sal_inv OS mapped M0 meta mp sal2 m3 P2 A2 (insert x H) True (iter_cur it3))
        \<or> (sal_refresh OS M sal m1 = None \<and> source_failed OS (sa_pages sal) m)))"
proof -
  obtain m1 it1 r where n: "slag_next M sal m it = Some (m1, it1, r)" "iter_at meta m1 (sa_slag sal) it1"
      "case r of None \<Rightarrow> sal_inv OS mapped M0 meta mp sal m1 P A H True {#} \<and> iter_cur it1 = {#} \<and> em_os m1 = em_os m
       | Some x \<Rightarrow> x \<notin> H \<and> sal_inv OS mapped M0 meta mp sal m1 P A (insert x H) True (iter_cur it1)"
    using slag_next_ok [where M = M and mp = mp and sal = sal and it = it, OF c mp i] by (fastforce split: option.splits)
  show ?thesis
  proof (cases r)
    case (Some x)
    then show ?thesis using n by auto
  next
    case None
    have inv1: "sal_inv OS mapped M0 meta mp sal m1 P A H True {#}" and o1: "em_os m1 = em_os m" using n(3) None by auto
    from sal_refresh_ok [where M = M and mp = mp, OF c mp os inv1] show ?thesis
    proof (elim disjE exE conjE)
      fix sal2 m2 it2 P2 A2 s' it' x'
      assume r2: "sal_refresh OS M sal m1 = Some (sal2, m2, it2)" "sa_threshold sal2 = sa_threshold sal"
        "sal_inv OS mapped M0 meta mp sal2 m2 P2 A2 H True (iter_cur it2)" "iter_at meta m2 (sa_slag sal2) it2"
        "iter_next (load_slag m2 meta (sa_slag sal2)) it2 = Some (s', it', Some x')"
      obtain m3 it3 x where n3: "slag_next M sal2 m2 it2 = Some (m3, it3, Some x)" "iter_at meta m3 (sa_slag sal2) it3" "x \<notin> H"
          "sal_inv OS mapped M0 meta mp sal2 m3 P2 A2 (insert x H) True (iter_cur it3)"
        using slag_next_ok [where M = M and mp = mp and sal = sal2 and it = it2, OF c mp r2(3,4)] r2(5) by (fastforce split: option.splits)
      then show ?thesis using n(1) None r2(1,2) by blast
    next
      assume "sal_refresh OS M sal m1 = None" "source_failed OS (sa_pages sal) m1"
      then show ?thesis using n(1) None o1 by (simp add: source_failed_def)
    qed
  qed
qed

lemma local_alloc_ok:
  assumes c: "slag_class meta" and mp: "mp \<noteq> null" "M mp = Some meta" and os: "os_contract OS mapped byte"
    and inv: "local_inv OS mapped M0 meta mp lc m L"
  shows "(\<exists>lc' m' x. local_alloc OS M lc m = Some (lc', m', x) \<and> x \<notin> L \<and> st_data (lc_vals lc') = st_data (lc_vals lc)
      \<and> local_inv OS mapped M0 meta mp lc' m' (insert x L))
    \<or> (local_alloc OS M lc m = None \<and> source_failed OS (sa_pages (lc_alloc lc)) m)"
proof -
  let ?sal = "lc_alloc lc" let ?st = "lc_vals lc" let ?it = "lc_iter lc" let ?H = "L \<union> set (stack_items ?st)"
  obtain P A where i: "sal_inv OS mapped M0 meta mp ?sal m P A ?H True (iter_cur ?it)" "iter_at meta m (sa_slag ?sal) ?it"
      "decommit_ok (os_pagesize OS) meta (sa_threshold ?sal)" "stack_ok ?st" "length (st_cells ?st) = md_n_objects meta"
      "distinct (stack_items ?st)" "set (stack_items ?st) \<inter> L = {}" "set (stack_items ?st) \<subseteq> slag_objects meta {sa_slag ?sal}"
    using inv unfolding local_inv_def by blast
  from ptr_stack_pop_ok [OF i(4)] show ?thesis
  proof (elim disjE exE conjE)
    fix st' x assume p: "ptr_stack_pop ?st = (st', Some x)" "stack_items ?st = stack_items st' @ [x]" "stack_ok st'"
      "length (st_cells st') = length (st_cells ?st)" "st_data st' = st_data ?st"
    have "?H = insert x L \<union> set (stack_items st')" "x \<notin> L" using p(2) i(7) by auto
    then have "local_inv OS mapped M0 meta mp (lc\<lparr> lc_vals := st' \<rparr>) m (insert x L)"
      using i p unfolding local_inv_def by auto
    moreover have "local_alloc OS M lc m = Some (lc\<lparr> lc_vals := st' \<rparr>, m, x)" using p(1) by (simp add: local_alloc_def)
    ultimately show ?thesis using \<open>x \<notin> L\<close> p(5) by fastforce
  next
    assume p: "stack_items ?st = []" "ptr_stack_pop ?st = (?st, None)"
    have H: "?H = L" using p(1) by simp
    have inv': "local_inv OS mapped M0 meta mp \<lparr> lc_alloc = sal', lc_vals = ?st, lc_iter = it' \<rparr> m' (insert x L)"
      if "sal_inv OS mapped M0 meta mp sal' m' P' A' (insert x L) True (iter_cur it')" "iter_at meta m' (sa_slag sal') it'"
        "sa_threshold sal' = sa_threshold ?sal" for sal' m' it' x P' A'
      using that i(3-6) p(1) unfolding local_inv_def by auto
    from slag_take_ok [where M = M and mp = mp, OF c mp os i(1) [unfolded H] i(2)] show ?thesis
    proof (elim disjE exE conjE)
      fix m1 it1 x assume n: "slag_next M ?sal m ?it = Some (m1, it1, Some x)" "x \<notin> L" "iter_at meta m1 (sa_slag ?sal) it1"
        "sal_inv OS mapped M0 meta mp ?sal m1 P A (insert x L) True (iter_cur it1)"
      have "local_alloc OS M lc m = Some (\<lparr> lc_alloc = ?sal, lc_vals = ?st, lc_iter = it1 \<rparr>, m1, x)"
        using p(2) n(1) by (simp add: local_alloc_def)
      then show ?thesis using inv' [OF n(4,3)] n(2) by fastforce
    next
      fix m1 it1 sal2 m2 it2 m3 it3 x P2 A2
      assume n: "slag_next M ?sal m ?it = Some (m1, it1, None)" "sal_refresh OS M ?sal m1 = Some (sal2, m2, it2)"
        "slag_next M sal2 m2 it2 = Some (m3, it3, Some x)" "x \<notin> L" "sa_threshold sal2 = sa_threshold ?sal"
        "iter_at meta m3 (sa_slag sal2) it3" "sal_inv OS mapped M0 meta mp sal2 m3 P2 A2 (insert x L) True (iter_cur it3)"
      have "local_alloc OS M lc m = Some (\<lparr> lc_alloc = sal2, lc_vals = ?st, lc_iter = it3 \<rparr>, m3, x)"
        using p(2) n(1-3) by (simp add: local_alloc_def)
      then show ?thesis using inv' [OF n(7,6,5)] n(4) by fastforce
    next
      fix m1 it1 assume "slag_next M ?sal m ?it = Some (m1, it1, None)" "sal_refresh OS M ?sal m1 = None" "source_failed OS (sa_pages ?sal) m"
      then show ?thesis using p(2) by (simp add: local_alloc_def)
    qed
  qed
qed

lemma local_free_ok:
  assumes c: "slag_class meta" and mp: "mp \<noteq> null" "M mp = Some meta" and os: "os_contract OS mapped byte" "madvise_contract OS mapped byte"
    and inv: "local_inv OS mapped M0 meta mp lc m L" and x: "x \<in> L"
  shows "\<exists>lc' m'. local_free OS M lc m x = Some (lc', m') \<and> st_data (lc_vals lc') = st_data (lc_vals lc)
    \<and> local_inv OS mapped M0 meta mp lc' m' (L - {x})"
proof -
  let ?sal = "lc_alloc lc" let ?st = "lc_vals lc" let ?it = "lc_iter lc" let ?H = "L \<union> set (stack_items ?st)"
  obtain P A where i: "sal_inv OS mapped M0 meta mp ?sal m P A ?H True (iter_cur ?it)" "iter_at meta m (sa_slag ?sal) ?it"
      "decommit_ok (os_pagesize OS) meta (sa_threshold ?sal)" "stack_ok ?st" "length (st_cells ?st) = md_n_objects meta"
      "distinct (stack_items ?st)" "set (stack_items ?st) \<inter> L = {}" "set (stack_items ?st) \<subseteq> slag_objects meta {sa_slag ?sal}"
    using inv unfolding local_inv_def by blast
  note sd = sal_invD [OF i(1)]
  have "sal_contains M ?sal x = Some (slag_find x (md_total_bytes meta) = sa_slag ?sal)"
    using sd(1) mp by (simp add: sal_contains_def meta_at_def)
  note e = local_free_def [of OS M lc m x, unfolded this bind.bind_lunit]
  have xs: "x \<notin> set (stack_items ?st)" using x i(7) by auto
  show ?thesis
  proof (cases "slag_find x (md_total_bytes meta) = sa_slag ?sal")
    case True
    have "x \<in> slag_objects meta P" using sd(6) x unfolding slags_inv_def by auto
    then obtain q k where q: "q \<in> P" "k < md_n_objects meta" "x = slag_object q meta k" by (auto simp: slag_objects_def)
    have "q = sa_slag ?sal"
      using slag_find_object [OF slag_class_placed [OF c sd(9) [OF q(1)]] slag_classD(1) [OF c] q(2)] q(3) True by simp
    then have xo: "x \<in> slag_objects meta {sa_slag ?sal}" using q by (auto simp: slag_objects_def)
    have room: "st_top ?st < length (st_cells ?st)"
      using stack_room [of x ?st meta "sa_slag ?sal"] i(4-6,8) xs xo by simp
    obtain st' where p: "ptr_stack_push ?st x = Some st'" "stack_items st' = stack_items ?st @ [x]" "stack_ok st'"
        "length (st_cells st') = length (st_cells ?st)" "st_data st' = st_data ?st"
      using ptr_stack_push_ok [OF room] by blast
    have H: "L - {x} \<union> set (stack_items st') = ?H" using p(2) x by auto
    have "local_inv OS mapped M0 meta mp (lc\<lparr> lc_vals := st' \<rparr>) m (L - {x})"
      unfolding local_inv_def using i(1-3,5-8) p(2-4) H xo xs by auto
    then show ?thesis using e True p(1,5) by simp
  next
    case False
    have H: "?H - {x} = (L - {x}) \<union> set (stack_items ?st)" using xs by auto
    obtain sal' m' P' A' where f: "sal_free OS M ?sal m x = Some (sal', m')" "sa_slag sal' = sa_slag ?sal"
        "sa_threshold sal' = sa_threshold ?sal" "sal_inv OS mapped M0 meta mp sal' m' P' A' (?H - {x}) True (iter_cur ?it)"
      using sal_free_ok [where M = M and mp = mp and sal = ?sal and H = ?H and C = "iter_cur ?it" and cl = True, OF c mp os i(3,1)] x by blast
    have "iter_at meta m' (sa_slag ?sal) ?it" using i(2) by (simp add: iter_at_def iter_wf_def)
    then have "local_inv OS mapped M0 meta mp (lc\<lparr> lc_alloc := sal' \<rparr>) m' (L - {x})"
      unfolding local_inv_def using f(2-4) H i(3-8) by auto
    then show ?thesis using e False f(1) by simp
  qed
qed

subsection \<open>Construction and destruction\<close>

text \<open>The array of a stack is memory that was not mapped before.\<close>

lemma typed_array_fresh:
  assumes os: "os_contract OS mapped byte" and a: "typed_array_new OS s elem n = Some (s', a)" and n: "0 < elem * n"
  shows "fresh_map (os_pagesize OS) mapped byte s s' (ta_data a) (ta_mapped a)" "os_pagesize OS dvd ta_mapped a" "0 < ta_mapped a"
proof -
  let ?pg = "os_pagesize OS" let ?b = "elem * n" let ?k = "?b div ?pg + min 1 (?b mod ?pg)"
  have pg: "is_power_of_two ?pg" "0 < ?pg" using os_page [OF os] by blast+
  have m: "elf_map OS s (?k * ?pg) = Some (s', ta_data a)" "ta_mapped a = ?k * ?pg" "?k * ?pg < 2 ^ 64"
    using a by (auto simp: typed_array_new_def mul_usize_def Let_def split: bind_splits if_splits)
  have k: "0 < ?k" using n pg(2) by (cases "?b mod ?pg = 0") (auto simp: div_greater_zero_iff dvd_imp_le)
  show "?pg dvd ta_mapped a" "0 < ta_mapped a" using m(2) k pg(2) by simp_all
  have "1 * ?pg \<le> ?k * ?pg" using k by (intro mult_le_mono1) linarith
  then have "?pg < 2 ^ 64" using m(3) by linarith
  moreover obtain e where e: "?pg = 2 ^ e" using pg(1) by (auto simp: is_power_of_two_iff)
  ultimately have "e < 64" by (metis power_strict_increasing_iff one_less_numeral_iff semiring_norm(76))
  then have "(2 :: nat) ^ 64 = 2 ^ (64 - e) * ?pg" unfolding e by (simp flip: power_add)
  then have "?k < 2 ^ (64 - e)" using m(3) pg(2) by (metis mult_less_cancel2)
  then have "(?k + 1) * ?pg \<le> 2 ^ (64 - e) * ?pg" by (intro mult_le_mono1) simp
  then have "?k * ?pg + ?pg \<le> 2 ^ 64" using \<open>2 ^ 64 = 2 ^ (64 - e) * ?pg\<close> by simp
  from fallible_map_cases [OF os _ this, of s] m(1,2) \<open>0 < ta_mapped a\<close>
  show "fresh_map ?pg mapped byte s s' (ta_data a) (ta_mapped a)" by (auto simp: elf_map_def)
qed

definition array_region :: "typed_array \<Rightarrow> nat set" where
  "array_region a = region (ta_data a) (ta_mapped a)"

definition array_mapped :: "nat \<Rightarrow> typed_array \<Rightarrow> bool" where
  "array_mapped pg a \<longleftrightarrow> page_block pg (ta_data a) (ta_mapped a) \<and> pg dvd ta_mapped a \<and> 0 < ta_mapped a"

abbreviation stack_region :: "ptr_stack \<Rightarrow> nat set" where
  "stack_region st \<equiv> array_region (st_data st)"

abbreviation stack_mapped :: "nat \<Rightarrow> ptr_stack \<Rightarrow> bool" where
  "stack_mapped pg st \<equiv> array_mapped pg (st_data st)"

lemma owned_array_ok:
  assumes os: "os_contract OS mapped byte" and a: "owned_array_new OS m elem n = Some (m', a)" and n: "0 < elem * n"
  shows "mapped (em_os m') = mapped (em_os m) \<union> array_region a" "array_region a \<inter> mapped (em_os m) = {}"
    "words_kept m m' (mapped (em_os m))" "array_mapped (os_pagesize OS) a"
proof -
  have a: "typed_array_new OS (em_os m) elem n = Some (em_os m', a)" "em_words m' = zero_words (ta_data a) (ta_mapped a) (em_words m)"
    using a by (auto simp: owned_array_new_def split: bind_splits prod.splits)
  have pg: "0 < os_pagesize OS" using os_page [OF os] by blast
  note f = typed_array_fresh [OF os a(1) n]
  have "pages (os_pagesize OS) (ta_data a) (ta_mapped a) = array_region a" using f(2) pg by (simp add: pages_def array_region_def)
  then show g: "mapped (em_os m') = mapped (em_os m) \<union> array_region a" "array_region a \<inter> mapped (em_os m) = {}"
      "array_mapped (os_pagesize OS) a"
    using f by (simp_all add: fresh_map_def array_mapped_def)
  show "words_kept m m' (mapped (em_os m))" using g(2) a(2) by (auto simp: words_kept_def zero_words_def array_region_def)
qed

lemma array_destroy_ok:
  assumes os: "os_contract OS mapped byte" and a: "array_mapped (os_pagesize OS) a" "array_region a \<subseteq> mapped s"
  shows "\<exists>s'. typed_array_destroy OS s a = Some s' \<and> mapped s' = mapped s - array_region a"
proof -
  have pg: "0 < os_pagesize OS" using os_page [OF os] by blast
  then have "pages (os_pagesize OS) (ta_data a) (ta_mapped a) = array_region a"
    using a(1) by (simp add: array_mapped_def pages_def array_region_def)
  then show ?thesis using elf_unmap_ok [OF os, of "ta_mapped a" "ta_data a" s] a by (auto simp: array_mapped_def typed_array_destroy_def)
qed

lemma ptr_stack_new_ok:
  assumes os: "os_contract OS mapped byte" and st: "ptr_stack_new OS m n = Some (m', st)" and n: "0 < n"
  shows "mapped (em_os m') = mapped (em_os m) \<union> stack_region st" "stack_region st \<inter> mapped (em_os m) = {}"
    "words_kept m m' (mapped (em_os m))" "stack_items st = []" "stack_ok st" "length (st_cells st) = n" "stack_mapped (os_pagesize OS) st"
proof -
  obtain a where a: "owned_array_new OS m 8 n = Some (m', a)" "st = \<lparr> st_data = a, st_cells = replicate n null, st_top = 0 \<rparr>"
    using st by (auto simp: ptr_stack_new_def split: bind_splits prod.splits)
  have "0 < 8 * n" using n by simp
  from owned_array_ok [OF os a(1) this] a(2) show "mapped (em_os m') = mapped (em_os m) \<union> stack_region st"
    "stack_region st \<inter> mapped (em_os m) = {}" "words_kept m m' (mapped (em_os m))" "stack_mapped (os_pagesize OS) st" by simp_all
  show "stack_items st = []" "stack_ok st" "length (st_cells st) = n" using a(2) by (simp_all add: stack_items_def stack_ok_def)
qed

lemma local_new_ok:
  assumes c: "slag_class meta" and mp: "mp \<noteq> null" "M mp = Some meta" and os: "os_contract OS mapped byte"
    and dc: "decommit_ok (os_pagesize OS) meta (sa_threshold sal)"
    and inv: "sal_inv OS mapped M0 meta mp sal m P A {} cl {#}" and new: "local_new OS M sal m = Some (lc, m')"
  shows "local_inv OS mapped (M0 \<union> stack_region (lc_vals lc)) meta mp lc m' {}" "stack_mapped (os_pagesize OS) (lc_vals lc)"
    "stack_region (lc_vals lc) \<inter> M0 = {}"
proof -
  have ma: "meta_at M (sa_m sal) = Some meta" using sal_invD(1) [OF inv] mp by (simp add: meta_at_def)
  obtain m1 st where st: "ptr_stack_new OS m (md_n_objects meta) = Some (m1, st)"
    and r: "sal_refresh OS M sal m1 \<bind> (\<lambda>(sal1, m2, it). Some (\<lparr> lc_alloc = sal1, lc_vals = st, lc_iter = it \<rparr>, m2)) = Some (lc, m')"
    using new unfolding local_new_def ma bind.bind_lunit by (cases "ptr_stack_new OS m (md_n_objects meta)") auto
  note s = ptr_stack_new_ok [OF os st slag_classD(6) [OF c]]
  have inv1: "sal_inv OS mapped (M0 \<union> stack_region st) meta mp sal m1 P A {} cl {#}"
    by (rule sal_inv_other [OF c inv s(1-3)])
  obtain sal' it P' A' where f: "sal_refresh OS M sal m1 = Some (sal', m', it)" "lc = \<lparr> lc_alloc = sal', lc_vals = st, lc_iter = it \<rparr>"
      "sa_threshold sal' = sa_threshold sal" "sal_inv OS mapped (M0 \<union> stack_region st) meta mp sal' m' P' A' {} True (iter_cur it)"
      "iter_at meta m' (sa_slag sal') it"
    using sal_refresh_ok [where M = M and mp = mp, OF c mp os inv1] r by auto
  show "local_inv OS mapped (M0 \<union> stack_region (lc_vals lc)) meta mp lc m' {}"
    unfolding local_inv_def using f(2-5) dc s(4-6) by auto
  show "stack_mapped (os_pagesize OS) (lc_vals lc)" using f(2) s(7) by simp
  have "M0 \<subseteq> mapped (em_os m)" using sal_invD(3) [OF inv] by (auto simp: page_inv_def pages_wf_def)
  then show "stack_region (lc_vals lc) \<inter> M0 = {}" using f(2) s(2) by auto
qed

lemma free_all_ok:
  assumes c: "slag_class meta" and mp: "mp \<noteq> null" "M mp = Some meta" and os: "os_contract OS mapped byte" "madvise_contract OS mapped byte"
  shows "decommit_ok (os_pagesize OS) meta (sa_threshold sal) \<Longrightarrow> distinct xs
    \<Longrightarrow> sal_inv OS mapped M0 meta mp sal m P A (set xs) True {#}
    \<Longrightarrow> \<exists>sal' m' P' A'. free_all OS M sal m xs = Some (sal', m') \<and> sal_inv OS mapped M0 meta mp sal' m' P' A' {} True {#}"
proof (induction xs arbitrary: sal m P A)
  case Nil
  then show ?case by auto
next
  case (Cons x xs)
  obtain sal1 m1 P1 A1 where f: "sal_free OS M sal m x = Some (sal1, m1)" "sa_threshold sal1 = sa_threshold sal"
      "sal_inv OS mapped M0 meta mp sal1 m1 P1 A1 (set (x # xs) - {x}) True {#}"
    using sal_free_ok [where M = M and mp = mp and sal = sal and H = "set (x # xs)" and C = "{#}" and cl = True and x = x,
        OF c mp os Cons.prems(1,3)] by auto
  moreover have "set (x # xs) - {x} = set xs" using Cons.prems(2) by auto
  ultimately show ?case using Cons.IH [of sal1 m1 P1 A1] Cons.prems(1,2) by auto
qed

lemma local_drop_ok:
  assumes c: "slag_class meta" and mp: "mp \<noteq> null" "M mp = Some meta" and os: "os_contract OS mapped byte" "madvise_contract OS mapped byte"
    and inv: "local_inv OS mapped (M0 \<union> stack_region (lc_vals lc)) meta mp lc m {}" and st: "stack_mapped (os_pagesize OS) (lc_vals lc)"
    and dis: "stack_region (lc_vals lc) \<inter> M0 = {}"
  shows "\<exists>s'. local_drop OS M lc m = Some s' \<and> mapped s' = M0"
proof -
  let ?sal = "lc_alloc lc" let ?st = "lc_vals lc" let ?it = "lc_iter lc" let ?R = "stack_region ?st"
  obtain P A where i: "sal_inv OS mapped (M0 \<union> ?R) meta mp ?sal m P A (set (stack_items ?st)) True (iter_cur ?it)"
      "iter_at meta m (sa_slag ?sal) ?it" "decommit_ok (os_pagesize OS) meta (sa_threshold ?sal)" "distinct (stack_items ?st)"
    using inv unfolding local_inv_def by auto
  obtain m1 where b: "sal_bulk_free OS ?sal m (it_cur_word ?it) (it_next_word ?it - 1) (sa_slag ?sal) meta = Some (?sal, m1)"
      "sal_inv OS mapped (M0 \<union> ?R) meta mp ?sal m1 P A (set (stack_items ?st)) True {#}"
    using bulk_free_current [OF c i(1,2)] by blast
  obtain sal2 m2 P2 A2 where f: "free_all OS M ?sal m1 (stack_items ?st) = Some (sal2, m2)"
      "sal_inv OS mapped (M0 \<union> ?R) meta mp sal2 m2 P2 A2 {} True {#}"
    using free_all_ok [where M = M and mp = mp, OF c mp os i(3,4) b(2)] by blast
  obtain s3 where s3: "sal_drop OS M sal2 m2 = Some s3" "mapped s3 = M0 \<union> ?R"
    using sal_drop_ok [where M = M and mp = mp, OF c mp os f(2)] by blast
  obtain s4 where "typed_array_destroy OS s3 (st_data ?st) = Some s4" "mapped s4 = mapped s3 - ?R"
    using array_destroy_ok [OF os(1) st, of s3] s3(2) by auto
  moreover have "M0 \<union> ?R - ?R = M0" using dis by blast
  moreover have "meta_at M (sa_m ?sal) = Some meta" using sal_invD(1) [OF i(1)] mp by (simp add: meta_at_def)
  ultimately show ?thesis using b(1) f(1) s3 by (simp add: local_drop_def stack_items_def)
qed

subsection \<open>Histories\<close>

inductive local_reach :: "'s os_ops \<Rightarrow> metas \<Rightarrow> local_cache \<Rightarrow> 's elf_memory \<Rightarrow> local_cache \<Rightarrow> 's elf_memory \<Rightarrow> ptr set \<Rightarrow> bool"
  for OS :: "'s os_ops" and M :: metas and lc0 :: local_cache and m0 :: "'s elf_memory" where
  start: "local_reach OS M lc0 m0 lc0 m0 {}"
| allocated: "local_reach OS M lc0 m0 lc m L \<Longrightarrow> local_alloc OS M lc m = Some (lc', m', x)
    \<Longrightarrow> local_reach OS M lc0 m0 lc' m' (insert x L)"
| freed: "local_reach OS M lc0 m0 lc m L \<Longrightarrow> x \<in> L \<Longrightarrow> local_free OS M lc m x = Some (lc', m')
    \<Longrightarrow> local_reach OS M lc0 m0 lc' m' (L - {x})"

lemma local_reach_inv:
  assumes c: "slag_class meta" and mp: "mp \<noteq> null" "M mp = Some meta" and os: "os_contract OS mapped byte" "madvise_contract OS mapped byte"
    and new: "local_inv OS mapped M0 meta mp lc0 m0 {}" and r: "local_reach OS M lc0 m0 lc m L"
  shows "local_inv OS mapped M0 meta mp lc m L \<and> st_data (lc_vals lc) = st_data (lc_vals lc0)"
  using r
proof induction
  case start
  show ?case using new by simp
next
  case (allocated lc m L lc' m' x)
  then show ?case using local_alloc_ok [where M = M and mp = mp, OF c mp os(1), of M0 lc m L] by auto
next
  case (freed lc m L x lc' m')
  then show ?case using local_free_ok [where M = M and mp = mp, OF c mp os, of M0 lc m L x] by auto
qed

text \<open>Objects of clients are blocks of the object size inside the pages of the cache, apart from each other.\<close>

lemma local_objects:
  assumes c: "slag_class meta" and inv: "local_inv OS mapped M0 meta mp lc m L"
  shows "x \<in> L \<Longrightarrow> region x (md_object_size meta) \<subseteq> mapped (em_os m) - M0"
    "x \<in> L \<Longrightarrow> is_power_of_two (md_object_size meta) \<Longrightarrow> md_object_size meta dvd unat x"
    "x \<in> L \<Longrightarrow> y \<in> L \<Longrightarrow> x \<noteq> y \<Longrightarrow> region x (md_object_size meta) \<inter> region y (md_object_size meta) = {}"
proof -
  let ?ps = "md_total_bytes meta" let ?sz = "md_object_size meta" let ?n = "md_n_objects meta"
  obtain P A where i: "sal_inv OS mapped M0 meta mp (lc_alloc lc) m P A (L \<union> set (stack_items (lc_vals lc))) True (iter_cur (lc_iter lc))"
    using inv unfolding local_inv_def by blast
  note d = sal_invD [OF i]
  note pg = page_inv_pages [OF d(3), unfolded d(2)]
  have lay: "layout_wf meta" "0 < ?sz" "md_objects_offset meta + ?n * ?sz \<le> ?ps" "is_power_of_two ?ps"
    using c slag_classD(10) [OF c] by (simp_all add: slag_class_def)
  have sub: "L \<subseteq> slag_objects meta P" using d(6) by (simp add: slags_inv_def)
  have blk: "unat (slag_object q meta k) = unat q + (md_objects_offset meta + k * ?sz)"
      "md_objects_offset meta + k * ?sz + ?sz \<le> ?ps" if "q \<in> P" "k < ?n" for q k
  proof -
    show "unat (slag_object q meta k) = unat q + (md_objects_offset meta + k * ?sz)"
      using slag_object_bound(2) [OF slag_class_placed [OF c d(9) [OF that(1)]] that(2) lay(2)] .
    have "Suc k * ?sz \<le> ?n * ?sz" using that(2) by (intro mult_le_mono1) simp
    then show "md_objects_offset meta + k * ?sz + ?sz \<le> ?ps" using lay(3) by simp
  qed
  have obj: "\<exists>q k. q \<in> P \<and> k < ?n \<and> x = slag_object q meta k \<and> region x ?sz \<subseteq> region q ?ps" if "x \<in> L" for x
  proof -
    obtain q k where q: "q \<in> P" "k < ?n" "x = slag_object q meta k" using sub \<open>x \<in> L\<close> by (auto simp: slag_objects_def)
    then have "region x ?sz \<subseteq> region q ?ps" using blk [OF q(1,2)] by (auto simp: region_def)
    then show ?thesis using q by blast
  qed
  show "region x ?sz \<subseteq> mapped (em_os m) - M0" if "x \<in> L" using obj [OF that] pg(3) by blast
  show "?sz dvd unat x" if x: "x \<in> L" and p: "is_power_of_two ?sz"
  proof -
    obtain q k where q: "q \<in> P" "k < ?n" "x = slag_object q meta k" using obj [OF x] by blast
    have "?sz \<le> ?ps" using blk(2) [OF q(1,2)] by linarith
    then have "?sz dvd ?ps" by (rule pow2_le_dvd [OF p lay(4)])
    then have "?sz dvd unat q" using d(9) [OF q(1)] by (auto simp: page_at_def intro: dvd_trans)
    moreover have "?sz dvd md_objects_offset meta" using lay(1) p unfolding layout_wf_def by blast
    ultimately show ?thesis using blk(1) [OF q(1,2)] q(3) by simp
  qed
  assume xy: "x \<in> L" "y \<in> L" "x \<noteq> y"
  obtain q k where q: "q \<in> P" "k < ?n" "x = slag_object q meta k" "region x ?sz \<subseteq> region q ?ps" using obj [OF xy(1)] by blast
  obtain p j where p: "p \<in> P" "j < ?n" "y = slag_object p meta j" "region y ?sz \<subseteq> region p ?ps" using obj [OF xy(2)] by blast
  show "region x ?sz \<inter> region y ?sz = {}"
  proof (cases "p = q")
    case False
    then show ?thesis using pages_disjoint [OF d(9) [OF q(1)] d(9) [OF p(1)]] q(4) p(4) by blast
  next
    case True
    then have "k \<noteq> j" using xy(3) q(3) p(3) by auto
    then consider "Suc k \<le> j" | "Suc j \<le> k" by linarith
    then have "k * ?sz + ?sz \<le> j * ?sz \<or> j * ?sz + ?sz \<le> k * ?sz"
      by cases (metis mult_le_mono1 mult_Suc add.commute)+
    then show ?thesis using blk(1) [OF q(1,2)] blk(1) [OF p(1,2)] q(3) p(3) True by (auto simp: region_def)
  qed
qed

text \<open>From the constructors on: the page cache and the pipe are new, and \<open>local_init\<close> takes them.\<close>

lemma local_history_inv:
  assumes os: "os_contract OS mapped byte" "madvise_contract OS mapped byte"
    and c: "slag_class meta" and mp: "mp \<noteq> null" "M mp = Some meta" and dc: "decommit_ok (os_pagesize OS) meta decommit"
    and pg: "page_new_aligned (md_total_bytes meta) target pipe_size align ty = Some pa0" "1 < md_total_bytes meta"
      "os_pagesize OS \<le> md_total_bytes meta" "3 * align + os_pagesize OS \<le> 2 ^ 64"
    and av: "pipe_new_size (faa_bag True) n_pipes = Some avail"
    and init: "local_init OS M mp decommit pa0 avail m0 = Some (lc0, m1)" and r: "local_reach OS M lc0 m1 lc m L"
  shows "local_inv OS mapped (mapped (em_os m0) \<union> stack_region (lc_vals lc)) meta mp lc m L
    \<and> stack_mapped (os_pagesize OS) (lc_vals lc) \<and> stack_region (lc_vals lc) \<inter> mapped (em_os m0) = {}"
proof -
  have "0 < n_pipes" using av by (auto simp: pipe_new_size_def split: if_splits)
  then have avail: "avail_ok avail" "avail_items avail = {#}" using rq.weak_pipe_new [of n_pipes] av by auto
  obtain sal m' where sal: "sal_partial_new OS M mp decommit pa0 avail m0 = Some (sal, m')" "local_new OS M sal m' = Some (lc0, m1)"
    using init by (auto simp: local_init_def split: bind_splits)
  have pinv: "page_inv (os_pagesize OS) (mapped (em_os m0)) (mapped (em_os m0)) pa0 {}" "pa_creek pa0 = md_total_bytes meta"
      "pa_pages pa0 = {#}" using page_new_ok [OF pg] by blast+
  obtain p where si: "sa_threshold sal = decommit" "sal_inv OS mapped (mapped (em_os m0)) meta mp sal m' {p} {} {} False {#}"
    using sal_partial_new_ok [where M = M and mp = mp, OF c mp os(1) pinv avail, of decommit] sal(1) by auto
  note n = local_new_ok [where M = M and mp = mp, OF c mp os(1) dc [folded si(1)] si(2) sal(2)]
  note i = local_reach_inv [where M = M and mp = mp, OF c mp os n(1) r]
  have "stack_region (lc_vals lc) = stack_region (lc_vals lc0)" "stack_mapped (os_pagesize OS) (lc_vals lc)"
    using i n(2) by simp_all
  then show ?thesis using i n(3) by simp
qed

text \<open>A new cache has an object to give.\<close>

lemma local_new_alloc:
  assumes c: "slag_class meta" and mp: "mp \<noteq> null" "M mp = Some meta" and os: "os_contract OS mapped byte"
    and inv: "sal_inv OS mapped M0 meta mp sal m P A {} cl {#}" and new: "local_new OS M sal m = Some (lc, m')"
  shows "\<exists>lc' m'' x. local_alloc OS M lc m' = Some (lc', m'', x)"
proof -
  have ma: "meta_at M (sa_m sal) = Some meta" using sal_invD(1) [OF inv] mp by (simp add: meta_at_def)
  obtain m1 st where st: "ptr_stack_new OS m (md_n_objects meta) = Some (m1, st)"
    and r: "sal_refresh OS M sal m1 \<bind> (\<lambda>(sal1, m2, it). Some (\<lparr> lc_alloc = sal1, lc_vals = st, lc_iter = it \<rparr>, m2)) = Some (lc, m')"
    using new unfolding local_new_def ma bind.bind_lunit by (cases "ptr_stack_new OS m (md_n_objects meta)") auto
  note s = ptr_stack_new_ok [OF os st slag_classD(6) [OF c]]
  have inv1: "sal_inv OS mapped (M0 \<union> stack_region st) meta mp sal m1 P A {} cl {#}"
    by (rule sal_inv_other [OF c inv s(1-3)])
  obtain sal' it P' A' s' it' x where f: "sal_refresh OS M sal m1 = Some (sal', m', it)" "lc = \<lparr> lc_alloc = sal', lc_vals = st, lc_iter = it \<rparr>"
      "sal_inv OS mapped (M0 \<union> stack_region st) meta mp sal' m' P' A' {} True (iter_cur it)"
      "iter_next (load_slag m' meta (sa_slag sal')) it = Some (s', it', Some x)"
    using sal_refresh_ok [where M = M and mp = mp, OF c mp os inv1] r by auto
  have "st_top st = 0" using st by (auto simp: ptr_stack_new_def split: bind_splits)
  moreover have "meta_at M (sa_m sal') = Some meta" using sal_invD(1) [OF f(3)] mp by (simp add: meta_at_def)
  ultimately show ?thesis using f(4) by (simp add: local_alloc_def f(2) ptr_stack_pop_def ptr_stack_empty_def slag_next_def)
qed

end
