(* ===== verification/Frontend_Claims.thy ===== *)
theory Frontend_Claims
  imports Frontends General_Claims
begin

text \<open>
  The properties of \<open>SlagAllocator\<close> and of \<open>LocalCache\<close>, the allocator a thread uses, over the
  page cache and the pipe of available slags.
\<close>

section \<open>The source of memory in the simulation\<close>

text \<open>Below the end of the address space the simulated source of \<^verbatim>\<open>4096\<close>-byte pages does not fail.\<close>

lemma sim_carve:
  assumes "sim_next s + 32768 < 2 ^ 64" "k = 1 \<or> k = 2"
  shows "\<exists>s' p. mmap_carve sim_os 4096 s k = Some (s', Some p) \<and> sim_next s' \<le> sim_next s + 16384"
proof -
  have pg: "os_pagesize sim_os = 4096" by (simp add: sim_os_def)
  have k: "0 < k * 4096" "k * 4096 \<le> 8192" using assms(2) by auto
  then have "sim_next s + k * 4096 + 8192 < 2 ^ 64" using assms(1) by linarith
  from sim_fallible_map [OF k(1) this] obtain s' p where
    f: "fallible_map sim_os s (k * 4096) = Some (s', Some p)" "sim_next s' \<le> sim_next s + k * 4096 + 8192" by blast
  have "k * 4096 < 2 ^ 64" using assms(2) by auto
  then have "mmap_carve sim_os 4096 s k = Some (s', Some p)" using f(1) by (simp add: mmap_carve_def pg mul_usize_def)
  moreover have "sim_next s' \<le> sim_next s + 16384" using f(2) k(2) by linarith
  ultimately show ?thesis by blast
qed

lemma sim_source:
  assumes "pa_aligned_source pa = 4096" "sim_next (em_os m) + 32768 < 2 ^ 64"
  shows "\<not> source_failed sim_os pa m"
  using sim_carve [OF assms(2), of "if pa_pages_per pa = 1 then 2 else 1"] assms(1) by (auto simp: source_failed_def)

lemma sim_page_alloc:
  assumes "page_alloc_alloc sim_os pa m = Some (pa', m', p)" "pa_aligned_source pa = 4096" "sim_next (em_os m) + 32768 < 2 ^ 64"
  shows "sim_next (em_os m') \<le> sim_next (em_os m) + 16384"
  using sim_carve [OF assms(3), of "if pa_pages_per pa = 1 then 2 else 1"] assms(1,2)
  by (auto simp: page_alloc_alloc_def refresh_pages_def Let_def split: bind_splits pop_result.splits)

section \<open>Histories of a thread's cache\<close>

text \<open>C38.  Any history of a \<open>LocalCache\<close> over its \<open>SlagAllocator\<close>, its pipe of available slags and its page
  cache: the objects its client holds are mapped, in memory not mapped before, aligned when their size is a power of
  two, and apart from each other.  A further allocation fails only when the source has no memory, and gives an object
  the client does not hold; a free does not panic, whatever slag the object is in; and when all objects are back,
  dropping the cache gives all its memory back.  \<open>decommit_ok\<close> says that an uncommit leaves the bit set of a slag
  in place.\<close>

theorem local_cache_history:
  assumes "os_contract OS mapped byte" "madvise_contract OS mapped byte"
    and "slag_class meta" "mp \<noteq> null" "M mp = Some meta" "decommit_ok (os_pagesize OS) meta decommit"
    and "page_new_aligned (md_total_bytes meta) target pipe_size align ty = Some pa0" "1 < md_total_bytes meta"
      "os_pagesize OS \<le> md_total_bytes meta" "3 * align + os_pagesize OS \<le> 2 ^ 64"
    and "pipe_new_size (faa_bag True) n_pipes = Some avail"
    and "local_init OS M mp decommit pa0 avail m0 = Some (lc0, m1)" "local_reach OS M lc0 m1 lc m L"
  shows "(\<forall>x \<in> L. region x (md_object_size meta) \<subseteq> mapped (em_os m) - mapped (em_os m0)
        \<and> (is_power_of_two (md_object_size meta) \<longrightarrow> md_object_size meta dvd unat x))
    \<and> (\<forall>x \<in> L. \<forall>y \<in> L. x \<noteq> y \<longrightarrow> region x (md_object_size meta) \<inter> region y (md_object_size meta) = {})
    \<and> (local_alloc OS M lc m = None \<longrightarrow> source_failed OS (sa_pages (lc_alloc lc)) m)
    \<and> (\<forall>lc' m' x. local_alloc OS M lc m = Some (lc', m', x) \<longrightarrow> x \<notin> L)
    \<and> (\<forall>x \<in> L. \<exists>lc' m'. local_free OS M lc m x = Some (lc', m'))
    \<and> (L = {} \<longrightarrow> (\<exists>s'. local_drop OS M lc m = Some s' \<and> mapped s' = mapped (em_os m0)))"
proof -
  obtain inv: "local_inv OS mapped (mapped (em_os m0) \<union> stack_region (lc_vals lc)) meta mp lc m L"
    and st: "stack_mapped (os_pagesize OS) (lc_vals lc)" "stack_region (lc_vals lc) \<inter> mapped (em_os m0) = {}"
    using local_history_inv [OF assms] by blast
  note al = local_alloc_ok [where M = M and mp = mp, OF assms(3-5,1) inv] and ob = local_objects [OF assms(3) inv]
  show ?thesis
  proof (intro conjI ballI impI allI)
    fix x assume x: "x \<in> L"
    show "region x (md_object_size meta) \<subseteq> mapped (em_os m) - mapped (em_os m0)" using ob(1) [OF x] by blast
    show "md_object_size meta dvd unat x" if "is_power_of_two (md_object_size meta)" using ob(2) [OF x that] .
    show "\<exists>lc' m'. local_free OS M lc m x = Some (lc', m')"
      using local_free_ok [where M = M and mp = mp, OF assms(3-5,1,2) inv x] by blast
    show "region x (md_object_size meta) \<inter> region y (md_object_size meta) = {}" if "y \<in> L" "x \<noteq> y" for y
      using ob(3) [OF x that] .
  next
    show "source_failed OS (sa_pages (lc_alloc lc)) m" if "local_alloc OS M lc m = None" using al that by auto
    show "x \<notin> L" if "local_alloc OS M lc m = Some (lc', m', x)" for lc' m' x using al that by auto
    show "\<exists>s'. local_drop OS M lc m = Some s' \<and> mapped s' = mapped (em_os m0)" if "L = {}"
      using local_drop_ok [where M = M and mp = mp, OF assms(3-5,1,2) inv [unfolded that] st] .
  qed
qed

text \<open>Slags of seven objects of \<^verbatim>\<open>512\<close> bytes on pages of \<^verbatim>\<open>4096\<close>.\<close>

definition sim_meta :: metadata where
  "sim_meta = \<lparr> md_object_size = 512, md_n_objects = 7, md_n_bitset_words = 1, md_total_bytes = 4096,
     md_bitset_offset = 64, md_objects_offset = 512, md_object_mask = - 1, md_bit_rep_shift = 9, md_local_index = 0,
     md_cutoff_objects = 4, md_usable_size = 4096, md_ty = SmallSlag \<rparr>"

lemma sim_meta_class: "slag_class sim_meta" "decommit_ok (os_pagesize sim_os) sim_meta 0"
proof -
  have "is_power_of_two 4096" using is_power_of_two_power [of 12] by simp
  then show "slag_class sim_meta"
    by (simp add: slag_class_def layout_wf_def mask_wf_def rotation_ok_def md_bits_def sim_meta_def Let_def)
  show "decommit_ok (os_pagesize sim_os) sim_meta 0"
    by (simp add: decommit_ok_def header_size_def sim_meta_def sim_os_def)
qed

abbreviation sim_metas :: metas where
  "sim_metas \<equiv> [64 \<mapsto> sim_meta]"

abbreviation sim_memory :: "sim elf_memory" where
  "sim_memory \<equiv> \<lparr> em_os = sim_start, em_types = (\<lambda>_. SmallSlag), em_words = (\<lambda>_. 0) \<rparr>"

lemma sim_pages: "\<exists>pa. page_new_aligned 4096 2 2 4096 SmallSlag = Some pa \<and> pa_aligned_source pa = 4096"
proof -
  have p2: "is_power_of_two 4096" using is_power_of_two_power [of 12] by simp
  then have "mmap_source_new 4096 = 4096" by (simp add: mmap_source_new_def next_power_of_two_def is_power_of_two_def)
  then show ?thesis using p2 by (auto simp: page_new_aligned_def pipe_new_size_def)
qed

text \<open>Over the simulation a cache can be built, and gives an object at once.\<close>

lemma sim_local_init:
  assumes "page_new_aligned 4096 2 2 4096 SmallSlag = Some pa" "pa_aligned_source pa = 4096"
    "pipe_new_size (faa_bag True) 2 = Some avail"
  shows "\<exists>lc m lc' m' x. local_init sim_os sim_metas 64 0 pa avail sim_memory = Some (lc, m)
    \<and> local_alloc sim_os sim_metas lc m = Some (lc', m', x)"
proof -
  let ?M = sim_metas and ?m = sim_memory
  have mp: "(64 :: ptr) \<noteq> null" "?M 64 = Some sim_meta" by simp_all
  have pinv: "page_inv (os_pagesize sim_os) (sim_mapped (em_os ?m)) (sim_mapped (em_os ?m)) pa {}"
      "pa_creek pa = md_total_bytes sim_meta" "pa_pages pa = {#}"
    using page_new_ok [OF assms(1), of "os_pagesize sim_os"] by (simp_all add: sim_os_def sim_meta_def)
  have av: "avail_ok avail" "avail_items avail = {#}" using rq.weak_pipe_new [of 2] assms(3) by auto
  have "\<not> source_failed sim_os pa ?m" by (rule sim_source [OF assms(2)]) (simp add: sim_start_def)
  then obtain sal m1 p where sal: "sal_partial_new sim_os ?M 64 0 pa avail ?m = Some (sal, m1)"
      "sal_inv sim_os sim_mapped (sim_mapped (em_os ?m)) sim_meta 64 sal m1 {p} {} {} False {#}"
    using sal_partial_new_ok [where M = ?M and mp = 64, OF sim_meta_class(1) mp sim_contract pinv av, of 0] by blast
  obtain pa1 m' q where a: "page_alloc_alloc sim_os pa ?m = Some (pa1, m', q)" "em_os m1 = em_os m'" "sa_pages sal = pa1"
    using sal(1) mp by (auto simp: sal_partial_new_def meta_at_def split: bind_splits if_splits)
  have b1: "sim_next (em_os m1) \<le> 16384" using sim_page_alloc [OF a(1) assms(2)] a(2) by (simp add: sim_start_def)
  have src: "pa_aligned_source (sa_pages sal) = 4096" using page_alloc_source(1) [OF a(1)] assms(2) a(3) by simp
  have n: "md_n_objects sim_meta = 7" by (simp add: sim_meta_def)
  obtain s2 arr where t: "typed_array_new sim_os (em_os m1) 8 7 = Some (s2, arr)" "sim_next s2 \<le> sim_next (em_os m1) + 8 * 7 + 12288"
    using sim_typed_array [of 7 8 "em_os m1"] b1 by auto
  obtain m2 st where st: "ptr_stack_new sim_os m1 7 = Some (m2, st)" "em_os m2 = s2" using t(1) by (simp add: ptr_stack_new_def owned_array_new_def)
  note s = ptr_stack_new_ok [OF sim_contract st(1) [folded n] slag_classD(6) [OF sim_meta_class(1)]]
  have ma: "meta_at ?M (sa_m sal) = Some sim_meta" using sal_invD(1) [OF sal(2)] by (simp add: meta_at_def)
  have "sim_next (em_os m2) + 32768 < 2 ^ 64" using st(2) t(2) b1 by simp
  from sim_source [OF src this] obtain sal3 m3 it where r: "sal_refresh sim_os ?M sal m2 = Some (sal3, m3, it)"
    using sal_refresh_ok [where M = ?M and mp = 64, OF sim_meta_class(1) mp sim_contract sal_inv_other [OF sim_meta_class(1) sal(2) s(1-3)]]
    by blast
  have new: "local_new sim_os ?M sal m1 = Some (\<lparr> lc_alloc = sal3, lc_vals = st, lc_iter = it \<rparr>, m3)"
    unfolding local_new_def ma bind.bind_lunit n st(1) using r by simp
  have "local_init sim_os ?M 64 0 pa avail ?m = Some (\<lparr> lc_alloc = sal3, lc_vals = st, lc_iter = it \<rparr>, m3)"
    unfolding local_init_def sal(1) using new by simp
  then show ?thesis using local_new_alloc [where M = ?M and mp = 64, OF sim_meta_class(1) mp sim_contract sal(2) new] by blast
qed

theorem local_cache_history_witness:
  "\<exists>pa avail lc0 m1 lc m x. page_new_aligned 4096 2 2 4096 SmallSlag = Some pa \<and> pipe_new_size (faa_bag True) 2 = Some avail
    \<and> local_init sim_os sim_metas 64 0 pa avail sim_memory = Some (lc0, m1)
    \<and> local_alloc sim_os sim_metas lc0 m1 = Some (lc, m, x)
    \<and> 512 dvd unat x \<and> region x 512 \<subseteq> sim_mapped (em_os m)
    \<and> (\<exists>lc' m'. local_free sim_os sim_metas lc m x = Some (lc', m'))"
proof -
  obtain pa where pa: "page_new_aligned 4096 2 2 4096 SmallSlag = Some pa" "pa_aligned_source pa = 4096" using sim_pages by blast
  obtain avail where av: "pipe_new_size (faa_bag True) 2 = Some avail" using rq.weak_pipe_new [of 2] by auto
  from sim_local_init [OF pa av] obtain lc0 m1 lc m x where
    i: "local_init sim_os sim_metas 64 0 pa avail sim_memory = Some (lc0, m1)" "local_alloc sim_os sim_metas lc0 m1 = Some (lc, m, x)"
    by blast
  have adv: "madvise_contract sim_os sim_mapped sim_byte" by (simp add: madvise_contract_def sim_os_def kept_def)
  have mp: "(64 :: ptr) \<noteq> null" "sim_metas 64 = Some sim_meta" by simp_all
  have e: "md_total_bytes sim_meta = 4096" "md_object_size sim_meta = 512" "os_pagesize sim_os = 4096" by (simp_all add: sim_meta_def sim_os_def)
  have "is_power_of_two 512" using is_power_of_two_power [of 9] by simp
  moreover have "local_reach sim_os sim_metas lc0 m1 lc m {x}" by (rule local_reach.allocated [OF local_reach.start i(2)])
  ultimately show ?thesis
    using local_cache_history [where M = sim_metas and mp = 64, OF sim_contract adv sim_meta_class(1) mp sim_meta_class(2),
        unfolded e, OF pa(1) _ _ _ av i(1), of lc m "{x}"] pa av i by auto
qed

end
