(* ===== verification/Spec2Isabelle.thy ===== *)
theory Spec2Isabelle
  imports Sim_Os Bs_Alloc Sim_Malloc Elf_Claims Source_Claims General_Claims Frontend_Claims
begin

text \<open>
  This library verifies the memory allocators of the repository: \<open>slab-alloc\<close>, \<open>mmap-alloc\<close>,
  \<open>bsalloc\<close>, \<open>malloc-bind\<close>, \<open>bagpipe\<close> and \<open>elfmalloc\<close>.  File names are relative to \<open>src/\<close>.

  \<^bold>\<open>The program and the theories\<close>

  The program is a set of crates that serve memory.  \<open>mmap-alloc\<close> takes whole pages from the
  operating system.  \<open>bsalloc\<close> puts two lock-free caches on top of it.  \<open>slab-alloc\<close> carves
  slabs of objects of one size out of any backing allocator.  \<open>malloc-bind\<close> turns a Rust
  allocator into the C functions.  \<open>elfmalloc\<close> is a general allocator of its own: memory sources
  feed a page cache, whose pages become slags, shared arrays of objects; \<open>bagpipe\<close> is the
  concurrent bag in which pages and slags wait.

  \<^item> \<open>Prelude\<close>: layouts, regions, powers of two, rounding, alignment and checked arithmetic, for all
    theories.

  \<^item> \<open>Linked_List\<close>, \<open>Slab_Util\<close> (\<open>slab-alloc/src/util.rs\<close>): the intrusive list of slabs in a heap
    of nodes, the search for slab layouts, colours, working sets and page stacks.
    \<open>Ptr_Map\<close> (\<open>ptr_map.rs\<close>): the pointer hash table with its overflow buckets, growing and
    shrinking.  \<open>Init_System\<close> (\<open>init.rs\<close>): the two initialisation systems, and their contract
    \<open>init_system\<close>.  \<open>Slab_System\<close>: the trait of slab systems and the contract \<open>slab_system\<close>.
    \<open>Stack_Slab\<close>, \<open>Stack_System\<close> (\<open>stack.rs\<close>): the stack-based slab, and that it fulfils
    \<open>slab_system\<close> whenever its parts fulfil \<open>init_system\<close>, \<open>backing_alloc\<close> and \<open>config_data\<close>.
    \<open>Slab_Config\<close> (\<open>aligned.rs\<close>, \<open>large.rs\<close>): the two ways from an object to its slab.
    \<open>Sized_Slab\<close>, \<open>Slab_Alloc\<close> (\<open>lib.rs\<close>, \<open>backing.rs\<close>): the allocator over any slab system, the
    builders, and the interpretations of all the contracts on the code's own parts.

  \<^item> \<open>Mmap_Alloc\<close> (\<open>mmap-alloc/src/lib.rs\<close>): builder, \<open>MapAlloc\<close>, resizing in place, the object
    interface, with the Linux functions in full and the macOS ones where they differ.

  \<^item> \<open>Bs_Alloc\<close> (\<open>bsalloc/src\<close>): the calls as functions and as programs of atomic swaps, with the
    inductive relation \<open>bs_step\<close> that interleaves any number of threads.

  \<^item> \<open>Malloc_Bind\<close> (\<open>malloc-bind/src/lib.rs\<close>): the C functions over an allocator and a layout
    finder, for the three targets and for debug and release builds.

  \<^item> \<open>Bag_Queue\<close> (\<open>bagpipe/src/queue.rs\<close>, \<open>bag.rs\<close>): \<open>FAAQueueLowLevel\<close> and its revocable form,
    \<open>YangCrummeyQueue\<close>, and the contract \<open>bag_contract\<close> both interpret.  \<open>Bag_Pipe\<close>
    (\<open>bagpipe/src/lib.rs\<close>): the bag over a power of two of such queues, proved in \<open>bag_contract\<close>.
    \<open>Bag_Revoke\<close>: revocation from a pipe, and a third interpretation of the contract for it.

  \<^item> \<open>Slag_Meta\<close> (\<open>elfmalloc/src/slag.rs\<close>, module \<open>metadata\<close>): the layout search of a size class.
    \<open>Slag\<close>: the bit-set words, the reference count, \<open>Slag\<close> and \<open>AllocIter\<close>.  \<open>Slag_Threads\<close>: the
    owner of a slag and the threads that free into it, as the relation \<open>slag_step\<close>,
    the union of the steps of the claim, of the owner's iterator and of a free.
    \<open>Elf_Sources\<close> (\<open>sources.rs\<close>, \<open>utils.rs\<close>): mapped memory, \<open>MmapSource\<close>, \<open>Creek\<close>, \<open>Lazy\<close>,
    \<open>TypedArray\<close>.  \<open>Page_Alloc\<close> (\<open>slag.rs\<close>): the page cache over \<open>MmapSource\<close> and two pipes.
    \<open>Size_Classes\<close> and \<open>Large_Alloc\<close> (\<open>general.rs\<close>): from sizes to classes, and the blocks that
    are too large for a class.  \<open>Slag_Alloc\<close> (\<open>slag.rs\<close>): \<open>SlagAllocator\<close>, over the page cache and a
    pipe of available slags, with the slags in memory.  \<open>Frontends\<close> (\<open>frontends.rs\<close>): the stack of
    pointers and \<open>LocalCache\<close>, what a thread allocates from.

  \<^item> \<open>Bump_Alloc\<close>, \<open>Sim_Os\<close>, \<open>Sim_Malloc\<close> model no code.  They are an allocator, an operating
    system and an allocator with a layout finder that meet the contracts below, so that the
    properties can be applied to concrete runs.

  \<^bold>\<open>How the code is modelled\<close>

  State is passed explicitly.  Panics, aborts, failed assertions and undefined behaviour are the
  result \<open>None\<close>; errors the code returns are values.  A trait is a record of functions, its
  contract a locale, its implementations the interpretations of the locale.  Pointers are
  numbers or 64-bit words where their bits matter; sizes are numbers with the overflow checks of
  a debug build written out (except in the search for slag layouts, where they are unbounded), and
  the C interface has both builds.  Memory that is written through
  raw pointers is a map from addresses to the structure stored there.  Floating-point
  computations are those of rational numbers, rounded after each operation.

  Code outside the repository is a parameter with a contract: the system calls (\<open>os_contract\<close>,
  \<open>mmap_os\<close>, \<open>copy_contract\<close>, \<open>madvise_contract\<close>), the allocators behind \<open>slab-alloc\<close>
  (\<open>alloc_contract\<close>), those behind \<open>malloc-bind\<close> (\<open>malloc_contract\<close>).  They state what the manual
  pages and the documentation of the traits promise.

  The contracts are no stronger than these documents, with these exceptions.  \<open>os_contract\<close> leaves to
  a valid \<open>mmap\<close> or \<open>mremap\<close> only the error \<open>ENOMEM\<close> and lets \<open>munmap\<close> succeed; the code panics on
  all other errors.  \<open>elfmalloc\<close> ignores the result of \<open>madvise\<close>, and the model takes the advice to
  have been followed.  The finder of \<open>malloc_contract\<close> need only answer for blocks whose layout was
  inserted, and be called as its trait documents; \<open>Sim_Malloc\<close> has one that is a map and one that,
  like the trait's default methods, ignores insertions and deletions.

  Loops that may not end are \<open>partial_function\<close>s with the result \<open>None\<close> for running for ever,
  and the properties prove that they return; there is no fuel.  The one loop that does diverge,
  the layout search for objects of one byte, is a property of its own.

  Atomic operations are sequentially consistent.  Threads are modelled in \<open>Bs_Alloc\<close> and
  \<open>Slag_Threads\<close>, where every interleaving of the atomic operations is a run; the other
  components are modelled for one caller.

  Of the debug assertions, those on colours, null keys, slab addresses, objects of a slab, the
  alignment of sized allocations, lists, stacks, page sizes and alignments, reference counts, bit
  sets, size classes, pipes and memory sources are modelled.  Left out are two that repeat what the
  hash table already guarantees: \<open>bucket_insert\<close>'s inequality and the hashes in the growing of the
  table.

  Three counters are unbounded natural numbers: the offset and the two counts of failures of a pipe
  handle, which would overflow only after \<open>2^64\<close> failed attempts.  \<open>LocalCache\<close> gets its handles of the
  page cache and the pipe as arguments, where the code clones the ones it is given.

  \<^bold>\<open>What is shown\<close>

  The properties are in this theory for \<open>slab-alloc\<close>, \<open>mmap-alloc\<close>, \<open>bsalloc\<close> and \<open>malloc-bind\<close>, in
  \<open>Elf_Claims\<close> for slags and pipes, in \<open>Source_Claims\<close> for memory sources, in
  \<open>General_Claims\<close> for the page cache, the size classes and the large blocks, and in
  \<open>Frontend_Claims\<close> for a thread's cache.

  \<^item> Each allocator has a property on its histories: the blocks in the hands of clients are aligned
    and apart from each other, and no allowed call panics, unless memory runs out where the code
    panics or aborts for that.  For
    \<open>mmap-alloc\<close>, \<open>bsalloc\<close> and \<open>elfmalloc\<close> the blocks are inside mapped memory.  For \<open>malloc-bind\<close> the
    histories are those in which \<open>realloc\<close> moves no block, since a move breaks the contract of the
    finder.  For \<open>bsalloc\<close> and slags they are interleavings of threads; for slags the layout must be
    one whose bit-set the rotation of \<open>Slag::init\<close> fills completely, \<open>rotation_ok\<close>.

  \<^item> Dropping a slab allocator, a page cache or a thread's cache that has no live blocks returns all
    of its memory.

  \<^item> Each data structure refines its specification: the hash table a finite map, the list a
    sequence, the queues a first-in first-out queue, the pipe a bag, the reference count a pair.

  \<^item> Searches and loops end.  Slab layouts hold the most objects, aligned slab sizes waste least per
    object, a size gets the smallest class that holds it.  The search for slag layouts returns a
    layout that is consistent and full; that its score is the best is not shown.  \<open>bsalloc\<close>'s calls
    are wait-free.

  \<^item> Where the code does not do what it means to, a property states what it does instead, such as
    \<open>tiny_layout_search_diverges\<close>, \<open>creek_overruns_map\<close>, \<open>large_free_leaks\<close>,
    \<open>realloc_keeps_stale_layout\<close>.

  \<^bold>\<open>Not modelled\<close>

  \<^item> A second handle on a \<open>SlagAllocator\<close> (its \<open>clone\<close>), and the caches of \<open>elfmalloc/src/frontends.rs\<close>
    other than \<open>LocalCache\<close>.

  \<^item> \<open>ElfMalloc\<close>, its global instance (\<open>general.rs\<close>) and the adapters to the traits of the
    standard library (\<open>rust_alloc.rs\<close>, \<open>alloc_impl.rs\<close>, \<open>vec_alloc.rs\<close>) and to C (\<open>elfc\<close>), which
    forward to those caches; thread-local storage (\<open>alloc-tls\<close>), which is a matter of the linker
    and the run-time library.

  \<^item> Races inside the queues and pipes of \<open>bagpipe\<close>, and their memory reclamation, which is that of
    a library outside the repository; weak memory orderings.

  \<^item> The Windows functions of \<open>mmap-alloc\<close>, and the implementations that only forward.

  \<^item> Printing (\<open>alloc-fmt\<close>), statistics, benchmarks and test support (\<open>object-alloc-test\<close>); the
    table of primes of \<open>bagpipe\<close>, behind a feature that is off by default.
\<close>

section \<open>The slab allocator\<close>

text \<open>A layout for the witnesses: objects of 64 bytes, aligned to 8, on pages of 4096 bytes.\<close>

lemma witness_layout:
  "layout_ok \<lparr> lay_size = 64, lay_align = 8 \<rparr>"
  "satisfy_min_align \<lparr> lay_size = 64, lay_align = 8 \<rparr> (is_min_align nop_init_system) = Some \<lparr> lay_size = 64, lay_align = 8 \<rparr>"
  "buildable 4096 \<lparr> lay_size = 64, lay_align = 8 \<rparr>"
  using is_power_of_two_power [of 3] is_power_of_two_power [of 12]
  by (simp_all add: layout_ok_def satisfy_min_align_def nop_init_system_def buildable_def slab_needs_def array_offset_def
      stack_begin_offset_def slab_header_size_def bytes_for_def word_bytes_def padding_after_def padding_needed_for_def
      objects_per_slab_def Let_def)

lemma witness_build:
  "\<exists>s. build_backing nop_init_system optimized_map 4096 (alloc_object_ops bump_ops) (alloc_object_ops bump_ops)
        (heap_get_aligned 4096 bump_start) (heap_get_large bump_start) 0 (\<lambda>_. 0) \<lparr> lay_size = 64, lay_align = 8 \<rparr> = Some s
    \<and> slab_inv nop_init_system (alloc_object_ops bump_ops) (aoa_own bp_live) (aoa_inv bump_ops bp_live bump_inv)
        (alloc_object_ops bump_ops) (aoa_own bp_live) (aoa_inv bump_ops bp_live bump_inv)
        (large_cinv pm_inv pm_map 4096) \<lparr> lay_size = 64, lay_align = 8 \<rparr> s
    \<and> slab_live nop_init_system s = {} \<and> slab_period s = 0"
  by (rule build_heap_ok [OF nop.init_system_axioms witness_layout(2,1,3) bump_ok bump_start_ok])

text \<open>C1.  Any history of a heap-backed slab allocator is safe.  Whatever allocations and
  deallocations a client makes (returning only objects it holds), the objects it holds are
  blocks of the object layout that do not overlap, the next allocation does not panic and
  gives no object the client still holds, and every object it holds can be returned.\<close>

theorem slab_history_safe:
  assumes "init_system I" "satisfy_min_align l0 (is_min_align I) = Some l" "layout_ok l0" "buildable pg l"
    and "alloc_ok A aown ainv"
    and "ainv hp" "aown hp = Map.empty"
    and "build_backing I optimized_map pg (alloc_object_ops A) (alloc_object_ops A)
      (heap_get_aligned pg hp) (heap_get_large hp) now mem l0 = Some s0"
    and "slab_reach (slab_alloc I optimized_map pg (alloc_object_ops A) (alloc_object_ops A))
      (slab_dealloc I optimized_map pg (alloc_object_ops A) (alloc_object_ops A)) s0 now s t live"
  shows "blocks_ok l live
    \<and> (\<exists>s' r. slab_alloc I optimized_map pg (alloc_object_ops A) (alloc_object_ops A) s = Some (s', r) \<and> r \<notin> Some ` live)
    \<and> (\<forall>x \<in> live. slab_dealloc I optimized_map pg (alloc_object_ops A) (alloc_object_ops A) t s x \<noteq> None)"
proof -
  note front = slab_build.axioms(1) [OF slab_build_opt [OF assms(1)]]
  have start: "slab_inv I (alloc_object_ops A) (aoa_own aown) (aoa_inv A aown ainv)
        (alloc_object_ops A) (aoa_own aown) (aoa_inv A aown ainv) (large_cinv pm_inv pm_map pg) l s0"
      "slab_live I s0 = {}" "slab_period s0 \<le> now"
    using build_heap_ok [OF assms(1-7), of now mem] assms(8) by auto
  show ?thesis
    using slab_front.reach_safe(1-3) [OF front assms(9) start] by blast
qed

theorem slab_history_safe_witness:
  "\<exists>s0 s r. build_backing nop_init_system optimized_map 4096 (alloc_object_ops bump_ops) (alloc_object_ops bump_ops)
        (heap_get_aligned 4096 bump_start) (heap_get_large bump_start) 0 (\<lambda>_. 0) \<lparr> lay_size = 64, lay_align = 8 \<rparr> = Some s0
    \<and> slab_alloc nop_init_system optimized_map 4096 (alloc_object_ops bump_ops) (alloc_object_ops bump_ops) s0 = Some (s, r)
    \<and> blocks_ok \<lparr> lay_size = 64, lay_align = 8 \<rparr> (set_option r)"
proof -
  obtain s0 where s0: "build_backing nop_init_system optimized_map 4096 (alloc_object_ops bump_ops) (alloc_object_ops bump_ops)
        (heap_get_aligned 4096 bump_start) (heap_get_large bump_start) 0 (\<lambda>_. 0) \<lparr> lay_size = 64, lay_align = 8 \<rparr> = Some s0"
    using witness_build by blast
  note safe = slab_history_safe [OF nop.init_system_axioms witness_layout(2,1,3) bump_ok bump_start_ok s0]
  obtain s r where a: "slab_alloc nop_init_system optimized_map 4096 (alloc_object_ops bump_ops) (alloc_object_ops bump_ops) s0
      = Some (s, r)"
    using safe [OF slab_reach.start] by blast
  have "slab_reach (slab_alloc nop_init_system optimized_map 4096 (alloc_object_ops bump_ops) (alloc_object_ops bump_ops))
      (slab_dealloc nop_init_system optimized_map 4096 (alloc_object_ops bump_ops) (alloc_object_ops bump_ops)) s0 0 s 0 (set_option r)"
    using slab_reach.got [OF slab_reach.start] slab_reach.exhausted [OF slab_reach.start] a by (cases r) auto
  from safe [OF this] s0 a show ?thesis by blast
qed

text \<open>C2.  A heap-backed slab allocator that is dropped when its client holds no object returns
  every slab to the heap; dropped while the client still holds an object, it panics.\<close>

theorem slab_drop_returns_all:
  assumes "init_system I" "satisfy_min_align l0 (is_min_align I) = Some l" "layout_ok l0" "buildable pg l"
    and "alloc_ok A aown ainv"
    and "ainv hp" "aown hp = Map.empty"
    and "build_backing I optimized_map pg (alloc_object_ops A) (alloc_object_ops A)
      (heap_get_aligned pg hp) (heap_get_large hp) now mem l0 = Some s0"
    and "slab_reach (slab_alloc I optimized_map pg (alloc_object_ops A) (alloc_object_ops A))
      (slab_dealloc I optimized_map pg (alloc_object_ops A) (alloc_object_ops A)) s0 now s t live"
  shows "if live = {}
    then \<exists>s'. slab_drop I optimized_map pg (alloc_object_ops A) (alloc_object_ops A) panicking s = Some s'
      \<and> slab_blocks (aoa_own aown) (aoa_own aown) s' = {}
    else slab_drop I optimized_map pg (alloc_object_ops A) (alloc_object_ops A) False s = None"
proof -
  note front = slab_build.axioms(1) [OF slab_build_opt [OF assms(1)]]
  have start: "slab_inv I (alloc_object_ops A) (aoa_own aown) (aoa_inv A aown ainv)
        (alloc_object_ops A) (aoa_own aown) (aoa_inv A aown ainv) (large_cinv pm_inv pm_map pg) l s0"
      "slab_live I s0 = {}" "slab_period s0 \<le> now"
    using build_heap_ok [OF assms(1-7), of now mem] assms(8) by auto
  show ?thesis
    using slab_front.reach_safe(4,5) [OF front assms(9) start] by simp
qed

theorem slab_drop_returns_all_witness:
  "\<exists>s0 s'. build_backing nop_init_system optimized_map 4096 (alloc_object_ops bump_ops) (alloc_object_ops bump_ops)
        (heap_get_aligned 4096 bump_start) (heap_get_large bump_start) 0 (\<lambda>_. 0) \<lparr> lay_size = 64, lay_align = 8 \<rparr> = Some s0
    \<and> slab_drop nop_init_system optimized_map 4096 (alloc_object_ops bump_ops) (alloc_object_ops bump_ops) False s0 = Some s'
    \<and> slab_blocks (aoa_own bp_live) (aoa_own bp_live) s' = {}"
proof -
  obtain s0 where s0: "build_backing nop_init_system optimized_map 4096 (alloc_object_ops bump_ops) (alloc_object_ops bump_ops)
        (heap_get_aligned 4096 bump_start) (heap_get_large bump_start) 0 (\<lambda>_. 0) \<lparr> lay_size = 64, lay_align = 8 \<rparr> = Some s0"
    using witness_build by blast
  from slab_drop_returns_all [OF nop.init_system_axioms witness_layout(2,1,3) bump_ok bump_start_ok s0 slab_reach.start,
      of False] s0
  show ?thesis by simp
qed

text \<open>C3.  Building a heap-backed slab allocator succeeds for every buildable layout, and it
  always uses large slabs: the size chosen for aligned slabs is at least two pages, and the
  heap supports aligned slabs of at most one page.\<close>

theorem slab_build_heap:
  assumes "init_system I" "satisfy_min_align l0 (is_min_align I) = Some l" "layout_ok l0" "buildable pg l"
    and "alloc_ok A aown ainv"
    and "ainv hp" "aown hp = Map.empty"
  shows "\<exists>a. build_backing I optimized_map pg (alloc_object_ops A) (alloc_object_ops A)
      (heap_get_aligned pg hp) (heap_get_large hp) now mem l0 = Some (Large a) \<and> sa_layout a = l0"
proof -
  obtain s where s: "build_backing I optimized_map pg (alloc_object_ops A) (alloc_object_ops A)
      (heap_get_aligned pg hp) (heap_get_large hp) now mem l0 = Some s"
    using build_heap_ok [OF assms, of now mem] by blast
  with build_heap_large [OF s assms(2,4)] show ?thesis by blast
qed

theorem slab_build_heap_witness:
  "\<exists>a. build_backing nop_init_system optimized_map 4096 (alloc_object_ops bump_ops) (alloc_object_ops bump_ops)
      (heap_get_aligned 4096 bump_start) (heap_get_large bump_start) 0 (\<lambda>_. 0) \<lparr> lay_size = 64, lay_align = 8 \<rparr>
    = Some (Large a) \<and> sa_layout a = \<lparr> lay_size = 64, lay_align = 8 \<rparr>"
  by (rule slab_build_heap [OF nop.init_system_axioms witness_layout(2,1,3) bump_ok bump_start_ok])

text \<open>C4.  Objects of more than about two gigabytes cannot be built at all, although large
  slabs would hold them: the builder computes the layout of an aligned slab first, and no layout
  has an alignment above \<open>2^31\<close>.\<close>

theorem slab_build_too_big:
  assumes "satisfy_min_align l0 (is_min_align I) = Some l" "0 < lay_align l" "is_power_of_two pg" "pg < 2 ^ 63"
    "2 ^ 31 < slab_needs l 1" "slab_needs l 1 \<le> 2 ^ 63"
  shows "build_backing I mo pg BA BL get_aligned get_large now mem l0 = None"
  by (rule build_too_big [OF assms])

theorem slab_build_too_big_witness:
  "build_backing nop_init_system optimized_map 4096 (alloc_object_ops bump_ops) (alloc_object_ops bump_ops)
     (heap_get_aligned 4096 bump_start) (heap_get_large bump_start) 0 (\<lambda>_. 0)
     \<lparr> lay_size = 2147483648, lay_align = 8 \<rparr> = None"
  by (rule slab_build_too_big [of _ _ "\<lparr> lay_size = 2147483648, lay_align = 8 \<rparr>"])
    (use is_power_of_two_power [of 12] in \<open>simp_all add: satisfy_min_align_def nop_init_system_def slab_needs_def
      array_offset_def stack_begin_offset_def slab_header_size_def bytes_for_def word_bytes_def padding_after_def
      padding_needed_for_def Let_def\<close>)

text \<open>C5.  The pointer hash table refines a finite map: on every table that satisfies the
  invariant, and for every key but null, a lookup gives the value of the map, an insertion of a
  new key adds it, and a deletion of a known key removes it, whether or not the operation grows
  or shrinks the table.\<close>

theorem ptr_map_refines_map:
  assumes "pm_inv m" "k \<noteq> null"
  shows "pm_get m k = pm_map m k
    \<and> (if pm_map m k = None
       then \<exists>m'. pm_insert m k v = Some m' \<and> pm_inv m' \<and> pm_map m' = (pm_map m)(k \<mapsto> v)
       else \<exists>m'. pm_delete m k = Some m' \<and> pm_inv m' \<and> pm_map m' = (pm_map m)(k := None))"
  using assms pm_get_map [OF assms] pm_insert_map [OF assms] pm_delete_map [OF assms(1), of k] by auto

theorem ptr_map_refines_map_witness:
  "\<exists>m m'. ptr_hash_map_new 2 8 = Some m \<and> pm_insert m 4096 8192 = Some m' \<and> pm_map m' = [4096 \<mapsto> 8192]"
proof -
  obtain m where m: "ptr_hash_map_new 2 8 = Some m" "pm_inv m" "pm_map m = Map.empty"
    using pm_new_inv [of 8 2] by auto
  then show ?thesis using ptr_map_refines_map [of m 4096 8192] by auto
qed

text \<open>Deleting from a bucket never compacts it: the scan of \<open>remove_last\<close> runs over the
  empty range from the bucket size to an index inside the bucket, so the slot of the deleted
  key is simply cleared and overflow buckets are never freed.\<close>

lemma bucket_delete_clears_slot:
  assumes "slot_index k d = Some i" "length d = bucket_size"
  shows "bucket_delete (Bucket d nx) k = Some (Bucket (d[i := empty_slot]) nx)"
  using assms slot_index_Some [OF assms(1)] remove_last_noop [of "Suc i" "Bucket d nx"] by simp

lemma bucket_delete_clears_slot_witness:
  "slot_index 8 [(8, 1), (16, 2), (24, 3), (32, 4)] = Some 0
    \<and> bucket_delete (Bucket [(8, 1), (16, 2), (24, 3), (32, 4)] (Some bucket_default)) 8
      = Some (Bucket [empty_slot, (16, 2), (24, 3), (32, 4)] (Some bucket_default))"
  using bucket_delete_clears_slot [of 8 "[(8, 1), (16, 2), (24, 3), (32, 4)]" 0 "Some bucket_default"]
  by (simp add: bucket_size_def)

text \<open>C6.  The intrusive doubly linked list of slabs behaves like a sequence: inserting an
  unlinked slab at either end, removing from either end and moving a slab to the back fail none of
  their assertions, do not overflow the size, have the effect their names say, and change nothing
  of the slabs but their links; \<open>peek_front\<close> gives the first slab; and on the empty list the
  operations that need a slab fail their assertion.\<close>

theorem slab_list_refines_sequence:
  assumes "wf_list slab_header_linkable h fl xs"
  shows "(\<forall>t. unlinked slab_header_linkable h t \<longrightarrow> t \<notin> set xs \<longrightarrow>
        (\<exists>h' fl'. insert_front slab_header_linkable fl t h = Some (h', fl')
          \<and> wf_list slab_header_linkable h' fl' (t # xs) \<and> same_payload header_payload (set (t # xs)) h h')
      \<and> (\<exists>h' fl'. insert_back slab_header_linkable fl t h = Some (h', fl')
          \<and> wf_list slab_header_linkable h' fl' (xs @ [t]) \<and> same_payload header_payload (set (xs @ [t])) h h'))
    \<and> (\<forall>t ys. xs = t # ys \<longrightarrow> peek_front fl = Some t
        \<and> (\<exists>h' fl'. remove_front slab_header_linkable fl h = Some (h', fl', t) \<and> wf_list slab_header_linkable h' fl' ys
          \<and> unlinked slab_header_linkable h' t \<and> same_payload header_payload (set xs) h h'))
    \<and> (\<forall>t ys. xs = ys @ [t] \<longrightarrow> (\<exists>h' fl'. remove_back slab_header_linkable fl h = Some (h', fl', t)
          \<and> wf_list slab_header_linkable h' fl' ys \<and> unlinked slab_header_linkable h' t
          \<and> same_payload header_payload (set xs) h h'))
    \<and> (\<forall>ys t zs. xs = ys @ t # zs \<longrightarrow> (\<exists>h' fl'. move_to_back slab_header_linkable fl t h = Some (h', fl')
          \<and> wf_list slab_header_linkable h' fl' (ys @ zs @ [t]) \<and> same_payload header_payload (set xs) h h'))
    \<and> (xs = [] \<longrightarrow> remove_front slab_header_linkable fl h = None \<and> remove_back slab_header_linkable fl h = None
        \<and> peek_front fl = None \<and> (\<forall>t. move_to_back slab_header_linkable fl t h = None))"
proof (intro conjI allI impI)
  fix t
  assume t: "unlinked slab_header_linkable h t" "t \<notin> set xs"
  show "\<exists>h' fl'. insert_front slab_header_linkable fl t h = Some (h', fl')
      \<and> wf_list slab_header_linkable h' fl' (t # xs) \<and> same_payload header_payload (set (t # xs)) h h'"
    by (rule slab_headers.insert_front_wf [OF assms t])
  show "\<exists>h' fl'. insert_back slab_header_linkable fl t h = Some (h', fl')
      \<and> wf_list slab_header_linkable h' fl' (xs @ [t]) \<and> same_payload header_payload (set (xs @ [t])) h h'"
    by (rule slab_headers.insert_back_wf [OF assms t])
next
  fix t ys assume xs: "xs = t # ys"
  show "peek_front fl = Some t" using assms xs by (simp add: wf_list_peek)
  show "\<exists>h' fl'. remove_front slab_header_linkable fl h = Some (h', fl', t) \<and> wf_list slab_header_linkable h' fl' ys
      \<and> unlinked slab_header_linkable h' t \<and> same_payload header_payload (set xs) h h'"
    using slab_headers.remove_front_wf assms xs by blast
next
  fix t ys assume "xs = ys @ [t]"
  then show "\<exists>h' fl'. remove_back slab_header_linkable fl h = Some (h', fl', t)
      \<and> wf_list slab_header_linkable h' fl' ys \<and> unlinked slab_header_linkable h' t
      \<and> same_payload header_payload (set xs) h h'"
    using slab_headers.remove_back_wf assms by blast
next
  fix ys t zs assume "xs = ys @ t # zs"
  then show "\<exists>h' fl'. move_to_back slab_header_linkable fl t h = Some (h', fl')
      \<and> wf_list slab_header_linkable h' fl' (ys @ zs @ [t]) \<and> same_payload header_payload (set xs) h h'"
    using slab_headers.move_to_back_wf assms by blast
next
  assume "xs = []"
  then have "ll_size fl = 0" using wf_list_size [OF assms] by simp
  then show "remove_front slab_header_linkable fl h = None" "remove_back slab_header_linkable fl h = None"
      "peek_front fl = None" "move_to_back slab_header_linkable fl t h = None" for t
    by (simp_all add: remove_front_def remove_back_def peek_front_def move_to_back_def)
qed

theorem slab_list_refines_sequence_witness:
  "\<exists>h' fl'. insert_front slab_header_linkable ll_new 4096
      [4096 \<mapsto> \<lparr> sh_stack = stack_new, sh_color = 0, sh_next = null, sh_prev = null \<rparr>] = Some (h', fl')
    \<and> wf_list slab_header_linkable h' fl' [4096]"
proof -
  let ?h = "[4096 \<mapsto> \<lparr> sh_stack = stack_new, sh_color = 0, sh_next = null, sh_prev = null \<rparr>]"
  have wf: "wf_list slab_header_linkable ?h ll_new []"
    by (simp add: wf_list_def ll_new_def hd_or_def last_or_def)
  have u: "unlinked slab_header_linkable ?h 4096"
    by (simp add: unlinked_def slab_header_linkable_def)
  show ?thesis using slab_list_refines_sequence [OF wf] u by auto
qed

text \<open>C7.  The layout of a slab holds as many objects as fit.  As long as a slab of \<open>S\<close> bytes and one
  more object stay within the address space, \<open>for_slab_size\<close> neither overflows nor fails an
  assertion, and it refuses exactly the slabs that cannot hold one object.  Where it returns a
  layout, the slab can hold \<open>n\<close> objects exactly when header, stack, padding and objects together
  need at most \<open>S\<close> bytes, and the objects, shifted by any colour, stay inside the slab behind the
  stack.\<close>

theorem slab_layout_optimal:
  assumes "0 < lay_align l" "0 < lay_size l"
  shows "(S + slab_needs l 1 < 2 ^ 64 \<longrightarrow>
      (if S < slab_needs l 1 then for_slab_size l S = Some None else \<exists>sl u. for_slab_size l S = Some (Some (sl, u))))
    \<and> (\<forall>sl u. for_slab_size l S = Some (Some (sl, u)) \<longrightarrow>
      (\<forall>n. n \<le> sl_num_obj sl \<longleftrightarrow> slab_needs l n \<le> S) \<and> u = S - slab_needs l (sl_num_obj sl)
      \<and> (\<forall>c i. c \<le> cs_max_color (sl_color_settings sl) \<longrightarrow> i < sl_num_obj sl \<longrightarrow>
           stack_begin_offset + bytes_for (sl_num_obj sl) \<le> sl_array_begin_offset sl + c + i * lay_size l
           \<and> sl_array_begin_offset sl + c + i * lay_size l + lay_size l \<le> S))"
proof (intro conjI [OF impI] allI impI)
  fix sl u assume s: "for_slab_size l S = Some (Some (sl, u))"
  note spec = for_slab_size_spec [OF assms(1) s] and ok = for_slab_size_ok [OF assms s]
  show "(\<forall>n. n \<le> sl_num_obj sl \<longleftrightarrow> slab_needs l n \<le> S) \<and> u = S - slab_needs l (sl_num_obj sl)
      \<and> (\<forall>c i. c \<le> cs_max_color (sl_color_settings sl) \<longrightarrow> i < sl_num_obj sl \<longrightarrow>
           stack_begin_offset + bytes_for (sl_num_obj sl) \<le> sl_array_begin_offset sl + c + i * lay_size l
           \<and> sl_array_begin_offset sl + c + i * lay_size l + lay_size l \<le> S)"
    using spec(2,3,6) obj_offset_end [OF ok] by (simp add: obj_offset_def)
qed (rule for_slab_size_total [OF assms(1)])

theorem slab_layout_optimal_witness:
  "\<exists>sl u. for_slab_size \<lparr> lay_size = 1000, lay_align = 8 \<rparr> 4096 = Some (Some (sl, u))
    \<and> sl_num_obj sl = 4 \<and> u = 32"
proof -
  let ?l = "\<lparr> lay_size = 1000, lay_align = 8 \<rparr>"
  have needs: "slab_needs ?l 1 = 1040" "slab_needs ?l 4 = 4064" "slab_needs ?l 5 = 5072"
    by (simp_all add: slab_needs_def array_offset_def stack_begin_offset_def slab_header_size_def bytes_for_def
        word_bytes_def padding_after_def padding_needed_for_def Let_def)
  note opt = slab_layout_optimal [of ?l 4096, simplified needs, simplified]
  obtain sl u where s: "for_slab_size ?l 4096 = Some (Some (sl, u))" using opt by auto
  then have "4 \<le> sl_num_obj sl" "\<not> 5 \<le> sl_num_obj sl" "u = 4096 - slab_needs ?l (sl_num_obj sl)"
    using slab_layout_optimal [of ?l 4096] needs by simp_all
  then have "sl_num_obj sl = 4" by simp
  then show ?thesis using s needs \<open>u = 4096 - slab_needs ?l (sl_num_obj sl)\<close> by simp
qed

text \<open>C8.  The search for the size of aligned slabs ends without overflow for every layout that fits
  into half of the address space, with a power of two of at least two pages that holds an object; among the sizes
  it looks at that hold at most \<open>OBJECTS_PER_SLAB\<close> objects it takes one with the least unused
  space per object.\<close>

theorem aligned_size_search:
  assumes "0 < lay_align l" "k < 63" "slab_needs l 1 < 2 ^ 63"
  shows "\<exists>j. aligned_backing_size_for (2 ^ k) l = Some (Some (2 ^ j)) \<and> Suc k \<le> j \<and> j < 64 \<and> slab_needs l 1 \<le> 2 ^ j
    \<and> best_size (unused_in l) objects_per_slab (map ((^) 2) [Suc k ..< 64]) (Some (2 ^ j))"
  using aligned_size_found [OF assms] by (simp add: Suc_le_eq)

theorem aligned_size_search_witness:
  "\<exists>j. aligned_backing_size_for (2 ^ 12) \<lparr> lay_size = 64, lay_align = 8 \<rparr> = Some (Some (2 ^ j)) \<and> 13 \<le> j"
  using aligned_size_search [of "\<lparr> lay_size = 64, lay_align = 8 \<rparr>" 12]
  by (auto simp: slab_needs_def array_offset_def stack_begin_offset_def slab_header_size_def bytes_for_def
      word_bytes_def padding_after_def padding_needed_for_def Let_def)

text \<open>C9.  Slab colouring cycles through every multiple of the alignment up to the largest
  colour and then starts again at zero.\<close>

theorem coloring_cycles:
  assumes "0 < al"
  shows "colors al n (color_settings_new al unused) =
    map (\<lambda>i. (i mod (unused div al + 1)) * al) [0 ..< n]"
  using colors_cycle [of al "color_settings_new al unused" n] color_settings_new_wf [OF assms] assms
  by (simp add: color_settings_new_def)

theorem coloring_cycles_witness:
  "0 < (16 :: nat) \<and> colors 16 5 (color_settings_new 16 40) = [0, 16, 32, 0, 16]"
  using coloring_cycles [of 16 5 40] by (simp add: upt_rec)

text \<open>C10.  Packing the initialisation status into the lowest bit of an even pointer loses
  neither, so distinct objects have distinct packed words.\<close>

theorem init_pack_round_trip:
  assumes "2 dvd unat p"
  shows "init_unpack_ptr (init_pack p st) = p \<and> init_unpack_status (init_pack p st) = st"
  using init_unpack_ptr_pack [OF assms] init_unpack_status_pack [OF assms] by simp

theorem init_pack_round_trip_witness:
  "init_unpack_ptr (init_pack 4098 True) = 4098 \<and> init_unpack_status (init_pack 4098 True)"
  using init_pack_round_trip [of 4098 True] by simp

text \<open>C11.  The stack of free objects in a slab is last in, first out: after a push inside the
  capacity the elements are the old ones followed by the new one, and a pop gives it back.\<close>

theorem stack_push_pop:
  assumes "fits data (bytes_for cap)" "stk_size s < cap" "stack_push s data v mem = (s', mem')"
  shows "stack_elems s' data mem' = stack_elems s data mem @ [v]
    \<and> (\<exists>s''. stack_pop s' data mem' = Some (s'', v) \<and> stack_elems s'' data mem' = stack_elems s data mem)"
  using stack_elems_push [OF assms] stack_pop_elems [of s' data mem' "stack_elems s data mem" v] by simp

theorem stack_push_pop_witness:
  "\<exists>s' mem'. stack_push stack_new 4096 7 (\<lambda>_. 0) = (s', mem') \<and> stack_elems s' 4096 mem' = [7]"
proof -
  obtain s' mem' where p: "stack_push stack_new 4096 7 (\<lambda>_. 0) = (s', mem')"
    by (cases "stack_push stack_new 4096 7 (\<lambda>_. 0)")
  have "fits 4096 (bytes_for 1)" by (simp add: fits_def bytes_for_def word_bytes_def)
  from stack_push_pop [OF this _ p] p show ?thesis by (simp add: stack_new_def stack_elems_def)
qed

section \<open>Memory from the operating system\<close>

text \<open>C12.  Any history of a \<open>MapAlloc\<close> on Linux is safe.  Whatever blocks a client allocates, returns,
  reallocates or resizes in place, the blocks it holds are page aligned, do not overlap each
  other or memory mapped before, and together are all the memory the allocator has mapped, so
  nothing leaks; and the next call of any operation on them does not panic.\<close>

theorem map_alloc_history:
  assumes "mmap_os OS mapped byte m" "map_reach OS m s0 s live"
  shows "mapped s = mapped s0 \<union> held (os_pagesize OS) live \<and> held (os_pagesize OS) live \<inter> mapped s0 = {}
    \<and> apart (os_pagesize OS) live \<and> placed (os_pagesize OS) live
    \<and> (\<forall>l. mappable (os_pagesize OS) l \<longrightarrow> ma_alloc OS m s l \<noteq> None \<and> ma_usable_size m l \<noteq> None)
    \<and> (\<forall>p l. live p = Some l \<longrightarrow> ma_dealloc OS m s p l \<noteq> None
         \<and> (\<forall>l'. mappable (os_pagesize OS) l' \<longrightarrow> ma_realloc OS m s p l l' \<noteq> None \<and> resize_in_place OS m s p l l' \<noteq> None))"
proof -
  note b = map_reach_blocks [OF assms]
  have "ma_alloc OS m s l \<noteq> None \<and> ma_usable_size m l \<noteq> None" if "mappable (os_pagesize OS) l" for l
    using alloc_cases [OF assms(1) that b] usable_size_eq [OF assms(1) that] by auto
  moreover have "ma_dealloc OS m s p l \<noteq> None" if "live p = Some l" for p l
    using dealloc_ok [OF assms(1) b, of p l, OF that] by auto
  moreover have "ma_realloc OS m s p l l' \<noteq> None \<and> resize_in_place OS m s p l l' \<noteq> None"
    if "live p = Some l" "mappable (os_pagesize OS) l'" for p l l'
    using realloc_cases [OF assms(1) b, of p l l', OF that] resize_cases [OF assms(1) b, of p l l', OF that] by auto
  ultimately show ?thesis using b by (simp add: blocks_at_def)
qed

lemma sim_pagesize: "os_pagesize sim_os = 4096"
  by (simp add: sim_os_def)

lemma sim_got: "\<exists>s p. map_reach sim_os sim_alloc sim_start s [p \<mapsto> \<lparr> lay_size = 100, lay_align = 8 \<rparr>]
    \<and> ma_alloc sim_os sim_alloc sim_start \<lparr> lay_size = 100, lay_align = 8 \<rparr> = Some (s, Inr p)"
proof -
  have "\<exists>s p. ma_alloc sim_os sim_alloc sim_start \<lparr> lay_size = 100, lay_align = 8 \<rparr> = Some (s, Inr p)"
    by (simp add: ma_alloc_def sim_alloc_def next_multiple_def map_pages_def sim_os_def sim_mmap_def sim_start_def Let_def
        round_up_def padding_needed_for_def)
  then show ?thesis
    using map_reach.got [OF map_reach.start, of sim_os "\<lparr> lay_size = 100, lay_align = 8 \<rparr>" sim_alloc sim_start]
      sim_mappable(1) by (auto simp: sim_pagesize)
qed

theorem map_alloc_history_witness:
  "\<exists>s p. sim_mapped s = sim_mapped sim_start \<union> held 4096 [p \<mapsto> \<lparr> lay_size = 100, lay_align = 8 \<rparr>]
    \<and> ma_dealloc sim_os sim_alloc s p \<lparr> lay_size = 100, lay_align = 8 \<rparr> \<noteq> None"
proof -
  obtain s p where r: "map_reach sim_os sim_alloc sim_start s [p \<mapsto> \<lparr> lay_size = 100, lay_align = 8 \<rparr>]"
    using sim_got by blast
  from map_alloc_history [OF sim_mmap_os r] show ?thesis
    by (intro exI [of _ s] exI [of _ p]) (simp add: sim_pagesize)
qed

text \<open>C13.  A reallocation keeps the contents.  If \<open>realloc\<close> succeeds, the new block starts with the
  bytes of the old one, up to the smaller size, and no other mapped byte changes; if it fails,
  the old block and all contents are as before.\<close>

theorem map_realloc_keeps_contents:
  assumes "mmap_os OS mapped byte m" "map_reach OS m s0 s live" "live p = Some l" "mappable (os_pagesize OS) l'"
  shows "case ma_realloc OS m s p l l' of
      Some (s', Inr q) \<Rightarrow> kept byte s s' (mapped s - pages (os_pagesize OS) p (lay_size l))
        \<and> (\<forall>i. i < lay_size l \<longrightarrow> i < lay_size l' \<longrightarrow> byte s' (unat q + i) = byte s (unat p + i))
    | Some (s', Inl e) \<Rightarrow> e = MapExhausted l' \<and> mapped s' = mapped s \<and> kept byte s s' (mapped s)
    | None \<Rightarrow> False"
  using realloc_cases [OF assms(1) map_reach_blocks [OF assms(1,2)] assms(3,4)] by auto

theorem map_realloc_keeps_contents_witness:
  "\<exists>s p s' q. ma_realloc sim_os sim_alloc s p \<lparr> lay_size = 100, lay_align = 8 \<rparr> \<lparr> lay_size = 5000, lay_align = 8 \<rparr> = Some (s', Inr q)
    \<and> sim_byte s' (unat q + 99) = sim_byte s (unat p + 99)"
proof -
  let ?l = "\<lparr> lay_size = 100, lay_align = 8 \<rparr>" let ?l' = "\<lparr> lay_size = 5000, lay_align = 8 \<rparr>"
  obtain s p where r: "map_reach sim_os sim_alloc sim_start s [p \<mapsto> ?l]" and al: "ma_alloc sim_os sim_alloc sim_start ?l = Some (s, Inr p)"
    using sim_got by blast
  have m: "mappable (os_pagesize sim_os) ?l'" using sim_mappable(2) by (simp add: sim_pagesize)
  have p: "p = 4096" "sim_next s = 8192"
    using al by (auto simp: ma_alloc_def sim_alloc_def next_multiple_def map_pages_def sim_os_def sim_mmap_def sim_start_def Let_def
        round_up_def padding_needed_for_def)
  obtain s' q where re: "ma_realloc sim_os sim_alloc s p ?l ?l' = Some (s', Inr q)"
    by (atomize_elim, simp add: ma_realloc_def sim_alloc_def next_multiple_def remap_pages_def sim_os_def sim_mremap_def sim_mmap_def Let_def
        round_up_def padding_needed_for_def p)
  have "\<forall>i. i < 100 \<longrightarrow> i < 5000 \<longrightarrow> sim_byte s' (unat q + i) = sim_byte s (unat p + i)"
    using map_realloc_keeps_contents [OF sim_mmap_os r _ m, of p ?l] by (simp add: re)
  then have "sim_byte s' (unat q + 99) = sim_byte s (unat p + 99)" by simp
  then show ?thesis using re by blast
qed

text \<open>C14.  \<open>usable_size\<close> is exact: every size between the two bounds is served by the same mapping,
  and no other size is.\<close>

theorem map_usable_size_exact:
  assumes "mmap_os OS mapped byte m" "mappable (os_pagesize OS) l" "ma_usable_size m l = Some (lo, hi)"
  shows "lo \<le> lay_size l \<and> lay_size l \<le> hi
    \<and> (\<forall>n. lo \<le> n \<and> n \<le> hi \<longleftrightarrow> 0 < n \<and> round_up (os_pagesize OS) n = round_up (os_pagesize OS) (lay_size l))"
proof -
  let ?pg = "os_pagesize OS"
  note pg = pg_pos [OF assms(1)]
  have hi: "hi = round_up ?pg (lay_size l)" "lo = hi - ?pg + 1"
    using usable_size_eq [OF assms(1,2)] assms(3) by simp_all
  have dv: "?pg dvd hi" and b: "lay_size l \<le> hi" "hi < lay_size l + ?pg"
    using round_up_bounds [OF pg, of "lay_size l"] by (simp_all add: hi(1))
  have pos: "0 < lay_size l" using assms(2) by (simp add: mappable_def)
  have ge: "?pg \<le> hi" using dv b pos by (auto dest: dvd_imp_le)
  have "lo \<le> n \<and> n \<le> hi \<longleftrightarrow> 0 < n \<and> round_up ?pg n = hi" for n
  proof
    assume n: "lo \<le> n \<and> n \<le> hi"
    then have "hi < n + ?pg" "0 < n" using ge hi(2) by linarith+
    then show "0 < n \<and> round_up ?pg n = hi" using round_up_eqI [OF pg dv, of n] n by simp
  next
    assume n: "0 < n \<and> round_up ?pg n = hi"
    then have "n \<le> hi" "hi < n + ?pg" using round_up_bounds(1,2) [OF pg, of n] by simp_all
    then show "lo \<le> n \<and> n \<le> hi" using ge hi(2) by linarith
  qed
  moreover have "lo \<le> lay_size l" using b ge hi(2) by linarith
  ultimately show ?thesis using b by (simp add: hi(1))
qed

theorem map_usable_size_exact_witness:
  "ma_usable_size sim_alloc \<lparr> lay_size = 100, lay_align = 8 \<rparr> = Some (1, 4096)
    \<and> round_up 4096 1 = round_up 4096 100"
proof -
  have u: "ma_usable_size sim_alloc \<lparr> lay_size = 100, lay_align = 8 \<rparr> = Some (1, 4096)"
    by (simp add: ma_usable_size_def sim_alloc_def next_multiple_def)
  have "1 \<le> (1 :: nat) \<and> 1 \<le> (4096 :: nat) \<longleftrightarrow> 0 < (1 :: nat) \<and> round_up 4096 1 = round_up 4096 100"
    using map_usable_size_exact [OF sim_mmap_os _ u, THEN conjunct2, THEN conjunct2, THEN spec, of 1] sim_mappable(1)
    by (simp only: sim_pagesize layout.simps)
  then have "round_up 4096 1 = round_up 4096 100" by simp
  then show ?thesis using u by blast
qed

text \<open>On macOS, a reallocation to fewer pages with another alignment panics in a build with debug
  assertions, although \<open>realloc\<close> accepts every alignment of at most a page.\<close>

lemma mac_realloc_shrink_align:
  assumes "mmap_os OS mapped byte m" "mappable (os_pagesize OS) l" "mappable (os_pagesize OS) l'"
    "round_up (os_pagesize OS) (lay_size l') < round_up (os_pagesize OS) (lay_size l)" "lay_align l' \<noteq> lay_align l"
  shows "mac_realloc OS m s p l l' = None"
proof -
  have m: "ma_pagesize m = os_pagesize OS" "0 < lay_size l" "0 < lay_size l'" "lay_align l' \<le> os_pagesize OS"
    using assms(1-3) by (simp_all add: mmap_os_def mappable_def)
  then show ?thesis
    using assms(4,5) next_multiple_mappable [OF pg_pos [OF assms(1)] assms(2)] next_multiple_mappable [OF pg_pos [OF assms(1)] assms(3)]
    by (simp add: mac_realloc_def mac_shrink_in_place_def)
qed

lemma mac_realloc_shrink_align_witness:
  "mac_realloc sim_os sim_alloc sim_start 4096 \<lparr> lay_size = 5000, lay_align = 8 \<rparr> \<lparr> lay_size = 100, lay_align = 4 \<rparr> = None"
  using is_power_of_two_power [of 2] sim_mappable(2)
  by (intro mac_realloc_shrink_align [OF sim_mmap_os])
    (simp_all add: sim_pagesize mappable_def round_up_def padding_needed_for_def)

text \<open>C15.  Threads that share a \<open>GlobalAllocator\<close> never share a block.  In every interleaving of the
  swaps of any number of threads, the blocks in the two caches, in the hands of clients and in
  flight inside \<open>free\<close> are pairwise disjoint, and together they are exactly the memory mapped by
  the allocator.\<close>

theorem bs_threads_safe:
  assumes "os_contract OS mapped byte" "os_pagesize OS < 2 ^ 63" "ga_new OS = Some g"
    "(bs_step OS)\<^sup>*\<^sup>* (bs_init g s0 threads) st"
  shows "\<exists>live. blocks_at (os_pagesize OS) (mapped s0) live (mapped (bs_os st)) \<and> accounts live (bs_blocks st)
    \<and> (\<forall>p n q k. (p, n) \<in># bs_held st \<longrightarrow> (q, k) \<in># bs_held st - {#(p, n)#} \<longrightarrow> region p n \<inter> region q k = {})"
proof -
  have os: "mmap_os OS mapped byte (ga_ma (bs_g (bs_init g s0 threads)))"
    using default_mmap_os [OF assms(1)] bs_init_inv(2) [OF assms(3)] by (simp add: bs_init_def)
  have inv: "bs_inv OS mapped (mapped s0) st"
    using bs_steps_inv [OF assms(4) os assms(2) bs_init_inv(1) [OF assms(3)]] by simp
  moreover have "region p n \<inter> region q k = {}"
    if "(p, n) \<in># bs_held st" "(q, k) \<in># bs_held st - {#(p, n)#}" for p n q k
    by (rule bs_two_held(2) [OF inv pg_pos [OF os] that])
  ultimately show ?thesis by (auto simp: bs_inv_def)
qed

lemma sim_ga: "\<exists>g. ga_new sim_os = Some g"
  by (simp add: ga_new_def bc_new_def sim_alloc_default push_bit_eq_mult layout_from_size_align_def)

theorem bs_threads_safe_witness:
  "\<exists>g live. ga_new sim_os = Some g \<and> accounts live (bs_blocks (bs_init g sim_start 2))"
proof -
  obtain g where g: "ga_new sim_os = Some g" using sim_ga by blast
  have "os_pagesize sim_os < 2 ^ 63" by (simp add: sim_pagesize)
  from bs_threads_safe [OF sim_contract this g rtranclp.rtrancl_refl, of sim_start 2] g
  show ?thesis by blast
qed

text \<open>C16.  Calls of the caches are wait-free: whatever the other threads do, a thread inside \<open>alloc\<close> or
  \<open>free\<close> can always take its next step, without a panic, and each of its steps brings it closer
  to the end of the call.\<close>

theorem bs_call_ends:
  assumes "os_contract OS mapped byte" "os_pagesize OS < 2 ^ 63" "ga_new OS = Some g"
    "(bs_step OS)\<^sup>*\<^sup>* (bs_init g s0 threads) st" "bs_at st t pc" "pc \<noteq> Outside"
  shows "\<exists>st' pc'. bs_step OS st st' \<and> bs_at st' t pc' \<and> rounds pc' < rounds pc"
proof -
  have os: "mmap_os OS mapped byte (ga_ma (bs_g (bs_init g s0 threads)))"
    using default_mmap_os [OF assms(1)] bs_init_inv(2) [OF assms(3)] by (simp add: bs_init_def)
  note inv = bs_steps_inv [OF assms(4) os assms(2) bs_init_inv(1) [OF assms(3)]]
  have "mmap_os OS mapped byte (ga_ma (bs_g st))" using inv os by simp
  then show ?thesis by (rule bs_progress [OF _ assms(2) conjunct1 [OF inv] assms(5,6)])
qed

theorem bs_call_ends_witness:
  "\<exists>g st pc st' pc'. ga_new sim_os = Some g \<and> bs_step sim_os (bs_init g sim_start 2) st \<and> bs_at st 0 pc
    \<and> bs_step sim_os st st' \<and> bs_at st' 0 pc' \<and> rounds pc' < rounds pc"
proof -
  obtain g where g: "ga_new sim_os = Some g" using sim_ga by blast
  have pg: "os_pagesize sim_os < 2 ^ 63" by (simp add: sim_pagesize)
  have ok: "ga_ok g" using bs_init_inv(1) [OF g, of sim_mapped sim_start 2] by (simp add: bs_inv_def bs_init_def)
  have at: "bs_at (bs_init g sim_start 2) 0 Outside" by (simp add: bs_at_def bs_init_def)
  have w: "bs_which_for (bs_g (bs_init g sim_start 2)) 10 = Some Small_objs"
    using ok by (simp add: bs_which_for_def bs_init_def ga_ok_def)
  let ?pc = "Taking 10 0 1 (bc_patience (length (bs_array (bs_init g sim_start 2) Small_objs)))"
  let ?st = "bs_goto (bs_init g sim_start 2) 0 ?pc"
  have step: "bs_step sim_os (bs_init g sim_start 2) ?st"
    using bs_step.alloc_begin [OF at w, of 0 0 sim_os] by simp
  have at': "bs_at ?st 0 ?pc" using at by simp
  from bs_call_ends [OF sim_contract pg g r_into_rtranclp [of "bs_step sim_os", OF step] at'] g step at'
  show ?thesis by blast
qed

text \<open>C17.  A caller of \<open>GlobalAllocator::alloc\<close> that is not interrupted does what its steps do: the
  result of the function is reached by steps of one thread, so every guarantee about steps holds
  for it.\<close>

theorem bs_alloc_refines_steps:
  assumes "bs_at st t Outside" "ga_ok (bs_g st)" "0 < os_pagesize OS" "bs_request OS (bs_g st) (lay_size l)"
    "bs_alloc OS start (bs_g st) (bs_os st) l = Some (g', s', r)"
  shows "(bs_step OS)\<^sup>*\<^sup>* st (ga_result st g' s' (lay_size l) r)"
  using ga_alloc_run [OF assms(1-4)] assms(5) by (simp add: bs_alloc_def)

theorem bs_alloc_refines_steps_witness:
  "\<exists>g g' s' r. ga_new sim_os = Some g \<and> bs_alloc sim_os 5 g sim_start \<lparr> lay_size = 10, lay_align = 1 \<rparr> = Some (g', s', r)
    \<and> (bs_step sim_os)\<^sup>*\<^sup>* (bs_init g sim_start 1) (ga_result (bs_init g sim_start 1) g' s' 10 r)"
proof -
  let ?l = "\<lparr> lay_size = 10, lay_align = 1 \<rparr>"
  obtain g where g: "ga_new sim_os = Some g" using sim_ga by blast
  have inv: "bs_inv sim_os sim_mapped (sim_mapped sim_start) (bs_init g sim_start 1)" by (rule bs_init_inv(1) [OF g])
  have os: "mmap_os sim_os sim_mapped sim_byte (ga_ma (bs_g (bs_init g sim_start 1)))"
    using sim_mmap_os bs_init_inv(2) [OF g] by (simp add: bs_init_def sim_alloc_default)
  have ok: "ga_ok g" using inv by (simp add: bs_inv_def bs_init_def)
  have req: "bs_request sim_os (bs_g (bs_init g sim_start 1)) 10"
    by (simp add: bs_request_def sim_pagesize)
  have pg: "os_pagesize sim_os < 2 ^ 63" "0 < os_pagesize sim_os" by (simp_all add: sim_pagesize)
  have at: "bs_at (bs_init g sim_start 1) 0 Outside" by (simp add: bs_at_def bs_init_def)
  obtain g' s' r where al: "bs_alloc sim_os 5 g sim_start ?l = Some (g', s', r)"
    using ga_alloc_total [OF os pg(1) inv req, of 5] by (auto simp: bs_alloc_def bs_init_def)
  from bs_alloc_refines_steps [OF at _ pg(2), of ?l 5 g' s' r] al ok req g
  show ?thesis by (auto simp: bs_init_def)
qed

text \<open>C18.  \<open>realloc\<close> moves the contents: where the new block is available, it does not panic, the new
  block starts with the contents of the old one, and the old one is released.\<close>

theorem bs_realloc_moves_contents:
  assumes "os_contract OS mapped byte" "copy_contract OS mapped byte" "os_pagesize OS < 2 ^ 63" "ga_new OS = Some g"
    "(bs_step OS)\<^sup>*\<^sup>* (bs_init g s0 threads) st" "bs_at st t Outside"
    "(p, lay_size old_l) \<in># bs_held st" "0 < lay_size old_l" "0 < lay_size new_l" "bs_request OS (bs_g st) (lay_size new_l)"
    "bs_alloc OS start (bs_g st) (bs_os st) new_l = Some (g1, s1, Inr q)"
  shows "\<exists>g' s'. bs_realloc OS start start' (bs_g st) (bs_os st) p old_l new_l = Some (g', s', q)
    \<and> bs_inv OS mapped (mapped s0) (st\<lparr> bs_g := g', bs_os := s',
        bs_held := add_mset (q, lay_size new_l) (bs_held st - {#(p, lay_size old_l)#}) \<rparr>)
    \<and> (\<forall>i < min (lay_size old_l) (lay_size new_l). byte s' (unat q + i) = byte (bs_os st) (unat p + i))"
proof -
  have os: "mmap_os OS mapped byte (ga_ma (bs_g (bs_init g s0 threads)))"
    using default_mmap_os [OF assms(1)] bs_init_inv(2) [OF assms(4)] by (simp add: bs_init_def)
  note inv = bs_steps_inv [OF assms(5) os assms(3) bs_init_inv(1) [OF assms(4)]]
  have "mmap_os OS mapped byte (ga_ma (bs_g st))" using inv os by simp
  then show ?thesis
    using bs_realloc_ok [OF _ assms(3,2) conjunct1 [OF inv] assms(6,7,10,8,9), of start g1 s1 q start'] assms(11)
    by (simp add: bs_alloc_def)
qed

lemma sim_bs_alloc:
  assumes "ga_ok (bs_g st)" "ga_ma (bs_g st) = sim_alloc" "sim_next (bs_os st) < 2 ^ 20"
  shows "\<exists>g' s' p. ga_alloc sim_os start (bs_g st) (bs_os st) 10 = Some (g', s', Inr p) \<and> sim_next s' \<le> sim_next (bs_os st) + 9216"
proof -
  let ?ca = "ga_small_objs (bs_g st)"
  have l: "bc_layout ?ca = \<lparr> lay_size = 1024, lay_align = 1 \<rparr>" "bc_object_size ?ca = 1024" using assms(1) by (simp_all add: ga_ok_def)
  have m: "mappable 4096 \<lparr> lay_size = 1024, lay_align = 1 \<rparr>" by (simp add: mappable_def)
  obtain s1 p1 where "ma_alloc sim_os sim_alloc (bs_os st) (bc_layout ?ca) = Some (s1, Inr p1)" "sim_next s1 \<le> sim_next (bs_os st) + 9216"
    using sim_ma_alloc [OF m, of "bs_os st"] assms(3) by (auto simp: l)
  then have "\<exists>ca s' p. bc_alloc sim_os sim_alloc start ?ca (bs_os st) = Some (ca, s', Inr p) \<and> sim_next s' \<le> sim_next (bs_os st) + 9216"
    using assms(3) by (auto simp: bc_alloc_def Let_def split: prod.split option.split)
  then show ?thesis using l assms(2) by (auto simp: ga_alloc_def)
qed

theorem bs_realloc_moves_contents_witness:
  "\<exists>g1 s1 p g2 s2 q. bs_realloc sim_os 0 0 g1 s1 p \<lparr> lay_size = 10, lay_align = 1 \<rparr> \<lparr> lay_size = 10, lay_align = 1 \<rparr> = Some (g2, s2, q)
    \<and> sim_byte s2 (unat q + 9) = sim_byte s1 (unat p + 9)"
proof -
  let ?l = "\<lparr> lay_size = 10, lay_align = 1 \<rparr>"
  obtain g where g: "ga_new sim_os = Some g" using sim_ga by blast
  let ?st0 = "bs_init g sim_start 1"
  have inv: "bs_inv sim_os sim_mapped (sim_mapped sim_start) ?st0" by (rule bs_init_inv(1) [OF g])
  have ma: "ga_ma (bs_g ?st0) = sim_alloc" using bs_init_inv(2) [OF g] by (simp add: bs_init_def sim_alloc_default)
  have os: "mmap_os sim_os sim_mapped sim_byte (ga_ma (bs_g ?st0))" unfolding ma by (rule sim_mmap_os)
  have pg: "os_pagesize sim_os < 2 ^ 63" "0 < os_pagesize sim_os" by (simp_all add: sim_pagesize)
  have req: "bs_request sim_os g' 10" for g' by (simp add: bs_request_def sim_pagesize)
  have ok: "ga_ok (bs_g ?st0)" using inv by (simp add: bs_inv_def)
  have small: "sim_next (bs_os ?st0) < 2 ^ 20" by (simp add: bs_init_def sim_start_def)
  obtain g1 s1 p where a1: "ga_alloc sim_os 0 (bs_g ?st0) (bs_os ?st0) 10 = Some (g1, s1, Inr p)"
    and s1: "sim_next s1 \<le> sim_next (bs_os ?st0) + 9216"
    using sim_bs_alloc [OF ok ma, of 0] small by blast
  let ?st1 = "ga_result ?st0 g1 s1 10 (Inr p)"
  have at: "bs_at ?st1 0 Outside" by (simp add: bs_at_def ga_result_def bs_init_def)
  have run: "(bs_step sim_os)\<^sup>*\<^sup>* ?st0 ?st1"
    by (rule ga_alloc_run [OF _ ok pg(2) req a1, of 0]) (simp add: bs_at_def bs_init_def)
  note inv1 = bs_steps_inv [OF run os pg(1) inv]
  have ok1: "ga_ok (bs_g ?st1)" using inv1 by (simp add: bs_inv_def)
  obtain g2 s2 q where "ga_alloc sim_os 0 (bs_g ?st1) (bs_os ?st1) 10 = Some (g2, s2, Inr q)"
    using sim_bs_alloc [OF ok1, of 0] inv1 ma s1 by (auto simp: ga_result_def bs_init_def sim_start_def)
  then have a2: "bs_alloc sim_os 0 (bs_g ?st1) (bs_os ?st1) ?l = Some (g2, s2, Inr q)" by (simp add: bs_alloc_def)
  have held: "(p, lay_size ?l) \<in># bs_held ?st1" by (simp add: ga_result_def)
  have pos: "0 < lay_size ?l" and rq: "bs_request sim_os (bs_g ?st1) (lay_size ?l)" using req by simp_all
  from bs_realloc_moves_contents [OF sim_contract sim_copy_contract pg(1) g run at held pos pos rq a2, of 0]
  obtain g' s' where "bs_realloc sim_os 0 0 (bs_g ?st1) (bs_os ?st1) p ?l ?l = Some (g', s', q)"
      "\<forall>i < 10. sim_byte s' (unat q + i) = sim_byte (bs_os ?st1) (unat p + i)"
    by auto
  moreover from this(2) have "sim_byte s' (unat q + 9) = sim_byte (bs_os ?st1) (unat p + 9)" by simp
  ultimately show ?thesis by blast
qed

section \<open>The C allocation functions\<close>



text \<open>C20.  \<open>calloc\<close> returns zeroed memory of the requested size: a pointer it returns is a new block, aligned
  to \<open>MIN_ALIGN\<close>, of at least \<open>nmemb * size\<close> bytes, all zero; otherwise it returns null, with
  \<open>errno\<close> set unless nothing was requested, and no block changes.\<close>

theorem calloc_zeroed:
  assumes "malloc_contract M V" "malloc_inv V s" "unat nmemb * unat n < 2 ^ 64" "request_ok V (nmemb * n) (min_align T)"
  shows "\<exists>s' p. c_calloc T dbg M s nmemb n = Some (s', p) \<and>
    (if T = Linux \<and> (nmemb = 0 \<or> n = 0) then s' = s \<and> p = null
     else \<exists>l. c_got V s s' p l \<and> lay_align l = unat (min_align T) \<and> unat nmemb * unat n \<le> lay_size l
       \<and> (p \<noteq> null \<longrightarrow> (\<forall>i < lay_size l. mv_byte V (cs_self s') (unat p + i) = 0)))"
proof (cases "T = Linux \<and> (nmemb = 0 \<or> n = 0)")
  case False
  have prod: "unat (nmemb * n) = unat nmemb * unat n" using assms(3) by (simp add: unat_word_ariths)
  obtain sz l where l: "roundup dbg (nmemb * n) (min_align T) = Some sz" "c_layout dbg sz (min_align T) = Some l" "served V l"
      "lay_align l = unat (min_align T)" "unat (nmemb * n) \<le> lay_size l"
    using request_layout [OF assms(4)] by blast
  obtain s' p where st: "c_store M s l (mo_alloc_zeroed M (cs_self s) l) = Some (s', p)" "c_got V s s' p l"
    using c_store_ok [OF assms(1) contract_zeroed [OF assms(1)] assms(2) l(3)] by blast
  have call: "c_calloc T dbg M s nmemb n = Some (s', p)"
    using False assms(3) st(1) by (auto simp: c_calloc_def checked_mul_def l(1,2))
  have "mv_byte V (cs_self s') (unat p + i) = 0" if pn: "p \<noteq> null" and il: "i < lay_size l" for i
  proof -
    obtain a where a: "mo_alloc_zeroed M (cs_self s) l = (a, Inr p)" "mv_byte V (cs_self s') = mv_byte V a"
      using c_store_bytes [OF assms(1) contract_zeroed [OF assms(1)] assms(2) l(3) st(1) pn] by blast
    then show ?thesis
      using assms(1) malloc_invD(1) [OF assms(2)] l(3) il unfolding malloc_contract_def zero_law_def by metis
  qed
  then show ?thesis using False call st(2) l(4,5) prod by (intro exI [of _ s'] exI [of _ p]) auto
qed (simp add: c_calloc_def)

theorem calloc_zeroed_witness:
  "\<exists>s p l. c_calloc Linux True sm_ops sm_start 10 10 = Some (s, p) \<and> c_got sm_view sm_start s p l \<and> 100 \<le> lay_size l"
proof -
  have r: "request_ok sm_view (10 * 10) (min_align Linux)" using sm_request(1) by (simp add: min_align_def)
  have lt: "unat (10 :: usize) * unat (10 :: usize) < 2 ^ 64" by simp
  from calloc_zeroed [OF sm_contract sm_start_inv lt r, of True] show ?thesis by fastforce
qed

text \<open>C21.  \<open>realloc\<close> keeps the contents and, on failure, the block.  But when the block moves, the layout
  of the old pointer stays in a finder that is a map: the code deletes the entry of the new pointer
  instead, because the result shadows the argument.  The state is then no longer good: the old
  address is free, and the finder still has it as inserted.\<close>

theorem realloc_keeps_stale_layout:
  assumes "malloc_contract M V" "map_finder M V" "malloc_inv V s" "p \<noteq> null" "mv_own V (cs_self s) p = Some l"
    "request_ok V n (min_align T)" "n \<noteq> 0" "c_realloc T dbg M s p n = Some (s', q)"
  shows "if q = null then mv_own V (cs_self s') = mv_own V (cs_self s) \<and> cs_errno s' = Some ENOMEM
    else (\<forall>i. i < lay_size l \<longrightarrow> i < unat n \<longrightarrow> mv_byte V (cs_self s') (unat q + i) = mv_byte V (cs_self s) (unat p + i))
      \<and> (q \<noteq> p \<longrightarrow> mv_own V (cs_self s') p = None \<and> mv_find V (cs_self s') p = Some l \<and> \<not> malloc_inv V s')"
proof -
  have n: "\<not> ((T = Linux \<or> T = Windows) \<and> n = 0)" using assms(7) by simp
  from c_realloc_ok [OF assms(1,3-6) n, of dbg]
  show ?thesis
  proof (elim disjE exE conjE)
    fix s1 q1 l' assume m: "c_realloc T dbg M s p n = Some (s1, q1)" "c_realloced M V s p n s1 q1 l'"
    then have r: "c_realloced M V s p n s' q l'" using assms(8) by simp
    then have mv: "c_moved V s s' p q l'" "q \<noteq> null" "unat n \<le> lay_size l'" using assms(2) by (simp_all add: c_realloced_def)
    have "mv_find V (cs_self s') p = Some l \<and> \<not> malloc_inv V s'" if "q \<noteq> p"
    proof -
      have f: "mv_find V (cs_self s') p = Some l" "mv_inv V (cs_self s')"
        using r that assms(2) malloc_invD(2) [OF assms(3,5)] by (simp_all add: c_realloced_def)
      have "mv_own V (cs_self s') p = None" using mv(1) that by (simp add: c_moved_def)
      moreover have "\<not> mv_insertable V (cs_self s') p" using assms(2) f by (simp add: map_finder_def)
      ultimately show ?thesis using f(1) malloc_invD(3) by blast
    qed
    then show ?thesis using mv assms(5) by (auto simp: c_moved_def)
  next
    fix s1 assume "c_realloc T dbg M s p n = Some (s1, null)" "same_blocks V (cs_self s) (cs_self s1)" "cs_errno s1 = Some ENOMEM"
    then show ?thesis using assms(8) by (auto simp: same_blocks_def)
  qed
qed

theorem realloc_keeps_stale_layout_witness:
  "\<exists>s p s' q l. c_malloc Linux True sm_ops sm_start 100 = Some (s, p) \<and> c_realloc Linux True sm_ops s p 5000 = Some (s', q)
    \<and> q \<noteq> p \<and> mv_own sm_view (cs_self s') p = None \<and> mv_find sm_view (cs_self s') p = Some l
    \<and> \<not> malloc_inv sm_view s'"
proof -
  define s where "s = fst (the (c_malloc Linux True sm_ops sm_start 100))"
  have m: "c_malloc Linux True sm_ops sm_start 100 = Some (s, 4096)" "mv_own sm_view (cs_self s) 4096 = Some \<lparr> lay_size = 104, lay_align = 8 \<rparr>"
      "bp_next (sm_bump (cs_self s)) = 4200" "sm_find (cs_self s) 4096 = Some \<lparr> lay_size = 104, lay_align = 8 \<rparr>"
    using is_power_of_two_power [of 3]
    by (simp_all add: s_def c_malloc_def roundup_def checked_rem_def checked_add_def min_align_def c_layout_def layout_from_size_align_def
        c_store_def sm_ops_def sm_start_def sm_alloc_def bump_alloc_def bump_start_def padding_needed_for_def sm_view_def Let_def)
  have inv: "malloc_inv sm_view s"
    using c_malloc_ok [OF sm_contract sm_start_inv, of 100 Linux True] sm_request(1) m(1) by (auto simp: min_align_def c_got_def)
  have req: "request_ok sm_view 5000 (min_align Linux)" using sm_request(2) by (simp add: min_align_def)
  have "\<exists>s'. c_realloc Linux True sm_ops s 4096 5000 = Some (s', 4200)"
    using is_power_of_two_power [of 3]
    by (simp add: c_realloc_def roundup_def checked_rem_def checked_add_def min_align_def c_layout_def layout_from_size_align_def
        sm_ops_def sm_realloc_def bump_alloc_def padding_needed_for_def m(3,4) Let_def)
  then obtain s' where re: "c_realloc Linux True sm_ops s 4096 5000 = Some (s', 4200)" by blast
  from realloc_keeps_stale_layout [OF sm_contract sm_map_finder inv _ m(2) req _ re] m(1) re show ?thesis by auto
qed

text \<open>In a release build, \<open>calloc\<close> of a product that wraps to zero returns a block of the minimum
  size, although far more was requested.\<close>

lemma calloc_overflow_min_block:
  assumes "nmemb \<noteq> 0" "n \<noteq> 0" "nmemb * n = 0"
  shows "unat nmemb * unat n \<ge> 2 ^ 64 \<and> c_calloc T False M s nmemb n =
    (let l = \<lparr> lay_size = unat (min_align T), lay_align = unat (min_align T) \<rparr> in c_store M s l (mo_alloc_zeroed M (cs_self s) l))"
proof -
  have "\<not> unat nmemb * unat n < 2 ^ 64"
  proof
    assume "unat nmemb * unat n < 2 ^ 64"
    then have "unat (nmemb * n) = unat nmemb * unat n" by (simp add: unat_word_ariths)
    then show False using assms by (simp add: unat_eq_zero)
  qed
  then show ?thesis
    using assms by (simp add: c_calloc_def checked_mul_def roundup_def c_layout_def Let_def)
qed

lemma calloc_overflow_min_block_witness:
  "c_calloc Linux False sm_ops sm_start (2 ^ 32) (2 ^ 32)
    = c_store sm_ops sm_start \<lparr> lay_size = 8, lay_align = 8 \<rparr>
        (mo_alloc_zeroed sm_ops (cs_self sm_start) \<lparr> lay_size = 8, lay_align = 8 \<rparr>)"
  using calloc_overflow_min_block [of "2 ^ 32" "2 ^ 32" Linux sm_ops sm_start] by (simp add: min_align_def Let_def)

text \<open>\<open>malloc\<close> of a size that cannot be rounded up panics in a debug build, and asks for a block of no
  bytes in a release build.\<close>

lemma malloc_overflow:
  assumes "unat n > 2 ^ 64 - unat (min_align T)"
  shows "c_malloc T True M s n = None \<and> c_malloc T False M s n =
    (let l = \<lparr> lay_size = 0, lay_align = unat (min_align T) \<rparr> in c_store M s l (mo_alloc M (cs_self s) l))"
proof -
  define m where "m = unat (min_align T)"
  have mT: "m = 8 \<or> m = 16" "min_align T \<noteq> 0" by (cases T; simp add: m_def min_align_def)+
  then obtain j where j: "(2 :: nat) ^ 64 = m * j" by (elim disjE) (auto intro: that [of "2 ^ 61"] that [of "2 ^ 60"])
  define r where "r = unat n mod m"
  have lt: "unat n < 2 ^ 64" by simp
  have big: "2 ^ 64 - m < unat n" using assms by (simp add: m_def)
  have r: "r = unat n - (2 ^ 64 - m)"
  proof -
    have "unat n = m * (j - 1) + (unat n - (2 ^ 64 - m))" using big j by (cases j) (auto simp: algebra_simps)
    moreover have "unat n - (2 ^ 64 - m) < m" using lt big mT by linarith
    ultimately show ?thesis unfolding r_def by (metis mod_less mod_mult_self4)
  qed
  have rp: "0 < r" using r big by simp
  have rem: "unat (n mod min_align T) = r" by (simp add: unat_mod_64 r_def m_def)
  have n1: "n mod min_align T \<noteq> 0"
  proof
    assume "n mod min_align T = 0"
    then show False using rem rp by simp
  qed
  then have n0: "n \<noteq> 0" by auto
  have over: "unat n + unat (min_align T) \<ge> 2 ^ 64" using big by (simp add: m_def)
  have "unat (n + min_align T) = unat n + m - 2 ^ 64"
  proof -
    have "unat (n + min_align T) = (unat n + m) mod 2 ^ 64" by (simp add: unat_word_ariths m_def)
    also have "\<dots> = (unat n + m - 2 ^ 64) mod 2 ^ 64" by (rule le_mod_geq) (use over in \<open>simp add: m_def\<close>)
    also have "\<dots> = unat n + m - 2 ^ 64"
    proof (rule mod_less)
      have "m \<le> 2 ^ 64" using mT(1) by auto
      then have "unat n + m - 2 ^ 64 \<le> unat n" by simp
      then show "unat n + m - 2 ^ 64 < 2 ^ 64" using lt by (rule le_less_trans)
    qed
    finally show ?thesis .
  qed
  also have "\<dots> = r" using r big mT by (elim disjE) simp_all
  finally have "n + min_align T = n mod min_align T" using rem by (metis word_unat_eq_iff)
  then have z: "n + min_align T - n mod min_align T = 0" by simp
  show ?thesis
    using n0 n1 over mT z by (simp add: c_malloc_def roundup_def checked_rem_def checked_add_def c_layout_def Let_def)
qed

lemma malloc_overflow_witness: "c_malloc Linux True sm_ops sm_start 18446744073709551615 = None"
  using malloc_overflow [of Linux 18446744073709551615 sm_ops sm_start] by (simp add: min_align_def)

end
